(* ===== verification/Machine.thy ===== *)
theory Machine
  imports Complex_Main "HOL-Library.Word" "HOL-Library.Monad_Syntax"
begin

text \<open>
  The prelude of the development.

  The program is 64-bit C++17: \<open>std::size_t\<close>, \<open>uint64_t\<close> and every pointer are 64-bit words
  with wrap-around arithmetic, \<open>nullptr\<close> is the word 0.  Memory is byte addressed
  (\<open>u64 \<Rightarrow> u8\<close>); a \<open>uint64_t\<close> or pointer field is accessed by \<open>load64\<close> and \<open>store64\<close>, eight bytes,
  little endian, at any address (the freelist nodes of \<open>LogicalPageAnySize\<close> are packed and may be
  unaligned, so overlapping accesses matter).

  Shared here: the named collections of the development, the arithmetic of words that do not wrap,
  the memory laws, address regions, and paths through linked nodes.
\<close>

unbundle bit_operations_syntax

type_synonym u8 = "8 word"
type_synonym u16 = "16 word"
type_synonym u32 = "32 word"
type_synonym u64 = "64 word"
type_synonym mem = "u64 \<Rightarrow> u8"

named_theorems nowrap \<open>unsigned values of word operations that do not wrap around\<close>
named_theorems memory \<open>loads from updated memory\<close>
named_theorems paths \<open>paths through linked nodes\<close>

subsection \<open>Words that do not wrap\<close>

lemma unat_add_nowrap [nowrap]:
  "unat a + unat b < 2 ^ 64 \<Longrightarrow> unat (a + b :: u64) = unat a + unat b"
  using unat_add_lem [of a b] by simp

lemma unat_mult_nowrap [nowrap]:
  "unat a * unat b < 2 ^ 64 \<Longrightarrow> unat (a * b :: u64) = unat a * unat b"
  using unat_mult_lem [of a b] by simp

lemma unat_sub_nowrap [nowrap]:
  "unat b \<le> unat a \<Longrightarrow> unat (a - b :: u64) = unat a - unat b"
  by (simp add: unat_sub word_le_nat_alt)

lemma unat_of_nat_nowrap [nowrap]:
  "n < 2 ^ 64 \<Longrightarrow> unat (of_nat n :: u64) = n"
  by (simp add: unat_of_nat take_bit_nat_eq_self)

lemma unat_lt_2_64: "unat (a :: u64) < 2 ^ 64"
  using unsigned_less [of a] by simp

lemma unat_u32_lt: "unat (a :: u32) < 2 ^ 32"
  using unsigned_less [of a] by simp

lemma unat_ucast_u32 [simp]: "unat (ucast (a :: u32) :: u64) = unat a"
proof -
  have "unat a < 2 ^ 32" by (rule unat_u32_lt)
  then show ?thesis by (simp add: unsigned_ucast_eq take_bit_nat_eq_self)
qed

lemma unat_eq_iff_u64: "(a :: u64) = b \<longleftrightarrow> unat a = unat b"
  by (rule word_unat_eq_iff)

lemma unat_neq_0_iff: "0 < unat (a :: u64) \<longleftrightarrow> a \<noteq> 0"
  by (simp add: unat_gt_0)

lemma unat_add_le: "unat (a + b :: u64) \<le> unat a + unat b"
  by (simp add: unat_word_ariths)

subsection \<open>Byte-addressed memory\<close>

definition store64 :: "mem \<Rightarrow> u64 \<Rightarrow> u64 \<Rightarrow> mem" where
  "store64 m a v x = (if x - a < 8 then ucast (drop_bit (8 * unat (x - a)) v) else m x)"

definition load64 :: "mem \<Rightarrow> u64 \<Rightarrow> u64" where
  "load64 m a = foldr (\<lambda>i acc. ucast (m (a + of_nat i)) OR push_bit 8 acc) [0..<8] 0"

text \<open>Both accesses by word arithmetic alone, for evaluation.\<close>

lemma store64_code [code]:
  "store64 m a v x =
     (let d = x - a in
      if d = 0 then ucast v else if d = 1 then ucast (v div 0x100) else if d = 2 then ucast (v div 0x10000)
      else if d = 3 then ucast (v div 0x1000000) else if d = 4 then ucast (v div 0x100000000)
      else if d = 5 then ucast (v div 0x10000000000) else if d = 6 then ucast (v div 0x1000000000000)
      else if d = 7 then ucast (v div 0x100000000000000) else m x)"
proof -
  have "d < 8 \<longleftrightarrow> d = 0 \<or> d = 1 \<or> d = 2 \<or> d = 3 \<or> d = 4 \<or> d = 5 \<or> d = 6 \<or> d = 7" for d :: u64
    unfolding word_less_nat_alt word_unat_eq_iff by (simp, linarith)
  then show ?thesis by (auto simp: store64_def Let_def drop_bit_eq_div)
qed

lemma byte_plus: "ucast (b :: u8) OR push_bit 8 (x :: u64) = ucast b + 0x100 * x"
proof -
  have "ucast b OR push_bit 8 x = ucast b + push_bit 8 x"
    by (rule disjunctive_add [symmetric]) (auto simp: bit_simps dest: bit_imp_le_length)
  then show ?thesis by (simp add: push_bit_eq_mult mult.commute)
qed

lemma load64_code [code]:
  "load64 m a = ucast (m a) + 0x100 * (ucast (m (a + 1)) + 0x100 * (ucast (m (a + 2)) + 0x100 * (ucast (m (a + 3))
     + 0x100 * (ucast (m (a + 4)) + 0x100 * (ucast (m (a + 5)) + 0x100 * (ucast (m (a + 6)) + 0x100 * ucast (m (a + 7))))))))"
proof -
  have upt: "[0..<8] = [0, 1, 2, 3, 4, 5, 6, 7 :: nat]" by (simp add: upt_rec)
  show ?thesis unfolding load64_def upt by (simp add: byte_plus [symmetric] del: push_bit_eq_mult)
qed

lemma byte_of_drop_bit:
  "ucast (ucast (drop_bit n v) :: u8) OR push_bit 8 (drop_bit (n + 8) v) = drop_bit n (v :: u64)"
proof (rule bit_word_eqI)
  fix k :: nat
  assume "k < LENGTH(64)"
  show "bit (ucast (ucast (drop_bit n v) :: u8) OR push_bit 8 (drop_bit (n + 8) v)) k
        \<longleftrightarrow> bit (drop_bit n v) k"
    using \<open>k < LENGTH(64)\<close> by (cases "k < 8") (auto simp: bit_simps)
qed

lemma load64_store64_same [simp, memory]: "load64 (store64 m a v) a = v"
proof -
  have upt: "[0..<8] = [0, 1, 2, 3, 4, 5, 6, 7 :: nat]"
    by (simp add: upt_rec)
  have "drop_bit 64 v = 0"
    by (rule bit_word_eqI) (auto simp: bit_simps dest: bit_imp_le_length)
  then show ?thesis
    unfolding load64_def upt store64_def
    using byte_of_drop_bit [of 0 v] byte_of_drop_bit [of 8 v] byte_of_drop_bit [of 16 v]
      byte_of_drop_bit [of 24 v] byte_of_drop_bit [of 32 v] byte_of_drop_bit [of 40 v]
      byte_of_drop_bit [of 48 v] byte_of_drop_bit [of 56 v]
    by simp
qed

lemma load64_cong:
  assumes "\<And>i. i < 8 \<Longrightarrow> m (a + of_nat i) = m' (a + of_nat i)"
  shows "load64 m a = load64 m' a"
  unfolding load64_def using assms by (intro foldr_cong) auto

subsection \<open>Regions of addresses\<close>

text \<open>A region is a half-open interval of unsigned addresses.\<close>

definition region :: "u64 \<Rightarrow> nat \<Rightarrow> nat set" where
  "region a n = {unat a ..< unat a + n}"

lemma in_region_iff [simp, code_unfold]: "x \<in> region a n \<longleftrightarrow> unat a \<le> x \<and> x < unat a + n"
  by (simp add: region_def)

lemma region_disjoint_iff:
  "0 < n \<Longrightarrow> 0 < k \<Longrightarrow>
   region a n \<inter> region b k = {} \<longleftrightarrow> unat a + n \<le> unat b \<or> unat b + k \<le> unat a"
proof
  assume d: "0 < n" "0 < k" "region a n \<inter> region b k = {}"
  have "max (unat a) (unat b) \<notin> region a n \<inter> region b k" using d(3) by simp
  then show "unat a + n \<le> unat b \<or> unat b + k \<le> unat a" using d(1,2) by (auto simp: max_def split: if_splits)
qed (auto simp: region_def)

lemma store64_outside [memory]:
  assumes "unat a + 8 \<le> 2 ^ 64" "unat x \<notin> region a 8"
  shows "store64 m a v x = m x"
proof -
  have "\<not> x - a < 8"
    using assms
    by (auto simp: word_less_nat_alt unat_sub_if' split: if_splits)
  then show ?thesis by (simp add: store64_def)
qed

lemma load64_region_cong:
  assumes "unat a + 8 \<le> 2 ^ 64" "\<And>x. unat x \<in> region a 8 \<Longrightarrow> m x = m' x"
  shows "load64 m a = load64 m' a"
proof (rule load64_cong)
  fix i :: nat
  assume "i < 8"
  then have "unat (a + of_nat i) = unat a + i"
    using assms(1) by (simp add: unat_add_nowrap unat_of_nat_nowrap)
  then show "m (a + of_nat i) = m' (a + of_nat i)"
    using \<open>i < 8\<close> by (intro assms(2)) simp
qed

lemma load64_store64_other [memory]:
  assumes "unat a + 8 \<le> 2 ^ 64" "unat b + 8 \<le> 2 ^ 64"
    "unat a + 8 \<le> unat b \<or> unat b + 8 \<le> unat a"
  shows "load64 (store64 m a v) b = load64 m b"
  using assms by (intro load64_region_cong store64_outside) auto

subsection \<open>Paths through linked nodes\<close>

text \<open>
  \<open>path nxt p xs q\<close>: following the successor function \<open>nxt\<close> from \<open>p\<close> visits exactly the non-null
  nodes \<open>xs\<close> and ends at \<open>q\<close>.  With \<open>q = 0\<close> it is a null-terminated list; the same predicate is used
  for the freelists inside pages (successor read from memory) and for the page list of a segment
  (successor read from the page headers).
\<close>

fun path :: "(u64 \<Rightarrow> u64) \<Rightarrow> u64 \<Rightarrow> u64 list \<Rightarrow> u64 \<Rightarrow> bool" where
  "path nxt p [] q \<longleftrightarrow> p = q"
| "path nxt p (x # xs) q \<longleftrightarrow> p = x \<and> x \<noteq> 0 \<and> path nxt (nxt x) xs q"

abbreviation chain :: "(u64 \<Rightarrow> u64) \<Rightarrow> u64 \<Rightarrow> u64 list \<Rightarrow> bool" where
  "chain nxt p xs \<equiv> path nxt p xs 0"

lemma path_append [paths]:
  "path nxt p (xs @ ys) q \<longleftrightarrow> (\<exists>r. path nxt p xs r \<and> path nxt r ys q)"
  by (induction xs arbitrary: p) auto

lemma path_cong:
  "(\<And>x. x \<in> set xs \<Longrightarrow> nxt x = nxt' x) \<Longrightarrow> path nxt p xs q \<longleftrightarrow> path nxt' p xs q"
  by (induction xs arbitrary: p) auto

lemma path_congI:
  "path nxt p xs q \<Longrightarrow> (\<And>x. x \<in> set xs \<Longrightarrow> nxt' x = nxt x) \<Longrightarrow> path nxt' p xs q"
  by (induction xs arbitrary: p) auto

lemma path_upd [paths]:
  "a \<notin> set xs \<Longrightarrow> path (nxt(a := v)) p xs q \<longleftrightarrow> path nxt p xs q"
  by (rule path_cong) auto

lemma path_nonzero: "path nxt p xs q \<Longrightarrow> 0 \<notin> set xs"
  by (induction xs arbitrary: p) auto

lemma chain_0 [simp]: "chain nxt 0 xs \<longleftrightarrow> xs = []"
  by (cases xs) auto

lemma chain_nonzero_Cons:
  assumes "chain nxt p xs" "p \<noteq> 0"
  obtains ys where "xs = p # ys" "chain nxt (nxt p) ys"
  using assms by (cases xs) auto

lemma chain_unique: "chain nxt p xs \<Longrightarrow> chain nxt p ys \<Longrightarrow> xs = ys"
proof (induction xs arbitrary: p ys)
  case (Cons x xs)
  then show ?case by (cases ys) auto
qed simp

lemma chain_distinct: "chain nxt p xs \<Longrightarrow> distinct xs"
proof (induction xs arbitrary: p)
  case (Cons x xs)
  have "x \<notin> set xs"
  proof
    assume "x \<in> set xs"
    then obtain us vs where xs: "xs = us @ x # vs" by (auto dest: split_list)
    with Cons.prems have "chain nxt (nxt x) vs" "chain nxt (nxt x) (us @ x # vs)"
      by (auto simp: paths)
    then have "vs = us @ x # vs" by (rule chain_unique)
    then have "length vs = length (us @ x # vs)" by simp
    then show False by simp
  qed
  with Cons show ?case by auto
qed simp

lemma path_insert_after:
  assumes "path nxt p (us @ a # zs) q" "distinct (us @ a # zs)" "b \<notin> set (us @ a # zs)" "b \<noteq> 0"
  shows "path (nxt(b := nxt a, a := b)) p (us @ a # b # zs) q"
  using assms by (auto simp: paths)

lemma path_remove_after:
  assumes "path nxt p (us @ a # d # zs) q" "distinct (us @ a # d # zs)"
  shows "path (nxt(a := nxt d)) p (us @ a # zs) q"
  using assms by (auto simp: paths)

end
