(* ===== verification/Utilities.thy ===== *)
theory Utilities
  imports Machine
begin

text \<open>
  The arithmetic helpers of \<open>include/utilities\<close>: alignment checks, powers of two, modulo,
  multiples, base-2 logarithms and the size-to-bin and size-to-page-count computations, on 64-bit
  words as the source has them.
\<close>

text \<open>\<open>VirtualMemory::PAGE_ALLOCATION_GRANULARITY\<close> of the Linux build.\<close>

definition PAGE_ALLOCATION_GRANULARITY :: u64 where
  "PAGE_ALLOCATION_GRANULARITY = 4096"

subsection \<open>Definitions\<close>

definition is_address_aligned :: "u64 \<Rightarrow> u64 \<Rightarrow> bool" where
  "is_address_aligned address alignment =
     (let alignment_mask = alignment - 1; address_value = address
      in (address_value AND alignment_mask) = 0)"

definition is_address_page_allocation_granularity_aligned :: "u64 \<Rightarrow> bool" where
  "is_address_page_allocation_granularity_aligned address =
     is_address_aligned address PAGE_ALLOCATION_GRANULARITY"

text \<open>\<open>1 << N\<close> shifts a 32-bit \<open>int\<close>, whose value is then converted to \<open>size_t\<close>.\<close>

definition compile_time_pow2 :: "nat \<Rightarrow> u64" where
  "compile_time_pow2 N = scast (push_bit N (1 :: u32))"

definition get_first_pow2_of :: "u64 \<Rightarrow> u64" where
  "get_first_pow2_of input =
     (if input \<le> 1 then 1
      else let input = input - 1;
               input = input OR drop_bit 1 input;
               input = input OR drop_bit 2 input;
               input = input OR drop_bit 4 input;
               input = input OR drop_bit 8 input;
               input = input OR drop_bit 16 input
           in input + 1)"

definition is_power_of_two :: "u64 \<Rightarrow> bool" where
  "is_power_of_two input = (if input = 0 then False else (input AND (input - 1)) = 0)"

definition compile_time_is_power_of_two :: "u64 \<Rightarrow> bool" where
  "compile_time_is_power_of_two N = (N \<noteq> 0 \<and> (N AND (N - 1)) = 0)"

definition modulo_pow2 :: "u64 \<Rightarrow> u64 \<Rightarrow> u64" where
  "modulo_pow2 first second = (first AND (second - 1))"

definition modulo :: "u64 \<Rightarrow> u64 \<Rightarrow> u64" where
  "modulo first second = first - (first div second) * second"

definition get_next_pow2_multiple_of :: "u64 \<Rightarrow> u64 \<Rightarrow> u64" where
  "get_next_pow2_multiple_of input multiple = ((input + multiple - 1) AND NOT (multiple - 1))"

definition is_size_a_multiple_of_page_allocation_granularity :: "u64 \<Rightarrow> bool" where
  "is_size_a_multiple_of_page_allocation_granularity input =
     (modulo_pow2 input PAGE_ALLOCATION_GRANULARITY = 0)"

text \<open>
  \<open>builtin_clzl\<close>: the number of leading zero bits; the MSVC definition of the source gives 64 for 0,
  where the GCC built-in is undefined.
\<close>

definition builtin_clzl :: "u64 \<Rightarrow> nat" where
  "builtin_clzl value = length (takeWhile (\<lambda>i. \<not> bit value i) (rev [0..<64]))"

function compile_time_log2 :: "u32 \<Rightarrow> u32" where
  "compile_time_log2 n = (if n \<le> 1 then 0 else 1 + compile_time_log2 (n div 2))"
  by pat_completeness auto
termination
  by (relation "measure unat") (auto simp: unat_div word_le_nat_alt)

definition log2_power_of_two :: "u64 \<Rightarrow> u64" where
  "log2_power_of_two input = 63 - of_nat (builtin_clzl input)"

text \<open>The loop \<open>while (n >>= 1) ++result\<close>.\<close>

function log2_loop :: "u64 \<Rightarrow> u64 \<Rightarrow> u64" where
  "log2_loop n result =
     (let n' = drop_bit 1 n in if n' = 0 then result else log2_loop n' (result + 1))"
  by pat_completeness auto
termination
  by (relation "measure (\<lambda>(n, result). unat n)")
    (auto simp: unat_drop_bit_eq drop_bit_eq_div unat_gt_0 unat_div intro!: div_less_dividend)

definition log2_of :: "u64 \<Rightarrow> u64" where
  "log2_of n = log2_loop n 0"

definition get_pow2_bin_index_from_size :: "u64 \<Rightarrow> u64 \<Rightarrow> u64 \<Rightarrow> u64" where
  "get_pow2_bin_index_from_size MINIMUM_SIZE_CLASS MAX_BIN_INDEX sz =
     (let index = log2_power_of_two sz - ucast (compile_time_log2 (ucast MINIMUM_SIZE_CLASS))
      in if index > MAX_BIN_INDEX then MAX_BIN_INDEX else index)"

text \<open>
  The page count is computed in \<open>double\<close>; the model divides exactly, which agrees with the source
  for counts below \<open>2 ^ 53\<close>.  A zero object size divides by zero (\<open>None\<close>); no object per page makes
  the \<open>double\<close> quotient infinite, whose conversion to \<open>size_t\<close> is undefined (\<open>None\<close> too).
\<close>

definition get_required_page_count_for_allocation ::
  "u64 \<Rightarrow> u64 \<Rightarrow> u64 \<Rightarrow> u64 \<Rightarrow> u64 option" where
  "get_required_page_count_for_allocation page_size page_header_size object_size object_count =
     (if object_size = 0 then None
      else let object_count_per_page = (page_size - page_header_size) div object_size
           in if object_count_per_page = 0 then None
              else let needed_page_count =
                         of_int \<lceil>(of_nat (unat object_count) :: rat)
                                  / of_nat (unat object_count_per_page)\<rceil>
                   in Some (if needed_page_count = 0 then 1 else needed_page_count))"

declare compile_time_log2.simps [simp del] log2_loop.simps [simp del]

subsection \<open>Powers of two\<close>

lemma bit_at_top:
  fixes x :: u64
  assumes "2 ^ k \<le> unat x" "unat x < 2 ^ Suc k"
  shows "bit x k" "\<And>i. k < i \<Longrightarrow> \<not> bit x i"
proof -
  have "unat x div 2 ^ k = 1"
    using assms by (simp add: div_nat_eqI)
  then have "bit (unat x) k" by (simp add: bit_iff_odd)
  then show "bit x k" by (simp add: bit_unsigned_iff)
  fix i assume "k < i"
  then have "(2::nat) ^ Suc k \<le> 2 ^ i" by (intro power_increasing) auto
  then have "unat x div 2 ^ i = 0" using assms by simp
  then have "\<not> bit (unat x) i" by (simp add: bit_iff_odd)
  then show "\<not> bit x i" by (auto simp: bit_unsigned_iff dest: bit_imp_le_length)
qed

lemma top_bit_exists:
  fixes x :: u64
  assumes "x \<noteq> 0"
  obtains k where "k < 64" "2 ^ k \<le> unat x" "unat x < 2 ^ Suc k"
proof -
  have "\<exists>k. unat x \<in> {2 ^ k ..< 2 ^ Suc k}"
    using assms ex_power_ivl1 [of 2 "unat x"] by (auto simp: unat_gt_0 Suc_le_eq)
  then obtain k where k: "2 ^ k \<le> unat x" "unat x < 2 ^ Suc k" by auto
  have "(2::nat) ^ k < 2 ^ 64" using k(1) unat_lt_2_64 [of x] by linarith
  then have "k < 64" by (rule power_less_imp_less_exp [rotated]) simp
  with k that show ?thesis by blast
qed

lemma unat_two_power [nowrap]: "k < 64 \<Longrightarrow> unat (2 ^ k :: u64) = 2 ^ k"
  using unat_of_nat_nowrap [of "2 ^ k"] power_strict_increasing [of k 64 "2 :: nat"] by simp

lemma is_power_of_two_iff: "is_power_of_two x \<longleftrightarrow> (\<exists>k<64. x = 2 ^ k)"
proof
  assume p: "is_power_of_two x"
  then have "x \<noteq> 0" by (auto simp: is_power_of_two_def)
  then obtain k where k: "k < 64" "2 ^ k \<le> unat x" "unat x < 2 ^ Suc k"
    by (rule top_bit_exists)
  have "x = 2 ^ k"
  proof (rule ccontr)
    assume "x \<noteq> 2 ^ k"
    then have "unat x \<noteq> 2 ^ k" using k(1) by (metis unat_eq_iff_u64 unat_two_power)
    moreover have "unat (x - 1) = unat x - 1"
      using \<open>x \<noteq> 0\<close> by (simp add: unat_minus_one)
    ultimately have "2 ^ k \<le> unat (x - 1)" "unat (x - 1) < 2 ^ Suc k" using k by auto
    then have "bit (x AND (x - 1)) k"
      using bit_at_top(1) k by (simp add: bit_and_iff)
    moreover have "x AND (x - 1) = 0" using p by (simp add: is_power_of_two_def split: if_splits)
    ultimately show False by simp
  qed
  then show "\<exists>k<64. x = 2 ^ k" using k(1) by blast
next
  assume "\<exists>k<64. x = 2 ^ k"
  then obtain k where k: "k < 64" "x = 2 ^ k" by blast
  have "x AND (x - 1) = 0"
    by (rule bit_word_eqI) (auto simp: k(2) bit_simps simp flip: mask_eq_exp_minus_1)
  moreover have "x \<noteq> 0" using k by (simp add: unat_eq_iff_u64 nowrap)
  ultimately show "is_power_of_two x" by (simp add: is_power_of_two_def)
qed

lemma compile_time_is_power_of_two_eq: "compile_time_is_power_of_two = is_power_of_two"
  by (auto simp: compile_time_is_power_of_two_def is_power_of_two_def fun_eq_iff)

lemma modulo_pow2_eq_mod: "is_power_of_two b \<Longrightarrow> modulo_pow2 a b = a mod b"
  by (auto simp: is_power_of_two_iff modulo_pow2_def simp flip: mask_eq_exp_minus_1
      take_bit_eq_mask take_bit_eq_mod)

lemma modulo_eq_mod: "modulo a b = a mod b"
  by (simp add: modulo_def minus_div_mult_eq_mod)

text \<open>
  The smearing steps of \<open>get_first_pow2_of\<close>: after the step with shift \<open>w\<close>, bit \<open>i\<close> is set iff the
  original word has a bit set among the \<open>2 w\<close> positions from \<open>i\<close> upwards.
\<close>

definition smeared :: "nat \<Rightarrow> u64 \<Rightarrow> u64 \<Rightarrow> bool" where
  "smeared w n a \<longleftrightarrow> (\<forall>i. bit a i \<longleftrightarrow> (\<exists>j<w. bit n (i + j)))"

lemma smeared_self: "smeared 1 n n"
  by (simp add: smeared_def)

lemma smeared_step:
  assumes "smeared w n a"
  shows "smeared (w + w) n (a OR drop_bit w a)"
  unfolding smeared_def
proof (intro allI)
  fix i
  have "(\<exists>j<w + w. bit n (i + j)) \<longleftrightarrow> (\<exists>j<w. bit n (i + j)) \<or> (\<exists>j<w. bit n (i + (w + j)))"
    (is "?l \<longleftrightarrow> ?r1 \<or> ?r2")
  proof
    assume ?l
    then obtain j where j: "j < w + w" "bit n (i + j)" by blast
    show "?r1 \<or> ?r2"
    proof (cases "j < w")
      case False
      with j have "j - w < w" "bit n (i + (w + (j - w)))" by auto
      then show ?thesis by blast
    qed (use j in blast)
  next
    assume "?r1 \<or> ?r2"
    then show ?l by (metis add_less_cancel_left trans_less_add1)
  qed
  then show "bit (a OR drop_bit w a) i \<longleftrightarrow> ?l"
    using assms by (simp add: smeared_def bit_simps add.assoc add.left_commute)
qed

lemma smeared_mask:
  assumes "smeared w n a" "2 ^ k \<le> unat n" "unat n < 2 ^ Suc k" "k < w" "k < 64"
  shows "a = mask (Suc k)"
proof (rule bit_word_eqI)
  fix i
  assume "i < LENGTH(64)"
  have "bit a i \<longleftrightarrow> i \<le> k"
  proof
    assume "bit a i"
    then obtain j where "bit n (i + j)" using assms(1) by (auto simp: smeared_def)
    then show "i \<le> k" using bit_at_top(2) [OF assms(2,3), of "i + j"] by force
  next
    assume "i \<le> k"
    then have "bit n (i + (k - i))" "k - i < w" using bit_at_top(1) [OF assms(2,3)] assms(4) by auto
    then show "bit a i" using assms(1) by (auto simp: smeared_def)
  qed
  then show "bit a i \<longleftrightarrow> bit (mask (Suc k) :: u64) i"
    using \<open>i < LENGTH(64)\<close> by (simp add: bit_mask_iff less_Suc_eq_le)
qed

lemma get_first_pow2_of_eq:
  assumes "2 ^ k \<le> unat (x - 1)" "unat (x - 1) < 2 ^ Suc k" "k < 32" "1 < x"
  shows "get_first_pow2_of x = 2 ^ Suc k"
proof -
  let ?n = "x - 1"
  let ?a1 = "?n OR drop_bit 1 ?n"
  let ?a2 = "?a1 OR drop_bit 2 ?a1"
  let ?a3 = "?a2 OR drop_bit 4 ?a2"
  let ?a4 = "?a3 OR drop_bit 8 ?a3"
  let ?a5 = "?a4 OR drop_bit 16 ?a4"
  have "smeared 2 ?n ?a1" using smeared_step [OF smeared_self] by (simp add: numeral_2_eq_2)
  then have "smeared 4 ?n ?a2" using smeared_step by fastforce
  then have "smeared 8 ?n ?a3" using smeared_step by fastforce
  then have "smeared 16 ?n ?a4" using smeared_step by fastforce
  then have "smeared 32 ?n ?a5" using smeared_step by fastforce
  then have "?a5 = mask (Suc k)" using assms by (intro smeared_mask) auto
  then have "get_first_pow2_of x = mask (Suc k) + 1"
    using assms(4) by (simp add: get_first_pow2_of_def Let_def not_le)
  then show ?thesis by (simp add: mask_eq_exp_minus_1)
qed

lemma get_first_pow2_of_bounds:
  assumes "1 \<le> unat x" "unat x \<le> 2 ^ 32"
  shows "is_power_of_two (get_first_pow2_of x)"
    and "unat x \<le> unat (get_first_pow2_of x)"
    and "unat (get_first_pow2_of x) < 2 * unat x"
proof -
  have "is_power_of_two (get_first_pow2_of x) \<and> unat x \<le> unat (get_first_pow2_of x)
        \<and> unat (get_first_pow2_of x) < 2 * unat x"
  proof (cases "x \<le> 1")
    case True
    with assms have "x = 1" by (simp add: word_le_nat_alt unat_eq_iff_u64)
    then show ?thesis by (simp add: get_first_pow2_of_def is_power_of_two_def)
  next
    case False
    then have x1: "unat (x - 1) = unat x - 1" by (intro unat_minus_one) auto
    have "x - 1 \<noteq> 0" using False by auto
    then obtain k where k: "k < 64" "2 ^ k \<le> unat (x - 1)" "unat (x - 1) < 2 ^ Suc k"
      by (rule top_bit_exists)
    have "(2::nat) ^ k < 2 ^ 32" using k(2) x1 assms by linarith
    then have "k < 32" by (rule power_less_imp_less_exp [rotated]) simp
    with k have "get_first_pow2_of x = 2 ^ Suc k"
      using False by (intro get_first_pow2_of_eq) (auto simp: not_le)
    moreover have "unat (2 ^ Suc k :: u64) = 2 ^ Suc k" using \<open>k < 32\<close> by (intro unat_two_power) simp
    moreover have "is_power_of_two (2 ^ Suc k)"
      unfolding is_power_of_two_iff using \<open>k < 32\<close> by (intro exI [of _ "Suc k"]) simp
    moreover have "unat x \<le> 2 ^ Suc k" "2 ^ Suc k < 2 * unat x" using k(2,3) x1 assms(1) by auto
    ultimately show ?thesis by simp
  qed
  then show "is_power_of_two (get_first_pow2_of x)" "unat x \<le> unat (get_first_pow2_of x)"
    "unat (get_first_pow2_of x) < 2 * unat x" by auto
qed

subsection \<open>Alignment and multiples\<close>

lemma and_not_pow2_mask:
  assumes "is_power_of_two b"
  shows "a AND NOT (b - 1) = a - a mod b"
proof -
  have "a AND NOT (b - 1) = a - (a AND (b - 1))"
  proof -
    have "a - (a AND (b - 1)) = a AND NOT (a AND (b - 1))"
      by (rule disjunctive_diff_eq_and_not) (rule bit_word_eqI, auto simp: bit_simps)
    also have "\<dots> = a AND NOT (b - 1)"
      by (rule bit_word_eqI) (auto simp: bit_simps)
    finally show ?thesis by simp
  qed
  then show ?thesis using modulo_pow2_eq_mod [OF assms, of a] by (simp add: modulo_pow2_def)
qed

lemma is_address_aligned_iff:
  assumes "is_power_of_two b"
  shows "is_address_aligned a b \<longleftrightarrow> unat b dvd unat a"
  using modulo_pow2_eq_mod [OF assms, of a]
  by (simp add: is_address_aligned_def modulo_pow2_def unat_eq_iff_u64 unat_mod dvd_eq_mod_eq_0)

lemma granularity_pow2 [simp]: "is_power_of_two PAGE_ALLOCATION_GRANULARITY"
  by (simp add: is_power_of_two_def PAGE_ALLOCATION_GRANULARITY_def)

lemma granularity_aligned_iff:
  "is_address_page_allocation_granularity_aligned a \<longleftrightarrow> 4096 dvd unat a"
  by (simp add: is_address_page_allocation_granularity_aligned_def is_address_aligned_iff
      PAGE_ALLOCATION_GRANULARITY_def is_power_of_two_def)

lemma granularity_multiple_iff:
  "is_size_a_multiple_of_page_allocation_granularity a \<longleftrightarrow> 4096 dvd unat a"
  using modulo_pow2_eq_mod [OF granularity_pow2, of a]
  by (simp add: is_size_a_multiple_of_page_allocation_granularity_def
      PAGE_ALLOCATION_GRANULARITY_def unat_eq_iff_u64 unat_mod dvd_eq_mod_eq_0)

lemma unat_round_down:
  "unat (a - a mod b :: u64) = unat a - unat a mod unat b"
  by (simp add: unat_sub_nowrap unat_mod)

lemma get_next_pow2_multiple_of_least:
  assumes "is_power_of_two b" "unat a + unat b \<le> 2 ^ 64"
  shows "unat b dvd unat (get_next_pow2_multiple_of a b)"
    and "unat a \<le> unat (get_next_pow2_multiple_of a b)"
    and "unat (get_next_pow2_multiple_of a b) < unat a + unat b"
proof -
  have "b \<noteq> 0" using assms(1) by (auto simp: is_power_of_two_def)
  then have b0: "0 < unat b" by (simp add: unat_gt_0)
  then have b1: "unat (b - 1) = unat b - 1" using \<open>b \<noteq> 0\<close> by (simp add: unat_minus_one)
  have s: "unat (a + b - 1) = unat a + unat b - 1"
    using assms(2) b0 b1 unat_add_nowrap [of a "b - 1"] by (simp add: algebra_simps)
  define t where "t = unat a + unat b - 1"
  have r: "unat (get_next_pow2_multiple_of a b) = t - t mod unat b"
    by (simp add: get_next_pow2_multiple_of_def and_not_pow2_mask [OF assms(1)] unat_round_down s t_def)
  have m: "t mod unat b < unat b" "t mod unat b \<le> t" using b0 by auto
  show "unat b dvd unat (get_next_pow2_multiple_of a b)" by (simp add: r)
  show "unat a \<le> unat (get_next_pow2_multiple_of a b)"
    unfolding r using m b0 unfolding t_def by linarith
  show "unat (get_next_pow2_multiple_of a b) < unat a + unat b" using r b0 by (simp add: t_def)
qed

subsection \<open>Logarithms\<close>

lemma drop_bit_1_unat: "unat (drop_bit 1 n :: u64) = unat n div 2"
  by (simp add: drop_bit_eq_div unat_div)

lemma log2_loop_eq:
  "2 ^ k \<le> unat n \<Longrightarrow> unat n < 2 ^ Suc k \<Longrightarrow> log2_loop n r = r + of_nat k"
proof (induction k arbitrary: n r)
  case 0
  then have "unat (drop_bit 1 n) = 0" unfolding drop_bit_1_unat by simp
  then show ?case by (subst log2_loop.simps) (simp add: unat_eq_iff_u64)
next
  case (Suc k)
  have h: "unat (drop_bit 1 n) = unat n div 2" by (rule drop_bit_1_unat)
  with Suc.prems have "2 ^ k \<le> unat (drop_bit 1 n)" "unat (drop_bit 1 n) < 2 ^ Suc k" by auto
  moreover from this have "drop_bit 1 n \<noteq> 0" by (auto simp: unat_gt_0 [symmetric])
  ultimately show ?case using Suc.IH [of "drop_bit 1 n" "r + 1"]
    by (subst log2_loop.simps) simp
qed

lemma takeWhile_rev_upt:
  assumes "k < N" "P k" "\<And>i. k < i \<Longrightarrow> i < N \<Longrightarrow> \<not> P i"
  shows "length (takeWhile (\<lambda>i. \<not> P i) (rev [0..<N])) = N - 1 - k"
proof -
  have "rev [0..<N] = rev [Suc k..<N] @ k # rev [0..<k]"
  proof -
    have "[0..<N] = [0..<k] @ [k..<N]" using assms(1) by (metis less_imp_le upt_add_eq_append le0 le_add_diff_inverse)
    then show ?thesis using assms(1) by (simp add: upt_conv_Cons)
  qed
  moreover have "takeWhile (\<lambda>i. \<not> P i) (rev [Suc k..<N] @ k # rev [0..<k]) = rev [Suc k..<N]"
    using assms by (subst takeWhile_append2) auto
  ultimately show ?thesis by simp
qed

lemma builtin_clzl_eq:
  assumes "2 ^ k \<le> unat n" "unat n < 2 ^ Suc k" "k < 64"
  shows "builtin_clzl n = 63 - k"
  unfolding builtin_clzl_def
  using takeWhile_rev_upt [of k 64 "bit n"] bit_at_top [OF assms(1,2)] assms(3) by simp

lemma log2_power_of_two_eq:
  assumes "2 ^ k \<le> unat n" "unat n < 2 ^ Suc k" "k < 64"
  shows "log2_power_of_two n = of_nat k"
  using assms(3) by (simp add: log2_power_of_two_def builtin_clzl_eq [OF assms] of_nat_diff)

subsection \<open>Properties\<close>

text \<open>C39: \<open>get_first_pow2_of\<close> returns the least power of two that is not below its argument, for arguments up
  to 2^32.  Its shifts stop at 16, so beyond that the result need not be a power of two.\<close>

theorem first_pow2_of_bounds:
  assumes "1 \<le> unat x" "unat x \<le> 2 ^ 32"
  shows "is_power_of_two (get_first_pow2_of x) \<and> unat x \<le> unat (get_first_pow2_of x)
    \<and> unat (get_first_pow2_of x) < 2 * unat x \<and> \<not> is_power_of_two (get_first_pow2_of 8589934593)"
proof -
  have "get_first_pow2_of 8589934593 = 17179869181" by (simp add: get_first_pow2_of_def Let_def word_le_nat_alt)
  then show ?thesis using get_first_pow2_of_bounds [OF assms] by (simp add: is_power_of_two_def)
qed

theorem first_pow2_of_bounds_witness: "unat (get_first_pow2_of 100) < 200 \<and> is_power_of_two (get_first_pow2_of 100)"
  using first_pow2_of_bounds [of 100] by simp

end
