(* ===== verification/Lockable.thy ===== *)
theory Lockable
  imports Machine
begin

text \<open>
  \<open>include/utilities/userspace_spinlock.h\<close> and \<open>include/utilities/lockable.h\<close>.

  The lock is one 32-bit flag that \<open>try_lock\<close> sets by compare-and-swap.  It is modelled twice: as the
  code runs in one thread (\<open>lock\<close> is a loop that does not end, \<open>None\<close>, when the flag is already set and
  no other thread clears it), which is what the operations of the other components use; and as an
  interleaving of threads whose atomic steps are the compare-and-swap and the store of \<open>unlock\<close>, for
  mutual exclusion.  Pausing and yielding between attempts have no effect on the state.  \<open>OS_LOCK\<close> is a
  \<open>pthread_mutex\<close>, with the same behaviour in one thread.
\<close>

datatype LockPolicy = NO_LOCK | OS_LOCK | USERSPACE_LOCK | USERSPACE_LOCK_CACHELINE_ALIGNED

subsection \<open>The spinlock in one thread\<close>

text \<open>\<open>__sync_val_compare_and_swap\<close>: the old value, and the new contents.\<close>

definition builtin_cas :: "u32 \<Rightarrow> u32 \<Rightarrow> u32 \<Rightarrow> u32 \<times> u32" where
  "builtin_cas flag compared exchange = (flag, if flag = compared then exchange else flag)"

definition spin_initialise :: "u32 \<Rightarrow> u32" where
  "spin_initialise flag = 0"

definition try_lock :: "u32 \<Rightarrow> bool \<times> u32" where
  "try_lock flag = (let (old, flag) = builtin_cas flag 0 1 in if old = 1 then (False, flag) else (True, flag))"

definition spin_count :: nat where
  "spin_count = 1024"

partial_function (option) spin_lock_loop :: "nat \<Rightarrow> u32 \<Rightarrow> u32 option" where
  "spin_lock_loop i flag =
     (if i < spin_count
      then let (ok, flag) = try_lock flag in if ok then Some flag else spin_lock_loop (Suc i) flag
      else spin_lock_loop 0 flag)"

declare spin_lock_loop.simps [code]

definition spin_lock :: "u32 \<Rightarrow> u32 option" where
  "spin_lock flag = spin_lock_loop 0 flag"

definition spin_unlock :: "u32 \<Rightarrow> u32" where
  "spin_unlock flag = 0"

fun enter_concurrent_context :: "LockPolicy \<Rightarrow> u32 \<Rightarrow> u32 option" where
  "enter_concurrent_context NO_LOCK flag = Some flag"
| "enter_concurrent_context _ flag = spin_lock flag"

fun leave_concurrent_context :: "LockPolicy \<Rightarrow> u32 \<Rightarrow> u32" where
  "leave_concurrent_context NO_LOCK flag = flag"
| "leave_concurrent_context _ flag = spin_unlock flag"

lemma try_lock_simps [simp]: "try_lock 0 = (True, 1)" "try_lock 1 = (False, 1)"
  by (simp_all add: try_lock_def builtin_cas_def)

lemma spin_lock_free [simp]: "spin_lock 0 = Some 1"
  by (simp add: spin_lock_def spin_lock_loop.simps spin_count_def)

lemma spin_lock_loop_held: "spin_lock_loop i f = Some y \<Longrightarrow> f \<noteq> 1"
proof (rule spin_lock_loop.raw_induct [of "\<lambda>i f y. f \<noteq> 1"])
  fix loop and i :: nat and f y :: u32
  assume IH: "\<And>i f y. loop i f = Some y \<Longrightarrow> f \<noteq> 1"
    and r: "(if i < spin_count then let (ok, f) = try_lock f in if ok then Some f else loop (Suc i) f
             else loop 0 f) = Some y"
  show "f \<noteq> 1"
  proof
    assume "f = 1"
    then have "loop (Suc i) 1 = Some y \<or> loop 0 1 = Some y" using r by (auto split: if_splits)
    then show False using IH by blast
  qed
qed

lemma spin_lock_held [simp]: "spin_lock 1 = None"
  using spin_lock_loop_held [of 0 1] by (cases "spin_lock 1") (auto simp: spin_lock_def)

lemma spin_unlock_eq [simp]: "spin_unlock f = 0"
  by (simp add: spin_unlock_def)

text \<open>Entering and leaving a context around a computation that may not return.\<close>

lemma enter_free [simp]: "enter_concurrent_context lp 0 = Some (if lp = NO_LOCK then 0 else 1)"
  by (cases lp) simp_all

lemma leave_simps [simp]:
  "leave_concurrent_context lp 0 = 0" "leave_concurrent_context lp (if lp = NO_LOCK then 0 else 1) = 0"
  "lp \<noteq> NO_LOCK \<Longrightarrow> leave_concurrent_context lp f = 0"
  by (cases lp; simp)+

subsection \<open>Threads that contend for the lock\<close>

text \<open>A thread is outside, in the spin loop (with its attempt counter), or in the section that the lock
  protects.  The atomic steps are the ones of the code: one \<open>try_lock\<close>, one \<open>unlock\<close>.\<close>

datatype thread = Outside | Spinning nat | Critical

record lock_state =
  flag :: u32
  threads :: "nat \<Rightarrow> thread"

inductive lock_step :: "lock_state \<Rightarrow> lock_state \<Rightarrow> bool" where
  request: "threads s t = Outside \<Longrightarrow> lock_step s (s\<lparr>threads := (threads s)(t := Spinning 0)\<rparr>)"
| acquire: "threads s t = Spinning i \<Longrightarrow> i < spin_count \<Longrightarrow> try_lock (flag s) = (True, f)
    \<Longrightarrow> lock_step s (s\<lparr>flag := f, threads := (threads s)(t := Critical)\<rparr>)"
| retry: "threads s t = Spinning i \<Longrightarrow> i < spin_count \<Longrightarrow> try_lock (flag s) = (False, f)
    \<Longrightarrow> lock_step s (s\<lparr>flag := f, threads := (threads s)(t := Spinning (Suc i))\<rparr>)"
| again: "threads s t = Spinning i \<Longrightarrow> \<not> i < spin_count
    \<Longrightarrow> lock_step s (s\<lparr>threads := (threads s)(t := Spinning 0)\<rparr>)"
| release: "threads s t = Critical
    \<Longrightarrow> lock_step s (s\<lparr>flag := spin_unlock (flag s), threads := (threads s)(t := Outside)\<rparr>)"

inductive_cases lock_stepE: "lock_step s s'"

definition lock_initial :: lock_state where
  "lock_initial = \<lparr>flag = spin_initialise 0, threads = \<lambda>_. Outside\<rparr>"

definition lock_inv :: "lock_state \<Rightarrow> bool" where
  "lock_inv s \<longleftrightarrow> (flag s = 0 \<and> (\<forall>u. threads s u \<noteq> Critical))
     \<or> (flag s = 1 \<and> (\<exists>t. \<forall>u. threads s u = Critical \<longleftrightarrow> u = t))"

lemma lock_inv_move:
  assumes "lock_inv s" "threads s t \<noteq> Critical" "p \<noteq> Critical"
  shows "lock_inv (s\<lparr>threads := (threads s)(t := p)\<rparr>)"
proof -
  have "((threads s)(t := p)) u = Critical \<longleftrightarrow> threads s u = Critical" for u using assms by auto
  then show ?thesis using assms(1) by (simp add: lock_inv_def)
qed

lemma lock_inv_step:
  assumes "lock_step s s'" "lock_inv s"
  shows "lock_inv s'"
  using assms(1)
proof cases
  case (acquire t i f)
  then have "flag s = 0" "f = 1" using assms(2) by (auto simp: lock_inv_def)
  then show ?thesis using acquire assms(2) by (auto simp: lock_inv_def)
next
  case (retry t i f)
  then have "flag s = 1" "f = 1" using assms(2) by (auto simp: lock_inv_def)
  then have "s' = s\<lparr>threads := (threads s)(t := Spinning (Suc i))\<rparr>" using retry by (cases s) simp
  then show ?thesis using retry lock_inv_move [OF assms(2), of t] by simp
next
  case (release t)
  then have "\<forall>u. threads s u = Critical \<longleftrightarrow> u = t" using assms(2) by (auto simp: lock_inv_def)
  then show ?thesis using release by (auto simp: lock_inv_def)
qed (use lock_inv_move [OF assms(2)] in simp_all)

lemma lock_inv_reachable: "lock_step\<^sup>*\<^sup>* lock_initial s \<Longrightarrow> lock_inv s"
proof (induction rule: rtranclp_induct)
  case base
  then show ?case by (simp add: lock_inv_def lock_initial_def spin_initialise_def)
next
  case (step y z)
  then show ?case using lock_inv_step by blast
qed

lemma lock_inv_free: "lock_inv s \<Longrightarrow> \<forall>u. threads s u \<noteq> Critical \<Longrightarrow> flag s = 0"
  unfolding lock_inv_def by (erule disjE) (simp, metis)

subsection \<open>Properties\<close>

text \<open>C11: Mutual exclusion: in every interleaving of any number of threads, two threads are never
  both inside the section that one spinlock protects, and the flag is set exactly while some thread is
  inside.\<close>

theorem spinlock_mutual_exclusion:
  assumes "lock_step\<^sup>*\<^sup>* lock_initial s"
  shows "(threads s t = Critical \<longrightarrow> threads s u = Critical \<longrightarrow> t = u)
    \<and> (flag s = 1 \<longleftrightarrow> (\<exists>t. threads s t = Critical))"
  using lock_inv_reachable [OF assms] by (auto simp: lock_inv_def)

lemma example_acquire:
  "lock_step\<^sup>*\<^sup>* lock_initial (lock_initial\<lparr>flag := 1, threads := (\<lambda>_. Outside)(0 := Critical)\<rparr>)"
proof -
  let ?a = "lock_initial\<lparr>threads := (\<lambda>_. Outside)(0 := Spinning 0)\<rparr>"
  have "lock_step lock_initial ?a" using lock_step.request [of lock_initial 0] by (simp add: lock_initial_def)
  moreover have "lock_step ?a (lock_initial\<lparr>flag := 1, threads := (\<lambda>_. Outside)(0 := Critical)\<rparr>)"
    using lock_step.acquire [of ?a 0 0 1]
    by (simp add: lock_initial_def spin_initialise_def spin_count_def)
  ultimately show ?thesis by simp
qed

theorem spinlock_mutual_exclusion_witness:
  "let s = lock_initial\<lparr>flag := 1, threads := (\<lambda>_. Outside)(0 := Critical)\<rparr>
   in flag s = 1 \<longleftrightarrow> (\<exists>t. threads s t = Critical)"
  using spinlock_mutual_exclusion [OF example_acquire, of 0 0] unfolding Let_def by (rule conjunct2)

text \<open>C30: No thread waits for a lock that nobody holds: in every reachable state with no thread
  inside, the next attempt of any spinning thread succeeds, whatever its attempt counter (after at most
  one wrap-around of the inner loop).\<close>

theorem spinlock_progress:
  assumes "lock_step\<^sup>*\<^sup>* lock_initial s" "\<forall>t. threads s t \<noteq> Critical" "threads s t = Spinning i"
  shows "\<exists>s'. lock_step\<^sup>+\<^sup>+ s s' \<and> threads s' t = Critical"
proof -
  have f: "flag s = 0" by (rule lock_inv_free [OF lock_inv_reachable [OF assms(1)] assms(2)])
  have acq: "lock_step r (r\<lparr>flag := 1, threads := (threads r)(t := Critical)\<rparr>)"
    if "flag r = 0" "threads r t = Spinning j" "j < spin_count" for r j
    using lock_step.acquire [of r t j 1] that by simp
  let ?got = "\<lambda>r. r\<lparr>flag := 1, threads := (threads r)(t := Critical)\<rparr>"
  let ?r = "s\<lparr>threads := (threads s)(t := Spinning 0)\<rparr>"
  have crit: "threads (?got r) t = Critical" for r :: lock_state by simp
  show ?thesis
  proof (cases "i < spin_count")
    case True
    have "lock_step\<^sup>+\<^sup>+ s (?got s)" by (rule tranclp.r_into_trancl) (rule acq [OF f assms(3) True])
    then show ?thesis using crit by blast
  next
    case False
    have "lock_step\<^sup>+\<^sup>+ s ?r" by (rule tranclp.r_into_trancl) (rule lock_step.again [OF assms(3) False])
    moreover have "lock_step ?r (?got ?r)"
      by (rule acq [of ?r 0]) (simp_all add: f spin_count_def)
    ultimately have "lock_step\<^sup>+\<^sup>+ s (?got ?r)" by (rule tranclp.trancl_into_trancl)
    then show ?thesis using crit by blast
  qed
qed

theorem spinlock_progress_witness:
  "\<exists>s'. lock_step\<^sup>+\<^sup>+ (lock_initial\<lparr>threads := (\<lambda>_. Outside)(0 := Spinning 0)\<rparr>) s' \<and> threads s' 0 = Critical"
proof (rule spinlock_progress)
  have "lock_step lock_initial (lock_initial\<lparr>threads := (\<lambda>_. Outside)(0 := Spinning 0)\<rparr>)"
    using lock_step.request [of lock_initial 0] by (simp add: lock_initial_def)
  then show "lock_step\<^sup>*\<^sup>* lock_initial (lock_initial\<lparr>threads := (\<lambda>_. Outside)(0 := Spinning 0)\<rparr>)" by simp
qed simp_all

end
