(* ===== verification/Virtual_Memory.thy ===== *)
theory Virtual_Memory
  imports Utilities "HOL-Library.Code_Target_Nat"
begin

text \<open>
  \<open>include/os/virtual_memory.h\<close>, the Linux build without NUMA: pages are obtained with \<open>mmap\<close> and given
  back with \<open>munmap\<close>.

  The operating system is a parameter: the record \<open>os\<close> answers every system call from the history of
  the calls before it, in any way it likes.  The machine keeps that history and the contents of
  memory.  \<open>is_mapped\<close> replays the history, and \<open>os_ok\<close> states what the manual page of \<open>mmap\<close> documents:
  a mapping that succeeds is page aligned, does not wrap around, and does not overlap a mapping that is
  still in place (no call passes \<open>MAP_FIXED\<close>); a fresh anonymous mapping reads as zero.
\<close>

subsection \<open>System calls\<close>

datatype vm_call =
    MMAP (hint: u64) (len: u64) (flags: u32) (answer: u64)
  | MUNMAP u64 u64 bool
  | MADVISE u64 u64
  | MLOCK u64 u64 bool
  | MUNLOCK u64 u64 bool
  | MLOCKALL bool

record os =
  os_mmap :: "vm_call list \<Rightarrow> u64 \<Rightarrow> u64 \<Rightarrow> u32 \<Rightarrow> u64"
  os_munmap :: "vm_call list \<Rightarrow> u64 \<Rightarrow> u64 \<Rightarrow> bool"
  os_mlock :: "vm_call list \<Rightarrow> u64 \<Rightarrow> u64 \<Rightarrow> bool"
  os_munlock :: "vm_call list \<Rightarrow> u64 \<Rightarrow> u64 \<Rightarrow> bool"
  os_mlockall :: "vm_call list \<Rightarrow> bool"
  os_thp :: bool
  os_page_size :: u64

record machine =
  vm :: "vm_call list"
  ram :: mem

definition MAP_FAILED :: u64 where
  "MAP_FAILED = - 1"

definition MAP_PRIVATE :: u32 where
  "MAP_PRIVATE = 0x02"

definition MAP_ANONYMOUS :: u32 where
  "MAP_ANONYMOUS = 0x20"

definition MAP_POPULATE :: u32 where
  "MAP_POPULATE = 0x8000"

definition MAP_HUGETLB :: u32 where
  "MAP_HUGETLB = 0x40000"

text \<open>The kernel works on whole pages: a length counts up to the next page boundary.\<close>

definition page_span :: "u64 \<Rightarrow> nat" where
  "page_span n = (unat n + 4095) div 4096 * 4096"

fun is_mapped :: "vm_call list \<Rightarrow> nat \<Rightarrow> bool" where
  "is_mapped [] x = False"
| "is_mapped (MMAP _ n _ r # cs) x = (r \<noteq> MAP_FAILED \<and> x \<in> region r (page_span n) \<or> is_mapped cs x)"
| "is_mapped (MUNMAP a n ok # cs) x = (is_mapped cs x \<and> \<not> (ok \<and> x \<in> region a (page_span n)))"
| "is_mapped (_ # cs) x = is_mapped cs x"

definition memset :: "mem \<Rightarrow> u64 \<Rightarrow> u8 \<Rightarrow> nat \<Rightarrow> mem" where
  "memset m a v n x = (if unat (x - a) < n then v else m x)"

subsection \<open>\<open>VirtualMemory\<close>\<close>

definition get_page_size :: "os \<Rightarrow> u64" where
  "get_page_size os = os_page_size os"

text \<open>\<open>allocate<use_hugepage, NO_NUMA, zero_buffer>\<close>; the anonymous mapping is zero-filled by the
  kernel, and once more by the code where \<open>zero_buffer\<close> is set.\<close>

definition VirtualMemory_allocate ::
  "os \<Rightarrow> bool \<Rightarrow> bool \<Rightarrow> u64 \<Rightarrow> u64 \<Rightarrow> 'w machine_scheme \<Rightarrow> u64 \<times> 'w machine_scheme" where
  "VirtualMemory_allocate os use_hugepage zero_buffer sz hint_address w =
     (let thp_enabled = os_thp os;
          flags = MAP_PRIVATE OR MAP_ANONYMOUS;
          flags = flags OR MAP_POPULATE;
          flags = (if use_hugepage then if \<not> thp_enabled then flags OR MAP_HUGETLB else flags else flags);
          ret = os_mmap os (vm w) hint_address sz flags;
          w = w\<lparr>vm := MMAP hint_address sz flags ret # vm w\<rparr>
      in if ret = 0 \<or> ret = MAP_FAILED then (0, w)
         else let w = w\<lparr>ram := memset (ram w) ret 0 (page_span sz)\<rparr>;
                  w = (if use_hugepage then if thp_enabled then w\<lparr>vm := MADVISE ret sz # vm w\<rparr> else w else w);
                  w = (if zero_buffer then w\<lparr>ram := memset (ram w) ret 0 (unat sz)\<rparr> else w)
              in (ret, w))"

definition VirtualMemory_deallocate :: "os \<Rightarrow> u64 \<Rightarrow> u64 \<Rightarrow> 'w machine_scheme \<Rightarrow> bool \<times> 'w machine_scheme" where
  "VirtualMemory_deallocate os address sz w =
     (let ok = os_munmap os (vm w) address sz in (ok, w\<lparr>vm := MUNMAP address sz ok # vm w\<rparr>))"

definition VirtualMemory_lock :: "os \<Rightarrow> u64 \<Rightarrow> u64 \<Rightarrow> 'w machine_scheme \<Rightarrow> bool \<times> 'w machine_scheme" where
  "VirtualMemory_lock os address sz w =
     (let ok = os_mlock os (vm w) address sz in (ok, w\<lparr>vm := MLOCK address sz ok # vm w\<rparr>))"

definition VirtualMemory_unlock :: "os \<Rightarrow> u64 \<Rightarrow> u64 \<Rightarrow> 'w machine_scheme \<Rightarrow> bool \<times> 'w machine_scheme" where
  "VirtualMemory_unlock os address sz w =
     (let ok = os_munlock os (vm w) address sz in (ok, w\<lparr>vm := MUNLOCK address sz ok # vm w\<rparr>))"

definition lock_all_pages :: "os \<Rightarrow> 'w machine_scheme \<Rightarrow> bool \<times> 'w machine_scheme" where
  "lock_all_pages os w = (let ok = os_mlockall os (vm w) in (ok, w\<lparr>vm := MLOCKALL ok # vm w\<rparr>))"

subsection \<open>What the operating system documents\<close>

definition os_ok :: "os \<Rightarrow> bool" where
  "os_ok os \<longleftrightarrow> os_page_size os = 4096 \<and> (\<forall>cs a n f. let r = os_mmap os cs a n f in
     r = MAP_FAILED \<or> (r \<noteq> 0 \<and> 0 < n \<and> 4096 dvd unat r \<and> unat r + page_span n < 2 ^ 64
       \<and> (\<forall>x\<in>region r (page_span n). \<not> is_mapped cs x)))"

lemma page_span_ge: "unat n \<le> page_span n"
  unfolding page_span_def by linarith

lemma page_span_multiple: "4096 dvd unat n \<Longrightarrow> page_span n = unat n"
  by (auto simp: page_span_def elim!: dvdE)

lemma memset_outside:
  assumes "unat a + n < 2 ^ 64" "unat x \<notin> region a n"
  shows "memset m a v n x = m x"
  using assms unfolding memset_def by (auto simp: unat_sub_if' split: if_splits)

lemma memset_inside:
  assumes "unat a + n < 2 ^ 64" "unat x \<in> region a n"
  shows "memset m a v n x = v"
  using assms unfolding memset_def by (auto simp: unat_sub_if' split: if_splits)

lemma vm_allocate_cases:
  assumes "os_ok os" "VirtualMemory_allocate os hp zb n a w = (r, w')"
  obtains (fail) cs where "r = 0" "w' = w\<lparr>vm := cs\<rparr>" "is_mapped cs = is_mapped (vm w)"
  | (ok) cs m where "r \<noteq> 0" "0 < unat n" "4096 dvd unat r" "unat r + page_span n < 2 ^ 64"
      "w' = w\<lparr>vm := cs, ram := m\<rparr>" "\<And>x. x \<in> region r (page_span n) \<Longrightarrow> \<not> is_mapped (vm w) x"
      "\<And>x. is_mapped cs x \<longleftrightarrow> x \<in> region r (page_span n) \<or> is_mapped (vm w) x"
      "\<And>x. m x = (if unat x \<in> region r (page_span n) then 0 else ram w x)"
proof -
  define fl where "fl = (if hp then if \<not> os_thp os then (MAP_PRIVATE OR MAP_ANONYMOUS OR MAP_POPULATE) OR MAP_HUGETLB
      else MAP_PRIVATE OR MAP_ANONYMOUS OR MAP_POPULATE else MAP_PRIVATE OR MAP_ANONYMOUS OR MAP_POPULATE)"
  define q where "q = os_mmap os (vm w) a n fl"
  have o: "q = MAP_FAILED \<or> (q \<noteq> 0 \<and> 0 < n \<and> 4096 dvd unat q \<and> unat q + page_span n < 2 ^ 64
       \<and> (\<forall>x\<in>region q (page_span n). \<not> is_mapped (vm w) x))"
    using assms(1) unfolding os_ok_def Let_def q_def by blast
  have e: "VirtualMemory_allocate os hp zb n a w = (if q = 0 \<or> q = MAP_FAILED then (0, w\<lparr>vm := MMAP a n fl q # vm w\<rparr>)
     else (q, w\<lparr>vm := (if hp \<and> os_thp os then [MADVISE q n] else []) @ MMAP a n fl q # vm w,
       ram := (if zb then memset (memset (ram w) q 0 (page_span n)) q 0 (unat n) else memset (ram w) q 0 (page_span n))\<rparr>))"
    by (auto simp: VirtualMemory_allocate_def Let_def q_def fl_def or.assoc)
  show ?thesis
  proof (cases "q = MAP_FAILED")
    case True
    then have "r = 0" "w' = w\<lparr>vm := MMAP a n fl q # vm w\<rparr>" using e assms(2) by auto
    then show ?thesis using fail [of "MMAP a n fl q # vm w"] True by (auto simp: fun_eq_iff)
  next
    case False
    then have q: "q \<noteq> 0" "0 < unat n" "4096 dvd unat q" "unat q + page_span n < 2 ^ 64"
      "\<forall>x\<in>region q (page_span n). \<not> is_mapped (vm w) x" using o by (auto simp: word_less_nat_alt)
    have r: "r = q" "w' = w\<lparr>vm := (if hp \<and> os_thp os then [MADVISE q n] else []) @ MMAP a n fl q # vm w,
       ram := (if zb then memset (memset (ram w) q 0 (page_span n)) q 0 (unat n) else memset (ram w) q 0 (page_span n))\<rparr>"
      using e assms(2) False q(1) by auto
    have m: "memset (memset (ram w) q 0 (page_span n)) q 0 (unat n) = memset (ram w) q 0 (page_span n)"
      using page_span_ge [of n] by (auto simp: memset_def fun_eq_iff)
    have "memset (ram w) q 0 (page_span n) x = (if unat x \<in> region q (page_span n) then 0 else ram w x)" for x
      using memset_inside [OF q(4)] memset_outside [OF q(4)] by auto
    note m' = this
    show ?thesis
    proof (rule ok)
      show "w' = w\<lparr>vm := (if hp \<and> os_thp os then [MADVISE q n] else []) @ MMAP a n fl q # vm w,
          ram := memset (ram w) q 0 (page_span n)\<rparr>" using r(2) m by simp
      show "memset (ram w) q 0 (page_span n) x = (if unat x \<in> region r (page_span n) then 0 else ram w x)" for x
        using m' r(1) by simp
    qed (use q r(1) False in auto)
  qed
qed

lemma vm_deallocate_mapped:
  assumes "VirtualMemory_deallocate os a n w = (ok, w')"
  obtains cs where "w' = w\<lparr>vm := cs\<rparr>" "\<And>x. is_mapped cs x \<Longrightarrow> is_mapped (vm w) x"
    "\<And>x. is_mapped (vm w) x \<Longrightarrow> x \<notin> region a (page_span n) \<Longrightarrow> is_mapped cs x"
    "\<And>x. ok \<Longrightarrow> is_mapped cs x \<Longrightarrow> x \<notin> region a (page_span n)"
proof -
  have w': "w' = w\<lparr>vm := MUNMAP a n ok # vm w\<rparr>" using assms by (auto simp: VirtualMemory_deallocate_def Let_def)
  show ?thesis by (rule that [OF w']) auto
qed

subsection \<open>An operating system that meets the documentation\<close>

text \<open>A bump allocator: every mapping goes to the first page beyond everything ever mapped.  It is used
  to instantiate the parameter on concrete inputs.\<close>

fun vm_top :: "vm_call list \<Rightarrow> nat" where
  "vm_top [] = 65536"
| "vm_top (MMAP _ n _ r # cs) = max (vm_top cs) ((unat r + page_span n) div 4096 * 4096 + 4096)"
| "vm_top (_ # cs) = vm_top cs"

definition bump_os :: os where
  "bump_os = \<lparr>os_mmap = \<lambda>cs a n f. if n = 0 \<or> vm_top cs + page_span n \<ge> 2 ^ 64 - 1 then MAP_FAILED else of_nat (vm_top cs),
     os_munmap = \<lambda>cs a n. 4096 dvd unat a \<and> n \<noteq> 0, os_mlock = \<lambda>cs a n. True, os_munlock = \<lambda>cs a n. True,
     os_mlockall = \<lambda>cs. True, os_thp = True, os_page_size = 4096\<rparr>"

lemma vm_top_bounds: "65536 \<le> vm_top cs" "4096 dvd vm_top cs" "is_mapped cs x \<Longrightarrow> x < vm_top cs"
proof -
  have "65536 \<le> vm_top cs \<and> 4096 dvd vm_top cs \<and> (is_mapped cs x \<longrightarrow> x < vm_top cs)"
  proof (induction cs x rule: is_mapped.induct)
    case (2 h n f r cs x)
    have "unat r + page_span n < (unat r + page_span n) div 4096 * 4096 + 4096" by linarith
    moreover have "4096 dvd (unat r + page_span n) div 4096 * 4096 + 4096" by simp
    ultimately show ?case using 2 by (auto simp: max_def)
  qed auto
  then show "65536 \<le> vm_top cs" "4096 dvd vm_top cs" "is_mapped cs x \<Longrightarrow> x < vm_top cs" by auto
qed

lemma bump_os_ok: "os_ok bump_os"
  unfolding os_ok_def
proof (intro conjI allI)
  show "os_page_size bump_os = 4096" by (simp add: bump_os_def)
  fix cs a n f
  show "let r = os_mmap bump_os cs a n f in r = MAP_FAILED \<or> (r \<noteq> 0 \<and> 0 < n \<and> 4096 dvd unat r
      \<and> unat r + page_span n < 2 ^ 64 \<and> (\<forall>x\<in>region r (page_span n). \<not> is_mapped cs x))"
  proof (cases "n = 0 \<or> vm_top cs + page_span n \<ge> 2 ^ 64 - 1")
    case True
    then show ?thesis by (auto simp: bump_os_def)
  next
    case False
    then have l: "vm_top cs + page_span n < 2 ^ 64" by auto
    then have u: "unat (of_nat (vm_top cs) :: u64) = vm_top cs" by (intro unat_of_nat_nowrap) linarith
    then have "(of_nat (vm_top cs) :: u64) \<noteq> 0" using vm_top_bounds(1) [of cs] unat_neq_0_iff [of "of_nat (vm_top cs)"] by simp
    moreover have "os_mmap bump_os cs a n f = of_nat (vm_top cs)" using False by (simp add: bump_os_def)
    moreover have "0 < n" using False by (simp add: word_neq_0_conv)
    moreover have "\<forall>x\<in>region (of_nat (vm_top cs)) (page_span n). \<not> is_mapped cs x"
      using u vm_top_bounds(3) [of cs] by fastforce
    ultimately show ?thesis using u l vm_top_bounds(2) [of cs] by (simp add: Let_def)
  qed
qed

end
