(* ===== verification/Arena.thy ===== *)
theory Arena
  imports Virtual_Memory Lockable
begin

text \<open>
  \<open>include/arena_base.h\<close> and \<open>include/arena.h\<close>: the arena obtains large blocks from the operating
  system, aligned to a caller-chosen alignment by over-sizing the request and giving the excess back,
  and hands them out front to back.

  The template parameters of \<open>Arena\<close> are the record \<open>arena_policy\<close>.  An operation that takes the lock
  of the arena returns \<open>None\<close> where it would spin for ever.  \<open>arena_inv\<close> relates an arena to the set of
  addresses it has handed out.
\<close>

datatype VirtualMemoryPolicy = DEFAULT | HUGE_PAGE

record arena_policy =
  lock_policy :: LockPolicy
  virtual_memory_policy :: VirtualMemoryPolicy
  zero_memory :: bool

record Arena =
  m_vm_page_size :: u64
  m_page_alignment :: u64
  m_cache_buffer :: u64
  m_cache_size :: u64
  m_cache_used_size :: u64
  m_arena_lock :: u32

subsection \<open>Operations\<close>

definition Arena_new :: "os \<Rightarrow> Arena" where
  "Arena_new os = \<lparr>m_vm_page_size = get_page_size os, m_page_alignment = PAGE_ALLOCATION_GRANULARITY,
     m_cache_buffer = 0, m_cache_size = 0, m_cache_used_size = 0, m_arena_lock = spin_initialise 0\<rparr>"

definition allocate_from_system :: "arena_policy \<Rightarrow> os \<Rightarrow> u64 \<Rightarrow> 'w machine_scheme \<Rightarrow> u64 \<times> 'w machine_scheme" where
  "allocate_from_system P os sz w =
     (case virtual_memory_policy P of
        DEFAULT \<Rightarrow> VirtualMemory_allocate os False (zero_memory P) sz 0 w
      | HUGE_PAGE \<Rightarrow>
          let (ret, w) = VirtualMemory_allocate os True (zero_memory P) sz 0 w
          in if ret = 0 then VirtualMemory_allocate os False (zero_memory P) sz 0 w else (ret, w))"

definition release_to_system :: "os \<Rightarrow> u64 \<Rightarrow> u64 \<Rightarrow> 'w machine_scheme \<Rightarrow> 'w machine_scheme" where
  "release_to_system os address sz w = snd (VirtualMemory_deallocate os address sz w)"

text \<open>\<open>ArenaBase::allocate_aligned\<close>; an alignment of 0 is a division by zero.\<close>

definition allocate_aligned ::
  "arena_policy \<Rightarrow> os \<Rightarrow> u64 \<Rightarrow> u64 \<Rightarrow> 'w machine_scheme \<Rightarrow> (u64 \<times> 'w machine_scheme) option" where
  "allocate_aligned P os sz alignment w =
     (let actual_size = sz + alignment;
          (buffer, w) = allocate_from_system P os actual_size w
      in if buffer = 0 then Some (0, w)
         else if alignment = 0 then None
         else let remainder = modulo buffer alignment
              in if remainder > 0
                 then let delta = alignment - remainder
                      in Some (buffer + delta, release_to_system os buffer delta w)
                 else Some (buffer + 0, release_to_system os (buffer + actual_size - alignment) alignment w))"

definition build_cache ::
  "arena_policy \<Rightarrow> os \<Rightarrow> u64 \<Rightarrow> Arena \<times> 'w machine_scheme \<Rightarrow> (bool \<times> Arena \<times> 'w machine_scheme) option" where
  "build_cache P os sz = (\<lambda>(a, w). do {
     (buffer, w) \<leftarrow> allocate_aligned P os sz (m_page_alignment a) w;
     if buffer = 0 then Some (False, a, w)
     else Some (True, a\<lparr>m_cache_buffer := buffer, m_cache_used_size := 0, m_cache_size := sz\<rparr>, w) })"

partial_function (option) release_pages :: "os \<Rightarrow> u64 \<Rightarrow> u64 \<Rightarrow> u64 \<Rightarrow> 'w machine_scheme \<Rightarrow> 'w machine_scheme option" where
  "release_pages os release_start_address release_end_address vm_page_size w =
     (if release_start_address < release_end_address
      then release_pages os (release_start_address + vm_page_size) release_end_address vm_page_size
             (release_to_system os release_start_address vm_page_size w)
      else Some w)"

definition Arena_destroy :: "os \<Rightarrow> Arena \<times> 'w machine_scheme \<Rightarrow> (Arena \<times> 'w machine_scheme) option" where
  "Arena_destroy os = (\<lambda>(a, w). do {
     w \<leftarrow> (if m_cache_size a > m_cache_used_size a
           then release_pages os (m_cache_buffer a + m_cache_used_size a) (m_cache_buffer a + m_cache_size a)
                  (m_vm_page_size a) w
           else Some w);
     Some (a\<lparr>m_cache_size := 0, m_cache_used_size := 0, m_cache_buffer := 0\<rparr>, w) })"

definition Arena_create ::
  "arena_policy \<Rightarrow> os \<Rightarrow> u64 \<Rightarrow> u64 \<Rightarrow> Arena \<times> 'w machine_scheme \<Rightarrow> (bool \<times> Arena \<times> 'w machine_scheme) option" where
  "Arena_create P os cache_capacity page_alignment = (\<lambda>(a, w).
     if is_size_a_multiple_of_page_allocation_granularity (m_page_alignment a) = False then Some (False, a, w)
     else do {
       l \<leftarrow> enter_concurrent_context (lock_policy P) (m_arena_lock a);
       let a = a\<lparr>m_arena_lock := l\<rparr>;
       let a = a\<lparr>m_page_alignment := page_alignment\<rparr>;
       (ret, a, w) \<leftarrow> build_cache P os cache_capacity (a, w);
       let a = a\<lparr>m_arena_lock := leave_concurrent_context (lock_policy P) (m_arena_lock a)\<rparr>;
       Some (ret, a, w) })"

text \<open>The two calls of \<open>allocate\<close> that replace a cache with too little room.\<close>

definition rebuild_cache ::
  "arena_policy \<Rightarrow> os \<Rightarrow> u64 \<Rightarrow> Arena \<times> 'w machine_scheme \<Rightarrow> (bool \<times> Arena \<times> 'w machine_scheme) option" where
  "rebuild_cache P os sz s = do { s \<leftarrow> Arena_destroy os s; build_cache P os sz s }"

text \<open>\<open>allocate\<close> returns without leaving the concurrent context where the cache cannot be rebuilt.\<close>

definition Arena_allocate ::
  "arena_policy \<Rightarrow> os \<Rightarrow> u64 \<Rightarrow> Arena \<times> 'w machine_scheme \<Rightarrow> (u64 \<times> Arena \<times> 'w machine_scheme) option" where
  "Arena_allocate P os sz = (\<lambda>(a, w). do {
     l \<leftarrow> enter_concurrent_context (lock_policy P) (m_arena_lock a);
     let a = a\<lparr>m_arena_lock := l\<rparr>;
     (ok, a, w) \<leftarrow>
       (if sz + m_page_alignment a > m_cache_size a - m_cache_used_size a
        then rebuild_cache P os sz (a, w)
        else Some (True, a, w));
     if \<not> ok then Some (0, a, w)
     else do {
       let ret = m_cache_buffer a + m_cache_used_size a;
       let a = a\<lparr>m_cache_used_size := m_cache_used_size a + sz\<rparr>;
       let a = a\<lparr>m_arena_lock := leave_concurrent_context (lock_policy P) (m_arena_lock a)\<rparr>;
       Some (ret, a, w) } })"

partial_function (option) lock_pages_loop ::
  "(u64 \<Rightarrow> u64 \<Rightarrow> 'w machine_scheme \<Rightarrow> bool \<times> 'w machine_scheme) \<Rightarrow> u64 \<Rightarrow> u64 \<Rightarrow> u64 \<Rightarrow> 'w machine_scheme
   \<Rightarrow> 'w machine_scheme option" where
  "lock_pages_loop op address end_address vm_page_size w =
     (if address < end_address
      then lock_pages_loop op (address + vm_page_size) end_address vm_page_size (snd (op address vm_page_size w))
      else Some w)"

definition Arena_lock_pages :: "os \<Rightarrow> Arena \<Rightarrow> 'w machine_scheme \<Rightarrow> 'w machine_scheme option" where
  "Arena_lock_pages os a w =
     lock_pages_loop (VirtualMemory_lock os) (m_cache_buffer a) (m_cache_buffer a + m_cache_size a) (m_vm_page_size a) w"

definition Arena_unlock_pages :: "os \<Rightarrow> Arena \<Rightarrow> 'w machine_scheme \<Rightarrow> 'w machine_scheme option" where
  "Arena_unlock_pages os a w =
     lock_pages_loop (VirtualMemory_unlock os) (m_cache_buffer a) (m_cache_buffer a + m_cache_size a) (m_vm_page_size a) w"

definition page_alignment :: "Arena \<Rightarrow> u64" where
  "page_alignment a = m_page_alignment a"

definition MetadataAllocator_allocate :: "os \<Rightarrow> u64 \<Rightarrow> 'w machine_scheme \<Rightarrow> u64 \<times> 'w machine_scheme" where
  "MetadataAllocator_allocate os sz w = VirtualMemory_allocate os False False sz 0 w"

definition MetadataAllocator_deallocate :: "os \<Rightarrow> u64 \<Rightarrow> u64 \<Rightarrow> 'w machine_scheme \<Rightarrow> 'w machine_scheme" where
  "MetadataAllocator_deallocate os address sz w = snd (VirtualMemory_deallocate os address sz w)"

declare release_pages.simps [code] lock_pages_loop.simps [code]

subsection \<open>Aligned blocks\<close>

text \<open>Everything mapped stays mapped with its contents, apart from a set of addresses.\<close>

definition keeps :: "nat set \<Rightarrow> 'w machine_scheme \<Rightarrow> 'w machine_scheme \<Rightarrow> bool" where
  "keeps X w w' \<longleftrightarrow> (\<exists>cs m. w' = w\<lparr>vm := cs, ram := m\<rparr>)
     \<and> (\<forall>x. is_mapped (vm w) x \<longrightarrow> x \<notin> X \<longrightarrow> is_mapped (vm w') x)
     \<and> (\<forall>x. is_mapped (vm w) (unat x) \<longrightarrow> unat x \<notin> X \<longrightarrow> ram w' x = ram w x)"

lemma keeps_refl [simp]: "keeps X w w"
  by (auto simp: keeps_def intro!: exI [of _ "vm w"] exI [of _ "ram w"])

lemma keeps_mono: "keeps X w w' \<Longrightarrow> X \<subseteq> Y \<Longrightarrow> keeps Y w w'"
  by (auto simp: keeps_def)

lemma keeps_trans:
  assumes "keeps X w w'" "keeps Y w' w''"
  shows "keeps (X \<union> Y) w w''"
proof -
  obtain cs m cs' m' where "w' = w\<lparr>vm := cs, ram := m\<rparr>" "w'' = w'\<lparr>vm := cs', ram := m'\<rparr>"
    using assms by (auto simp: keeps_def)
  then have "w'' = w\<lparr>vm := cs', ram := m'\<rparr>" by simp
  then have "\<exists>cs m. w'' = w\<lparr>vm := cs, ram := m\<rparr>" by blast
  then show ?thesis using assms by (simp add: keeps_def)
qed

text \<open>A block that was not mapped before and is now.\<close>

definition fresh_block :: "'w machine_scheme \<Rightarrow> 'w machine_scheme \<Rightarrow> u64 \<Rightarrow> nat \<Rightarrow> bool" where
  "fresh_block w w' r n \<longleftrightarrow> r \<noteq> 0 \<and> unat r + n < 2 ^ 64 \<and> keeps {} w w'
     \<and> (\<forall>x\<in>region r n. \<not> is_mapped (vm w) x \<and> is_mapped (vm w') x)"

lemma fresh_block_trans:
  "keeps {} w w' \<Longrightarrow> fresh_block w' w'' r n \<Longrightarrow> fresh_block w w'' r n"
  using keeps_trans [of "{}" w w' "{}" w''] by (auto simp: fresh_block_def keeps_def)

lemma release_keeps:
  "keeps (region a (page_span n)) w (release_to_system os a n w)" "ram (release_to_system os a n w) = ram w"
  by (auto simp: keeps_def release_to_system_def VirtualMemory_deallocate_def Let_def
      intro!: exI [of _ "ram w"])

lemma vm_allocate_fresh:
  assumes "os_ok os" "VirtualMemory_allocate os hp zb n a w = (r, w')"
  shows "(r = 0 \<and> keeps {} w w') \<or> (4096 dvd unat r \<and> fresh_block w w' r (page_span n))"
  using assms
proof (cases rule: vm_allocate_cases)
  case (fail cs)
  then have "keeps {} w w'" by (auto simp: keeps_def intro!: exI [of _ cs] exI [of _ "ram w"])
  then show ?thesis using fail(1) by simp
next
  case (ok cs m)
  have "keeps {} w w'" unfolding keeps_def
  proof (intro conjI allI impI)
    show "\<exists>cs m. w' = w\<lparr>vm := cs, ram := m\<rparr>" using ok(5) by blast
    show "is_mapped (vm w') x" if "is_mapped (vm w) x" for x using ok(5,7) that by simp
    show "ram w' x = ram w x" if "is_mapped (vm w) (unat x)" for x using ok(5,6,8) that by auto
  qed
  then show ?thesis using ok by (auto simp: fresh_block_def)
qed

lemma allocate_from_system_ok:
  assumes "os_ok os" "allocate_from_system P os n w = (r, w')"
  shows "(r = 0 \<and> keeps {} w w') \<or> (4096 dvd unat r \<and> fresh_block w w' r (page_span n))"
proof (cases "virtual_memory_policy P")
  case DEFAULT
  then have "VirtualMemory_allocate os False (zero_memory P) n 0 w = (r, w')"
    using assms(2) by (simp add: allocate_from_system_def)
  then show ?thesis by (rule vm_allocate_fresh [OF assms(1)])
next
  case HUGE_PAGE
  obtain r1 w1 where 1: "VirtualMemory_allocate os True (zero_memory P) n 0 w = (r1, w1)" by fastforce
  show ?thesis
  proof (cases "r1 = 0")
    case True
    have k: "keeps {} w w1" using vm_allocate_fresh [OF assms(1) 1] True by (auto simp: fresh_block_def)
    have "VirtualMemory_allocate os False (zero_memory P) n 0 w1 = (r, w')"
      using assms(2) HUGE_PAGE 1 True by (simp add: allocate_from_system_def)
    from vm_allocate_fresh [OF assms(1) this] show ?thesis
      using keeps_trans [OF k, of "{}" w'] fresh_block_trans [OF k, of w' r] by auto
  next
    case False
    then show ?thesis using vm_allocate_fresh [OF assms(1) 1] assms(2) HUGE_PAGE 1
      by (auto simp: allocate_from_system_def)
  qed
qed

lemma allocate_aligned_ok:
  assumes os: "os_ok os" and al: "0 < unat al" "4096 dvd unat al" and n: "4096 dvd unat n" "unat n + unat al < 2 ^ 64"
  obtains (fail) w' where "allocate_aligned P os n al w = Some (0, w')" "keeps {} w w'"
  | (ok) p w' where "allocate_aligned P os n al w = Some (p, w')" "unat al dvd unat p" "fresh_block w w' p (unat n)"
proof -
  let ?N = "n + al"
  have N: "unat ?N = unat n + unat al" using n(2) by (rule unat_add_nowrap)
  then have sp: "page_span ?N = unat ?N" "page_span al = unat al"
    using al(2) n(1) page_span_multiple [of ?N] page_span_multiple [of al] by simp_all
  obtain b w1 where b: "allocate_from_system P os ?N w = (b, w1)" by fastforce
  from allocate_from_system_ok [OF os b] consider "b = 0" "keeps {} w w1"
    | (map) "4096 dvd unat b" "fresh_block w w1 b (unat ?N)" using sp by auto
  then show ?thesis
  proof cases
    case 1
    then show ?thesis using fail b by (simp add: allocate_aligned_def)
  next
    case map
    have f: "b \<noteq> 0" "unat b + unat n + unat al < 2 ^ 64" "keeps {} w w1"
      "\<forall>x\<in>region b (unat n + unat al). \<not> is_mapped (vm w) x \<and> is_mapped (vm w1) x"
      using map(2) N by (auto simp: fresh_block_def)
    have alz: "al \<noteq> 0" using al(1) unat_neq_0_iff by blast
    have sub: "fresh_block w (release_to_system os a k w1) p (unat n)"
      if p: "unat b \<le> unat p" "unat p + unat n \<le> unat b + (unat n + unat al)" "p \<noteq> 0"
        and rel: "region a (page_span k) \<subseteq> region b (unat n + unat al)" "region a (page_span k) \<inter> region p (unat n) = {}"
      for a k p
    proof -
      have "keeps {} w (release_to_system os a k w1)"
        using keeps_trans [OF f(3) release_keeps(1) [of a k w1 os]] rel(1) f(4) unfolding keeps_def
        by (auto simp del: in_region_iff)
      moreover have "is_mapped (vm (release_to_system os a k w1)) x" if "x \<in> region p (unat n)" for x
        using release_keeps(1) [of a k w1 os] rel(2) that f(4) p unfolding keeps_def by (force simp: region_def)
      moreover have "\<not> is_mapped (vm w) x" if "x \<in> region p (unat n)" for x using that f(4) p by auto
      ultimately show ?thesis using p f(2) by (simp add: fresh_block_def)
    qed
    let ?r = "modulo b al"
    have r: "unat ?r = unat b mod unat al" by (simp add: modulo_eq_mod unat_mod)
    show ?thesis
    proof (cases "?r > 0")
      case True
      let ?d = "al - ?r"
      have lt: "unat ?r < unat al" "0 < unat ?r" using r al(1) True by (simp_all add: word_less_nat_alt)
      then have d: "unat ?d = unat al - unat ?r" by (simp add: unat_sub_nowrap)
      have "4096 dvd unat ?d" using d r al(2) map(1) by (simp add: dvd_diff_nat dvd_mod)
      then have d4: "page_span ?d = unat ?d" by (rule page_span_multiple)
      have p: "unat (b + ?d) = unat b + unat ?d" using d f(2) by (intro unat_add_nowrap) simp
      have "unat b + unat ?d = (unat b div unat al + 1) * unat al"
        using d r lt div_mult_mod_eq [of "unat b" "unat al"] unfolding add_mult_distrib by linarith
      then have dv: "unat al dvd unat (b + ?d)" using p by simp
      have "allocate_aligned P os n al w = Some (b + ?d, release_to_system os b ?d w1)"
        using b f(1) alz True by (simp add: allocate_aligned_def Let_def)
      moreover have "fresh_block w (release_to_system os b ?d w1) (b + ?d) (unat n)"
        using p d d4 lt f(1) by (intro sub) (auto simp: region_def unat_gt_0 [symmetric])
      ultimately show ?thesis using ok dv by blast
    next
      case False
      then have z: "unat b mod unat al = 0" using r by (simp add: word_less_nat_alt)
      have e: "b + ?N - al = b + n" by simp
      have p: "unat (b + n) = unat b + unat n" using f(2) by (intro unat_add_nowrap) simp
      have "allocate_aligned P os n al w = Some (b, release_to_system os (b + n) al w1)"
        using b f(1) alz False by (simp add: allocate_aligned_def Let_def e)
      moreover have "fresh_block w (release_to_system os (b + n) al w1) b (unat n)"
        using p sp(2) f(1) by (intro sub) (auto simp: region_def)
      ultimately show ?thesis using ok z by (auto simp: dvd_eq_mod_eq_0)
    qed
  qed
qed

subsection \<open>Releasing the unused part of the cache\<close>

lemma release_pages_ok:
  assumes "unat e = unat s + k * 4096"
  obtains w' where "release_pages os s e 4096 w = Some w'" "keeps {unat s..<unat e} w w'" "ram w' = ram w"
  using assms
proof (induction k arbitrary: s w thesis)
  case 0
  then show ?case using 0(1) [of w] by (simp add: release_pages.simps word_less_nat_alt)
next
  case (Suc k)
  let ?w = "release_to_system os s 4096 w"
  have s: "unat (s + 4096) = unat s + 4096"
    using Suc.prems(2) unat_lt_2_64 [of e] by (subst unat_add_nowrap) simp_all
  obtain w' where w': "release_pages os (s + 4096) e 4096 ?w = Some w'"
    "keeps {unat (s + 4096)..<unat e} ?w w'" "ram w' = ram ?w"
    using Suc.IH [of "s + 4096" ?w] Suc.prems(2) s by auto
  have "keeps {unat s..<unat e} w w'"
    by (rule keeps_mono [OF keeps_trans [OF release_keeps(1) w'(2)]])
      (use s Suc.prems(2) in \<open>auto simp: region_def page_span_def\<close>)
  moreover have "release_pages os s e 4096 w = Some w'"
    using w'(1) Suc.prems(2) by (subst release_pages.simps) (simp add: word_less_nat_alt)
  ultimately show ?case using Suc.prems(1) w'(3) release_keeps(2) by metis
qed

subsection \<open>The invariant of an arena\<close>

definition spare :: "Arena \<Rightarrow> nat set" where
  "spare a = {unat (m_cache_buffer a) + unat (m_cache_used_size a)..<unat (m_cache_buffer a) + unat (m_cache_size a)}"

text \<open>\<open>arena_inv s H\<close>: the arena is unlocked, its cache is a page-aligned block whose unused part is
  mapped, and the addresses \<open>H\<close> it has handed out are mapped and disjoint from that part.\<close>

definition arena_geometry :: "Arena \<Rightarrow> bool" where
  "arena_geometry a \<longleftrightarrow> m_arena_lock a = 0 \<and> m_vm_page_size a = 4096
     \<and> 0 < unat (m_page_alignment a) \<and> 4096 dvd unat (m_page_alignment a)
     \<and> m_cache_used_size a \<le> m_cache_size a \<and> unat (m_cache_buffer a) + unat (m_cache_size a) < 2 ^ 64
     \<and> (m_cache_buffer a = 0 \<longrightarrow> m_cache_size a = 0) \<and> unat (m_page_alignment a) dvd unat (m_cache_buffer a)
     \<and> 4096 dvd unat (m_cache_size a) \<and> 4096 dvd unat (m_cache_used_size a)"

definition arena_inv :: "Arena \<times> 'w machine_scheme \<Rightarrow> nat set \<Rightarrow> bool" where
  "arena_inv = (\<lambda>(a, w) H. arena_geometry a \<and> (\<forall>x\<in>spare a \<union> H. is_mapped (vm w) x) \<and> spare a \<inter> H = {})"

definition arena_fit :: "u64 \<Rightarrow> Arena \<times> 'w machine_scheme \<Rightarrow> bool" where
  "arena_fit sz = (\<lambda>(a, w). 4096 dvd unat sz \<and> unat sz + unat (m_page_alignment a) < 2 ^ 64)"

lemma arena_new_inv: "os_ok os \<Longrightarrow> arena_inv (Arena_new os, w) {}"
  by (simp add: arena_inv_def arena_geometry_def Arena_new_def spare_def spin_initialise_def get_page_size_def os_ok_def
      PAGE_ALLOCATION_GRANULARITY_def)

lemma arena_destroy_ok:
  assumes "arena_geometry (a\<lparr>m_arena_lock := 0\<rparr>)"
  obtains w' where "Arena_destroy os (a, w) = Some (a\<lparr>m_cache_size := 0, m_cache_used_size := 0, m_cache_buffer := 0\<rparr>, w')"
    "keeps (spare a) w w'" "ram w' = ram w"
proof (cases "m_cache_size a > m_cache_used_size a")
  case True
  have g: "unat (m_cache_used_size a) \<le> unat (m_cache_size a)" "unat (m_cache_buffer a) + unat (m_cache_size a) < 2 ^ 64"
    "4096 dvd unat (m_cache_size a)" "4096 dvd unat (m_cache_used_size a)" "m_vm_page_size a = 4096"
    using assms by (auto simp: arena_geometry_def word_le_nat_alt)
  have s: "unat (m_cache_buffer a + m_cache_used_size a) = unat (m_cache_buffer a) + unat (m_cache_used_size a)"
    "unat (m_cache_buffer a + m_cache_size a) = unat (m_cache_buffer a) + unat (m_cache_size a)"
    using g by (auto intro: unat_add_nowrap)
  obtain k where "unat (m_cache_size a) - unat (m_cache_used_size a) = k * 4096"
    using g(3,4) by (metis dvd_diff_nat dvd_def mult.commute)
  then have "unat (m_cache_buffer a + m_cache_size a) = unat (m_cache_buffer a + m_cache_used_size a) + k * 4096"
    using s g(1) by simp
  from release_pages_ok [OF this, of os w] obtain w' where
    "release_pages os (m_cache_buffer a + m_cache_used_size a) (m_cache_buffer a + m_cache_size a) 4096 w = Some w'"
    "keeps (spare a) w w'" "ram w' = ram w" using s by (auto simp: spare_def)
  then show ?thesis using that True g(5) by (simp add: Arena_destroy_def)
next
  case False
  then show ?thesis using that by (simp add: Arena_destroy_def)
qed

lemma arena_rebuild_ok:
  assumes os: "os_ok os" and g: "arena_geometry (a\<lparr>m_arena_lock := 0\<rparr>)"
    and n: "4096 dvd unat n" "unat n + unat (m_page_alignment a) < 2 ^ 64"
  obtains (fail) w' b where "rebuild_cache P os n (a, w) = Some (False, b, w')"
      "b = a\<lparr>m_cache_size := 0, m_cache_used_size := 0, m_cache_buffer := 0\<rparr>" "keeps (spare a) w w'"
  | (ok) p w' b where "rebuild_cache P os n (a, w) = Some (True, b, w')"
      "b = a\<lparr>m_cache_size := n, m_cache_used_size := 0, m_cache_buffer := p\<rparr>" "keeps (spare a) w w'"
      "p \<noteq> 0" "unat p + unat n < 2 ^ 64" "unat (m_page_alignment a) dvd unat p"
      "\<And>x. x \<in> region p (unat n) \<Longrightarrow> is_mapped (vm w') x"
      "\<And>x. x \<in> region p (unat n) \<Longrightarrow> is_mapped (vm w) x \<Longrightarrow> x \<in> spare a"
proof -
  let ?a0 = "a\<lparr>m_cache_size := 0, m_cache_used_size := 0, m_cache_buffer := 0\<rparr>" and ?al = "m_page_alignment a"
  obtain w1 where d: "Arena_destroy os (a, w) = Some (?a0, w1)" "keeps (spare a) w w1" "ram w1 = ram w"
    by (rule arena_destroy_ok [OF g])
  have al: "0 < unat ?al" "4096 dvd unat ?al" using g by (auto simp: arena_geometry_def)
  from os al n show ?thesis
  proof (cases rule: allocate_aligned_ok [where P = P and w = w1])
    case (fail w')
    have "keeps (spare a) w w'" using keeps_trans [OF d(2) fail(2)] by simp
    then show ?thesis using that(1) d(1) fail(1) by (simp add: build_cache_def rebuild_cache_def)
  next
    case (ok p w')
    have k: "keeps (spare a) w w'" "p \<noteq> 0" "unat p + unat n < 2 ^ 64"
      "\<forall>x\<in>region p (unat n). \<not> is_mapped (vm w1) x \<and> is_mapped (vm w') x"
      using ok(3) keeps_trans [OF d(2), of "{}" w'] by (simp_all add: fresh_block_def)
    have "x \<in> spare a" if "x \<in> region p (unat n)" "is_mapped (vm w) x" for x
      using that k(4) d(2) unfolding keeps_def by blast
    note sub = this
    show ?thesis
    proof (rule that(2) [of "a\<lparr>m_cache_size := n, m_cache_used_size := 0, m_cache_buffer := p\<rparr>" w' p])
      show "rebuild_cache P os n (a, w)
        = Some (True, a\<lparr>m_cache_size := n, m_cache_used_size := 0, m_cache_buffer := p\<rparr>, w')"
        using d(1) ok(1) k(2) by (simp add: build_cache_def rebuild_cache_def)
    qed (use sub k ok(2) in blast)+
  qed
qed

subsection \<open>Handing out blocks\<close>

text \<open>What \<open>allocate\<close> does once the cache \<open>a\<close> has room.\<close>

definition take_cached :: "u64 \<Rightarrow> Arena \<Rightarrow> u64 \<times> Arena" where
  "take_cached n a = (m_cache_buffer a + m_cache_used_size a,
     a\<lparr>m_cache_used_size := m_cache_used_size a + n, m_arena_lock := 0\<rparr>)"

lemma take_cached_ok:
  assumes "arena_geometry (a\<lparr>m_arena_lock := 0\<rparr>)" "4096 dvd unat n" "m_cache_buffer a \<noteq> 0"
    "unat (m_cache_used_size a) + unat n \<le> unat (m_cache_size a)" "take_cached n a = (p, a')"
  shows "arena_geometry a'" "unat p = unat (m_cache_buffer a) + unat (m_cache_used_size a)" "p \<noteq> 0"
    "spare a = spare a' \<union> region p (unat n)" "spare a' \<inter> region p (unat n) = {}"
    "m_page_alignment a' = m_page_alignment a" "unat p + unat n < 2 ^ 64"
    "unat (m_cache_used_size a') = unat (m_cache_used_size a) + unat n" "4096 dvd unat p"
proof -
  have g: "unat (m_cache_used_size a) \<le> unat (m_cache_size a)" "unat (m_cache_buffer a) + unat (m_cache_size a) < 2 ^ 64"
    using assms(1) by (auto simp: arena_geometry_def word_le_nat_alt)
  have a': "p = m_cache_buffer a + m_cache_used_size a" "a' = a\<lparr>m_cache_used_size := m_cache_used_size a + n, m_arena_lock := 0\<rparr>"
    using assms(5) by (auto simp: take_cached_def)
  have u: "unat (m_cache_used_size a + n) = unat (m_cache_used_size a) + unat n"
    using assms(4) unat_lt_2_64 [of "m_cache_size a"] by (intro unat_add_nowrap) simp
  show p: "unat p = unat (m_cache_buffer a) + unat (m_cache_used_size a)"
    using a'(1) g by (simp add: unat_add_nowrap)
  have "0 < unat (m_cache_buffer a)" using assms(3) by (simp add: unat_gt_0)
  then show "p \<noteq> 0" using p by (auto simp: unat_gt_0 [symmetric])
  show "arena_geometry a'" using assms(1,2,4) a'(2) u by (simp add: arena_geometry_def word_le_nat_alt)
  show "spare a = spare a' \<union> region p (unat n)" "spare a' \<inter> region p (unat n) = {}"
    using a'(2) u p assms(4) by (auto simp: spare_def region_def)
  show "m_page_alignment a' = m_page_alignment a" "unat p + unat n < 2 ^ 64"
    "unat (m_cache_used_size a') = unat (m_cache_used_size a) + unat n" using a' u p assms(4) g by simp_all
  have "4096 dvd unat (m_cache_buffer a)" "4096 dvd unat (m_cache_used_size a)"
    using assms(1) by (auto simp: arena_geometry_def intro: dvd_trans)
  then show "4096 dvd unat p" using p by simp
qed

lemma take_cached_inv:
  assumes "arena_geometry (b\<lparr>m_arena_lock := 0\<rparr>)" "4096 dvd unat n" "m_cache_buffer b \<noteq> 0"
    "unat (m_cache_used_size b) + unat n \<le> unat (m_cache_size b)" "take_cached n b = (p, a')"
    and "\<And>x. x \<in> spare b \<union> H \<Longrightarrow> is_mapped (vm w) x" "spare b \<inter> H = {}"
  shows "arena_inv (a', w) (H \<union> region p (unat n))" "region p (unat n) \<inter> H = {}"
proof -
  note tk = take_cached_ok [OF assms(1-5)]
  show "region p (unat n) \<inter> H = {}" using assms(7) tk(4) by blast
  have "\<forall>x\<in>spare a' \<union> (H \<union> region p (unat n)). is_mapped (vm w) x" using assms(6) tk(4) by blast
  moreover have "spare a' \<inter> (H \<union> region p (unat n)) = {}" using assms(7) tk(4,5) by blast
  ultimately show "arena_inv (a', w) (H \<union> region p (unat n))" using tk(1) by (simp add: arena_inv_def)
qed

lemma arena_allocate_cases:
  assumes os: "os_ok os" and inv: "arena_inv (a, w) H" and fit: "arena_fit n (a, w)"
  obtains (fail) a' w' where "Arena_allocate P os n (a, w) = Some (0, a', w')" "keeps (spare a) w w'"
      "m_arena_lock a' = (if lock_policy P = NO_LOCK then 0 else 1)"
  | (ok) p a' w' where "Arena_allocate P os n (a, w) = Some (p, a', w')" "p \<noteq> 0" "keeps (spare a) w w'"
      "arena_inv (a', w') (H \<union> region p (unat n))" "region p (unat n) \<inter> H = {}" "unat p + unat n < 2 ^ 64"
      "4096 dvd unat p" "m_page_alignment a' = m_page_alignment a"
      "unat (m_page_alignment a) dvd unat (m_cache_used_size a) \<Longrightarrow> unat (m_page_alignment a) dvd unat p"
      "unat (m_page_alignment a) dvd unat (m_cache_used_size a) \<Longrightarrow> unat (m_page_alignment a) dvd unat n
        \<Longrightarrow> unat (m_page_alignment a) dvd unat (m_cache_used_size a')"
proof -
  let ?al = "m_page_alignment a" and ?l = "if lock_policy P = NO_LOCK then 0 else 1 :: u32"
  let ?a = "a\<lparr>m_arena_lock := ?l\<rparr>"
  have g: "arena_geometry a" and mp: "\<And>x. x \<in> spare a \<union> H \<Longrightarrow> is_mapped (vm w) x" and dj: "spare a \<inter> H = {}"
    using inv by (auto simp: arena_inv_def)
  have g0: "m_arena_lock a = 0" "arena_geometry (?a\<lparr>m_arena_lock := 0\<rparr>)" "spare ?a = spare a"
    using g by (auto simp: arena_geometry_def spare_def)
  have n: "4096 dvd unat n" "unat n + unat ?al < 2 ^ 64" using fit by (auto simp: arena_fit_def)
  have lv: "leave_concurrent_context (lock_policy P) ?l = 0" by simp
  show ?thesis
  proof (cases "n + ?al > m_cache_size a - m_cache_used_size a")
    case True
    have n': "unat n + unat (m_page_alignment ?a) < 2 ^ 64" using n(2) by simp
    from os g0(2) n(1) n' show ?thesis
    proof (cases rule: arena_rebuild_ok [where P = P and w = w])
      case fail': (fail w' b)
      have "Arena_allocate P os n (a, w) = Some (0, b, w')"
        using True fail'(1) g0(1) by (simp add: Arena_allocate_def split del: if_split)
      then show ?thesis using fail fail'(2,3) g0(3) by auto
    next
      case ok': (ok p w' b)
      have gb: "arena_geometry (b\<lparr>m_arena_lock := 0\<rparr>)" "m_cache_buffer b \<noteq> 0"
        "unat (m_cache_used_size b) + unat n \<le> unat (m_cache_size b)"
        using g ok'(2,4-6) n(1) by (auto simp: arena_geometry_def)
      obtain q a' where t: "take_cached n b = (q, a')" by fastforce
      note tk = take_cached_ok [OF gb(1) n(1) gb(2,3) t]
      have q: "q = p" using tk(2) ok'(2) by (simp add: unat_eq_iff_u64)
      have e: "Arena_allocate P os n (a, w) = Some (p, a', w')"
        using True ok'(1,2) g0(1) t q lv by (auto simp: Arena_allocate_def take_cached_def split del: if_split)
      have sp: "spare b = region p (unat n)" using ok'(2) by (auto simp: spare_def region_def)
      have m': "is_mapped (vm w') x" if "x \<in> spare b \<union> H" for x
        using that sp ok'(3,7) mp dj g0(3) unfolding keeps_def by blast
      have d': "spare b \<inter> H = {}" using sp ok'(8) mp dj g0(3) by blast
      note ti = take_cached_inv [OF gb(1) n(1) gb(2,3) t m' d']
      show ?thesis
        by (rule ok [OF e]) (use ok' ti tk q g0(3) in simp_all)
    qed
  next
    case False
    have u: "unat (m_cache_used_size a) \<le> unat (m_cache_size a)" using g by (simp add: arena_geometry_def word_le_nat_alt)
    have "unat (n + ?al) = unat n + unat ?al" using n(2) by (rule unat_add_nowrap)
    then have r: "unat n + unat ?al \<le> unat (m_cache_size a) - unat (m_cache_used_size a)"
      using False u by (simp add: word_less_nat_alt unat_sub_nowrap)
    moreover have "0 < unat ?al" using g by (simp add: arena_geometry_def)
    ultimately have ga: "m_cache_buffer ?a \<noteq> 0" "unat (m_cache_used_size ?a) + unat n \<le> unat (m_cache_size ?a)"
      using g u by (auto simp: arena_geometry_def)
    obtain p a' where t: "take_cached n ?a = (p, a')" by fastforce
    note tk = take_cached_ok [OF g0(2) n(1) ga t] and ti = take_cached_inv [OF g0(2) n(1) ga t, unfolded g0(3), OF mp dj]
    have e: "Arena_allocate P os n (a, w) = Some (p, a', w)"
      using False g0(1) t lv by (simp add: Arena_allocate_def take_cached_def)
    have "unat ?al dvd unat (m_cache_buffer a)" using g by (simp add: arena_geometry_def)
    then show ?thesis by (intro ok [OF e]) (use tk ti in simp_all)
  qed
qed

lemma arena_release_inv:
  assumes "arena_inv (a, w) H" "region p (unat n) \<subseteq> H" "4096 dvd unat n"
  shows "arena_inv (a, release_to_system os p n w) (H - region p (unat n))"
  using assms release_keeps(1) [of p n w os] page_span_multiple [OF assms(3)]
  unfolding arena_inv_def keeps_def by (auto simp del: in_region_iff)

subsection \<open>The contract of a block source\<close>

text \<open>What the owner of a block source (a segment, a heap) relies on: blocks are fresh, keep the
  contents of everything handed out, and may be given back.\<close>

type_synonym 's owner_state = "'s \<times> (u64 \<times> u64) list"

inductive owner_step ::
  "(u64 \<Rightarrow> 's \<Rightarrow> (u64 \<times> 's) option) \<Rightarrow> (u64 \<Rightarrow> u64 \<Rightarrow> 's \<Rightarrow> 's) \<Rightarrow> (u64 \<Rightarrow> 's \<Rightarrow> bool)
   \<Rightarrow> 's owner_state \<Rightarrow> 's owner_state \<Rightarrow> bool"
  for alloc release fit where
  obtain_block: "fit n s \<Longrightarrow> alloc n s = Some (p, s') \<Longrightarrow> p \<noteq> 0
    \<Longrightarrow> owner_step alloc release fit (s, bs) (s', (p, n) # bs)"
| return_block: "4096 dvd unat n \<Longrightarrow> owner_step alloc release fit (s, bs @ (p, n) # cs) (release p n s, bs @ cs)"

inductive_cases owner_stepE: "owner_step alloc release fit c c'"

definition block_set :: "(u64 \<times> u64) list \<Rightarrow> nat set" where
  "block_set bs = (\<Union>(p, n)\<in>set bs. region p (unat n))"

definition disjoint_blocks :: "(u64 \<times> u64) list \<Rightarrow> bool" where
  "disjoint_blocks bs \<longleftrightarrow> sorted_wrt (\<lambda>(p, n) (q, k). region p (unat n) \<inter> region q (unat k) = {}) bs"

lemma block_set_simps [simp]:
  "block_set [] = {}" "block_set ((p, n) # bs) = region p (unat n) \<union> block_set bs"
  "block_set (bs @ cs) = block_set bs \<union> block_set cs"
  by (auto simp: block_set_def)

lemma disjoint_blocks_Cons:
  "disjoint_blocks ((p, n) # bs) \<longleftrightarrow> region p (unat n) \<inter> block_set bs = {} \<and> disjoint_blocks bs"
  by (auto simp: disjoint_blocks_def block_set_def split: prod.splits)

lemma disjoint_blocks_append:
  "disjoint_blocks (bs @ (p, n) # cs) \<longleftrightarrow>
     region p (unat n) \<inter> (block_set bs \<union> block_set cs) = {} \<and> disjoint_blocks (bs @ cs)"
proof (induction bs)
  case Nil
  then show ?case by (simp add: disjoint_blocks_Cons)
next
  case (Cons b bs)
  obtain q k where "b = (q, k)" by (cases b)
  then show ?case using Cons by (auto simp: disjoint_blocks_Cons)
qed

locale block_source =
  fixes inv :: "'s \<Rightarrow> nat set \<Rightarrow> bool"
    and alloc :: "u64 \<Rightarrow> 's \<Rightarrow> (u64 \<times> 's) option"
    and release :: "u64 \<Rightarrow> u64 \<Rightarrow> 's \<Rightarrow> 's"
    and fit :: "u64 \<Rightarrow> 's \<Rightarrow> bool"
    and content :: "'s \<Rightarrow> mem"
  assumes alloc_total: "inv s H \<Longrightarrow> fit n s \<Longrightarrow> \<exists>p s'. alloc n s = Some (p, s')"
    and alloc_block: "inv s H \<Longrightarrow> fit n s \<Longrightarrow> alloc n s = Some (p, s') \<Longrightarrow> p \<noteq> 0
      \<Longrightarrow> region p (unat n) \<inter> H = {} \<and> unat p + unat n < 2 ^ 64 \<and> 4096 dvd unat p
        \<and> inv s' (H \<union> region p (unat n))"
    and alloc_content: "inv s H \<Longrightarrow> fit n s \<Longrightarrow> alloc n s = Some (p, s') \<Longrightarrow> unat x \<in> H
      \<Longrightarrow> content s' x = content s x"
    and release_block: "inv s H \<Longrightarrow> region p (unat n) \<subseteq> H \<Longrightarrow> 4096 dvd unat n
      \<Longrightarrow> inv (release p n s) (H - region p (unat n))"
    and release_content: "content (release p n s) = content s"
begin

lemma owner_step_ok:
  assumes "owner_step alloc release fit c c'" "inv (fst c) (block_set (snd c))" "disjoint_blocks (snd c)"
  shows "inv (fst c') (block_set (snd c')) \<and> disjoint_blocks (snd c')"
  using assms(1)
proof cases
  case (obtain_block n s p s' bs)
  then show ?thesis using alloc_block [of s "block_set bs" n p s'] assms(2,3)
    by (auto simp: disjoint_blocks_Cons Un_commute)
next
  case (return_block n s bs p cs)
  have d: "region p (unat n) \<inter> (block_set bs \<union> block_set cs) = {}" "disjoint_blocks (bs @ cs)"
    using assms(3) return_block by (simp_all add: disjoint_blocks_append)
  then have "block_set (bs @ (p, n) # cs) - region p (unat n) = block_set (bs @ cs)" by auto
  then show ?thesis using release_block [of s "block_set (bs @ (p, n) # cs)" p n] assms(2) return_block d(2) by auto
qed

lemma owner_run_ok:
  assumes "(owner_step alloc release fit)\<^sup>*\<^sup>* (s, []) c" "inv s {}"
  shows "inv (fst c) (block_set (snd c)) \<and> disjoint_blocks (snd c)"
  using assms(1)
proof (induction rule: rtranclp_induct)
  case base
  then show ?case using assms(2) by (simp add: disjoint_blocks_def)
next
  case (step c c')
  then show ?case using owner_step_ok by blast
qed

lemma owner_content:
  assumes "(owner_step alloc release fit)\<^sup>*\<^sup>* (s, []) c" "inv s {}" "owner_step alloc release fit c c'"
    "unat x \<in> block_set (snd c)"
  shows "content (fst c') x = content (fst c) x"
  using assms(3)
proof cases
  case (obtain_block n s p s' bs)
  then show ?thesis using alloc_content [of s "block_set bs" n p s' x] owner_run_ok [OF assms(1,2)] assms(4) by simp
qed (simp add: release_content)

end

definition Arena_release :: "os \<Rightarrow> u64 \<Rightarrow> u64 \<Rightarrow> Arena \<times> 'w machine_scheme \<Rightarrow> Arena \<times> 'w machine_scheme" where
  "Arena_release os address sz = (\<lambda>(a, w). (a, release_to_system os address sz w))"

interpretation arena: block_source "\<lambda>s H. os_ok os \<and> arena_inv s H" "Arena_allocate P os" "Arena_release os"
  arena_fit "\<lambda>(a, w). ram w" for os P
proof (unfold_locales, goal_cases)
  case (1 s H n)
  obtain a w where s: "s = (a, w)" by (cases s)
  from 1 have "os_ok os" "arena_inv (a, w) H" "arena_fit n (a, w)" using s by auto
  then show ?case using s by (cases rule: arena_allocate_cases [where P = P]) auto
next
  case (2 s H n p s')
  obtain a w where s: "s = (a, w)" by (cases s)
  from 2 have "os_ok os" "arena_inv (a, w) H" "arena_fit n (a, w)" using s by auto
  then show ?case using s 2 by (cases rule: arena_allocate_cases [where P = P]) auto
next
  case (3 s H n p s' x)
  obtain a w where s: "s = (a, w)" by (cases s)
  from 3 have i: "os_ok os" "arena_inv (a, w) H" "arena_fit n (a, w)" using s by auto
  have m: "is_mapped (vm w) (unat x)" "unat x \<notin> spare a" using i(2) 3(4) by (auto simp: arena_inv_def)
  from i show ?case using s 3(3) m by (cases rule: arena_allocate_cases [where P = P]) (auto simp: keeps_def)
next
  case (4 s H p n)
  then show ?case using arena_release_inv by (cases s) (auto simp: Arena_release_def)
next
  case (5 p n s)
  then show ?case by (cases s) (simp add: Arena_release_def release_keeps(2))
qed

end
