(* ===== verification/Arena_Properties.thy ===== *)
theory Arena_Properties
  imports Arena
begin

text \<open>
  The properties of the arena, with a concrete arena on the bump operating system for the witnesses.
\<close>

subsection \<open>Properties\<close>

text \<open>A concrete arena for the witnesses: the default policies on the bump operating system.\<close>

definition example_policy :: arena_policy where
  "example_policy = \<lparr>lock_policy = USERSPACE_LOCK, virtual_memory_policy = DEFAULT, zero_memory = False\<rparr>"

definition blank_machine :: machine where
  "blank_machine = \<lparr>vm = [], ram = \<lambda>_. 0\<rparr>"

definition example_arena :: "Arena \<times> machine" where
  "example_arena = (Arena_new bump_os, blank_machine)"

definition example_block :: "Arena \<times> machine" where
  "example_block = snd (the (Arena_allocate example_policy bump_os 8192 example_arena))"

lemma example_arena_inv: "arena_inv example_arena {}"
  unfolding example_arena_def by (rule arena_new_inv [OF bump_os_ok])

lemma example_allocate:
  "Arena_allocate example_policy bump_os 8192 example_arena = Some (65536, example_block)"
  "arena_fit 8192 example_arena"
proof -
  have "\<exists>p s. Arena_allocate example_policy bump_os 8192 example_arena = Some (p, s)"
    using arena.alloc_total [of bump_os example_arena "{}" 8192] bump_os_ok example_arena_inv
    by (simp add: arena_fit_def example_arena_def Arena_new_def PAGE_ALLOCATION_GRANULARITY_def)
  moreover have "fst (the (Arena_allocate example_policy bump_os 8192 example_arena)) = 65536" by code_simp
  ultimately show "Arena_allocate example_policy bump_os 8192 example_arena = Some (65536, example_block)"
    by (auto simp: example_block_def)
  show "arena_fit 8192 example_arena" by code_simp
qed

lemma example_owner:
  "(owner_step (Arena_allocate example_policy bump_os) (Arena_release bump_os) arena_fit)\<^sup>*\<^sup>*
     (example_arena, []) (example_block, [(65536, 8192)])"
  using owner_step.obtain_block [of arena_fit 8192 example_arena "Arena_allocate example_policy bump_os",
      OF example_allocate(2,1)] by (intro r_into_rtranclp) simp

text \<open>C19: Whatever an owner obtains from a new arena and gives back to it, the blocks it holds are
  pairwise disjoint and every byte of them is mapped, and neither obtaining nor returning a block changes
  the contents of the blocks it holds, for every operating system that behaves as documented.\<close>

theorem arena_blocks_safe:
  assumes "os_ok os"
    and "(owner_step (Arena_allocate P os) (Arena_release os) arena_fit)\<^sup>*\<^sup>* ((Arena_new os, w), []) ((a, w'), bs)"
  shows "disjoint_blocks bs \<and> (\<forall>x\<in>block_set bs. is_mapped (vm w') x)
    \<and> (\<forall>a' w'' bs' x. owner_step (Arena_allocate P os) (Arena_release os) arena_fit ((a, w'), bs) ((a', w''), bs')
         \<longrightarrow> unat x \<in> block_set bs \<longrightarrow> ram w'' x = ram w' x)"
proof -
  have i: "os_ok os \<and> arena_inv (Arena_new os, w) {}" using arena_new_inv [OF assms(1)] assms(1) by blast
  show ?thesis using arena.owner_run_ok [OF assms(2) i] arena.owner_content [OF assms(2) i]
    by (fastforce simp: arena_inv_def)
qed

theorem arena_blocks_safe_witness:
  "disjoint_blocks [(65536, 8192)] \<and> block_set [(65536, 8192)] \<subseteq> {x. is_mapped (vm (snd example_block)) x}"
proof -
  obtain a w' where b: "example_block = (a, w')" by (cases example_block)
  show ?thesis using arena_blocks_safe [OF bump_os_ok example_owner [unfolded example_arena_def b]]
    unfolding b snd_conv by blast
qed

text \<open>An arena whose blocks have been multiples of the page alignment hands out blocks that are
  aligned to it, so that the header of a logical page can be found by masking an address in the page.\<close>

theorem arena_block_aligned:
  assumes "os_ok os" "arena_inv (a, w) H" "arena_fit n (a, w)"
    "unat (m_page_alignment a) dvd unat (m_cache_used_size a)" "unat (m_page_alignment a) dvd unat n"
    "Arena_allocate P os n (a, w) = Some (p, a', w')" "p \<noteq> 0"
  shows "unat (m_page_alignment a) dvd unat p \<and> m_page_alignment a' = m_page_alignment a
    \<and> unat (m_page_alignment a') dvd unat (m_cache_used_size a')"
  using assms(1-3)
proof (cases rule: arena_allocate_cases [where P = P])
  case (ok q b w'')
  then show ?thesis using assms(4-6) by simp
qed (use assms(6,7) in simp)

theorem arena_block_aligned_witness:
  "4096 dvd unat (65536 :: u64) \<and> m_page_alignment (fst example_block) = 4096"
proof -
  obtain a w' where b: "example_block = (a, w')" by (cases example_block)
  show ?thesis
    using arena_block_aligned [OF bump_os_ok example_arena_inv [unfolded example_arena_def]
        example_allocate(2) [unfolded example_arena_def] _ _ example_allocate(1) [unfolded example_arena_def b]]
    by (simp add: b Arena_new_def PAGE_ALLOCATION_GRANULARITY_def)
qed

text \<open>C31: An allocation that finds no memory leaves the lock of the arena set: after it, every further
  allocation from the arena spins for ever.\<close>

theorem arena_failed_allocation_blocks:
  assumes "os_ok os" "arena_inv (a, w) H" "arena_fit n (a, w)" "lock_policy P \<noteq> NO_LOCK"
    "Arena_allocate P os n (a, w) = Some (0, a', w')"
  shows "Arena_allocate P os k (a', w'') = None"
  using assms(1-3)
proof (cases rule: arena_allocate_cases [where P = P])
  case (fail b w')
  then have "m_arena_lock a' = 1" using assms(4,5) by simp
  then show ?thesis using assms(4) by (cases "lock_policy P") (simp_all add: Arena_allocate_def)
qed (use assms(5) in simp)

theorem arena_failed_allocation_blocks_witness:
  "Arena_allocate example_policy bump_os 4096
     (snd (the (Arena_allocate example_policy bump_os (2 ^ 64 - 8192) example_arena))) = None"
proof -
  have f: "arena_fit (2 ^ 64 - 8192) example_arena" by code_simp
  have "\<exists>p s. Arena_allocate example_policy bump_os (2 ^ 64 - 8192) example_arena = Some (p, s)"
    using arena.alloc_total bump_os_ok example_arena_inv f by blast
  moreover have "fst (the (Arena_allocate example_policy bump_os (2 ^ 64 - 8192) example_arena)) = 0" by code_simp
  ultimately obtain a w where r: "Arena_allocate example_policy bump_os (2 ^ 64 - 8192) example_arena = Some (0, a, w)"
    by (metis fst_conv option.sel prod.collapse)
  obtain b v where e: "example_arena = (b, v)" by (cases example_arena)
  have "lock_policy example_policy \<noteq> NO_LOCK" by (simp add: example_policy_def)
  from arena_failed_allocation_blocks [OF bump_os_ok example_arena_inv [unfolded e] f [unfolded e] this r [unfolded e]]
  show ?thesis unfolding r option.sel snd_conv .
qed

text \<open>An aligned block leaves a tail mapped that nobody owns: when the system's address needs
  padding, only the padding in front is given back.  Here an arena of one page with an alignment of three
  pages is created and destroyed, and the byte at address 80000 is still mapped.\<close>

theorem arena_padding_tail_leaks:
  "case Arena_create example_policy bump_os 4096 12288 example_arena of
     Some (ok, a, w) \<Rightarrow> ok \<and> m_cache_buffer a = 73728 \<and> m_cache_size a = 4096 \<and>
       (case Arena_destroy bump_os (a, w) of Some (a', w') \<Rightarrow> m_cache_size a' = 0 \<and> is_mapped (vm w') 80000
          \<and> \<not> is_mapped (vm w') 73728 | None \<Rightarrow> False)
   | None \<Rightarrow> False"
  by code_simp

text \<open>\<open>create\<close> validates the alignment that the constructor has set, not the one it is given: an
  alignment of 100 bytes is accepted, and the cache is then not page aligned.\<close>

theorem arena_create_accepts_any_alignment:
  "case Arena_create example_policy bump_os 65536 100 example_arena of
     Some (ok, a, w) \<Rightarrow> ok \<and> m_page_alignment a = 100 \<and> \<not> is_address_page_allocation_granularity_aligned (m_cache_buffer a)
   | None \<Rightarrow> False"
  by code_simp

end
