(* ===== verification/Logical_Page_Header.thy ===== *)
theory Logical_Page_Header
  imports Utilities
begin

text \<open>
  The 64-byte header at the start of every logical page
  (\<open>include/logical_page_header.h\<close>) and the operations every kind of page shares
  (\<open>include/logical_page_base.h\<close>).  A page object consists of its header only, so a page is a value
  of the record below; the two padding bytes are never read and are left out.
\<close>

datatype LogicalPageHeaderFlags = IS_USED | IS_DIRTY | IS_LOCKED | IS_HUGE_PAGE

fun flag_value :: "LogicalPageHeaderFlags \<Rightarrow> u16" where
  "flag_value IS_USED = 0x0001"
| "flag_value IS_DIRTY = 0x0002"
| "flag_value IS_LOCKED = 0x0004"
| "flag_value IS_HUGE_PAGE = 0x0008"

record LogicalPageHeader =
  m_head :: u64
  m_next_logical_page_ptr :: u64
  m_prev_logical_page_ptr :: u64
  m_page_flags :: u16
  m_size_class :: u32
  m_used_size :: u64
  m_logical_page_start_address :: u64
  m_logical_page_size :: u64
  m_last_used_node :: u64

text \<open>The header of a page object that the constructor of \<open>LogicalPageBase\<close> leaves: \<open>initialise\<close> (below) on
  whatever the memory held.\<close>

definition new_header :: LogicalPageHeader where
  "new_header = \<lparr>m_head = 0, m_next_logical_page_ptr = 0, m_prev_logical_page_ptr = 0, m_page_flags = 0,
     m_size_class = 0, m_used_size = 0, m_logical_page_start_address = 0, m_logical_page_size = 0,
     m_last_used_node = 0\<rparr>"

text \<open>\<open>sizeof(LogicalPageHeader)\<close>, which is also the size of both page classes.\<close>

definition sizeof_LogicalPageHeader :: u64 where
  "sizeof_LogicalPageHeader = 64"

definition initialise :: "LogicalPageHeader \<Rightarrow> LogicalPageHeader" where
  "initialise h = h\<lparr>m_head := 0, m_next_logical_page_ptr := 0, m_prev_logical_page_ptr := 0,
     m_page_flags := 0, m_size_class := 0, m_used_size := 0, m_logical_page_start_address := 0,
     m_logical_page_size := 0, m_last_used_node := 0\<rparr>"

lemma initialise_new_header: "initialise h = new_header"
  by (cases h) (simp add: initialise_def new_header_def)

definition set_flag :: "LogicalPageHeaderFlags \<Rightarrow> LogicalPageHeader \<Rightarrow> LogicalPageHeader" where
  "set_flag flag h = h\<lparr>m_page_flags := m_page_flags h OR flag_value flag\<rparr>"

definition clear_flag :: "LogicalPageHeaderFlags \<Rightarrow> LogicalPageHeader \<Rightarrow> LogicalPageHeader" where
  "clear_flag flag h = h\<lparr>m_page_flags := m_page_flags h AND NOT (flag_value flag)\<rparr>"

definition get_flag :: "LogicalPageHeaderFlags \<Rightarrow> LogicalPageHeader \<Rightarrow> bool" where
  "get_flag flag h = ((m_page_flags h AND flag_value flag) \<noteq> 0)"

subsection \<open>The operations of \<open>LogicalPageBase\<close>\<close>

definition page_owns_pointer :: "LogicalPageHeader \<Rightarrow> u64 \<Rightarrow> bool" where
  "page_owns_pointer h ptr =
     (if ptr \<ge> m_logical_page_start_address h
         \<and> ptr < m_logical_page_start_address h + m_logical_page_size h
      then True else False)"

definition can_be_recycled :: "LogicalPageHeader \<Rightarrow> bool" where
  "can_be_recycled h = (get_flag IS_USED h = False)"

definition mark_as_used :: "LogicalPageHeader \<Rightarrow> LogicalPageHeader" where
  "mark_as_used h = set_flag IS_USED h"

definition mark_as_non_used :: "LogicalPageHeader \<Rightarrow> LogicalPageHeader" where
  "mark_as_non_used h = clear_flag IS_USED h"

definition mark_as_locked :: "LogicalPageHeader \<Rightarrow> LogicalPageHeader" where
  "mark_as_locked h = set_flag IS_LOCKED h"

definition mark_as_non_locked :: "LogicalPageHeader \<Rightarrow> LogicalPageHeader" where
  "mark_as_non_locked h = clear_flag IS_LOCKED h"

definition get_used_size :: "LogicalPageHeader \<Rightarrow> u64" where
  "get_used_size h = m_used_size h"

definition get_size_class :: "LogicalPageHeader \<Rightarrow> u32" where
  "get_size_class h = m_size_class h"

definition get_next_logical_page :: "LogicalPageHeader \<Rightarrow> u64" where
  "get_next_logical_page h = m_next_logical_page_ptr h"

definition set_next_logical_page :: "u64 \<Rightarrow> LogicalPageHeader \<Rightarrow> LogicalPageHeader" where
  "set_next_logical_page address h = h\<lparr>m_next_logical_page_ptr := address\<rparr>"

definition get_previous_logical_page :: "LogicalPageHeader \<Rightarrow> u64" where
  "get_previous_logical_page h = m_prev_logical_page_ptr h"

definition set_previous_logical_page :: "u64 \<Rightarrow> LogicalPageHeader \<Rightarrow> LogicalPageHeader" where
  "set_previous_logical_page address h = h\<lparr>m_prev_logical_page_ptr := address\<rparr>"

lemmas page_link_defs = get_next_logical_page_def set_next_logical_page_def
  get_previous_logical_page_def set_previous_logical_page_def

lemmas page_flag_defs = mark_as_used_def mark_as_non_used_def mark_as_locked_def
  mark_as_non_locked_def set_flag_def clear_flag_def get_flag_def can_be_recycled_def

lemma page_owns_pointer_iff:
  assumes "unat (m_logical_page_start_address h) + unat (m_logical_page_size h) < 2 ^ 64"
  shows "page_owns_pointer h p \<longleftrightarrow>
    unat p \<in> region (m_logical_page_start_address h) (unat (m_logical_page_size h))"
  using assms by (simp add: page_owns_pointer_def word_le_nat_alt word_less_nat_alt nowrap)

subsection \<open>Flags are independent bits\<close>

lemma get_flag_set_flag: "get_flag f (set_flag g h) \<longleftrightarrow> f = g \<or> get_flag f h"
proof -
  have "flag_value g AND flag_value f = (if f = g then flag_value g else 0)"
    by (cases f; cases g) simp_all
  moreover have "flag_value g \<noteq> 0" by (cases g) simp_all
  ultimately show ?thesis
    by (auto simp: get_flag_def set_flag_def bit.conj_disj_distrib2 or_eq_0_iff)
qed

lemma get_flag_clear_flag: "get_flag f (clear_flag g h) \<longleftrightarrow> f \<noteq> g \<and> get_flag f h"
proof -
  have "NOT (flag_value g) AND flag_value f = (if f = g then 0 else flag_value f)"
    by (cases f; cases g) simp_all
  then show ?thesis
    by (auto simp: get_flag_def clear_flag_def and.assoc)
qed

end
