(* ===== verification/Logical_Page.thy ===== *)
theory Logical_Page
  imports Logical_Page_Header
begin

text \<open>
  \<open>include/logical_page.h\<close>: a page of equally sized chunks with an intrusive last-in-first-out
  freelist.  The state of an operation is the page object (its header) and the memory; a free chunk
  holds the address of the next free chunk in its first eight bytes.
\<close>

type_synonym page_state = "LogicalPageHeader \<times> mem"

subsection \<open>Operations\<close>

fun LogicalPage_push :: "u64 \<Rightarrow> page_state \<Rightarrow> page_state" where
  "LogicalPage_push new_node (h, m) = (h\<lparr>m_head := new_node\<rparr>, store64 m new_node (m_head h))"

fun LogicalPage_pop :: "page_state \<Rightarrow> u64 \<times> page_state" where
  "LogicalPage_pop (h, m) =
     (if m_head h = 0 then (0, (h, m))
      else let top = m_head h in (top, (h\<lparr>m_head := load64 m top\<rparr>, m)))"

fun LogicalPage_grow :: "u64 \<Rightarrow> u64 \<Rightarrow> page_state \<Rightarrow> page_state" where
  "LogicalPage_grow buffer buffer_size (h, m) =
     (let chunk_count = buffer_size div ucast (m_size_class h)
      in fold (\<lambda>i s. LogicalPage_push (buffer + of_nat i * ucast (m_size_class h)) s)
           [0..<unat chunk_count] (h, m))"

fun LogicalPage_create :: "u64 \<Rightarrow> u64 \<Rightarrow> u32 \<Rightarrow> page_state \<Rightarrow> bool \<times> page_state" where
  "LogicalPage_create buffer buffer_size sz_class (h, m) =
     (if buffer = 0 \<or> buffer_size < ucast sz_class \<or> sz_class < 8 then (False, (h, m))
      else let buffer_start_including_header = buffer - sizeof_LogicalPageHeader
           in if \<not> is_address_page_allocation_granularity_aligned buffer
                 \<and> \<not> is_address_page_allocation_granularity_aligned buffer_start_including_header
              then (False, (h, m))
              else (True, LogicalPage_grow buffer buffer_size
                     ((initialise h)\<lparr>m_size_class := sz_class,
                        m_logical_page_start_address := buffer,
                        m_logical_page_size := buffer_size\<rparr>, m)))"

fun LogicalPage_allocate :: "u64 \<Rightarrow> page_state \<Rightarrow> u64 \<times> page_state" where
  "LogicalPage_allocate sz s =
     (case LogicalPage_pop s of
        (free_node, (h, m)) \<Rightarrow>
          if free_node = 0 then (0, (h, m))
          else (free_node, (h\<lparr>m_used_size := m_used_size h + ucast (m_size_class h)\<rparr>, m)))"

fun LogicalPage_deallocate :: "u64 \<Rightarrow> page_state \<Rightarrow> page_state" where
  "LogicalPage_deallocate ptr (h, m) =
     (if page_owns_pointer h ptr = False then (h, m)
      else LogicalPage_push ptr
             (h\<lparr>m_used_size := m_used_size h - ucast (m_size_class h)\<rparr>, m))"

definition LogicalPage_get_usable_size :: "u64 \<Rightarrow> page_state \<Rightarrow> u64" where
  "LogicalPage_get_usable_size ptr s = ucast (m_size_class (fst s))"

subsection \<open>Chunks of a page\<close>

definition chunk_total :: "LogicalPageHeader \<Rightarrow> nat" where
  "chunk_total h = unat (m_logical_page_size h) div unat (m_size_class h)"

definition chunk_addr :: "LogicalPageHeader \<Rightarrow> nat \<Rightarrow> u64" where
  "chunk_addr h i = m_logical_page_start_address h + of_nat i * ucast (m_size_class h)"

definition chunks :: "LogicalPageHeader \<Rightarrow> u64 set" where
  "chunks h = chunk_addr h ` {..<chunk_total h}"

definition lp_geometry :: "LogicalPageHeader \<Rightarrow> bool" where
  "lp_geometry h \<longleftrightarrow> 8 \<le> unat (m_size_class h) \<and> m_logical_page_start_address h \<noteq> 0
     \<and> unat (m_logical_page_start_address h) + unat (m_logical_page_size h) < 2 ^ 64"

lemma chunk_offset_bound:
  assumes "i < chunk_total h"
  shows "i * unat (m_size_class h) + unat (m_size_class h) \<le> unat (m_logical_page_size h)"
proof -
  have "Suc i * unat (m_size_class h) \<le> chunk_total h * unat (m_size_class h)"
    using assms by (intro mult_le_mono1) simp
  also have "\<dots> \<le> unat (m_logical_page_size h)" by (simp add: chunk_total_def)
  finally show ?thesis by simp
qed

lemma unat_chunk_addr:
  assumes "lp_geometry h" "i < chunk_total h"
  shows "unat (chunk_addr h i)
         = unat (m_logical_page_start_address h) + i * unat (m_size_class h)"
proof -
  let ?sc = "unat (m_size_class h)"
  have b: "i * ?sc + ?sc \<le> unat (m_logical_page_size h)" by (rule chunk_offset_bound [OF assms(2)])
  have g: "unat (m_logical_page_start_address h) + unat (m_logical_page_size h) < 2 ^ 64" "8 \<le> ?sc"
    using assms(1) by (simp_all add: lp_geometry_def)
  have "i \<le> i * ?sc" using g(2) mult_le_mono2 [of 1 ?sc i] by simp
  then have i: "unat (of_nat i :: u64) = i" using b g(1) by (intro unat_of_nat_nowrap) linarith
  have "unat (of_nat i * ucast (m_size_class h) :: u64) = i * ?sc"
    using i b g(1) by (subst unat_mult_nowrap) simp_all
  then show ?thesis unfolding chunk_addr_def using b g(1) by (subst unat_add_nowrap) simp_all
qed

lemma chunk_addr_inj:
  assumes "lp_geometry h"
  shows "inj_on (chunk_addr h) {..<chunk_total h}"
proof (rule inj_onI)
  fix i j
  assume "i \<in> {..<chunk_total h}" "j \<in> {..<chunk_total h}" "chunk_addr h i = chunk_addr h j"
  then have "i * unat (m_size_class h) = j * unat (m_size_class h)"
    using unat_chunk_addr [OF assms] by (metis add_left_cancel lessThan_iff)
  then show "i = j" using assms by (simp add: lp_geometry_def)
qed

lemma card_chunks: "lp_geometry h \<Longrightarrow> card (chunks h) = chunk_total h"
  by (simp add: chunks_def card_image chunk_addr_inj)

lemma finite_chunks [simp]: "finite (chunks h)"
  by (simp add: chunks_def)

lemma chunk_bounds:
  assumes "lp_geometry h" "c \<in> chunks h"
  shows "unat (m_logical_page_start_address h) \<le> unat c"
    and "unat c + unat (m_size_class h)
         \<le> unat (m_logical_page_start_address h) + unat (m_logical_page_size h)"
    and "unat c + 8 \<le> 2 ^ 64" "c \<noteq> 0"
proof -
  obtain i where i: "i < chunk_total h" "c = chunk_addr h i"
    using assms(2) by (auto simp: chunks_def)
  note u = unat_chunk_addr [OF assms(1) i(1), folded i(2)] chunk_offset_bound [OF i(1)]
  show 1: "unat (m_logical_page_start_address h) \<le> unat c"
    and 2: "unat c + unat (m_size_class h)
         \<le> unat (m_logical_page_start_address h) + unat (m_logical_page_size h)"
    using u by simp_all
  show "unat c + 8 \<le> 2 ^ 64" "c \<noteq> 0" using 1 2 assms(1) unfolding lp_geometry_def
    by (linarith, auto simp: unat_gt_0 [symmetric])
qed

lemma chunks_apart:
  assumes "lp_geometry h" "c \<in> chunks h" "d \<in> chunks h" "c \<noteq> d"
  shows "unat c + unat (m_size_class h) \<le> unat d \<or> unat d + unat (m_size_class h) \<le> unat c"
proof -
  obtain i j where i: "i < chunk_total h" "c = chunk_addr h i" and j: "j < chunk_total h" "d = chunk_addr h j"
    using assms(2,3) by (auto simp: chunks_def)
  have "i \<noteq> j" using assms(4) i j by auto
  then consider "Suc i \<le> j" | "Suc j \<le> i" by linarith
  then show ?thesis
  proof cases
    case 1
    from mult_le_mono1 [OF 1, of "unat (m_size_class h)"] show ?thesis
      using unat_chunk_addr [OF assms(1)] i j by simp
  next
    case 2
    from mult_le_mono1 [OF 2, of "unat (m_size_class h)"] show ?thesis
      using unat_chunk_addr [OF assms(1)] i j by simp
  qed
qed

subsection \<open>The invariant\<close>

text \<open>
  \<open>lp_inv h m fl\<close>: the freelist of the page runs through the chunks \<open>fl\<close>, and the used size counts
  the chunks that are not on it.
\<close>

definition lp_linked :: "LogicalPageHeader \<Rightarrow> mem \<Rightarrow> u64 list \<Rightarrow> bool" where
  "lp_linked h m fl \<longleftrightarrow> lp_geometry h \<and> chain (load64 m) (m_head h) fl \<and> set fl \<subseteq> chunks h"

definition lp_inv :: "LogicalPageHeader \<Rightarrow> mem \<Rightarrow> u64 list \<Rightarrow> bool" where
  "lp_inv h m fl \<longleftrightarrow> lp_linked h m fl \<and>
     unat (m_used_size h) + length fl * unat (m_size_class h) = chunk_total h * unat (m_size_class h)"

text \<open>Updates of the header that leave the chunks alone.\<close>

lemma geometry_upd [simp]:
  "lp_geometry (h\<lparr>m_head := a\<rparr>) = lp_geometry h"
  "lp_geometry (h\<lparr>m_used_size := b\<rparr>) = lp_geometry h"
  "chunk_total (h\<lparr>m_head := a\<rparr>) = chunk_total h"
  "chunk_total (h\<lparr>m_used_size := b\<rparr>) = chunk_total h"
  "chunk_addr (h\<lparr>m_head := a\<rparr>) = chunk_addr h"
  "chunk_addr (h\<lparr>m_used_size := b\<rparr>) = chunk_addr h"
  "chunks (h\<lparr>m_head := a\<rparr>) = chunks h"
  "chunks (h\<lparr>m_used_size := b\<rparr>) = chunks h"
  by (simp_all add: lp_geometry_def chunk_total_def chunk_addr_def chunks_def fun_eq_iff)

lemma lp_linked_distinct: "lp_linked h m fl \<Longrightarrow> distinct fl"
  by (auto simp: lp_linked_def dest: chain_distinct)

lemma lp_linked_cong:
  assumes "lp_linked h m fl" "\<And>c x. c \<in> set fl \<Longrightarrow> unat x \<in> region c 8 \<Longrightarrow> m x = m' x"
  shows "lp_linked h m' fl"
proof -
  have "load64 m c = load64 m' c" if "c \<in> set fl" for c
    using assms that chunk_bounds(3) [of h c]
    by (intro load64_region_cong) (auto simp: lp_linked_def)
  then show ?thesis using assms(1) path_cong [of fl "load64 m" "load64 m'"] by (auto simp: lp_linked_def)
qed

lemma lp_push_linked:
  assumes "lp_linked h m fl" "c \<in> chunks h" "c \<notin> set fl" "LogicalPage_push c (h, m) = (h', m')"
  shows "lp_linked h' m' (c # fl)"
proof -
  have g: "lp_geometry h" using assms(1) by (simp add: lp_linked_def)
  have "load64 (store64 m c v) d = load64 m d" if "d \<in> set fl" for d v
  proof (rule load64_store64_other)
    have "d \<in> chunks h" using assms(1) that by (auto simp: lp_linked_def)
    then have "unat c + unat (m_size_class h) \<le> unat d \<or> unat d + unat (m_size_class h) \<le> unat c"
      using assms(2,3) that by (intro chunks_apart [OF g]) auto
    then show "unat c + 8 \<le> unat d \<or> unat d + 8 \<le> unat c"
      using g by (auto simp: lp_geometry_def)
    show "unat c + 8 \<le> 2 ^ 64" "unat d + 8 \<le> 2 ^ 64"
      using chunk_bounds(3) [OF g] assms(2) \<open>d \<in> chunks h\<close> by blast+
  qed
  then have "chain (load64 (store64 m c v)) p fl \<longleftrightarrow> chain (load64 m) p fl" for p v
    by (intro path_cong)
  then show ?thesis using assms chunk_bounds(4) [OF g] by (auto simp: lp_linked_def)
qed

subsection \<open>Functional behaviour\<close>

lemma lp_grow_fold:
  assumes "lp_geometry h" "m_head h = 0" "n \<le> chunk_total h"
    and f: "fold (\<lambda>i s. LogicalPage_push (chunk_addr h i) s) [0..<n] (h, m) = (h', m')"
  shows "lp_linked h' m' (rev (map (chunk_addr h) [0..<n]))
    \<and> (\<exists>p. h' = h\<lparr>m_head := p\<rparr>)
    \<and> (\<forall>x. unat x \<notin> region (m_logical_page_start_address h) (unat (m_logical_page_size h))
          \<longrightarrow> m' x = m x)"
  using assms(3) f
proof (induction n arbitrary: h' m')
  case 0
  then have "h' = h\<lparr>m_head := 0\<rparr>" "m' = m" using assms(2) by auto
  then show ?case using assms(1,2) by (auto simp: lp_linked_def)
next
  case (Suc n)
  obtain h1 m1 where s1: "fold (\<lambda>i s. LogicalPage_push (chunk_addr h i) s) [0..<n] (h, m) = (h1, m1)"
    by (cases "fold (\<lambda>i s. LogicalPage_push (chunk_addr h i) s) [0..<n] (h, m)")
  let ?c = "chunk_addr h n"
  from Suc.IH [OF _ s1] Suc.prems(1) obtain p where
    l1: "lp_linked h1 m1 (rev (map (chunk_addr h) [0..<n]))" and h1: "h1 = h\<lparr>m_head := p\<rparr>"
    and fr: "\<And>x. unat x \<notin> region (m_logical_page_start_address h) (unat (m_logical_page_size h))
               \<Longrightarrow> m1 x = m x"
    by auto
  have s2: "LogicalPage_push ?c (h1, m1) = (h', m')" using Suc.prems(2) s1 by simp
  have c: "?c \<in> chunks h" using Suc.prems(1) by (auto simp: chunks_def)
  have "?c \<notin> set (rev (map (chunk_addr h) [0..<n]))"
  proof
    assume "?c \<in> set (rev (map (chunk_addr h) [0..<n]))"
    then obtain i where "i < n" "chunk_addr h n = chunk_addr h i" by auto
    then show False using inj_onD [OF chunk_addr_inj [OF assms(1)]] Suc.prems(1) by fastforce
  qed
  then have "lp_linked h' m' (?c # rev (map (chunk_addr h) [0..<n]))"
    using c h1 by (intro lp_push_linked [OF l1 _ _ s2]) auto
  moreover have "m' x = m x"
    if "unat x \<notin> region (m_logical_page_start_address h) (unat (m_logical_page_size h))" for x
  proof -
    have "unat x \<notin> region ?c 8"
      using that chunk_bounds(1,2) [OF assms(1) c] assms(1) by (auto simp: lp_geometry_def)
    then have "m' x = m1 x"
      using s2 chunk_bounds(3) [OF assms(1) c] by (auto simp: store64_outside)
    then show ?thesis using fr [OF that] by simp
  qed
  ultimately show ?case using s2 h1 by (auto simp: upt_Suc_append)
qed

lemma lp_create_ok:
  assumes "LogicalPage_create buffer buffer_size sz_class (h, m) = (True, (h', m'))"
    and "unat buffer + unat buffer_size < 2 ^ 64"
  shows "lp_inv h' m' (rev (map (chunk_addr h') [0..<chunk_total h']))"
    and "m_used_size h' = 0" "m_size_class h' = sz_class"
    and "m_logical_page_start_address h' = buffer" "m_logical_page_size h' = buffer_size"
    and "\<And>x. unat x \<notin> region buffer (unat buffer_size) \<Longrightarrow> m' x = m x"
proof -
  let ?h = "(initialise h)\<lparr>m_size_class := sz_class, m_logical_page_start_address := buffer,
              m_logical_page_size := buffer_size\<rparr>"
  have chk: "buffer \<noteq> 0" "\<not> sz_class < 8"
    and g: "LogicalPage_grow buffer buffer_size (?h, m) = (h', m')"
    using assms(1) by (auto simp: Let_def split: if_splits)
  have geo: "lp_geometry ?h" "m_head ?h = 0"
    using chk assms(2) by (auto simp: lp_geometry_def initialise_def word_less_nat_alt)
  have n: "unat (buffer_size div ucast sz_class) = chunk_total ?h"
    by (simp add: chunk_total_def unat_div)
  have "fold (\<lambda>i s. LogicalPage_push (chunk_addr ?h i) s) [0..<chunk_total ?h] (?h, m) = (h', m')"
    using g n by (simp add: chunk_addr_def Let_def)
  from lp_grow_fold [OF geo order_refl this] obtain p where
    l: "lp_linked h' m' (rev (map (chunk_addr ?h) [0..<chunk_total ?h]))"
    and h': "h' = ?h\<lparr>m_head := p\<rparr>"
    and fr: "\<And>x. unat x \<notin> region buffer (unat buffer_size) \<Longrightarrow> m' x = m x"
    by auto
  have eq: "chunk_addr h' = chunk_addr ?h" "chunk_total h' = chunk_total ?h"
    unfolding h' by (simp_all only: geometry_upd)
  show "m_used_size h' = 0" "m_size_class h' = sz_class"
    "m_logical_page_start_address h' = buffer" "m_logical_page_size h' = buffer_size"
    using h' by (simp_all add: initialise_def)
  then show "lp_inv h' m' (rev (map (chunk_addr h') [0..<chunk_total h']))"
    using l eq by (simp add: lp_inv_def)
  show "\<And>x. unat x \<notin> region buffer (unat buffer_size) \<Longrightarrow> m' x = m x" by (rule fr)
qed

lemma lp_live_count:
  assumes "lp_inv h m fl"
  shows "unat (m_used_size h) = card (chunks h - set fl) * unat (m_size_class h)"
proof -
  have l: "lp_linked h m fl" using assms by (simp add: lp_inv_def)
  then have "card (chunks h - set fl) = chunk_total h - length fl"
    using card_chunks [of h] lp_linked_distinct [OF l]
    by (subst card_Diff_subset) (auto simp: lp_linked_def distinct_card)
  then show ?thesis using assms by (auto simp: lp_inv_def diff_mult_distrib)
qed

lemma lp_allocate_empty:
  "lp_inv h m [] \<Longrightarrow> LogicalPage_allocate sz (h, m) = (0, (h, m))"
  by (auto simp: lp_inv_def lp_linked_def)

lemma lp_allocate_Cons:
  assumes "lp_inv h m (c # fl)"
  obtains h' where "LogicalPage_allocate sz (h, m) = (c, (h', m))" "lp_inv h' m fl"
    "h' = h\<lparr>m_head := m_head h', m_used_size := m_used_size h'\<rparr>"
    "unat (m_used_size h') = unat (m_used_size h) + unat (m_size_class h)"
proof -
  let ?h = "h\<lparr>m_head := load64 m c, m_used_size := m_used_size h + ucast (m_size_class h)\<rparr>"
  have l: "m_head h = c" "c \<noteq> 0" "chain (load64 m) (load64 m c) fl" "lp_geometry h"
    "set fl \<subseteq> chunks h"
    using assms by (auto simp: lp_inv_def lp_linked_def)
  have t: "chunk_total h * unat (m_size_class h) \<le> unat (m_logical_page_size h)"
    by (simp add: chunk_total_def)
  have eq: "unat (m_used_size h) + (unat (m_size_class h) + length fl * unat (m_size_class h))
        = chunk_total h * unat (m_size_class h)"
    using assms by (simp add: lp_inv_def)
  then have u: "unat (m_used_size h + ucast (m_size_class h))
      = unat (m_used_size h) + unat (m_size_class h)"
    using t unat_lt_2_64 [of "m_logical_page_size h"]
    by (subst unat_add_nowrap) (simp_all)
  show ?thesis
  proof (rule that [of ?h])
    show "LogicalPage_allocate sz (h, m) = (c, (?h, m))" using l by simp
    show "lp_inv ?h m fl" using l u eq by (simp add: lp_inv_def lp_linked_def)
  qed (simp_all add: u)
qed

lemma lp_deallocate_ok:
  assumes "lp_inv h m fl" "c \<in> chunks h" "c \<notin> set fl"
  obtains h' m' where "LogicalPage_deallocate c (h, m) = (h', m')" "lp_inv h' m' (c # fl)"
    "h' = h\<lparr>m_head := m_head h', m_used_size := m_used_size h'\<rparr>"
    "unat (m_used_size h') + unat (m_size_class h) = unat (m_used_size h)"
    "m' = store64 m c (m_head h)"
proof -
  let ?h1 = "h\<lparr>m_used_size := m_used_size h - ucast (m_size_class h)\<rparr>"
  have l: "lp_linked h m fl" and g: "lp_geometry h" using assms(1) by (auto simp: lp_inv_def lp_linked_def)
  have "unat c \<in> region (m_logical_page_start_address h) (unat (m_logical_page_size h))"
    using chunk_bounds(1,2) [OF g assms(2)] g by (simp add: lp_geometry_def)
  then have o: "page_owns_pointer h c" using g page_owns_pointer_iff by (auto simp: lp_geometry_def)
  have "1 \<le> card (chunks h - set fl)" using assms(2,3)
    by (metis DiffI One_nat_def Suc_leI card_gt_0_iff empty_iff finite_Diff finite_chunks)
  then have le: "unat (m_size_class h) \<le> unat (m_used_size h)"
    using mult_le_mono1 [of 1 _ "unat (m_size_class h)"] by (simp add: lp_live_count [OF assms(1)])
  then have u: "unat (m_used_size h - ucast (m_size_class h)) = unat (m_used_size h) - unat (m_size_class h)"
    by (subst unat_sub_nowrap) simp_all
  have "lp_linked ?h1 m fl" using l by (simp add: lp_linked_def)
  then have l': "lp_linked (?h1\<lparr>m_head := c\<rparr>) (store64 m c (m_head h)) (c # fl)"
    using assms(2,3) by (intro lp_push_linked [of ?h1 m]) auto
  show ?thesis
  proof (rule that [of "?h1\<lparr>m_head := c\<rparr>" "store64 m c (m_head h)"])
    show "LogicalPage_deallocate c (h, m) = (?h1\<lparr>m_head := c\<rparr>, store64 m c (m_head h))"
      using o by simp
    show "lp_inv (?h1\<lparr>m_head := c\<rparr>) (store64 m c (m_head h)) (c # fl)"
      using l' assms(1) u le by (simp add: lp_inv_def)
  qed (use u le in simp_all)
qed

lemma lp_deallocate_foreign:
  "\<not> page_owns_pointer h p \<Longrightarrow> LogicalPage_deallocate p (h, m) = (h, m)"
  by simp

end
