(* ===== verification/Tiling.thy ===== *)
theory Tiling
  imports Main "HOL-Library.Multiset"
begin

text \<open>
  Blocks of memory as pairs of a start and a length, over unbounded naturals: lists of pairwise
  disjoint blocks, and blocks that tile an interval exactly.  Splitting, merging and reordering
  blocks, as a freelist does, keeps a tiling.
\<close>

type_synonym block = "nat \<times> nat"

fun apart :: "block \<Rightarrow> block \<Rightarrow> bool" where
  "apart (a, s) (b, t) \<longleftrightarrow> a + s \<le> b \<or> b + t \<le> a"

fun inside :: "nat \<Rightarrow> nat \<Rightarrow> block \<Rightarrow> bool" where
  "inside S N (a, s) \<longleftrightarrow> S \<le> a \<and> a + s \<le> S + N \<and> 0 < s"

lemma apart_sym: "apart x y \<longleftrightarrow> apart y x"
  by (cases x; cases y) auto

definition apart_blocks :: "block list \<Rightarrow> bool" where
  "apart_blocks bs \<longleftrightarrow> sorted_wrt apart bs"

lemma apart_blocks_simps [simp]:
  "apart_blocks []"
  "apart_blocks (x # xs) \<longleftrightarrow> (\<forall>y\<in>set xs. apart x y) \<and> apart_blocks xs"
  by (auto simp: apart_blocks_def)

lemma apart_blocks_append:
  "apart_blocks (xs @ ys) \<longleftrightarrow>
   apart_blocks xs \<and> apart_blocks ys \<and> (\<forall>x\<in>set xs. \<forall>y\<in>set ys. apart x y)"
  by (simp add: apart_blocks_def sorted_wrt_append)

lemma apart_blocks_perm: "mset xs = mset ys \<Longrightarrow> apart_blocks xs \<longleftrightarrow> apart_blocks ys"
proof (induction xs arbitrary: ys)
  case (Cons x xs)
  then have "x \<in> set ys" by (metis list.set_intros(1) set_mset_mset)
  then obtain us vs where ys: "ys = us @ x # vs" by (auto dest: split_list)
  with Cons.prems have m: "mset xs = mset (us @ vs)" by simp
  then have "set xs = set us \<union> set vs" by (metis set_append set_mset_mset)
  then show ?case using Cons.IH [OF m] apart_sym by (auto simp: ys apart_blocks_append)
qed simp

definition tiles :: "nat \<Rightarrow> nat \<Rightarrow> block list \<Rightarrow> bool" where
  "tiles S N bs \<longleftrightarrow> list_all (inside S N) bs \<and> apart_blocks bs \<and> sum_list (map snd bs) = N"

lemma tiles_perm:
  assumes "mset xs = mset ys" "tiles S N xs"
  shows "tiles S N ys"
proof -
  have "sum_list (map snd xs) = sum_list (map snd ys)"
    by (metis assms(1) mset_map sum_mset_sum_list)
  moreover have "set xs = set ys" using assms(1) by (rule mset_eq_setD)
  ultimately show ?thesis using assms apart_blocks_perm [OF assms(1)]
    by (simp add: tiles_def list_all_iff)
qed

lemma tiles_split:
  assumes "tiles S N ((a, t + u) # bs)" "0 < t" "0 < u"
  shows "tiles S N ((a, t) # (a + t, u) # bs)"
  using assms by (fastforce simp: tiles_def list_all_iff)

lemma tiles_merge:
  assumes "tiles S N ((a, t) # (a + t, u) # bs)"
  shows "tiles S N ((a, t + u) # bs)"
proof -
  have "apart (a, t + u) y" if "y \<in> set bs" for y
  proof -
    obtain b v where y: "y = (b, v)" by (cases y)
    have "apart (a, t) (b, v)" "apart (a + t, u) (b, v)" "0 < v" "0 < t" "0 < u"
      using assms that y by (auto simp: tiles_def list_all_iff)
    then show ?thesis using y by auto
  qed
  then show ?thesis using assms by (auto simp: tiles_def)
qed

lemma tiles_inside: "tiles S N bs \<Longrightarrow> x \<in> set bs \<Longrightarrow> inside S N x"
  by (auto simp: tiles_def list_all_iff)

lemma tiles_sum: "tiles S N bs \<Longrightarrow> sum_list (map snd bs) = N"
  by (simp add: tiles_def)

lemma tiles_single: "0 < N \<Longrightarrow> tiles S N [(S, N)]"
  by (simp add: tiles_def)

text \<open>A tiling leaves no gap: every address of the interval lies in exactly one block.\<close>

lemma apart_blocks_card:
  "apart_blocks bs \<Longrightarrow> finite (\<Union>(a, s)\<in>set bs. {a..<a + s})
   \<and> card (\<Union>(a, s)\<in>set bs. {a..<a + s}) = sum_list (map snd bs)"
proof (induction bs)
  case (Cons x bs)
  obtain a s where x: "x = (a, s)" by (cases x)
  let ?U = "\<Union>(b, t)\<in>set bs. {b..<b + t}"
  have "{a..<a + s} \<inter> ?U = {}"
  proof (rule equals0I)
    fix z assume z: "z \<in> {a..<a + s} \<inter> ?U"
    then obtain b t where "(b, t) \<in> set bs" "z \<in> {b..<b + t}" by auto
    moreover from this(1) have "apart (a, s) (b, t)" using Cons.prems x by auto
    ultimately show False using z by auto
  qed
  then have "card ({a..<a + s} \<union> ?U) = s + card ?U"
    using Cons x by (subst card_Un_disjoint) auto
  then show ?case using Cons x by simp
qed simp

lemma tiles_cover:
  assumes "tiles S N bs"
  shows "(\<Union>(a, s)\<in>set bs. {a..<a + s}) = {S..<S + N}"
proof (rule card_subset_eq)
  show "(\<Union>(a, s)\<in>set bs. {a..<a + s}) \<subseteq> {S..<S + N}"
    using assms by (fastforce simp: tiles_def list_all_iff)
  show "card (\<Union>(a, s)\<in>set bs. {a..<a + s}) = card {S..<S + N}"
    using assms apart_blocks_card [of bs] by (simp add: tiles_def)
qed simp

end
