(* ===== verification/Logical_Page_AnySize.thy ===== *)
theory Logical_Page_AnySize
  imports Logical_Page Tiling
begin

text \<open>
  \<open>include/logical_page_anysize.h\<close>: a page that serves allocations of any size from a first-fit
  freelist of blocks.  A free block starts with a 16-byte node (next pointer, block size); an
  allocated block is \<open><padding><header><payload>\<close>, and its 16-byte header (padding size, block size)
  directly precedes the payload, which is 16-byte aligned.  Nodes are accessed in memory, byte by
  byte, as blocks may start at any address.

  Loops over the freelist are \<open>partial_function (option)\<close>: \<open>None\<close> is a loop that does not end.
\<close>

datatype CoalescePolicy = COALESCE | NO_COALESCING

definition NODE_SIZE :: u64 where
  "NODE_SIZE = 16"

definition MIN_ALIGNMENT_SIZE :: u64 where
  "MIN_ALIGNMENT_SIZE = 16"

definition MAX_BLOCK_SIZE :: u64 where
  "MAX_BLOCK_SIZE = 0xFFFFFFFFFFFFFFFF"

subsection \<open>Nodes\<close>

text \<open>\<open>LogicalPageAnySizeNode\<close>: the first part is the next pointer of a free node and the padding size
  of an allocation header; the second part is the block size of either.\<close>

definition get_next_pointer :: "mem \<Rightarrow> u64 \<Rightarrow> u64" where
  "get_next_pointer m node = load64 m node"

definition set_next_pointer :: "mem \<Rightarrow> u64 \<Rightarrow> u64 \<Rightarrow> mem" where
  "set_next_pointer m node ptr = store64 m node ptr"

definition clear_next_pointer :: "mem \<Rightarrow> u64 \<Rightarrow> mem" where
  "clear_next_pointer m node = store64 m node 0"

definition get_block_size :: "mem \<Rightarrow> u64 \<Rightarrow> u64" where
  "get_block_size m node = load64 m (node + 8)"

definition set_block_size :: "mem \<Rightarrow> u64 \<Rightarrow> u64 \<Rightarrow> mem" where
  "set_block_size m node val = store64 m (node + 8) val"

definition get_padding_size :: "mem \<Rightarrow> u64 \<Rightarrow> u64" where
  "get_padding_size m node = load64 m node"

definition set_padding_size :: "mem \<Rightarrow> u64 \<Rightarrow> u64 \<Rightarrow> mem" where
  "set_padding_size m node val = store64 m node val"

lemmas node_defs = get_next_pointer_def set_next_pointer_def clear_next_pointer_def
  get_block_size_def set_block_size_def get_padding_size_def set_padding_size_def

subsection \<open>Freelist operations\<close>

definition calculate_padding_needed :: "u64 \<Rightarrow> u64 \<Rightarrow> u64 \<Rightarrow> u64" where
  "calculate_padding_needed node_size base_address alignment =
     (let header_end_address = base_address + node_size;
          remainder = header_end_address mod alignment
      in if remainder \<noteq> 0 then alignment - remainder else 0)"

fun LogicalPageAnySize_insert :: "u64 \<Rightarrow> u64 \<Rightarrow> page_state \<Rightarrow> page_state" where
  "LogicalPageAnySize_insert previous_node new_node (h, m) =
     (let head = m_head h in
      if previous_node = 0
      then (let m = (if head \<noteq> 0 then set_next_pointer m new_node (m_head h)
                     else clear_next_pointer m new_node)
            in (h\<lparr>m_head := new_node\<rparr>, m))
      else if get_next_pointer m previous_node = 0
      then (let m = set_next_pointer m previous_node new_node;
                m = clear_next_pointer m new_node
            in (h, m))
      else (let m = set_next_pointer m new_node (get_next_pointer m previous_node);
                m = set_next_pointer m previous_node new_node
            in (h, m)))"

fun LogicalPageAnySize_remove :: "u64 \<Rightarrow> u64 \<Rightarrow> page_state \<Rightarrow> page_state" where
  "LogicalPageAnySize_remove previous_node delete_node (h, m) =
     (if previous_node = 0
      then (if get_next_pointer m delete_node = 0 then (h\<lparr>m_head := 0\<rparr>, m)
            else (h\<lparr>m_head := get_next_pointer m delete_node\<rparr>, m))
      else (h, set_next_pointer m previous_node (get_next_pointer m delete_node)))"

text \<open>The first-fit search: the previous node, the found node (0 for none) and the padding.\<close>

partial_function (option) find_internal ::
  "mem \<Rightarrow> u64 \<Rightarrow> u64 \<Rightarrow> u64 \<Rightarrow> u64 \<Rightarrow> u64 \<Rightarrow> u64 \<Rightarrow> (u64 \<times> u64 \<times> u64) option" where
  "find_internal m search_end_node sz alignment iterator iterator_previous padding_bytes =
     (if iterator \<noteq> 0 \<and> iterator \<noteq> search_end_node
      then let padding_bytes = calculate_padding_needed NODE_SIZE iterator alignment;
               required_space = sz + NODE_SIZE + padding_bytes
           in if get_block_size m iterator \<ge> required_space
              then Some (iterator_previous, iterator, padding_bytes)
              else let next = get_next_pointer m iterator;
                       iterator_previous = (if next \<noteq> 0 then iterator else iterator_previous)
                   in find_internal m search_end_node sz alignment next iterator_previous
                        padding_bytes
      else Some (0, 0, padding_bytes))"

fun find_node :: "u64 \<Rightarrow> u64 \<Rightarrow> page_state \<Rightarrow> (u64 \<times> u64 \<times> u64) option" where
  "find_node sz alignment (h, m) = find_internal m 0 sz alignment (m_head h) 0 0"

fun coalesce :: "u64 \<Rightarrow> u64 \<Rightarrow> page_state \<Rightarrow> page_state" where
  "coalesce previous_node free_node (h, m) =
     (let (h, m) =
            (if get_next_pointer m free_node \<noteq> 0
                \<and> free_node + get_block_size m free_node = get_next_pointer m free_node
             then let m = set_block_size m free_node
                            (get_block_size m free_node
                             + get_block_size m (get_next_pointer m free_node));
                      (h, m) = LogicalPageAnySize_remove free_node
                                 (get_next_pointer m free_node) (h, m)
                  in (h\<lparr>m_last_used_node := 0\<rparr>, m)
             else (h, m))
      in if previous_node \<noteq> 0
            \<and> previous_node + get_block_size m previous_node = free_node
         then let m = set_block_size m previous_node
                        (get_block_size m previous_node + get_block_size m free_node);
                  (h, m) = LogicalPageAnySize_remove previous_node free_node (h, m)
              in (h\<lparr>m_last_used_node := 0\<rparr>, m)
         else (h, m))"

subsection \<open>Page operations\<close>

fun LogicalPageAnySize_create :: "u64 \<Rightarrow> u64 \<Rightarrow> u32 \<Rightarrow> page_state \<Rightarrow> bool \<times> page_state" where
  "LogicalPageAnySize_create buffer buffer_size sz_class (h, m) =
     (if buffer_size > MAX_BLOCK_SIZE then (False, (h, m))
      else if buffer_size \<le> NODE_SIZE \<or> buffer = 0 then (False, (h, m))
      else let buffer_start_including_header = buffer - sizeof_LogicalPageHeader
           in if \<not> is_address_page_allocation_granularity_aligned buffer
                 \<and> \<not> is_address_page_allocation_granularity_aligned buffer_start_including_header
              then (False, (h, m))
              else let h = (initialise h)\<lparr>m_size_class := sz_class,
                             m_logical_page_start_address := buffer,
                             m_logical_page_size := buffer_size\<rparr>;
                       m = set_block_size m buffer buffer_size;
                       m = clear_next_pointer m buffer
                   in (True, LogicalPageAnySize_insert 0 buffer (h, m)))"

text \<open>The bytes of the found block beyond the allocation go back to the freelist as a node of their
  own, or are added to the allocation where they are too few for a node.\<close>

fun return_excess :: "u64 \<Rightarrow> u64 \<Rightarrow> u64 \<Rightarrow> page_state \<Rightarrow> u64 \<times> page_state" where
  "return_excess affected_node total_size excess_bytes (h, m) =
     (if excess_bytes \<ge> NODE_SIZE
      then let new_free_node = affected_node + total_size;
               m = set_block_size m new_free_node excess_bytes
           in (total_size, LogicalPageAnySize_insert affected_node new_free_node (h, m))
      else if excess_bytes > 0 \<and> excess_bytes < NODE_SIZE
      then (total_size + excess_bytes, (h, m))
      else (total_size, (h, m)))"

fun LogicalPageAnySize_allocate :: "u64 \<Rightarrow> page_state \<Rightarrow> (u64 \<times> page_state) option" where
  "LogicalPageAnySize_allocate sz (h, m) =
     (let allocation_size = (if sz < NODE_SIZE then NODE_SIZE else sz)
      in case find_node allocation_size MIN_ALIGNMENT_SIZE (h, m) of
           None \<Rightarrow> None
         | Some (previous_node, affected_node, padding) \<Rightarrow>
             if affected_node = 0 then Some (0, (h, m))
             else let total_size = allocation_size + padding + NODE_SIZE;
                      excess_bytes = get_block_size m affected_node - total_size;
                      (total_size, s) = return_excess affected_node total_size excess_bytes (h, m);
                      (h, m) = LogicalPageAnySize_remove previous_node affected_node s;
                      header_address = affected_node + padding;
                      payload_address = header_address + NODE_SIZE;
                      m = set_block_size m header_address total_size;
                      m = set_padding_size m header_address padding;
                      h = h\<lparr>m_used_size := m_used_size h + total_size\<rparr>
                  in Some (payload_address, (h, m)))"

text \<open>The loop of \<open>deallocate\<close> that looks for the place of the freed block: the last node passed, and
  whether a node beyond the freed pointer was found (the source then inserts inside the loop, and
  otherwise after it, in both cases behind that last node).\<close>

partial_function (option) find_insertion_point ::
  "mem \<Rightarrow> u64 \<Rightarrow> u64 \<Rightarrow> u64 \<Rightarrow> (u64 \<times> bool) option" where
  "find_insertion_point m ptr iterator iterator_previous =
     (if iterator \<noteq> 0
      then if ptr < iterator then Some (iterator_previous, True)
           else find_insertion_point m ptr (get_next_pointer m iterator) iterator
      else Some (iterator_previous, False))"

text \<open>The freed node is linked into the list; the result carries the predecessor that the loop has
  determined (none where the loop does not run).\<close>

fun insert_free_node :: "u64 \<Rightarrow> u64 \<Rightarrow> page_state \<Rightarrow> (u64 \<times> page_state) option" where
  "insert_free_node ptr free_node (h, m) =
     (let head = m_head h in
      if head \<noteq> 0
      then if get_next_pointer m head = 0
           then Some (0, LogicalPageAnySize_insert head free_node (h, m))
           else do {
             (iterator_previous, inserted) \<leftarrow> find_insertion_point m ptr head 0;
             Some (iterator_previous,
                   LogicalPageAnySize_insert iterator_previous free_node (h, m)) }
      else Some (0, LogicalPageAnySize_insert 0 free_node (h, m)))"

fun LogicalPageAnySize_deallocate :: "CoalescePolicy \<Rightarrow> u64 \<Rightarrow> page_state \<Rightarrow> page_state option" where
  "LogicalPageAnySize_deallocate coalesce_policy ptr (h, m) =
     (if page_owns_pointer h ptr = False then Some (h, m)
      else let allocation_header = ptr - NODE_SIZE;
               header_address = ptr - NODE_SIZE;
               padding_size = get_padding_size m allocation_header;
               free_node = header_address - padding_size;
               m = set_block_size m free_node (get_block_size m allocation_header);
               m = clear_next_pointer m free_node
           in do {
             (iterator_previous, (h, m)) \<leftarrow> insert_free_node ptr free_node (h, m);
             let h = h\<lparr>m_used_size := m_used_size h - get_block_size m free_node\<rparr>;
             Some (if coalesce_policy = COALESCE then coalesce iterator_previous free_node (h, m)
                   else (h, m)) })"

definition LogicalPageAnySize_get_usable_size :: "u64 \<Rightarrow> page_state \<Rightarrow> u64" where
  "LogicalPageAnySize_get_usable_size ptr s =
     (let allocation_header = ptr - NODE_SIZE
      in get_block_size (snd s) allocation_header - NODE_SIZE)"

text \<open>The consistency check that unit-test builds run after every operation.\<close>

partial_function (option) is_sane_loop :: "mem \<Rightarrow> u64 \<Rightarrow> u64 \<Rightarrow> u64 option" where
  "is_sane_loop m iterator total_available_memory =
     (if iterator \<noteq> 0
      then is_sane_loop m (get_next_pointer m iterator)
             (total_available_memory + get_block_size m iterator)
      else Some total_available_memory)"

fun is_sane :: "page_state \<Rightarrow> bool option" where
  "is_sane (h, m) =
     do { total_available_memory \<leftarrow> is_sane_loop m (m_head h) 0;
          let computed_total_size = total_available_memory + m_used_size h;
          Some (m_logical_page_size h = computed_total_size) }"

partial_function (option) get_node_count_loop :: "mem \<Rightarrow> u64 \<Rightarrow> u64 \<Rightarrow> u64 option" where
  "get_node_count_loop m iterator n =
     (if iterator \<noteq> 0 then get_node_count_loop m (get_next_pointer m iterator) (n + 1)
      else Some n)"

fun get_node_count :: "page_state \<Rightarrow> u64 option" where
  "get_node_count (h, m) = get_node_count_loop m (m_head h) 0"

declare find_internal.simps [code] find_insertion_point.simps [code] is_sane_loop.simps [code]
  get_node_count_loop.simps [code]

subsection \<open>Nodes as cells\<close>

definition node_ok :: "u64 \<Rightarrow> bool" where
  "node_ok a \<longleftrightarrow> a \<noteq> 0 \<and> unat a + 16 \<le> 2 ^ 64"

definition nodes_apart :: "u64 \<Rightarrow> u64 \<Rightarrow> bool" where
  "nodes_apart a b \<longleftrightarrow> unat a + 16 \<le> unat b \<or> unat b + 16 \<le> unat a"

lemma nodes_apart_sym: "nodes_apart a b \<longleftrightarrow> nodes_apart b a"
  by (auto simp: nodes_apart_def)

lemma nodes_apart_irrefl [simp]: "\<not> nodes_apart a a"
  by (simp add: nodes_apart_def)

lemma unat_node_second: "node_ok a \<Longrightarrow> unat (a + 8) = unat a + 8"
  by (subst unat_add_nowrap) (auto simp: node_ok_def)

lemma node_same [simp]:
  assumes "node_ok a"
  shows "get_next_pointer (set_next_pointer m a v) a = v"
    and "get_next_pointer (set_block_size m a v) a = get_next_pointer m a"
    and "get_block_size (set_next_pointer m a v) a = get_block_size m a"
    and "get_block_size (set_block_size m a v) a = v"
  using assms unat_node_second [OF assms]
  by (auto simp: node_defs node_ok_def intro!: load64_store64_other)

lemma node_other [simp]:
  assumes "nodes_apart a b" "node_ok a" "node_ok b"
  shows "get_next_pointer (set_next_pointer m a v) b = get_next_pointer m b"
    and "get_next_pointer (set_block_size m a v) b = get_next_pointer m b"
    and "get_block_size (set_next_pointer m a v) b = get_block_size m b"
    and "get_block_size (set_block_size m a v) b = get_block_size m b"
  using assms unat_node_second [OF assms(2)] unat_node_second [OF assms(3)]
  by (auto simp: node_defs node_ok_def nodes_apart_def intro!: load64_store64_other)

lemma clear_next_pointer_eq: "clear_next_pointer m a = set_next_pointer m a 0"
  by (simp add: node_defs)

lemma set_next_pointer_frame:
  "node_ok a \<Longrightarrow> unat x \<notin> region a 16 \<Longrightarrow> set_next_pointer m a v x = m x"
  by (auto simp: node_defs node_ok_def intro!: store64_outside)

lemma set_block_size_frame:
  "node_ok a \<Longrightarrow> unat x \<notin> region a 16 \<Longrightarrow> set_block_size m a v x = m x"
  using unat_node_second [of a] by (auto simp: node_defs node_ok_def intro!: store64_outside)

lemma node_frame:
  assumes "node_ok a" "\<And>x. unat x \<in> region a 16 \<Longrightarrow> m' x = m x"
  shows "get_next_pointer m' a = get_next_pointer m a" "get_block_size m' a = get_block_size m a"
  using assms unat_node_second [OF assms(1)]
  by (auto simp: node_defs node_ok_def intro!: load64_region_cong)

subsection \<open>The freelist in memory\<close>

type_synonym free_block = "u64 \<times> u64"

definition fl_ok :: "LogicalPageHeader \<Rightarrow> mem \<Rightarrow> free_block list \<Rightarrow> bool" where
  "fl_ok h m fl \<longleftrightarrow> chain (get_next_pointer m) (m_head h) (map fst fl)
     \<and> (\<forall>(a, s)\<in>set fl. node_ok a \<and> get_block_size m a = s)
     \<and> sorted_wrt nodes_apart (map fst fl)"

definition prev_of :: "free_block list \<Rightarrow> u64" where
  "prev_of xs = (if xs = [] then 0 else fst (last xs))"

lemma prev_of_in: "xs \<noteq> [] \<Longrightarrow> (prev_of xs, snd (last xs)) \<in> set xs"
  by (simp add: prev_of_def)

lemma fl_ok_frame:
  assumes "fl_ok h m fl" "m_head h' = m_head h"
    and "\<And>a s x. (a, s) \<in> set fl \<Longrightarrow> unat x \<in> region a 16 \<Longrightarrow> m' x = m x"
  shows "fl_ok h' m' fl"
proof -
  have n: "get_next_pointer m' a = get_next_pointer m a \<and> get_block_size m' a = get_block_size m a"
    if "(a, s) \<in> set fl" for a s
    using assms that by (intro conjI node_frame) (auto simp: fl_ok_def)
  then have "chain (get_next_pointer m') p (map fst fl) \<longleftrightarrow> chain (get_next_pointer m) p (map fst fl)" for p
    by (intro path_cong) auto
  then show ?thesis using assms n by (fastforce simp: fl_ok_def)
qed

lemma fl_ok_distinct: "fl_ok h m fl \<Longrightarrow> distinct (map fst fl)"
  by (auto simp: fl_ok_def dest: chain_distinct)

lemma fl_ok_node: "fl_ok h m fl \<Longrightarrow> (a, s) \<in> set fl \<Longrightarrow> node_ok a \<and> get_block_size m a = s"
  by (auto simp: fl_ok_def)

lemma fl_ok_apart:
  assumes "fl_ok h m (xs @ (a, s) # ys)" "(e, r) \<in> set (xs @ ys)"
  shows "nodes_apart a e" "nodes_apart e a"
  using assms by (fastforce simp: fl_ok_def sorted_wrt_append nodes_apart_sym)+

text \<open>What \<open>insert\<close> does to memory, whichever branch it takes.\<close>

lemma insert_effect:
  assumes "node_ok b" "prev = 0 \<or> node_ok prev \<and> nodes_apart b prev"
    and "LogicalPageAnySize_insert prev b (h, m) = (h', m')"
  shows "h' = h\<lparr>m_head := (if prev = 0 then b else m_head h)\<rparr>"
    and "get_next_pointer m' b = (if prev = 0 then m_head h else get_next_pointer m prev)"
    and "prev \<noteq> 0 \<Longrightarrow> get_next_pointer m' prev = b"
    and "get_block_size m' b = get_block_size m b"
    and "prev \<noteq> 0 \<Longrightarrow> get_block_size m' prev = get_block_size m prev"
    and "\<And>x. unat x \<notin> region b 16 \<Longrightarrow> prev = 0 \<or> unat x \<notin> region prev 16 \<Longrightarrow> m' x = m x"
proof -
  have ap: "prev \<noteq> 0 \<Longrightarrow> node_ok prev" "prev \<noteq> 0 \<Longrightarrow> nodes_apart b prev" "prev \<noteq> 0 \<Longrightarrow> nodes_apart prev b"
    using assms(2) by (auto simp: nodes_apart_sym)
  note [simp] = clear_next_pointer_eq Let_def set_next_pointer_frame
  show "h' = h\<lparr>m_head := (if prev = 0 then b else m_head h)\<rparr>"
    using assms(3) by (auto split: if_splits)
  show "get_next_pointer m' b = (if prev = 0 then m_head h else get_next_pointer m prev)"
    using assms(1,3) ap by (auto split: if_splits)
  show "prev \<noteq> 0 \<Longrightarrow> get_next_pointer m' prev = b"
    using assms(1,3) ap by (auto split: if_splits)
  show "get_block_size m' b = get_block_size m b"
    using assms(1,3) ap by (auto split: if_splits)
  show "prev \<noteq> 0 \<Longrightarrow> get_block_size m' prev = get_block_size m prev"
    using assms(1,3) ap by (auto split: if_splits)
  show "\<And>x. unat x \<notin> region b 16 \<Longrightarrow> prev = 0 \<or> unat x \<notin> region prev 16 \<Longrightarrow> m' x = m x"
    using assms(1,3) ap by (auto simp del: in_region_iff split: if_splits)
qed

lemma node_unchanged:
  assumes "node_ok e" "nodes_apart b e" "prev = 0 \<or> nodes_apart prev e"
    and "\<And>x. unat x \<notin> region b 16 \<Longrightarrow> prev = 0 \<or> unat x \<notin> region prev 16 \<Longrightarrow> m' x = m x"
  shows "get_next_pointer m' e = get_next_pointer m e" "get_block_size m' e = get_block_size m e"
  using assms by (auto simp: nodes_apart_def intro!: node_frame assms(4))

lemma insert_ok:
  assumes fl: "fl_ok h m (xs @ ys)" and b: "node_ok b" "get_block_size m b = s"
    and ap: "\<And>a t. (a, t) \<in> set (xs @ ys) \<Longrightarrow> nodes_apart b a"
    and ins: "LogicalPageAnySize_insert (prev_of xs) b (h, m) = (h', m')"
  shows "fl_ok h' m' (xs @ (b, s) # ys)"
proof -
  have pv: "prev_of xs = 0 \<or> node_ok (prev_of xs) \<and> nodes_apart b (prev_of xs)"
  proof (cases "xs = []")
    case False
    then have "(prev_of xs, snd (last xs)) \<in> set (xs @ ys)" using prev_of_in by simp
    then show ?thesis using fl_ok_node [OF fl] ap by blast
  qed (simp add: prev_of_def)
  note eff = insert_effect [OF b(1) pv ins]
  note d = fl_ok_distinct [OF fl]
  have bn: "b \<notin> set (map fst (xs @ ys))" using ap by force
  have rest: "get_next_pointer m' e = get_next_pointer m e" "get_block_size m' e = get_block_size m e"
    if "(e, r) \<in> set (xs @ ys)" "e \<noteq> prev_of xs" for e r
  proof -
    have "prev_of xs = 0 \<or> nodes_apart (prev_of xs) e"
      using fl that by (cases xs rule: rev_cases)
        (auto simp: prev_of_def fl_ok_def sorted_wrt_append nodes_apart_sym)
    then show "get_next_pointer m' e = get_next_pointer m e" "get_block_size m' e = get_block_size m e"
      using node_unchanged [of e b "prev_of xs" m' m] eff(6) ap that fl_ok_node [OF fl that(1)] by blast+
  qed
  have c: "chain (get_next_pointer m') (m_head h') (map fst (xs @ (b, s) # ys))"
  proof (cases xs rule: rev_cases)
    case Nil
    have "chain (get_next_pointer m') (m_head h) (map fst ys) \<longleftrightarrow> chain (get_next_pointer m) (m_head h) (map fst ys)"
      using rest(1) fl_ok_node [OF fl] Nil by (intro path_cong) (auto simp: prev_of_def node_ok_def)
    then show ?thesis using fl eff(1,2) b Nil by (auto simp: fl_ok_def prev_of_def node_ok_def)
  next
    case (snoc us c)
    let ?a = "prev_of xs"
    let ?n = "(get_next_pointer m)(b := get_next_pointer m ?a, ?a := b)"
    have a: "fst c = ?a" "?a \<noteq> 0" using snoc fl_ok_node [OF fl, of "fst c" "snd c"]
      by (auto simp: prev_of_def node_ok_def)
    have "chain ?n (m_head h) (map fst us @ ?a # b # map fst ys)"
      using fl d bn b snoc a by (intro path_insert_after) (auto simp: fl_ok_def node_ok_def)
    moreover have "get_next_pointer m' e = ?n e" if e_in: "e \<in> set (map fst us @ ?a # b # map fst ys)" for e
    proof (cases "e = b \<or> e = ?a")
      case True
      then show ?thesis using eff(2,3) a(2) by auto
    next
      case False
      then have "\<exists>r. (e, r) \<in> set (xs @ ys)" using e_in snoc by auto
      then obtain r where "(e, r) \<in> set (xs @ ys)" by blast
      then show ?thesis using rest(1) False by auto
    qed
    ultimately have "chain (get_next_pointer m') (m_head h) (map fst us @ ?a # b # map fst ys)"
      by (rule path_congI)
    moreover have "map fst (xs @ (b, s) # ys) = map fst us @ ?a # b # map fst ys"
      using a(1) snoc by simp
    ultimately show ?thesis using eff(1) a(2) by simp
  qed
  have bl: "node_ok e \<and> get_block_size m' e = r" if "(e, r) \<in> set (xs @ ys)" for e r
    using fl_ok_node [OF fl that] rest(2) [OF that] eff(5) by (cases "e = prev_of xs") (auto simp: node_ok_def)
  have "\<forall>e\<in>set (map fst (xs @ ys)). nodes_apart b e \<and> nodes_apart e b"
    using ap nodes_apart_sym by fastforce
  then have "sorted_wrt nodes_apart (map fst (xs @ (b, s) # ys))"
    using fl by (auto simp: fl_ok_def sorted_wrt_append)
  moreover have "\<forall>(e, r)\<in>set (xs @ (b, s) # ys). node_ok e \<and> get_block_size m' e = r"
    using bl b eff(4) by auto
  ultimately show ?thesis using c by (simp add: fl_ok_def)
qed

lemma remove_effect:
  assumes "prev = 0 \<or> node_ok prev" "LogicalPageAnySize_remove prev d (h, m) = (h', m')"
  shows "h' = (if prev = 0 then h\<lparr>m_head := get_next_pointer m d\<rparr> else h)"
    and "m' = (if prev = 0 then m else set_next_pointer m prev (get_next_pointer m d))"
  using assms by (auto split: if_splits)

declare LogicalPageAnySize_insert.simps [simp del] LogicalPageAnySize_remove.simps [simp del]

lemma remove_ok:
  assumes fl: "fl_ok h m (xs @ (d, s) # ys)"
    and rem: "LogicalPageAnySize_remove (prev_of xs) d (h, m) = (h', m')"
  shows "fl_ok h' m' (xs @ ys)"
proof (cases xs rule: rev_cases)
  case Nil
  with remove_effect [OF _ rem] have "h' = h\<lparr>m_head := get_next_pointer m d\<rparr>" "m' = m"
    by (simp_all add: prev_of_def)
  then show ?thesis using fl Nil by (auto simp: fl_ok_def)
next
  case (snoc us c)
  obtain a t where at: "c = (a, t)" by (cases c)
  have a: "node_ok a" "get_block_size m a = t" "prev_of xs = a"
    using fl_ok_node [OF fl, of a t] snoc at by (auto simp: prev_of_def)
  then have e: "h' = h" "m' = set_next_pointer m a (get_next_pointer m d)"
    using remove_effect [OF _ rem] by (auto simp: node_ok_def)
  have fl': "fl_ok h m (us @ (a, t) # (d, s) # ys)" using fl snoc at by simp
  have ap: "nodes_apart a e" if "(e, r) \<in> set (us @ ys)" for e r
    using fl_ok_apart(1) [OF fl', of e r] that by auto
  have "chain ((get_next_pointer m)(a := get_next_pointer m d)) (m_head h) (map fst us @ a # map fst ys)"
    using fl' fl_ok_distinct [OF fl'] by (intro path_remove_after) (auto simp: fl_ok_def)
  moreover have "get_next_pointer m' e = ((get_next_pointer m)(a := get_next_pointer m d)) e"
    if "e \<in> set (map fst us @ a # map fst ys)" for e
    using that a e(2) ap fl_ok_node [OF fl'] by fastforce
  ultimately have "chain (get_next_pointer m') (m_head h') (map fst us @ a # map fst ys)"
    unfolding e(1) by (rule path_congI)
  moreover have "\<forall>(e, r)\<in>set (us @ (a, t) # ys). node_ok e \<and> get_block_size m' e = r"
    using a e(2) ap fl_ok_node [OF fl'] by fastforce
  moreover have "sorted_wrt nodes_apart (map fst us @ a # map fst ys)"
    using fl' by (auto simp: fl_ok_def sorted_wrt_append)
  ultimately show ?thesis using snoc at by (simp add: fl_ok_def)
qed

lemma insert_frame:
  assumes fl: "fl_ok h m (xs @ ys)" and b: "node_ok b"
    and ap: "\<And>a t. (a, t) \<in> set (xs @ ys) \<Longrightarrow> nodes_apart b a"
    and ins: "LogicalPageAnySize_insert (prev_of xs) b (h, m) = (h', m')"
  shows "h' = h\<lparr>m_head := m_head h'\<rparr>"
    and "unat x \<notin> region b 16 \<Longrightarrow> (\<And>a t. (a, t) \<in> set xs \<Longrightarrow> unat x \<notin> region a 16) \<Longrightarrow> m' x = m x"
proof -
  have pv: "prev_of xs = 0 \<or> node_ok (prev_of xs) \<and> nodes_apart b (prev_of xs)"
  proof (cases "xs = []")
    case False
    then have "(prev_of xs, snd (last xs)) \<in> set (xs @ ys)" using prev_of_in by simp
    then show ?thesis using fl_ok_node [OF fl] ap by blast
  qed (simp add: prev_of_def)
  note eff = insert_effect [OF b pv ins]
  show "h' = h\<lparr>m_head := m_head h'\<rparr>" by (subst eff(1)) (simp add: eff(1))
  assume x: "unat x \<notin> region b 16" "\<And>a t. (a, t) \<in> set xs \<Longrightarrow> unat x \<notin> region a 16"
  have "prev_of xs = 0 \<or> unat x \<notin> region (prev_of xs) 16"
    using x(2) [OF prev_of_in] by (cases "xs = []") (simp_all add: prev_of_def)
  then show "m' x = m x" by (rule eff(6) [OF x(1)])
qed

lemma remove_frame:
  assumes fl: "fl_ok h m (xs @ (d, s) # ys)"
    and rem: "LogicalPageAnySize_remove (prev_of xs) d (h, m) = (h', m')"
  shows "h' = h\<lparr>m_head := m_head h'\<rparr>"
    and "(\<And>a t. (a, t) \<in> set xs \<Longrightarrow> unat x \<notin> region a 16) \<Longrightarrow> m' x = m x"
proof -
  have pv: "prev_of xs = 0 \<or> node_ok (prev_of xs)"
  proof (cases "xs = []")
    case False
    then have "(prev_of xs, snd (last xs)) \<in> set (xs @ (d, s) # ys)" using prev_of_in by simp
    then show ?thesis using fl_ok_node [OF fl] by blast
  qed (simp add: prev_of_def)
  note eff = remove_effect [OF pv rem]
  show "h' = h\<lparr>m_head := m_head h'\<rparr>" by (simp add: eff(1))
  assume x: "\<And>a t. (a, t) \<in> set xs \<Longrightarrow> unat x \<notin> region a 16"
  have "prev_of xs = 0 \<or> unat x \<notin> region (prev_of xs) 16"
    using x [OF prev_of_in] by (cases "xs = []") (simp_all add: prev_of_def)
  then show "m' x = m x" using eff(2) pv set_next_pointer_frame [of "prev_of xs" x] by auto
qed

subsection \<open>The invariant of a page\<close>

text \<open>
  A live block is its base, its size and its padding; its header sits at \<open>base + padding\<close> and its
  payload 16 bytes further.  The free and the live blocks tile the buffer of the page.
\<close>

type_synonym live_block = "u64 \<times> u64 \<times> u64"

fun nb :: "free_block \<Rightarrow> block" where
  "nb (a, s) = (unat a, unat s)"

fun nbl :: "live_block \<Rightarrow> block" where
  "nbl (b, s, p) = (unat b, unat s)"

fun live_ok :: "mem \<Rightarrow> live_block \<Rightarrow> bool" where
  "live_ok m (b, s, p) \<longleftrightarrow> get_padding_size m (b + p) = p \<and> get_block_size m (b + p) = s
     \<and> unat p < 16 \<and> unat p + 32 \<le> unat s \<and> 16 dvd (unat b + unat p)"

fun payload :: "live_block \<Rightarrow> u64" where
  "payload (b, s, p) = b + p + NODE_SIZE"

definition any_geometry :: "LogicalPageHeader \<Rightarrow> bool" where
  "any_geometry h \<longleftrightarrow> m_logical_page_start_address h \<noteq> 0
     \<and> unat (m_logical_page_start_address h) + unat (m_logical_page_size h) < 2 ^ 64"

definition any_tiles :: "LogicalPageHeader \<Rightarrow> free_block list \<Rightarrow> live_block list \<Rightarrow> bool" where
  "any_tiles h fl L \<longleftrightarrow> tiles (unat (m_logical_page_start_address h)) (unat (m_logical_page_size h))
     (map nb fl @ map nbl L) \<and> (\<forall>(a, s)\<in>set fl. 16 \<le> unat s)"

definition any_inv :: "LogicalPageHeader \<Rightarrow> mem \<Rightarrow> free_block list \<Rightarrow> live_block list \<Rightarrow> bool" where
  "any_inv h m fl L \<longleftrightarrow> any_geometry h \<and> any_tiles h fl L \<and> fl_ok h m fl
     \<and> (\<forall>l\<in>set L. live_ok m l) \<and> unat (m_used_size h) = sum_list (map (snd \<circ> nbl) L)"

lemma any_tiles_upd [simp]:
  "any_geometry (h\<lparr>m_head := a\<rparr>) = any_geometry h" "any_tiles (h\<lparr>m_head := a\<rparr>) = any_tiles h"
  "any_geometry (h\<lparr>m_used_size := b\<rparr>) = any_geometry h" "any_tiles (h\<lparr>m_used_size := b\<rparr>) = any_tiles h"
  "any_geometry (h\<lparr>m_last_used_node := c\<rparr>) = any_geometry h"
  "any_tiles (h\<lparr>m_last_used_node := c\<rparr>) = any_tiles h"
  by (simp_all add: any_geometry_def any_tiles_def fun_eq_iff)

lemma any_tiles_perm:
  "mset fl = mset fl' \<Longrightarrow> mset L = mset L' \<Longrightarrow> any_tiles h fl L \<Longrightarrow> any_tiles h fl' L'"
  unfolding any_tiles_def using mset_eq_setD [of fl fl']
  by (auto elim!: tiles_perm [rotated])

lemma any_free_bounds:
  assumes "any_geometry h" "any_tiles h fl L" "(a, s) \<in> set fl"
  shows "node_ok a" "16 \<le> unat s" "unat a + unat s < 2 ^ 64"
    "unat (m_logical_page_start_address h) \<le> unat a"
    "unat a + unat s \<le> unat (m_logical_page_start_address h) + unat (m_logical_page_size h)"
proof -
  have "nb (a, s) \<in> set (map nb fl @ map nbl L)" using assms(3) by (force simp del: nb.simps)
  then have i: "inside (unat (m_logical_page_start_address h)) (unat (m_logical_page_size h)) (unat a, unat s)"
    using assms(2) tiles_inside unfolding any_tiles_def by fastforce
  have s: "16 \<le> unat s" using assms(2,3) by (auto simp: any_tiles_def)
  show "unat a + unat s < 2 ^ 64" "unat (m_logical_page_start_address h) \<le> unat a" "16 \<le> unat s"
    "unat a + unat s \<le> unat (m_logical_page_start_address h) + unat (m_logical_page_size h)"
    using i s assms(1) by (auto simp: any_geometry_def)
  have "0 < unat (m_logical_page_start_address h)" using assms(1) by (simp add: any_geometry_def unat_gt_0)
  then show "node_ok a" using i s assms(1) by (auto simp: node_ok_def any_geometry_def)
qed

lemma any_live_bounds:
  assumes "any_geometry h" "any_tiles h fl L" "(b, s, p) \<in> set L"
  shows "unat b + unat s < 2 ^ 64" "b \<noteq> 0"
    "unat (m_logical_page_start_address h) \<le> unat b"
    "unat b + unat s \<le> unat (m_logical_page_start_address h) + unat (m_logical_page_size h)"
proof -
  have "nbl (b, s, p) \<in> set (map nb fl @ map nbl L)" using assms(3) by (force simp del: nbl.simps)
  then have i: "inside (unat (m_logical_page_start_address h)) (unat (m_logical_page_size h)) (unat b, unat s)"
    using assms(2) tiles_inside unfolding any_tiles_def by fastforce
  show "unat b + unat s < 2 ^ 64" "unat (m_logical_page_start_address h) \<le> unat b"
    "unat b + unat s \<le> unat (m_logical_page_start_address h) + unat (m_logical_page_size h)"
    using i assms(1) by (auto simp: any_geometry_def)
  have "0 < unat (m_logical_page_start_address h)" using assms(1) by (simp add: any_geometry_def unat_gt_0)
  then show "b \<noteq> 0" using i by (auto simp: unat_gt_0 [symmetric])
qed

lemma any_blocks_apart:
  assumes "any_tiles h fl L"
  shows "\<And>x y. x \<in> set fl \<Longrightarrow> y \<in> set L \<Longrightarrow> apart (nb x) (nbl y)"
    and "\<And>xs x ys y. fl = xs @ x # ys \<Longrightarrow> y \<in> set (xs @ ys) \<Longrightarrow> apart (nb x) (nb y)"
    and "\<And>us x vs y. L = us @ x # vs \<Longrightarrow> y \<in> set (us @ vs) \<Longrightarrow> apart (nbl x) (nbl y)"
proof -
  have a: "apart_blocks (map nb fl)" "apart_blocks (map nbl L)"
    "\<forall>x\<in>set (map nb fl). \<forall>y\<in>set (map nbl L). apart x y"
    using assms unfolding any_tiles_def tiles_def apart_blocks_append by blast+
  show "\<And>x y. x \<in> set fl \<Longrightarrow> y \<in> set L \<Longrightarrow> apart (nb x) (nbl y)" using a(3) by simp
  show "apart (nb x) (nb y)" if "fl = xs @ x # ys" "y \<in> set (xs @ ys)" for xs x ys y
    using a(1) that apart_sym [of "nb y" "nb x"] by (auto simp: apart_blocks_append)
  show "apart (nbl x) (nbl y)" if "L = us @ x # vs" "y \<in> set (us @ vs)" for us x vs y
    using a(2) that apart_sym [of "nbl y" "nbl x"] by (auto simp: apart_blocks_append)
qed

subsection \<open>The first-fit search\<close>

abbreviation pad :: "u64 \<Rightarrow> u64" where
  "pad a \<equiv> calculate_padding_needed NODE_SIZE a MIN_ALIGNMENT_SIZE"

fun fits :: "u64 \<Rightarrow> free_block \<Rightarrow> bool" where
  "fits sz (a, s) \<longleftrightarrow> sz + NODE_SIZE + pad a \<le> s"

lemma pad_bound: "unat (pad a) < 16" and pad_aligned: "16 dvd (unat a + unat (pad a))"
proof -
  have dv: "(16::nat) dvd 2 ^ 64" by simp
  have r: "unat ((a + 16) mod 16 :: u64) = unat a mod 16"
    using mod_mod_cancel [OF dv, of "unat a + 16"] by (simp add: unat_mod unat_word_ariths)
  have p: "unat (pad a) = (if unat a mod 16 = 0 then 0 else 16 - unat a mod 16)"
  proof (cases "(a + 16) mod 16 = 0")
    case False
    have "unat (16 - (a + 16) mod 16 :: u64) = 16 - unat ((a + 16) mod 16)"
      using r by (subst unat_sub_nowrap) simp_all
    moreover have "unat a mod 16 \<noteq> 0" using False r by (metis unat_eq_zero)
    ultimately show ?thesis using False r
      by (simp add: calculate_padding_needed_def NODE_SIZE_def MIN_ALIGNMENT_SIZE_def)
  next
    case True
    then have "unat a mod 16 = 0" using r by simp
    then show ?thesis using True
      by (simp add: calculate_padding_needed_def NODE_SIZE_def MIN_ALIGNMENT_SIZE_def)
  qed
  then show "unat (pad a) < 16" by simp
  show "16 dvd (unat a + unat (pad a))" using p by presburger
qed

lemma unat_fits:
  assumes "unat sz + 32 < 2 ^ 64"
  shows "fits sz (a, s) \<longleftrightarrow> unat sz + 16 + unat (pad a) \<le> unat s"
    and "unat (sz + pad a + NODE_SIZE) = unat sz + unat (pad a) + 16"
proof -
  have 1: "unat (sz + NODE_SIZE) = unat sz + 16" "unat (sz + pad a) = unat sz + unat (pad a)"
    using assms pad_bound [of a] by (subst unat_add_nowrap; simp add: NODE_SIZE_def)+
  then have "unat (sz + NODE_SIZE + pad a) = unat sz + 16 + unat (pad a)"
    using assms pad_bound [of a] by (subst unat_add_nowrap) simp_all
  then show "fits sz (a, s) \<longleftrightarrow> unat sz + 16 + unat (pad a) \<le> unat s"
    by (simp add: word_le_nat_alt)
  show "unat (sz + pad a + NODE_SIZE) = unat sz + unat (pad a) + 16"
    using 1 assms pad_bound [of a] by (subst unat_add_nowrap) (simp_all add: NODE_SIZE_def)
qed

lemma fl_ok_next:
  assumes "fl_ok h m (xs @ (a, s) # ys)"
  shows "get_next_pointer m a = (case ys of [] \<Rightarrow> 0 | (b, t) # _ \<Rightarrow> b)"
  using assms by (cases ys) (auto simp: fl_ok_def paths)

lemma find_internal_ok:
  assumes "fl_ok h m (xs @ ys)" "ys \<noteq> [] \<Longrightarrow> ip = prev_of xs"
  shows "(\<exists>us a s zs. ys = us @ (a, s) # zs \<and> (\<forall>x\<in>set us. \<not> fits sz x) \<and> fits sz (a, s)
       \<and> find_internal m 0 sz MIN_ALIGNMENT_SIZE (case ys of [] \<Rightarrow> 0 | (b, t) # _ \<Rightarrow> b) ip q
         = Some (prev_of (xs @ us), a, pad a))
    \<or> ((\<forall>x\<in>set ys. \<not> fits sz x)
       \<and> (\<exists>r. find_internal m 0 sz MIN_ALIGNMENT_SIZE (case ys of [] \<Rightarrow> 0 | (b, t) # _ \<Rightarrow> b) ip q
         = Some (0, 0, r)))"
  using assms
proof (induction ys arbitrary: xs ip q)
  case Nil
  then show ?case by (simp add: find_internal.simps)
next
  case (Cons y ys)
  obtain a s where y: "y = (a, s)" by (cases y)
  have n: "node_ok a" "get_block_size m a = s" using fl_ok_node [OF Cons.prems(1), of a s] y by auto
  then have a0: "a \<noteq> 0" by (simp add: node_ok_def)
  note nx = fl_ok_next [of h m xs a s ys]
  show ?case
  proof (cases "fits sz (a, s)")
    case True
    then show ?thesis using Cons.prems(2) y n a0
      by (intro disjI1 exI [of _ "[]"] exI [of _ a] exI [of _ s] exI [of _ ys])
        (simp add: find_internal.simps)
  next
    case False
    let ?nx = "case ys of [] \<Rightarrow> 0 | (b, t) # _ \<Rightarrow> b"
    let ?ip = "if ?nx \<noteq> 0 then a else ip"
    have un: "find_internal m 0 sz MIN_ALIGNMENT_SIZE a ip q
              = find_internal m 0 sz MIN_ALIGNMENT_SIZE ?nx ?ip (pad a)"
      using False n a0 nx Cons.prems(1) y
      by (subst find_internal.simps) (simp add: Let_def split del: if_split)
    have "?ip = prev_of (xs @ [(a, s)])" if "ys \<noteq> []"
      using that fl_ok_node [OF Cons.prems(1)] by (cases ys) (auto simp: prev_of_def node_ok_def)
    from Cons.IH [of "xs @ [(a, s)]" ?ip "pad a", OF _ this] Cons.prems(1) y
    consider us b t zs where "ys = us @ (b, t) # zs" "\<forall>x\<in>set us. \<not> fits sz x" "fits sz (b, t)"
        "find_internal m 0 sz MIN_ALIGNMENT_SIZE ?nx ?ip (pad a) = Some (prev_of ((xs @ [(a, s)]) @ us), b, pad b)"
      | r where "\<forall>x\<in>set ys. \<not> fits sz x"
        "find_internal m 0 sz MIN_ALIGNMENT_SIZE ?nx ?ip (pad a) = Some (0, 0, r)"
      by auto
    then show ?thesis
    proof cases
      case 1
      then show ?thesis using y un False
        by (intro disjI1 exI [of _ "(a, s) # us"] exI [of _ b] exI [of _ t] exI [of _ zs]) simp
    next
      case 2
      then show ?thesis using y un False by (intro disjI2) auto
    qed
  qed
qed

subsection \<open>Allocation\<close>

lemma live_frame:
  assumes "live_ok m (b, s, p)" "unat b + unat s < 2 ^ 64" "b \<noteq> 0"
    and "\<And>x. unat x \<in> region b (unat s) \<Longrightarrow> m' x = m x"
  shows "live_ok m' (b, s, p)"
proof -
  have "unat (b + p) = unat b + unat p" using assms(1,2) by (intro unat_add_nowrap) auto
  then have n: "node_ok (b + p)" and r: "region (b + p) 16 \<subseteq> region b (unat s)"
    using assms(1-3) by (auto simp: node_ok_def unat_gt_0 [symmetric])
  have "get_padding_size m' (b + p) = get_padding_size m (b + p)"
    using node_frame(1) [OF n, of m' m] assms(4) r by (auto simp: node_defs subset_iff)
  moreover have "get_block_size m' (b + p) = get_block_size m (b + p)"
    using assms(4) r by (intro node_frame(2) [OF n]) (auto simp: subset_iff)
  ultimately show ?thesis using assms(1) by simp
qed

text \<open>Memory may change inside the free blocks only.\<close>

definition frame_free :: "free_block list \<Rightarrow> mem \<Rightarrow> mem \<Rightarrow> bool" where
  "frame_free fl m m' \<longleftrightarrow> (\<forall>x. (\<forall>a s. (a, s) \<in> set fl \<longrightarrow> unat x \<notin> region a (unat s)) \<longrightarrow> m' x = m x)"

lemma frame_free_live:
  assumes "any_geometry h" "any_tiles h fl L" "\<forall>l\<in>set L. live_ok m l" "frame_free fl m m'"
  shows "\<forall>l\<in>set L. live_ok m' l"
proof
  fix l assume l: "l \<in> set L"
  obtain b s p where bsp: "l = (b, s, p)" by (cases l)
  note i = assms(1,2) bspec [OF assms(3) l]
  have "live_ok m' (b, s, p)"
  proof (rule live_frame)
    show "live_ok m (b, s, p)" using i(3) bsp by simp
    show "unat b + unat s < 2 ^ 64" "b \<noteq> 0" using any_live_bounds [OF i(1,2)] l bsp by blast+
    fix x :: u64 assume x: "unat x \<in> region b (unat s)"
    have "unat x \<notin> region a (unat t)" if "(a, t) \<in> set fl" for a t
      using any_blocks_apart(1) [OF i(2) that l] x bsp by auto
    then show "m' x = m x" using assms(4) by (auto simp: frame_free_def simp del: in_region_iff)
  qed
  then show "live_ok m' l" using bsp by simp
qed

lemma any_free_nodes_apart:
  assumes "any_geometry h" "any_tiles h (xs @ (a, s) # ys) L" "(e, r) \<in> set (xs @ ys)"
    and "unat a \<le> unat c" "unat c + 16 \<le> unat a + unat s"
  shows "nodes_apart c e"
  using any_blocks_apart(2) [OF assms(2) refl assms(3)]
    any_free_bounds(2) [OF assms(1,2), of e r] assms(3,4,5) by (auto simp: nodes_apart_def)

lemma split_block_ok:
  assumes inv: "any_inv h m (xs @ (a, s) # ys) L" and t: "16 \<le> unat t" "unat t + 16 \<le> unat s"
    and ins: "LogicalPageAnySize_insert a (a + t) (h, set_block_size m (a + t) (s - t)) = (h', m')"
  shows "fl_ok h' m' (xs @ (a, s) # (a + t, s - t) # ys)"
    and "h' = h\<lparr>m_head := m_head h'\<rparr>"
    and "frame_free (xs @ (a, s) # ys) m m'"
proof -
  let ?fl = "xs @ (a, s) # ys" let ?b = "a + t" let ?m = "set_block_size m ?b (s - t)"
  have g: "any_geometry h" "any_tiles h ?fl L" and fl: "fl_ok h m ?fl" using inv by (auto simp: any_inv_def)
  note ab = any_free_bounds [OF g, of a s, simplified]
  have b: "unat ?b = unat a + unat t" "node_ok ?b"
    using ab t unat_add_nowrap [of a t] by (auto simp: node_ok_def unat_gt_0 [symmetric])
  have ap: "nodes_apart ?b e" if "(e, r) \<in> set ?fl" for e r
  proof (cases "(e, r) \<in> set (xs @ ys)")
    case True
    then show ?thesis using b t by (intro any_free_nodes_apart [OF g]) auto
  next
    case False
    then show ?thesis using that b t by (auto simp: nodes_apart_def)
  qed
  have fl1: "fl_ok h ?m ?fl"
  proof (rule fl_ok_frame [OF fl refl])
    fix e r and x :: u64 assume e: "(e, r) \<in> set ?fl" "unat x \<in> region e 16"
    then show "?m x = m x" using ap [OF e(1)] b(2)
      by (intro set_block_size_frame) (auto simp: nodes_apart_def)
  qed
  have pv: "prev_of (xs @ [(a, s)]) = a" by (simp add: prev_of_def)
  have fl1': "fl_ok h ?m ((xs @ [(a, s)]) @ ys)" using fl1 by simp
  have gb: "get_block_size ?m ?b = s - t" using b(2) by simp
  have ap': "\<And>e r. (e, r) \<in> set ((xs @ [(a, s)]) @ ys) \<Longrightarrow> nodes_apart ?b e" using ap by auto
  have ins': "LogicalPageAnySize_insert (prev_of (xs @ [(a, s)])) ?b (h, ?m) = (h', m')"
    using ins pv by simp
  show "fl_ok h' m' (xs @ (a, s) # (?b, s - t) # ys)"
    using insert_ok [OF fl1' b(2) gb _ ins'] ap' by simp
  show "h' = h\<lparr>m_head := m_head h'\<rparr>"
    by (rule insert_frame(1) [OF fl1' b(2) _ ins']) (blast intro: ap')
  show "frame_free ?fl m m'"
    unfolding frame_free_def
  proof (intro allI impI)
    fix x :: u64 assume x: "\<forall>a s. (a, s) \<in> set ?fl \<longrightarrow> unat x \<notin> region a (unat s)"
    then have "unat x \<notin> region a (unat s)" by simp
    then have xb: "unat x \<notin> region ?b 16" using b(1) t by auto
    have "unat x \<notin> region e 16" if "(e, r) \<in> set (xs @ [(a, s)])" for e r
    proof -
      have "(e, r) \<in> set ?fl" using that by auto
      then show ?thesis using x any_free_bounds(2) [OF g, of e r] by force
    qed
    then have "m' x = ?m x"
      by (intro insert_frame(2) [OF fl1' b(2) _ ins' xb]) (blast intro: ap')+
    then show "m' x = m x" using set_block_size_frame [OF b(2) xb] by simp
  qed
qed

lemma take_block_ok:
  assumes fl: "fl_ok h m (xs @ (a, s) # ys)"
    and rem: "LogicalPageAnySize_remove (prev_of xs) a (h, m) = (h1, m1)"
    and hdr: "node_ok hdr" "\<And>e r. (e, r) \<in> set (xs @ ys) \<Longrightarrow> nodes_apart hdr e"
    and m': "m' = set_padding_size (set_block_size m1 hdr tot) hdr padding"
  shows "fl_ok h1 m' (xs @ ys)" "get_padding_size m' hdr = padding" "get_block_size m' hdr = tot"
    and "h1 = h\<lparr>m_head := m_head h1\<rparr>"
    and "unat x \<notin> region hdr 16 \<Longrightarrow> (\<And>e r. (e, r) \<in> set xs \<Longrightarrow> unat x \<notin> region e 16) \<Longrightarrow> m' x = m x"
proof -
  have m'': "m' = set_next_pointer (set_block_size m1 hdr tot) hdr padding"
    using m' by (simp add: node_defs)
  show "get_padding_size m' hdr = padding" "get_block_size m' hdr = tot"
    using hdr(1) m'' by (simp_all add: get_padding_size_def flip: get_next_pointer_def)
  show "h1 = h\<lparr>m_head := m_head h1\<rparr>" by (rule remove_frame(1) [OF fl rem])
  have hdf: "m' x = m1 x" if "unat x \<notin> region hdr 16" for x
    using that hdr(1) m'' set_next_pointer_frame set_block_size_frame by simp
  show "fl_ok h1 m' (xs @ ys)"
  proof (rule fl_ok_frame [OF remove_ok [OF fl rem] refl])
    fix e r and x :: u64 assume "(e, r) \<in> set (xs @ ys)" "unat x \<in> region e 16"
    then show "m' x = m1 x" using hdr(2) [of e r] by (intro hdf) (auto simp: nodes_apart_def)
  qed
  assume x: "unat x \<notin> region hdr 16" "\<And>e r. (e, r) \<in> set xs \<Longrightarrow> unat x \<notin> region e 16"
  show "m' x = m x" using hdf [OF x(1)] remove_frame(2) [OF fl rem x(2)] by simp
qed

text \<open>The block that is carved out of a free block, and what is left of the freelist.\<close>

definition carved_size :: "u64 \<Rightarrow> free_block \<Rightarrow> u64" where
  "carved_size asz = (\<lambda>(a, s). let t = asz + pad a + NODE_SIZE in if s - t \<ge> NODE_SIZE then t else s)"

definition carved_rest :: "u64 \<Rightarrow> free_block \<Rightarrow> free_block list" where
  "carved_rest asz = (\<lambda>(a, s). let t = asz + pad a + NODE_SIZE
     in if s - t \<ge> NODE_SIZE then [(a + t, s - t)] else [])"

lemma carve_tiles:
  assumes g: "any_geometry h" "any_tiles h (xs @ (a, s) # ys) L"
    and f: "fits asz (a, s)" "unat asz + 32 < 2 ^ 64"
  shows "any_tiles h (xs @ carved_rest asz (a, s) @ ys) ((a, carved_size asz (a, s), p) # L)"
    and "unat asz + unat (pad a) + 16 \<le> unat (carved_size asz (a, s))"
    and "unat (carved_size asz (a, s)) \<le> unat s"
proof -
  let ?t = "asz + pad a + NODE_SIZE"
  have t: "unat ?t = unat asz + unat (pad a) + 16" "unat ?t \<le> unat s"
    using unat_fits(1) [OF f(2), of a s] unat_fits(2) [OF f(2), of a] f(1) by auto
  then have e: "unat (s - ?t) = unat s - unat ?t" by (intro unat_sub_nowrap)
  note ab = any_free_bounds [OF g, of a s, simplified]
  have at: "unat (a + ?t) = unat a + unat ?t" using ab t by (intro unat_add_nowrap) auto
  show "unat asz + unat (pad a) + 16 \<le> unat (carved_size asz (a, s))"
    "unat (carved_size asz (a, s)) \<le> unat s"
    using t by (auto simp: carved_size_def Let_def)
  let ?S = "unat (m_logical_page_start_address h)" let ?N = "unat (m_logical_page_size h)"
  let ?rest = "map nb (xs @ ys) @ map nbl L"
  have base: "tiles ?S ?N ((unat a, unat s) # ?rest)"
    using g(2) by (auto simp: any_tiles_def elim!: tiles_perm [rotated])
  have sz16: "\<forall>(e, r)\<in>set (xs @ ys). 16 \<le> unat r" using g(2) by (auto simp: any_tiles_def)
  show "any_tiles h (xs @ carved_rest asz (a, s) @ ys) ((a, carved_size asz (a, s), p) # L)"
  proof (cases "s - ?t \<ge> NODE_SIZE")
    case True
    then have u: "16 \<le> unat (s - ?t)" by (simp add: word_le_nat_alt NODE_SIZE_def)
    have "tiles ?S ?N ((unat a, unat ?t) # (unat a + unat ?t, unat (s - ?t)) # ?rest)"
      using base t e u by (intro tiles_split) auto
    then have "tiles ?S ?N (map nb (xs @ (a + ?t, s - ?t) # ys) @ map nbl ((a, ?t, p) # L))"
      using at by (auto elim!: tiles_perm [rotated])
    then show ?thesis using True u sz16
      by (auto simp: any_tiles_def carved_rest_def carved_size_def Let_def)
  next
    case False
    have "tiles ?S ?N (map nb (xs @ ys) @ map nbl ((a, s, p) # L))"
      using base by (auto elim!: tiles_perm [rotated])
    then show ?thesis using False sz16
      by (auto simp: any_tiles_def carved_rest_def carved_size_def Let_def)
  qed
qed

lemma return_excess_ok:
  assumes inv: "any_inv h m (xs @ (a, s) # ys) L"
    and asz: "16 \<le> unat asz" "unat asz + 32 < 2 ^ 64" and f: "fits asz (a, s)"
    and re: "return_excess a (asz + pad a + NODE_SIZE) (s - (asz + pad a + NODE_SIZE)) (h, m) = (T, (h', m'))"
  shows "T = carved_size asz (a, s)" "fl_ok h' m' (xs @ (a, s) # carved_rest asz (a, s) @ ys)"
    "h' = h\<lparr>m_head := m_head h'\<rparr>" "frame_free (xs @ (a, s) # ys) m m'"
proof -
  let ?t = "asz + pad a + NODE_SIZE"
  have t: "unat ?t = unat asz + unat (pad a) + 16" "unat ?t \<le> unat s"
    using unat_fits(1) [OF asz(2), of a s] unat_fits(2) [OF asz(2), of a] f by auto
  have "T = carved_size asz (a, s) \<and> fl_ok h' m' (xs @ (a, s) # carved_rest asz (a, s) @ ys)
    \<and> h' = h\<lparr>m_head := m_head h'\<rparr> \<and> frame_free (xs @ (a, s) # ys) m m'"
  proof (cases "s - ?t \<ge> NODE_SIZE")
    case True
    then have i: "LogicalPageAnySize_insert a (a + ?t) (h, set_block_size m (a + ?t) (s - ?t)) = (h', m')"
      and T: "T = ?t" using re by (auto simp: Let_def)
    have "unat (s - ?t) = unat s - unat ?t" using t(2) by (rule unat_sub_nowrap)
    then have "16 \<le> unat ?t" "unat ?t + 16 \<le> unat s"
      using True t asz(1) by (auto simp: word_le_nat_alt NODE_SIZE_def)
    from split_block_ok [OF inv this i] show ?thesis using True T
      by (simp add: carved_size_def carved_rest_def Let_def)
  next
    case False
    have z: "?t = s" if "\<not> (s - ?t > 0)"
    proof -
      have "s - ?t = 0" using that by (simp add: word_gt_0)
      then show ?thesis by (metis eq_iff_diff_eq_0)
    qed
    have eq: "(T, (h', m')) = (if s - ?t > 0 then ?t + (s - ?t) else ?t, (h, m))"
      using re False by (simp add: not_le split: if_splits)
    have "?t + (s - ?t) = s" by (simp add: algebra_simps)
    then have "T = s" "h' = h" "m' = m" using eq z by (auto split: if_splits)
    then show ?thesis using False inv
      by (auto simp: carved_size_def carved_rest_def Let_def frame_free_def any_inv_def)
  qed
  then show "T = carved_size asz (a, s)" "fl_ok h' m' (xs @ (a, s) # carved_rest asz (a, s) @ ys)"
    "h' = h\<lparr>m_head := m_head h'\<rparr>" "frame_free (xs @ (a, s) # ys) m m'" by auto
qed

lemma carve_header:
  assumes g: "any_geometry h" "any_tiles h (xs @ (a, s) # ys) L"
    and asz: "16 \<le> unat asz" "unat asz + 32 < 2 ^ 64" and f: "fits asz (a, s)"
  shows "unat (a + pad a) = unat a + unat (pad a)" "node_ok (a + pad a)"
    and "(e, r) \<in> set (xs @ carved_rest asz (a, s) @ ys) \<Longrightarrow> nodes_apart (a + pad a) e"
proof -
  let ?t = "asz + pad a + NODE_SIZE"
  note ab = any_free_bounds [OF g, of a s, simplified]
  have t: "unat ?t = unat asz + unat (pad a) + 16" "unat ?t \<le> unat s"
    using unat_fits(1) [OF asz(2), of a s] unat_fits(2) [OF asz(2), of a] f by auto
  show uh: "unat (a + pad a) = unat a + unat (pad a)" using ab t by (intro unat_add_nowrap) auto
  show "node_ok (a + pad a)" using ab uh t by (auto simp: node_ok_def unat_gt_0 [symmetric])
  assume er: "(e, r) \<in> set (xs @ carved_rest asz (a, s) @ ys)"
  show "nodes_apart (a + pad a) e"
  proof (cases "(e, r) \<in> set (xs @ ys)")
    case True
    then show ?thesis using uh t by (intro any_free_nodes_apart [OF g]) auto
  next
    case False
    then have "e = a + ?t" using er by (auto simp: carved_rest_def Let_def split: if_splits)
    moreover have "unat (a + ?t) = unat a + unat ?t" using ab t by (intro unat_add_nowrap) auto
    ultimately show ?thesis using uh t asz(1) by (simp add: nodes_apart_def)
  qed
qed

lemma any_allocate_found:
  assumes inv: "any_inv h m (xs @ (a, s) # ys) L"
    and asz: "asz = (if sz < NODE_SIZE then NODE_SIZE else sz)" "unat asz + 32 < 2 ^ 64"
    and find: "find_node asz MIN_ALIGNMENT_SIZE (h, m) = Some (prev_of xs, a, pad a)"
    and f: "fits asz (a, s)" and T: "T = carved_size asz (a, s)"
  obtains h' m' where
    "LogicalPageAnySize_allocate sz (h, m) = Some (payload (a, T, pad a), (h', m'))"
    "any_inv h' m' (xs @ carved_rest asz (a, s) @ ys) ((a, T, pad a) # L)"
    "h' = h\<lparr>m_head := m_head h', m_used_size := m_used_size h + T\<rparr>"
    "frame_free (xs @ (a, s) # ys) m m'"
proof -
  let ?fl = "xs @ (a, s) # ys" and ?t = "asz + pad a + NODE_SIZE" and ?ys = "carved_rest asz (a, s) @ ys"
  have g: "any_geometry h" "any_tiles h ?fl L" and fl: "fl_ok h m ?fl" using inv by (auto simp: any_inv_def)
  have gs: "get_block_size m a = s" and a0: "a \<noteq> 0" using fl_ok_node [OF fl, of a s] by (auto simp: node_ok_def)
  have z: "16 \<le> unat asz" using asz(1) by (auto simp: NODE_SIZE_def word_less_nat_alt)
  note tl = carve_tiles [OF g f asz(2), folded T] and hd = carve_header [OF g z asz(2) f]
  obtain T1 h1 m1 where re: "return_excess a ?t (s - ?t) (h, m) = (T1, (h1, m1))"
    by (cases "return_excess a ?t (s - ?t) (h, m)") auto
  note r = return_excess_ok [OF inv z asz(2) f re, folded T]
  obtain h2 m2 where rem: "LogicalPageAnySize_remove (prev_of xs) a (h1, m1) = (h2, m2)"
    by (cases "LogicalPageAnySize_remove (prev_of xs) a (h1, m1)")
  define m3 where "m3 = set_padding_size (set_block_size m2 (a + pad a) T) (a + pad a) (pad a)"
  note tk = take_block_ok [OF r(2) rem hd(2) _ m3_def] hd(3)
  let ?h3 = "h2\<lparr>m_used_size := m_used_size h2 + T\<rparr>"
  obtain p1 p2 where "h1 = h\<lparr>m_head := p1\<rparr>" "h2 = h1\<lparr>m_head := p2\<rparr>" using r(3) tk(4) hd(3) by blast
  then have h2: "h2 = h\<lparr>m_head := p2\<rparr>" by simp
  show ?thesis
  proof (rule that [of ?h3 m3])
    show "LogicalPageAnySize_allocate sz (h, m) = Some (payload (a, T, pad a), (?h3, m3))"
      using find a0 re r(1) rem gs asz(1) by (simp add: m3_def Let_def)
    show "?h3 = h\<lparr>m_head := m_head ?h3, m_used_size := m_used_size h + T\<rparr>"
      by (simp add: h2)
    show fr: "frame_free ?fl m m3"
      unfolding frame_free_def
    proof (intro allI impI)
      fix x :: u64 assume x: "\<forall>e r. (e, r) \<in> set ?fl \<longrightarrow> unat x \<notin> region e (unat r)"
      have xa: "unat x \<notin> region a (unat s)" using x by auto
      have "unat x \<notin> region e 16" if "(e, r) \<in> set xs" for e r
      proof -
        have "(e, r) \<in> set ?fl" using that by simp
        then show ?thesis using x any_free_bounds(2) [OF g, of e r] by force
      qed
      moreover have "unat x \<notin> region (a + pad a) 16" using xa hd(1) tl(2,3) z by auto
      ultimately have "m3 x = m1 x" using tk(5) hd(3) by blast
      then show "m3 x = m x" using r(4) x unfolding frame_free_def by simp
    qed
    show "any_inv ?h3 m3 (xs @ ?ys) ((a, T, pad a) # L)"
      unfolding any_inv_def
    proof (intro conjI)
      show "any_geometry ?h3" "any_tiles ?h3 (xs @ ?ys) ((a, T, pad a) # L)"
        using g tl(1) h2 by simp_all
      show "fl_ok ?h3 m3 (xs @ ?ys)"
        by (rule fl_ok_frame [OF tk(1)]) (use hd(3) in auto)
      have "live_ok m3 (a, T, pad a)"
        using tk(2,3) hd(3) tl(2) z pad_bound pad_aligned by simp
      then show "\<forall>l\<in>set ((a, T, pad a) # L). live_ok m3 l"
        using frame_free_live [OF g _ fr] inv by (simp add: any_inv_def)
      have "unat (m_used_size h) + unat T = sum_list (map (snd \<circ> nbl) ((a, T, pad a) # L))"
        using inv by (simp add: any_inv_def)
      moreover have "\<dots> \<le> unat (m_logical_page_size h)"
        using tl(1) tiles_sum unfolding any_tiles_def by fastforce
      ultimately show "unat (m_used_size ?h3) = sum_list (map (snd \<circ> nbl) ((a, T, pad a) # L))"
        using h2 unat_lt_2_64 [of "m_logical_page_size h"] by (simp add: unat_add_nowrap)
    qed
  qed
qed

lemma any_allocate_cases:
  assumes inv: "any_inv h m fl L"
    and asz: "asz = (if sz < NODE_SIZE then NODE_SIZE else sz)" "unat asz + 32 < 2 ^ 64"
  obtains (none) "\<forall>x\<in>set fl. \<not> fits asz x" "LogicalPageAnySize_allocate sz (h, m) = Some (0, (h, m))"
  | (found) xs a s ys T h' m' where "fl = xs @ (a, s) # ys" "\<forall>x\<in>set xs. \<not> fits asz x" "fits asz (a, s)"
      "T = carved_size asz (a, s)"
      "LogicalPageAnySize_allocate sz (h, m) = Some (payload (a, T, pad a), (h', m'))"
      "any_inv h' m' (xs @ carved_rest asz (a, s) @ ys) ((a, T, pad a) # L)"
      "h' = h\<lparr>m_head := m_head h', m_used_size := m_used_size h + T\<rparr>"
      "frame_free fl m m'"
proof -
  have fl: "fl_ok h m ([] @ fl)" using inv by (simp add: any_inv_def)
  have hd: "(case fl of [] \<Rightarrow> 0 | (b, t) # _ \<Rightarrow> b) = m_head h"
    using fl by (cases fl) (auto simp: fl_ok_def)
  have pv: "0 = prev_of []" by (simp add: prev_of_def)
  from find_internal_ok [OF fl, of 0 asz 0] hd pv
  consider (1) us a s zs where "fl = us @ (a, s) # zs" "\<forall>x\<in>set us. \<not> fits asz x" "fits asz (a, s)"
      "find_node asz MIN_ALIGNMENT_SIZE (h, m) = Some (prev_of us, a, pad a)"
    | (2) r where "\<forall>x\<in>set fl. \<not> fits asz x" "find_node asz MIN_ALIGNMENT_SIZE (h, m) = Some (0, 0, r)"
    by auto
  then show ?thesis
  proof cases
    case 1
    note inv' = inv [unfolded 1(1)]
    from any_allocate_found [OF inv' asz 1(4,3) refl] obtain h' m' where
      "LogicalPageAnySize_allocate sz (h, m) = Some (payload (a, carved_size asz (a, s), pad a), (h', m'))"
      "any_inv h' m' (us @ carved_rest asz (a, s) @ zs) ((a, carved_size asz (a, s), pad a) # L)"
      "h' = h\<lparr>m_head := m_head h', m_used_size := m_used_size h + carved_size asz (a, s)\<rparr>"
      "frame_free fl m m'"
      unfolding 1(1) by blast
    then show ?thesis using found 1(1-3) by blast
  next
    case 2
    then show ?thesis using none asz(1) by (simp add: Let_def)
  qed
qed

subsection \<open>Deallocation\<close>

text \<open>The freelist after the coalescing step, on lists: the block is merged with its successor in the
  list and then, where the caller passes it, with its predecessor, if they are adjacent.\<close>

fun merge_next :: "free_block \<Rightarrow> free_block list \<Rightarrow> free_block list" where
  "merge_next (b, s) ((c, t) # zs) = (if b + s = c then (b, s + t) # zs else (b, s) # (c, t) # zs)"
| "merge_next (b, s) [] = [(b, s)]"

definition merge_prev :: "free_block list \<Rightarrow> free_block list \<Rightarrow> free_block list" where
  "merge_prev xs ys =
     (case ys of (b, s) # zs \<Rightarrow>
        if xs \<noteq> [] \<and> fst (last xs) + snd (last xs) = b
        then butlast xs @ (fst (last xs), snd (last xs) + s) # zs else xs @ ys
      | [] \<Rightarrow> xs)"

definition frame_nodes :: "free_block list \<Rightarrow> mem \<Rightarrow> mem \<Rightarrow> bool" where
  "frame_nodes fl m m' \<longleftrightarrow> (\<forall>x. (\<forall>a s. (a, s) \<in> set fl \<longrightarrow> unat x \<notin> region a 16) \<longrightarrow> m' x = m x)"

lemma frame_nodes_refl [simp]: "frame_nodes fl m m"
  by (simp add: frame_nodes_def)

lemma set_size_ok:
  assumes "fl_ok h m (xs @ (b, s) # ys)"
  shows "fl_ok h (set_block_size m b t) (xs @ (b, t) # ys)"
    and "frame_nodes (xs @ (b, s) # ys) m (set_block_size m b t)"
proof -
  let ?m = "set_block_size m b t"
  have b: "node_ok b" using fl_ok_node [OF assms, of b s] by simp
  have nx: "get_next_pointer ?m e = get_next_pointer m e" if "e \<in> set (map fst (xs @ (b, s) # ys))" for e
  proof (cases "e = b")
    case False
    then have "\<exists>r. (e, r) \<in> set (xs @ ys)" using that by auto
    then obtain r where r: "(e, r) \<in> set (xs @ ys)" by blast
    then have "node_ok e" using fl_ok_node [OF assms, of e r] by auto
    then show ?thesis using fl_ok_apart(1) [OF assms r] b by simp
  qed (use b in simp)
  have "chain (get_next_pointer m) (m_head h) (map fst (xs @ (b, s) # ys))"
    using assms by (simp add: fl_ok_def)
  from path_congI [OF this nx]
  have "chain (get_next_pointer ?m) (m_head h) (map fst (xs @ (b, t) # ys))" by simp
  moreover have bl: "node_ok e \<and> get_block_size ?m e = r" if "(e, r) \<in> set (xs @ ys)" for e r
    using fl_ok_apart(1) [OF assms that] fl_ok_node [OF assms, of e r] that b by auto
  moreover have "\<forall>(e, r)\<in>set (xs @ (b, t) # ys). node_ok e \<and> get_block_size ?m e = r"
    using bl b by auto
  ultimately show "fl_ok h ?m (xs @ (b, t) # ys)" using assms by (simp add: fl_ok_def)
  show "frame_nodes (xs @ (b, s) # ys) m ?m"
    unfolding frame_nodes_def
  proof (intro allI impI)
    fix x :: u64 assume x: "\<forall>a r. (a, r) \<in> set (xs @ (b, s) # ys) \<longrightarrow> unat x \<notin> region a 16"
    show "?m x = m x" by (rule set_block_size_frame [OF b]) (use x in force)
  qed
qed

lemma remove_next_ok:
  assumes fl: "fl_ok h m (xs @ (b, s) # (c, t) # zs)"
    and rem: "LogicalPageAnySize_remove b c (h, set_block_size m b u) = (h', m')"
  shows "fl_ok h' m' (xs @ (b, u) # zs)" "h' = h\<lparr>m_head := m_head h'\<rparr>"
    and "frame_nodes (xs @ (b, s) # (c, t) # zs) m m'"
proof -
  have b: "fl_ok h (set_block_size m b u) ((xs @ [(b, u)]) @ (c, t) # zs)"
    using set_size_ok(1) [OF fl, of u] by simp
  have r: "LogicalPageAnySize_remove (prev_of (xs @ [(b, u)])) c (h, set_block_size m b u) = (h', m')"
    using rem by (simp add: prev_of_def)
  show "fl_ok h' m' (xs @ (b, u) # zs)" using remove_ok [OF b r] by simp
  show "h' = h\<lparr>m_head := m_head h'\<rparr>" by (rule remove_frame(1) [OF b r])
  show "frame_nodes (xs @ (b, s) # (c, t) # zs) m m'"
    unfolding frame_nodes_def
  proof (intro allI impI)
    fix x :: u64
    assume x: "\<forall>a r. (a, r) \<in> set (xs @ (b, s) # (c, t) # zs) \<longrightarrow> unat x \<notin> region a 16"
    then have "\<And>a r. (a, r) \<in> set (xs @ [(b, u)]) \<Longrightarrow> unat x \<notin> region a 16" by auto
    then have "m' x = set_block_size m b u x" by (rule remove_frame(2) [OF b r])
    then show "m' x = m x" using set_size_ok(2) [OF fl, of u] x unfolding frame_nodes_def by simp
  qed
qed

text \<open>The two halves of \<open>coalesce\<close> in the source.\<close>

fun coalesce_next :: "u64 \<Rightarrow> page_state \<Rightarrow> page_state" where
  "coalesce_next free_node (h, m) =
     (if get_next_pointer m free_node \<noteq> 0
         \<and> free_node + get_block_size m free_node = get_next_pointer m free_node
      then let m = set_block_size m free_node
                     (get_block_size m free_node + get_block_size m (get_next_pointer m free_node));
               (h, m) = LogicalPageAnySize_remove free_node (get_next_pointer m free_node) (h, m)
           in (h\<lparr>m_last_used_node := 0\<rparr>, m)
      else (h, m))"

fun coalesce_prev :: "u64 \<Rightarrow> u64 \<Rightarrow> page_state \<Rightarrow> page_state" where
  "coalesce_prev previous_node free_node (h, m) =
     (if previous_node \<noteq> 0 \<and> previous_node + get_block_size m previous_node = free_node
      then let m = set_block_size m previous_node
                     (get_block_size m previous_node + get_block_size m free_node);
               (h, m) = LogicalPageAnySize_remove previous_node free_node (h, m)
           in (h\<lparr>m_last_used_node := 0\<rparr>, m)
      else (h, m))"

lemma coalesce_halves:
  "coalesce previous_node free_node s = coalesce_prev previous_node free_node (coalesce_next free_node s)"
  by (cases s) (auto simp: Let_def split: prod.splits)

declare coalesce.simps [simp del]

text \<open>Pages that differ in their freelist head and search hint only.\<close>

definition same_page :: "LogicalPageHeader \<Rightarrow> LogicalPageHeader \<Rightarrow> bool" where
  "same_page h h' \<longleftrightarrow> h'\<lparr>m_head := 0, m_last_used_node := 0\<rparr> = h\<lparr>m_head := 0, m_last_used_node := 0\<rparr>"

lemma same_page_refl [simp]: "same_page h h"
  by (simp add: same_page_def)

lemma same_page_trans: "same_page h h' \<Longrightarrow> same_page h' h'' \<Longrightarrow> same_page h h''"
  by (simp add: same_page_def)

lemma same_page_head: "h' = h\<lparr>m_head := p\<rparr> \<Longrightarrow> same_page h h'"
  by (simp add: same_page_def)

lemma same_page_last_used: "same_page h h' \<Longrightarrow> same_page h (h'\<lparr>m_last_used_node := q\<rparr>)"
  by (auto simp: same_page_def)

lemma fl_ok_last_used [simp]: "fl_ok (h\<lparr>m_last_used_node := q\<rparr>) m fl = fl_ok h m fl"
  "fl_ok (h\<lparr>m_used_size := v\<rparr>) m fl = fl_ok h m fl"
  by (simp_all add: fl_ok_def)

lemma coalesce_next_ok:
  assumes fl: "fl_ok h m (xs @ (b, s) # ys)" and c: "coalesce_next b (h, m) = (h', m')"
  shows "fl_ok h' m' (xs @ merge_next (b, s) ys)" "same_page h h'" "frame_nodes (xs @ (b, s) # ys) m m'"
proof -
  have b: "node_ok b" "get_block_size m b = s" using fl_ok_node [OF fl, of b s] by auto
  have nx: "get_next_pointer m b = (case ys of [] \<Rightarrow> 0 | (c, t) # _ \<Rightarrow> c)" by (rule fl_ok_next [OF fl])
  have "fl_ok h' m' (xs @ merge_next (b, s) ys) \<and> same_page h h' \<and> frame_nodes (xs @ (b, s) # ys) m m'"
  proof (cases ys)
    case Nil
    then show ?thesis using fl c nx by auto
  next
    case (Cons y zs)
    obtain d t where y: "y = (d, t)" by (cases y)
    have d: "node_ok d" "get_block_size m d = t" "d \<noteq> 0"
      using fl_ok_node [OF fl, of d t] Cons y by (auto simp: node_ok_def)
    show ?thesis
    proof (cases "b + s = d")
      case True
      obtain h1 where rem: "LogicalPageAnySize_remove b d (h, set_block_size m b (s + t)) = (h1, m')"
        and h': "h' = h1\<lparr>m_last_used_node := 0\<rparr>"
        using c True nx Cons y b d
        by (cases "LogicalPageAnySize_remove b d (h, set_block_size m b (s + t))") (auto simp: Let_def)
      have fl': "fl_ok h m (xs @ (b, s) # (d, t) # zs)" using fl Cons y by simp
      note r = remove_next_ok [OF fl' rem]
      show ?thesis using r h' True Cons y same_page_head [OF r(2)]
        by (auto intro: same_page_last_used)
    next
      case False
      then show ?thesis using fl c nx Cons y b d by auto
    qed
  qed
  then show "fl_ok h' m' (xs @ merge_next (b, s) ys)" "same_page h h'" "frame_nodes (xs @ (b, s) # ys) m m'"
    by auto
qed

lemma coalesce_prev_ok:
  assumes fl: "fl_ok h m (xs @ (b, s) # ys)" and c: "coalesce_prev (prev_of xs) b (h, m) = (h', m')"
  shows "fl_ok h' m' (merge_prev xs ((b, s) # ys))" "same_page h h'" "frame_nodes (xs @ (b, s) # ys) m m'"
proof -
  have b: "node_ok b" "get_block_size m b = s" using fl_ok_node [OF fl, of b s] by auto
  have "fl_ok h' m' (merge_prev xs ((b, s) # ys)) \<and> same_page h h' \<and> frame_nodes (xs @ (b, s) # ys) m m'"
  proof (cases xs rule: rev_cases)
    case Nil
    then show ?thesis using fl c by (auto simp: prev_of_def merge_prev_def)
  next
    case (snoc us x)
    obtain d t where x: "x = (d, t)" by (cases x)
    have fl': "fl_ok h m (us @ (d, t) # (b, s) # ys)" using fl snoc x by simp
    have d: "node_ok d" "get_block_size m d = t" "d \<noteq> 0" "prev_of xs = d"
      using fl_ok_node [OF fl', of d t] snoc x by (auto simp: node_ok_def prev_of_def)
    show ?thesis
    proof (cases "d + t = b")
      case True
      obtain h1 where rem: "LogicalPageAnySize_remove d b (h, set_block_size m d (t + s)) = (h1, m')"
        and h': "h' = h1\<lparr>m_last_used_node := 0\<rparr>"
        using c True b d
        by (cases "LogicalPageAnySize_remove d b (h, set_block_size m d (t + s))") (auto simp: Let_def)
      note r = remove_next_ok [OF fl' rem]
      show ?thesis using r h' True snoc x same_page_head [OF r(2)]
        by (auto simp: merge_prev_def intro: same_page_last_used)
    next
      case False
      then show ?thesis using fl c snoc x d by (auto simp: merge_prev_def)
    qed
  qed
  then show "fl_ok h' m' (merge_prev xs ((b, s) # ys))" "same_page h h'" "frame_nodes (xs @ (b, s) # ys) m m'"
    by auto
qed

lemma find_insertion_point_ok:
  assumes "fl_ok h m (xs @ ys)"
  shows "find_insertion_point m ptr (case ys of [] \<Rightarrow> 0 | (b, t) # _ \<Rightarrow> b) (prev_of xs)
    = Some (prev_of (xs @ takeWhile (\<lambda>(a, s). \<not> ptr < a) ys), dropWhile (\<lambda>(a, s). \<not> ptr < a) ys \<noteq> [])"
  using assms
proof (induction ys arbitrary: xs)
  case Nil
  then show ?case by (simp add: find_insertion_point.simps)
next
  case (Cons y ys)
  obtain a s where y: "y = (a, s)" by (cases y)
  have a: "a \<noteq> 0" using fl_ok_node [OF Cons.prems, of a s] y by (auto simp: node_ok_def)
  show ?case
  proof (cases "ptr < a")
    case True
    then show ?thesis using y a by (subst find_insertion_point.simps) simp
  next
    case False
    have "find_insertion_point m ptr a (prev_of xs) = find_insertion_point m ptr (get_next_pointer m a) a"
      using False a by (subst find_insertion_point.simps) simp
    moreover have "get_next_pointer m a = (case ys of [] \<Rightarrow> 0 | (b, t) # _ \<Rightarrow> b)"
      using Cons.prems y by (intro fl_ok_next [of h m xs a s ys]) simp
    moreover have "prev_of (xs @ [(a, s)]) = a" by (simp add: prev_of_def)
    ultimately show ?thesis using Cons.IH [of "xs @ [(a, s)]"] Cons.prems False y by simp
  qed
qed

lemma merge_tiles:
  assumes g: "any_geometry h" "any_tiles h (us @ (b, s) # (b + s, t) # zs) L"
  shows "any_tiles h (us @ (b, s + t) # zs) L"
proof -
  note bb = any_free_bounds [OF g, of b s, simplified] any_free_bounds [OF g, of "b + s" t, simplified]
  have bs: "unat (b + s) = unat b + unat s" using bb(3) by (intro unat_add_nowrap) simp
  then have st: "unat (s + t) = unat s + unat t" using bb by (intro unat_add_nowrap) auto
  let ?S = "unat (m_logical_page_start_address h)" and ?N = "unat (m_logical_page_size h)"
  have "tiles ?S ?N ((unat b, unat s) # (unat b + unat s, unat t) # map nb (us @ zs) @ map nbl L)"
    using g(2) bs by (auto simp: any_tiles_def elim!: tiles_perm [rotated])
  from tiles_merge [OF this] have "tiles ?S ?N (map nb (us @ (b, s + t) # zs) @ map nbl L)"
    using st by (auto elim!: tiles_perm [rotated])
  then show ?thesis using g(2) st by (auto simp: any_tiles_def)
qed

lemma merge_next_tiles:
  assumes "any_geometry h" "any_tiles h (xs @ (b, s) # ys) L"
  shows "any_tiles h (xs @ merge_next (b, s) ys) L"
  using assms merge_tiles [of h xs b s _ _ L] by (cases ys) auto

lemma merge_prev_tiles:
  assumes g: "any_geometry h" "any_tiles h (xs @ (b, s) # ys) L"
  shows "any_tiles h (merge_prev xs ((b, s) # ys)) L"
proof (cases xs rule: rev_cases)
  case (snoc us x)
  then show ?thesis using g merge_tiles [OF g(1), of us "fst x" "snd x" s ys L]
    by (cases x) (auto simp: merge_prev_def)
qed (use g in \<open>simp add: merge_prev_def\<close>)

lemma merge_next_Cons: "\<exists>s' zs. merge_next (b, s) ys = (b, s') # zs"
  by (cases ys) auto

lemma coalesce_ok:
  assumes fl: "fl_ok h m (xs @ (b, s) # ys)" and t: "any_geometry h" "any_tiles h (xs @ (b, s) # ys) L"
    and c: "coalesce (prev_of xs) b (h, m) = (h', m')"
  shows "fl_ok h' m' (merge_prev xs (merge_next (b, s) ys))" "same_page h h'"
    "any_tiles h (merge_prev xs (merge_next (b, s) ys)) L"
    "frame_nodes (xs @ (b, s) # ys) m m'"
proof -
  obtain h1 m1 where c1: "coalesce_next b (h, m) = (h1, m1)" by (cases "coalesce_next b (h, m)")
  note n = coalesce_next_ok [OF fl c1]
  obtain s' zs where mn: "merge_next (b, s) ys = (b, s') # zs" using merge_next_Cons by blast
  have c2: "coalesce_prev (prev_of xs) b (h1, m1) = (h', m')" using c c1 by (simp add: coalesce_halves)
  note p = coalesce_prev_ok [OF n(1) [unfolded mn] c2]
  show "fl_ok h' m' (merge_prev xs (merge_next (b, s) ys))" using p(1) mn by simp
  show "same_page h h'" using n(2) p(2) by (rule same_page_trans)
  show "any_tiles h (merge_prev xs (merge_next (b, s) ys)) L"
    using merge_prev_tiles [OF t(1)] merge_next_tiles [OF t] mn by simp
  have "fst ` set ((b, s') # zs) \<subseteq> fst ` set ((b, s) # ys)"
    unfolding mn [symmetric] by (cases ys) (auto split: if_splits)
  then have sub: "\<exists>r. (a, r) \<in> set (xs @ (b, s) # ys)" if "(a, q) \<in> set (xs @ (b, s') # zs)" for a q
    using that by (fastforce simp: subset_iff)
  show "frame_nodes (xs @ (b, s) # ys) m m'"
    unfolding frame_nodes_def
  proof (intro allI impI)
    fix x :: u64 assume x: "\<forall>a r. (a, r) \<in> set (xs @ (b, s) # ys) \<longrightarrow> unat x \<notin> region a 16"
    then have "\<forall>a r. (a, r) \<in> set (xs @ (b, s') # zs) \<longrightarrow> unat x \<notin> region a 16" using sub by blast
    then have "m' x = m1 x" using p(3) unfolding frame_nodes_def by blast
    then show "m' x = m x" using n(3) x unfolding frame_nodes_def by simp
  qed
qed

lemma coalesce_alone:
  assumes "get_next_pointer m b = 0"
  shows "coalesce 0 b (h, m) = (h, m)"
  using assms by (simp add: coalesce_halves)

text \<open>The freelist after a deallocation, on lists.\<close>

definition free_spec :: "CoalescePolicy \<Rightarrow> u64 \<Rightarrow> free_block \<Rightarrow> free_block list \<Rightarrow> free_block list" where
  "free_spec cp ptr x fl =
     (case fl of [] \<Rightarrow> [x] | [y] \<Rightarrow> [y, x]
      | _ \<Rightarrow> let xs = takeWhile (\<lambda>(a, s). \<not> ptr < a) fl; ys = dropWhile (\<lambda>(a, s). \<not> ptr < a) fl
             in if cp = COALESCE then merge_prev xs (merge_next x ys) else xs @ x # ys)"

lemma free_header:
  assumes inv: "any_inv h m fl (us @ (b, s, p) # vs)" and ptr: "ptr = payload (b, s, p)"
  shows "page_owns_pointer h ptr" "ptr - NODE_SIZE = b + p" "get_padding_size m (ptr - NODE_SIZE) = p"
    "get_block_size m (ptr - NODE_SIZE) = s" "ptr - NODE_SIZE - p = b"
    "node_ok b" "\<And>e r. (e, r) \<in> set fl \<Longrightarrow> nodes_apart b e"
    "unat ptr = unat b + unat p + 16"
proof -
  let ?L = "us @ (b, s, p) # vs"
  have g: "any_geometry h" "any_tiles h fl ?L" and l: "live_ok m (b, s, p)" using inv by (auto simp: any_inv_def)
  note bb = any_live_bounds [OF g, of b s p, simplified]
  have "unat (b + p) = unat b + unat p" using bb l by (intro unat_add_nowrap) auto
  then show u: "unat ptr = unat b + unat p + 16" using bb l ptr
    by (simp add: NODE_SIZE_def unat_add_nowrap)
  show "ptr - NODE_SIZE = b + p" "ptr - NODE_SIZE - p = b" using ptr by simp_all
  then show "get_padding_size m (ptr - NODE_SIZE) = p" "get_block_size m (ptr - NODE_SIZE) = s"
    using l by auto
  show "node_ok b" using bb l by (auto simp: node_ok_def)
  have "unat ptr \<in> region (m_logical_page_start_address h) (unat (m_logical_page_size h))"
    using u bb l by auto
  then show "page_owns_pointer h ptr" using page_owns_pointer_iff g(1) by (simp add: any_geometry_def)
  fix e r assume er: "(e, r) \<in> set fl"
  have "apart (nb (e, r)) (nbl (b, s, p))" using any_blocks_apart(1) [OF g(2) er, of "(b, s, p)"] by simp
  then show "nodes_apart b e" using l any_free_bounds(2) [OF g er] by (auto simp: nodes_apart_def)
qed

lemma free_node_ok:
  assumes inv: "any_inv h m fl (us @ (b, s, p) # vs)"
    and m2: "m2 = clear_next_pointer (set_block_size m b s) b"
  shows "fl_ok h m2 fl" "get_block_size m2 b = s" "unat x \<notin> region b 16 \<Longrightarrow> m2 x = m x"
proof -
  note fh = free_header [OF inv refl]
  have fr: "m2 x = m x" if "unat x \<notin> region b 16" for x
    using that fh(6) m2 by (simp add: clear_next_pointer_eq set_next_pointer_frame set_block_size_frame)
  then show "unat x \<notin> region b 16 \<Longrightarrow> m2 x = m x" .
  show "get_block_size m2 b = s" using fh(6) m2 by (simp add: clear_next_pointer_eq)
  have fl: "fl_ok h m fl" using inv by (simp add: any_inv_def)
  show "fl_ok h m2 fl"
  proof (rule fl_ok_frame [OF fl refl])
    fix e r and x :: u64 assume "(e, r) \<in> set fl" "unat x \<in> region e 16"
    then show "m2 x = m x" using fh(7) [of e r] by (intro fr) (auto simp: nodes_apart_def)
  qed
qed

lemma free_tiles:
  assumes "any_tiles h (xs @ ys) (us @ (b, s, p) # vs)" "16 \<le> unat s"
  shows "any_tiles h (xs @ (b, s) # ys) (us @ vs)"
  using assms by (auto simp: any_tiles_def elim!: tiles_perm [rotated])

text \<open>Where the freed block goes: the split of the freelist, and the predecessor that is passed on to
  the coalescing step.\<close>

definition free_split :: "u64 \<Rightarrow> free_block list \<Rightarrow> free_block list \<times> free_block list \<times> u64" where
  "free_split ptr fl =
     (case fl of [] \<Rightarrow> ([], [], 0) | [y] \<Rightarrow> ([y], [], 0)
      | _ \<Rightarrow> let xs = takeWhile (\<lambda>(a, s). \<not> ptr < a) fl
             in (xs, dropWhile (\<lambda>(a, s). \<not> ptr < a) fl, prev_of xs))"

lemma free_split_append: "free_split ptr fl = (xs, ys, ip) \<Longrightarrow> fl = xs @ ys"
  by (auto simp: free_split_def Let_def split: list.splits)

lemma free_search_ok:
  assumes fl: "fl_ok h m fl" and sp: "free_split ptr fl = (xs, ys, ip)"
  shows "insert_free_node ptr b (h, m) = Some (ip, LogicalPageAnySize_insert (prev_of xs) b (h, m))"
proof (cases fl)
  case Nil
  then show ?thesis using fl sp by (auto simp: fl_ok_def free_split_def prev_of_def)
next
  case (Cons y zs)
  obtain a t where y: "y = (a, t)" by (cases y)
  have hd: "m_head h = a" "a \<noteq> 0" using fl Cons y by (auto simp: fl_ok_def)
  have nx: "get_next_pointer m a = (case zs of [] \<Rightarrow> 0 | (c, r) # _ \<Rightarrow> c)"
    using fl Cons y by (intro fl_ok_next [of h m "[]" a t zs]) simp
  show ?thesis
  proof (cases zs)
    case Nil
    then show ?thesis using Cons y hd nx sp by (auto simp: free_split_def prev_of_def)
  next
    case (Cons z ws)
    obtain c r where z: "z = (c, r)" by (cases z)
    have "c \<noteq> 0" using fl_ok_node [OF fl, of c r] \<open>fl = y # zs\<close> Cons z by (auto simp: node_ok_def)
    moreover have "find_insertion_point m ptr a 0
        = Some (prev_of (takeWhile (\<lambda>(a, s). \<not> ptr < a) fl), dropWhile (\<lambda>(a, s). \<not> ptr < a) fl \<noteq> [])"
      using find_insertion_point_ok [of h m "[]" fl ptr] fl \<open>fl = y # zs\<close> y by (simp add: prev_of_def)
    ultimately show ?thesis using sp hd nx \<open>fl = y # zs\<close> Cons z by (auto simp: free_split_def Let_def)
  qed
qed

declare insert_free_node.simps [simp del]

lemma free_spec_split:
  "free_split ptr fl = (xs, ys, ip) \<Longrightarrow>
   free_spec cp ptr x fl = (if cp = COALESCE \<and> 1 < length fl then merge_prev xs (merge_next x ys) else xs @ x # ys)"
  by (auto simp: free_split_def free_spec_def Let_def split: list.splits)

lemma finish_free_ok:
  assumes fl: "fl_ok h m (xs @ x # ys)" and g: "any_geometry h" "any_tiles h (xs @ x # ys) L"
    and sp: "free_split ptr fl = (xs, ys, ip)" and b: "fst x = b"
    and c: "(if cp = COALESCE then coalesce ip b (h, m) else (h, m)) = (h', m')"
  shows "fl_ok h' m' (free_spec cp ptr x fl)" "any_tiles h (free_spec cp ptr x fl) L" "same_page h h'"
    "frame_nodes (xs @ x # ys) m m'"
proof -
  obtain s where x: "x = (b, s)" using b by (cases x) auto
  have "fl_ok h' m' (free_spec cp ptr x fl) \<and> any_tiles h (free_spec cp ptr x fl) L \<and> same_page h h'
    \<and> frame_nodes (xs @ x # ys) m m'"
  proof (cases "cp = COALESCE")
    case False
    then show ?thesis using c fl g free_spec_split [OF sp, of cp x] by simp
  next
    case True
    show ?thesis
    proof (cases "1 < length fl")
      case True
      then have ip: "ip = prev_of xs" using sp by (auto simp: free_split_def Let_def split: list.splits)
      have c': "coalesce (prev_of xs) b (h, m) = (h', m')" using c \<open>cp = COALESCE\<close> ip by simp
      show ?thesis using coalesce_ok [OF fl [unfolded x] g(1) g(2) [unfolded x] c'] True x
          free_spec_split [OF sp, of cp x] \<open>cp = COALESCE\<close> by simp
    next
      case False
      then have "ip = 0" "ys = []" using sp by (auto simp: free_split_def Let_def split: list.splits)
      moreover from this have "get_next_pointer m b = 0" using fl_ok_next [of h m xs b s ys] fl x by simp
      ultimately show ?thesis using False c fl g x free_spec_split [OF sp, of cp x] \<open>cp = COALESCE\<close> coalesce_alone
        by simp
    qed
  qed
  then show "fl_ok h' m' (free_spec cp ptr x fl)" "any_tiles h (free_spec cp ptr x fl) L" "same_page h h'"
    "frame_nodes (xs @ x # ys) m m'" by auto
qed

lemma same_page_any:
  assumes "same_page h h'"
  shows "any_geometry h' = any_geometry h" "any_tiles h' = any_tiles h" "m_used_size h' = m_used_size h"
proof -
  let ?z = "\<lambda>h. h\<lparr>m_head := 0, m_last_used_node := 0\<rparr>"
  have e: "?z h' = ?z h" using assms by (simp add: same_page_def)
  show "any_geometry h' = any_geometry h" "any_tiles h' = any_tiles h"
    using e any_tiles_upd by metis+
  have "m_used_size (?z h') = m_used_size (?z h)" by (simp only: e)
  then show "m_used_size h' = m_used_size h" by simp
qed

lemma any_deallocate_ok:
  assumes inv: "any_inv h m fl (us @ (b, s, p) # vs)" and ptr: "ptr = payload (b, s, p)"
  obtains h' m' where "LogicalPageAnySize_deallocate cp ptr (h, m) = Some (h', m')"
    "any_inv h' m' (free_spec cp ptr (b, s) fl) (us @ vs)"
    "same_page (h\<lparr>m_used_size := m_used_size h - s\<rparr>) h'"
    "frame_free ((b, s) # fl) m m'"
proof -
  let ?L = "us @ (b, s, p) # vs"
  have g: "any_geometry h" "any_tiles h fl ?L" and l: "live_ok m (b, s, p)" using inv by (auto simp: any_inv_def)
  define m2 where "m2 = clear_next_pointer (set_block_size m b s) b"
  note fh = free_header [OF inv ptr] and fn = free_node_ok [OF inv m2_def]
  obtain xs ys ip where sp: "free_split ptr fl = (xs, ys, ip)" by (cases "free_split ptr fl")
  note fxy = free_split_append [OF sp]
  obtain h3 m3 where ins: "LogicalPageAnySize_insert (prev_of xs) b (h, m2) = (h3, m3)"
    by (cases "LogicalPageAnySize_insert (prev_of xs) b (h, m2)")
  have ap: "\<And>e r. (e, r) \<in> set (xs @ ys) \<Longrightarrow> nodes_apart b e" using fh(7) fxy by simp
  note fl2 = fn(1) [unfolded fxy]
  have fl3: "fl_ok h3 m3 (xs @ (b, s) # ys)" using insert_ok [OF fl2 fh(6) fn(2) _ ins] ap by blast
  obtain q where h3: "h3 = h\<lparr>m_head := q\<rparr>" using insert_frame(1) [OF fl2 fh(6) _ ins] ap by blast
  have bs: "get_block_size m3 b = s" using fl_ok_node [OF fl3, of b s] by simp
  let ?h4 = "h3\<lparr>m_used_size := m_used_size h3 - s\<rparr>"
  obtain h' m' where c: "(if cp = COALESCE then coalesce ip b (?h4, m3) else (?h4, m3)) = (h', m')"
    by (cases "if cp = COALESCE then coalesce ip b (?h4, m3) else (?h4, m3)")
  have t4: "any_tiles ?h4 (xs @ (b, s) # ys) (us @ vs)"
    using free_tiles [of h xs ys us b s p vs] g fxy l h3 by simp
  have g4: "any_geometry ?h4" and fl4: "fl_ok ?h4 m3 (xs @ (b, s) # ys)" using g fl3 h3 by simp_all
  note f = finish_free_ok [OF fl4 g4 t4 sp _ c, simplified]
  have sp': "same_page (h\<lparr>m_used_size := m_used_size h - s\<rparr>) h'"
    using f(3) h3 by (simp add: same_page_def)
  show ?thesis
  proof (rule that)
    show "LogicalPageAnySize_deallocate cp ptr (h, m) = Some (h', m')"
      using fh(1-5) free_search_ok [OF fn(1) sp, of b] ins bs c
      by (cases "cp = COALESCE") (simp_all add: m2_def Let_def)
    show "same_page (h\<lparr>m_used_size := m_used_size h - s\<rparr>) h'" by (rule sp')
    show fr: "frame_free ((b, s) # fl) m m'"
      unfolding frame_free_def
    proof (intro allI impI)
      fix x :: u64 assume x: "\<forall>e r. (e, r) \<in> set ((b, s) # fl) \<longrightarrow> unat x \<notin> region e (unat r)"
      have n: "unat x \<notin> region e 16" if "(e, r) \<in> set (xs @ (b, s) # ys)" for e r
      proof -
        have "16 \<le> unat r" using that l any_free_bounds(2) [OF g, of e r] fxy by auto
        moreover have "unat x \<notin> region e (unat r)" using x that fxy by force
        ultimately show ?thesis by auto
      qed
      have xb: "unat x \<notin> region b 16" and nx: "\<And>e r. (e, r) \<in> set xs \<Longrightarrow> unat x \<notin> region e 16"
        using n by force+
      have "m' x = m3 x" using f(4) n unfolding frame_nodes_def by blast
      also have "\<dots> = m2 x" by (rule insert_frame(2) [OF fl2 fh(6) _ ins xb]) (use ap nx in blast)+
      also have "\<dots> = m x" by (rule fn(3) [OF xb])
      finally show "m' x = m x" .
    qed
    show "any_inv h' m' (free_spec cp ptr (b, s) fl) (us @ vs)"
      unfolding any_inv_def
    proof (intro conjI)
      show "any_geometry h'" "any_tiles h' (free_spec cp ptr (b, s) fl) (us @ vs)"
        using same_page_any [OF f(3)] g4 f(2) by simp_all
      show "fl_ok h' m' (free_spec cp ptr (b, s) fl)" by (rule f(1))
      show "\<forall>l\<in>set (us @ vs). live_ok m' l"
      proof (rule frame_free_live)
        show "any_geometry h" by (rule g)
        show "any_tiles h ((b, s) # fl) (us @ vs)" using free_tiles [of h "[]" fl us b s p vs] g l by simp
        show "\<forall>l\<in>set (us @ vs). live_ok m l" using inv by (auto simp: any_inv_def)
        show "frame_free ((b, s) # fl) m m'" by (rule fr)
      qed
      have u: "unat (m_used_size h) = unat s + sum_list (map (snd \<circ> nbl) (us @ vs))"
        using inv by (simp add: any_inv_def)
      have "m_used_size h' = m_used_size h - s" using same_page_any(3) [OF f(3)] h3 by simp
      then show "unat (m_used_size h') = sum_list (map (snd \<circ> nbl) (us @ vs))"
        using u by (simp add: unat_sub_nowrap)
    qed
  qed
qed

subsection \<open>Creation, the consistency check and the node count\<close>

lemma any_create_ok:
  assumes "LogicalPageAnySize_create buffer buffer_size sz_class (h, m) = (True, (h', m'))"
    and "unat buffer + unat buffer_size < 2 ^ 64"
  shows "any_inv h' m' [(buffer, buffer_size)] []" "m_used_size h' = 0" "m_size_class h' = sz_class"
    "m_logical_page_start_address h' = buffer" "m_logical_page_size h' = buffer_size"
    "\<And>x. unat x \<notin> region buffer 16 \<Longrightarrow> m' x = m x"
proof -
  let ?m1 = "set_next_pointer (set_block_size m buffer buffer_size) buffer 0"
  have c: "16 < unat buffer_size" "buffer \<noteq> 0"
    and h': "h' = (initialise h)\<lparr>m_size_class := sz_class, m_logical_page_start_address := buffer,
              m_logical_page_size := buffer_size, m_head := buffer\<rparr>"
    and m': "m' = set_next_pointer ?m1 buffer 0"
    using assms(1)
    by (auto simp: Let_def NODE_SIZE_def word_le_nat_alt clear_next_pointer_eq initialise_def
        LogicalPageAnySize_insert.simps split: if_splits)
  have n: "node_ok buffer" using c assms(2) by (simp add: node_ok_def)
  show "m_used_size h' = 0" "m_size_class h' = sz_class" "m_logical_page_start_address h' = buffer"
    "m_logical_page_size h' = buffer_size" using h' by (simp_all add: initialise_def)
  then show "any_inv h' m' [(buffer, buffer_size)] []"
    using c assms(2) n tiles_single [of "unat buffer_size" "unat buffer"] h' m'
    by (auto simp: any_inv_def any_geometry_def any_tiles_def fl_ok_def)
  show "m' x = m x" if "unat x \<notin> region buffer 16" for x
    using that n unfolding m' by (simp add: set_next_pointer_frame set_block_size_frame)
qed

lemma is_sane_loop_ok:
  "fl_ok h m (xs @ ys) \<Longrightarrow>
   is_sane_loop m (case ys of [] \<Rightarrow> 0 | (b, t) # _ \<Rightarrow> b) acc = Some (acc + sum_list (map snd ys))"
proof (induction ys arbitrary: xs acc)
  case Nil
  then show ?case by (simp add: is_sane_loop.simps)
next
  case (Cons y ys)
  obtain a s where y: "y = (a, s)" by (cases y)
  have "a \<noteq> 0" "get_block_size m a = s"
    using fl_ok_node [OF Cons.prems, of a s] y by (auto simp: node_ok_def)
  then show ?case using Cons.IH [of "xs @ [(a, s)]" "acc + s"] Cons.prems y fl_ok_next [of h m xs a s ys]
    by (subst is_sane_loop.simps) (simp add: add.assoc)
qed

lemma get_node_count_loop_ok:
  "fl_ok h m (xs @ ys) \<Longrightarrow>
   get_node_count_loop m (case ys of [] \<Rightarrow> 0 | (b, t) # _ \<Rightarrow> b) acc = Some (acc + of_nat (length ys))"
proof (induction ys arbitrary: xs acc)
  case Nil
  then show ?case by (simp add: get_node_count_loop.simps)
next
  case (Cons y ys)
  obtain a s where y: "y = (a, s)" by (cases y)
  have "a \<noteq> 0" using fl_ok_node [OF Cons.prems, of a s] y by (auto simp: node_ok_def)
  then show ?case using Cons.IH [of "xs @ [(a, s)]" "acc + 1"] Cons.prems y fl_ok_next [of h m xs a s ys]
    by (subst get_node_count_loop.simps) (simp add: add.assoc)
qed

lemma fl_ok_head: "fl_ok h m fl \<Longrightarrow> m_head h = (case fl of [] \<Rightarrow> 0 | (b, t) # _ \<Rightarrow> b)"
  by (cases fl) (auto simp: fl_ok_def)

lemma sum_words: "sum_list (map snd fl) = of_nat (sum_list (map (snd \<circ> nb) fl))"
  by (induction fl) auto

lemma any_is_sane:
  assumes "any_inv h m fl L"
  shows "is_sane (h, m) = Some True"
proof -
  have fl: "fl_ok h m ([] @ fl)" and t: "any_tiles h fl L"
    and u: "unat (m_used_size h) = sum_list (map (snd \<circ> nbl) L)" using assms by (auto simp: any_inv_def)
  have "unat (m_logical_page_size h) = sum_list (map (snd \<circ> nb) fl) + unat (m_used_size h)"
    using t u tiles_sum by (fastforce simp: any_tiles_def)
  then have "of_nat (unat (m_logical_page_size h)) = (sum_list (map snd fl) + m_used_size h :: u64)"
    by (simp add: sum_words)
  then show ?thesis using is_sane_loop_ok [OF fl, of 0] fl_ok_head [of h m fl] fl by simp
qed

lemma any_node_count:
  assumes "any_inv h m fl L"
  shows "get_node_count (h, m) = Some (of_nat (length fl))"
  using get_node_count_loop_ok [of h m "[]" fl 0] fl_ok_head [of h m fl] assms by (simp add: any_inv_def)

text \<open>What \<open>get_usable_size\<close> reports: the block less one node, so the padding is counted as usable
  although it lies in front of the payload.\<close>

lemma any_usable_size:
  assumes inv: "any_inv h m fl L" and l: "(b, s, p) \<in> set L"
  shows "unat (LogicalPageAnySize_get_usable_size (payload (b, s, p)) (h, m)) = unat s - 16"
    and "unat (payload (b, s, p)) + (unat s - 16) = unat b + unat s + unat p"
proof -
  obtain us vs where L: "L = us @ (b, s, p) # vs" using l by (meson split_list)
  note fh = free_header [OF inv [unfolded L] refl]
  have "live_ok m (b, s, p)" using inv l by (auto simp: any_inv_def)
  then have s: "unat p + 32 \<le> unat s" by simp
  show "unat (LogicalPageAnySize_get_usable_size (payload (b, s, p)) (h, m)) = unat s - 16"
    using fh(4) s by (simp add: LogicalPageAnySize_get_usable_size_def unat_sub_nowrap NODE_SIZE_def)
  show "unat (payload (b, s, p)) + (unat s - 16) = unat b + unat s + unat p" using fh(8) s by simp
qed

end
