(* ===== verification/Page_Contract.thy ===== *)
theory Page_Contract
  imports Logical_Page_AnySize
begin

text \<open>
  What a segment relies on of its logical pages, as an interface.

  \<open>Segment\<close> is a class template over the page class; \<open>LogicalPageType\<close> names the two instances and
  \<open>page_create\<close>, \<open>page_allocate\<close>, ... dispatch to them.  The locale \<open>logical_page_contract\<close> states
  the laws in terms of the live payloads of a page (pointer to capacity): allocation hands out a
  payload disjoint from every live one, deallocation gives it back, neither touches bytes of a live
  payload or bytes outside the page.  The client of a page is a step relation (allocate, free what is
  held, write into what is held), and its safety is proved once, inside the locale.
\<close>

subsection \<open>The page class of a segment\<close>

datatype LogicalPageType = LOGICAL_PAGE | LOGICAL_PAGE_ANY_SIZE CoalescePolicy

fun supports_any_size :: "LogicalPageType \<Rightarrow> bool" where
  "supports_any_size LOGICAL_PAGE = False"
| "supports_any_size (LOGICAL_PAGE_ANY_SIZE _) = True"

fun page_create :: "LogicalPageType \<Rightarrow> u64 \<Rightarrow> u64 \<Rightarrow> u32 \<Rightarrow> page_state \<Rightarrow> bool \<times> page_state" where
  "page_create LOGICAL_PAGE buffer n sz_class s = LogicalPage_create buffer n sz_class s"
| "page_create (LOGICAL_PAGE_ANY_SIZE _) buffer n sz_class s = LogicalPageAnySize_create buffer n sz_class s"

fun page_allocate :: "LogicalPageType \<Rightarrow> u64 \<Rightarrow> page_state \<Rightarrow> (u64 \<times> page_state) option" where
  "page_allocate LOGICAL_PAGE sz s = Some (LogicalPage_allocate sz s)"
| "page_allocate (LOGICAL_PAGE_ANY_SIZE _) sz s = LogicalPageAnySize_allocate sz s"

fun page_deallocate :: "LogicalPageType \<Rightarrow> u64 \<Rightarrow> page_state \<Rightarrow> page_state option" where
  "page_deallocate LOGICAL_PAGE ptr s = Some (LogicalPage_deallocate ptr s)"
| "page_deallocate (LOGICAL_PAGE_ANY_SIZE cp) ptr s = LogicalPageAnySize_deallocate cp ptr s"

fun page_get_usable_size :: "LogicalPageType \<Rightarrow> u64 \<Rightarrow> page_state \<Rightarrow> u64" where
  "page_get_usable_size LOGICAL_PAGE ptr s = LogicalPage_get_usable_size ptr s"
| "page_get_usable_size (LOGICAL_PAGE_ANY_SIZE _) ptr s = LogicalPageAnySize_get_usable_size ptr s"

subsection \<open>Frames\<close>

abbreviation page_region :: "LogicalPageHeader \<Rightarrow> nat set" where
  "page_region h \<equiv> region (m_logical_page_start_address h) (unat (m_logical_page_size h))"

text \<open>The fields that an allocation or a deallocation may change, and those that only the page list
  of a segment uses.\<close>

definition same_place :: "LogicalPageHeader \<Rightarrow> LogicalPageHeader \<Rightarrow> bool" where
  "same_place h h' \<longleftrightarrow> h'\<lparr>m_head := 0, m_used_size := 0, m_last_used_node := 0\<rparr>
     = h\<lparr>m_head := 0, m_used_size := 0, m_last_used_node := 0\<rparr>"

definition same_core :: "LogicalPageHeader \<Rightarrow> LogicalPageHeader \<Rightarrow> bool" where
  "same_core h h' \<longleftrightarrow> h'\<lparr>m_next_logical_page_ptr := 0, m_prev_logical_page_ptr := 0, m_page_flags := 0\<rparr>
     = h\<lparr>m_next_logical_page_ptr := 0, m_prev_logical_page_ptr := 0, m_page_flags := 0\<rparr>"

lemma same_place_fields:
  assumes "same_place h h'"
  shows "m_next_logical_page_ptr h' = m_next_logical_page_ptr h"
    "m_prev_logical_page_ptr h' = m_prev_logical_page_ptr h" "m_page_flags h' = m_page_flags h"
    "m_size_class h' = m_size_class h" "m_logical_page_start_address h' = m_logical_page_start_address h"
    "m_logical_page_size h' = m_logical_page_size h"
  using assms unfolding same_place_def
  by (cases h; cases h'; simp)+

lemma same_core_fields:
  assumes "same_core h h'"
  shows "m_head h' = m_head h" "m_used_size h' = m_used_size h"
    "m_size_class h' = m_size_class h" "m_logical_page_start_address h' = m_logical_page_start_address h"
    "m_logical_page_size h' = m_logical_page_size h" "m_last_used_node h' = m_last_used_node h"
  using assms unfolding same_core_def
  by (cases h; cases h'; simp)+

lemma same_place_refl [simp]: "same_place h h" and same_core_refl [simp]: "same_core h h"
  by (simp_all add: same_place_def same_core_def)

lemma same_core_links [simp]:
  "same_core h (set_next_logical_page a h)" "same_core h (set_previous_logical_page a h)"
  "same_core h (mark_as_used h)" "same_core h (mark_as_non_used h)"
  "same_core h (mark_as_locked h)" "same_core h (mark_as_non_locked h)"
  by (simp_all add: same_core_def page_link_defs page_flag_defs)

lemma same_core_trans: "same_core h h' \<Longrightarrow> same_core h' h'' \<Longrightarrow> same_core h h''"
  by (simp add: same_core_def)

text \<open>The bytes that an operation on a page may change, given the payloads that stay live.\<close>

definition page_frame :: "(u64 \<rightharpoonup> nat) \<Rightarrow> page_state \<Rightarrow> page_state \<Rightarrow> bool" where
  "page_frame A s s' \<longleftrightarrow> same_place (fst s) (fst s') \<and>
     (\<forall>x. snd s' x \<noteq> snd s x \<longrightarrow> unat x \<in> page_region (fst s) \<and> (\<forall>q k. A q = Some k \<longrightarrow> unat x \<notin> region q k))"

lemma page_frame_refl [simp]: "page_frame A s s"
  by (simp add: page_frame_def)

subsection \<open>The contract and its client\<close>

text \<open>A client holds payloads (pointer to requested size): it allocates sizes that the page serves,
  frees what it holds and writes into what it holds.\<close>

type_synonym client_state = "page_state \<times> (u64 \<rightharpoonup> nat)"

inductive client_step ::
  "(u64 \<Rightarrow> page_state \<Rightarrow> (u64 \<times> page_state) option) \<Rightarrow> (u64 \<Rightarrow> page_state \<Rightarrow> page_state option)
   \<Rightarrow> (u64 \<Rightarrow> page_state \<Rightarrow> bool) \<Rightarrow> client_state \<Rightarrow> client_state \<Rightarrow> bool"
  for alloc dealloc fit where
  grant: "fit sz s \<Longrightarrow> alloc sz s = Some (p, s') \<Longrightarrow> p \<noteq> 0
    \<Longrightarrow> client_step alloc dealloc fit (s, held) (s', held(p \<mapsto> unat sz))"
| refuse: "fit sz s \<Longrightarrow> alloc sz s = Some (0, s') \<Longrightarrow> client_step alloc dealloc fit (s, held) (s', held)"
| free: "held p = Some n \<Longrightarrow> dealloc p s = Some s'
    \<Longrightarrow> client_step alloc dealloc fit (s, held) (s', held(p := None))"
| store: "held p = Some n \<Longrightarrow> unat x \<in> region p n
    \<Longrightarrow> client_step alloc dealloc fit ((h, m), held) ((h, m(x := v)), held)"

inductive_cases client_stepE: "client_step alloc dealloc fit c c'"

locale logical_page_contract =
  fixes inv :: "page_state \<Rightarrow> (u64 \<rightharpoonup> nat) \<Rightarrow> bool"
    and alloc :: "u64 \<Rightarrow> page_state \<Rightarrow> (u64 \<times> page_state) option"
    and dealloc :: "u64 \<Rightarrow> page_state \<Rightarrow> page_state option"
    and fit :: "u64 \<Rightarrow> page_state \<Rightarrow> bool"
  assumes live_nonnull: "inv s A \<Longrightarrow> A 0 = None"
    and live_inside: "inv s A \<Longrightarrow> A p = Some k \<Longrightarrow> region p k \<subseteq> page_region (fst s)"
    and live_disjoint: "inv s A \<Longrightarrow> A p = Some k \<Longrightarrow> A q = Some j \<Longrightarrow> p \<noteq> q \<Longrightarrow> region p k \<inter> region q j = {}"
    and used_none: "inv s A \<Longrightarrow> m_used_size (fst s) = 0 \<longleftrightarrow> A = Map.empty"
    and stable: "inv (h, m) A \<Longrightarrow> same_core h h'
      \<Longrightarrow> (\<And>x. m' x \<noteq> m x \<Longrightarrow> unat x \<notin> page_region h \<or> (\<exists>p k. A p = Some k \<and> unat x \<in> region p k))
      \<Longrightarrow> inv (h', m') A"
    and alloc_total: "inv s A \<Longrightarrow> fit sz s \<Longrightarrow> \<exists>p s'. alloc sz s = Some (p, s')"
    and alloc_null: "inv s A \<Longrightarrow> fit sz s \<Longrightarrow> alloc sz s = Some (0, s') \<Longrightarrow> s' = s"
    and alloc_new: "inv s A \<Longrightarrow> fit sz s \<Longrightarrow> alloc sz s = Some (p, s') \<Longrightarrow> p \<noteq> 0
      \<Longrightarrow> A p = None \<and> (\<exists>k \<ge> unat sz. inv s' (A(p \<mapsto> k))) \<and> page_frame A s s'"
    and dealloc_live: "inv s A \<Longrightarrow> A p = Some k
      \<Longrightarrow> \<exists>s'. dealloc p s = Some s' \<and> inv s' (A(p := None)) \<and> page_frame (A(p := None)) s s'"
    and live_pos: "inv s A \<Longrightarrow> A p = Some k \<Longrightarrow> 0 < k"
begin

definition served :: "client_state \<Rightarrow> bool" where
  "served c \<longleftrightarrow> (\<exists>A. inv (fst c) A \<and> dom A = dom (snd c)
     \<and> (\<forall>p n. snd c p = Some n \<longrightarrow> (\<exists>k \<ge> n. A p = Some k)))"

lemma served_start: "inv s Map.empty \<Longrightarrow> served (s, Map.empty)"
  by (auto simp: served_def intro!: exI [of _ Map.empty])

lemma served_step:
  assumes "client_step alloc dealloc fit c c'" "served c"
  shows "served c'"
  using assms(1)
proof cases
  case (grant sz s p s' held)
  obtain A where A: "inv s A" "dom A = dom held" "\<forall>p n. held p = Some n \<longrightarrow> (\<exists>k \<ge> n. A p = Some k)"
    using assms(2) grant(1) by (auto simp: served_def)
  from alloc_new [OF A(1) grant(3,4,5)] obtain k where "k \<ge> unat sz" "inv s' (A(p \<mapsto> k))" by blast
  then show ?thesis using A grant(2) unfolding served_def by (intro exI [of _ "A(p \<mapsto> k)"]) simp
next
  case (refuse sz s s' held)
  then show ?thesis using assms(2) alloc_null unfolding served_def by (metis fst_conv snd_conv)
next
  case (free held p n s s')
  obtain A where A: "inv s A" "dom A = dom held" "\<forall>p n. held p = Some n \<longrightarrow> (\<exists>k \<ge> n. A p = Some k)"
    using assms(2) free(1) by (auto simp: served_def)
  then obtain k where "A p = Some k" using free(3) by blast
  from dealloc_live [OF A(1) this] have "inv s' (A(p := None))" using free(4) by auto
  then show ?thesis using A free(2) unfolding served_def by (intro exI [of _ "A(p := None)"]) simp
next
  case (store held p n x h m v)
  obtain A where A: "inv (h, m) A" "dom A = dom held" "\<forall>p n. held p = Some n \<longrightarrow> (\<exists>k \<ge> n. A p = Some k)"
    using assms(2) store(1) by (auto simp: served_def)
  then obtain k where k: "A p = Some k" "n \<le> k" using store(3) by blast
  have "inv (h, m(x := v)) A"
    by (rule stable [OF A(1) same_core_refl]) (use k store(4) in \<open>fastforce split: if_splits\<close>)
  then show ?thesis using A store(2) by (auto simp: served_def)
qed

lemma served_run: "(client_step alloc dealloc fit)\<^sup>*\<^sup>* c c' \<Longrightarrow> served c \<Longrightarrow> served c'"
  by (induction rule: rtranclp_induct) (auto intro: served_step)

text \<open>The page stays where it is.\<close>

lemma served_place_step:
  assumes "client_step alloc dealloc fit c c'" "served c"
  shows "same_place (fst (fst c)) (fst (fst c'))"
  using assms(1)
proof cases
  case (grant sz s p s' held)
  obtain A where "inv s A" using assms(2) grant(1) by (auto simp: served_def)
  then show ?thesis using alloc_new [OF _ grant(3,4,5)] grant(1,2) by (auto simp: page_frame_def)
next
  case (refuse sz s s' held)
  obtain A where "inv s A" using assms(2) refuse(1) by (auto simp: served_def)
  then show ?thesis using alloc_null [OF _ refuse(3,4)] refuse(1,2) by simp
next
  case (free held p n s s')
  obtain A k where "inv s A" "A p = Some k" using assms(2) free(1,3) unfolding served_def
    by (metis fst_conv snd_conv)
  then show ?thesis using dealloc_live [of s A p k] free by (auto simp: page_frame_def)
qed simp

lemma served_place:
  "(client_step alloc dealloc fit)\<^sup>*\<^sup>* c c' \<Longrightarrow> served c \<Longrightarrow> same_place (fst (fst c)) (fst (fst c'))"
proof (induction rule: rtranclp_induct)
  case (step c' c'')
  then have "same_place (fst (fst c')) (fst (fst c''))" using served_place_step served_run by blast
  then show ?case using step by (simp add: same_place_def)
qed simp

text \<open>Held payloads are disjoint and inside the page.\<close>

lemma served_held:
  assumes "served (s, held)" "held p = Some n"
  shows "p \<noteq> 0" "region p n \<subseteq> page_region (fst s)" "\<exists>s'. dealloc p s = Some s'"
    and "held q = Some j \<Longrightarrow> p \<noteq> q \<Longrightarrow> region p n \<inter> region q j = {}"
proof -
  obtain A where A: "inv s A" "\<forall>p n. held p = Some n \<longrightarrow> (\<exists>k \<ge> n. A p = Some k)"
    using assms(1) by (auto simp: served_def)
  then obtain k where k: "k \<ge> n" "A p = Some k" using assms(2) by blast
  have sub: "region p i \<subseteq> region p j" if "i \<le> j" for p i j using that by (auto simp: region_def)
  show "p \<noteq> 0" using live_nonnull [OF A(1)] k by auto
  show "region p n \<subseteq> page_region (fst s)" using live_inside [OF A(1) k(2)] sub [OF k(1)] by blast
  show "\<exists>s'. dealloc p s = Some s'" using dealloc_live [OF A(1) k(2)] by blast
  assume q: "held q = Some j" "p \<noteq> q"
  then obtain i where i: "i \<ge> j" "A q = Some i" using A(2) by blast
  show "region p n \<inter> region q j = {}"
    using live_disjoint [OF A(1) k(2) i(2) q(2)] sub [OF k(1)] sub [OF i(1)] by blast
qed

text \<open>The bytes of a held payload change only by the client's own writes.\<close>

lemma held_contents:
  assumes "served (s, held)" "held p = Some n" "unat x \<in> region p n"
  shows "fit sz s \<Longrightarrow> alloc sz s = Some (q, s') \<Longrightarrow> snd s' x = snd s x"
    and "held q = Some j \<Longrightarrow> q \<noteq> p \<Longrightarrow> dealloc q s = Some s' \<Longrightarrow> snd s' x = snd s x"
proof -
  obtain A where A: "inv s A" "\<forall>p n. held p = Some n \<longrightarrow> (\<exists>k \<ge> n. A p = Some k)"
    using assms(1) by (auto simp: served_def)
  then obtain k where k: "k \<ge> n" "A p = Some k" using assms(2) by blast
  have x: "unat x \<in> region p k" using assms(3) k(1) by auto
  show "snd s' x = snd s x" if f: "fit sz s" "alloc sz s = Some (q, s')"
  proof (cases "q = 0")
    case True
    then show ?thesis using alloc_null [OF A(1) f(1)] f(2) by simp
  next
    case False
    then have "page_frame A s s'" using alloc_new [OF A(1) f] by blast
    then show ?thesis using k x unfolding page_frame_def by blast
  qed
  show "snd s' x = snd s x" if q: "held q = Some j" "q \<noteq> p" "dealloc q s = Some s'"
  proof -
    obtain i where "A q = Some i" using A(2) q(1) by blast
    from dealloc_live [OF A(1) this] q(3) have "page_frame (A(q := None)) s s'" by auto
    then show ?thesis using k x q(2) unfolding page_frame_def by (metis fun_upd_other)
  qed
qed

text \<open>Once everything is given back the page counts no used byte, so it can be recycled.\<close>

lemma served_used: "served (s, held) \<Longrightarrow> m_used_size (fst s) = 0 \<longleftrightarrow> held = Map.empty"
  unfolding served_def using used_none by (metis dom_eq_empty_conv fst_conv snd_conv)

lemma served_progress: "served (s, held) \<Longrightarrow> fit sz s \<Longrightarrow> \<exists>p s'. alloc sz s = Some (p, s')"
  unfolding served_def using alloc_total by (metis fst_conv)

end

subsection \<open>Pages of one size class\<close>

definition lp_live :: "LogicalPageHeader \<Rightarrow> u64 list \<Rightarrow> u64 \<rightharpoonup> nat" where
  "lp_live h fl = (\<lambda>p. if p \<in> chunks h - set fl then Some (unat (m_size_class h)) else None)"

definition lp_page :: "page_state \<Rightarrow> (u64 \<rightharpoonup> nat) \<Rightarrow> bool" where
  "lp_page s A \<longleftrightarrow> (\<exists>fl. lp_inv (fst s) (snd s) fl \<and> A = lp_live (fst s) fl)"

definition lp_fit :: "u64 \<Rightarrow> page_state \<Rightarrow> bool" where
  "lp_fit sz s \<longleftrightarrow> unat sz \<le> unat (m_size_class (fst s))"

lemma lp_pageE:
  assumes "lp_page (h, m) A"
  obtains fl where "lp_inv h m fl" "A = lp_live h fl" "lp_geometry h" "set fl \<subseteq> chunks h"
  using assms by (auto simp: lp_page_def lp_inv_def lp_linked_def)

lemma lp_live_iff: "lp_live h fl p = Some k \<longleftrightarrow> p \<in> chunks h \<and> p \<notin> set fl \<and> k = unat (m_size_class h)"
  by (auto simp: lp_live_def)

lemma lp_same_core:
  assumes "same_core h h'"
  shows "lp_geometry h' = lp_geometry h" "chunk_total h' = chunk_total h" "chunks h' = chunks h"
    "lp_live h' = lp_live h"
  using same_core_fields [OF assms]
  by (simp_all add: lp_geometry_def chunk_total_def chunk_addr_def chunks_def lp_live_def fun_eq_iff)

lemma lp_stable:
  assumes "lp_page (h, m) A" "same_core h h'"
    and "\<And>x. m' x \<noteq> m x \<Longrightarrow> unat x \<notin> page_region h \<or> (\<exists>p k. A p = Some k \<and> unat x \<in> region p k)"
  shows "lp_page (h', m') A"
proof -
  obtain fl where fl: "lp_inv h m fl" "A = lp_live h fl" "lp_geometry h" "set fl \<subseteq> chunks h"
    by (rule lp_pageE [OF assms(1)])
  have l: "lp_linked h m' fl"
  proof (rule lp_linked_cong)
    show "lp_linked h m fl" using fl(1) by (simp add: lp_inv_def)
    fix c and x :: u64 assume c: "c \<in> set fl" "unat x \<in> region c 8"
    have g: "8 \<le> unat (m_size_class h)" "c \<in> chunks h" using fl(3,4) c by (auto simp: lp_geometry_def)
    have "unat x \<in> page_region h" using chunk_bounds(1,2) [OF fl(3) g(2)] g(1) c(2) by auto
    moreover have "unat x \<notin> region p k" if "A p = Some k" for p k
    proof -
      have "p \<in> chunks h" "c \<noteq> p" "k = unat (m_size_class h)" using that fl(2) c(1) by (auto simp: lp_live_iff)
      then show ?thesis using chunks_apart [OF fl(3) g(2), of p] c(2) g(1) by auto
    qed
    ultimately show "m x = m' x" using assms(3) [of x] by metis
  qed
  then have "lp_inv h' m' fl" using fl(1) lp_same_core [OF assms(2)] same_core_fields [OF assms(2)]
    by (simp add: lp_inv_def lp_linked_def)
  then show ?thesis using fl(2) lp_same_core(4) [OF assms(2)] by (auto simp: lp_page_def)
qed

lemma lp_alloc_new:
  assumes "lp_page (h, m) A" "lp_fit sz (h, m)" "LogicalPage_allocate sz (h, m) = (p, s')" "p \<noteq> 0"
  shows "A p = None \<and> (\<exists>k \<ge> unat sz. lp_page s' (A(p \<mapsto> k))) \<and> page_frame A (h, m) s'"
proof -
  obtain fl where fl: "lp_inv h m fl" "A = lp_live h fl" "lp_geometry h" "set fl \<subseteq> chunks h"
    by (rule lp_pageE [OF assms(1)])
  then obtain c fl' where c: "fl = c # fl'" using assms(3,4) lp_allocate_empty [of h m sz]
    by (cases fl) auto
  obtain q w h' where a: "LogicalPage_allocate sz (h, m) = (c, (h', m))" "lp_inv h' m fl'"
      "h' = h\<lparr>m_head := q, m_used_size := w\<rparr>"
    by (rule lp_allocate_Cons [OF fl(1) [unfolded c], of sz]) blast
  have d: "distinct fl" using fl(1) lp_linked_distinct by (auto simp: lp_inv_def)
  have p: "p = c" "s' = (h', m)" using a(1) assms(3) by auto
  have "lp_live h' fl' = A(p \<mapsto> unat (m_size_class h))"
    using fl(2,4) c d p a(3) by (auto simp: lp_live_def)
  then have "lp_page s' (A(p \<mapsto> unat (m_size_class h)))" using a(2) p by (auto simp: lp_page_def)
  moreover have "A p = None" using fl(2) c p by (simp add: lp_live_def)
  moreover have "page_frame A (h, m) s'" using p a(3) by (simp add: page_frame_def same_place_def)
  ultimately show ?thesis using assms(2) by (auto simp: lp_fit_def)
qed

lemma lp_dealloc_live:
  assumes "lp_page (h, m) A" "A p = Some k"
  shows "\<exists>s'. LogicalPage_deallocate p (h, m) = s' \<and> lp_page s' (A(p := None)) \<and> page_frame (A(p := None)) (h, m) s'"
proof -
  obtain fl where fl: "lp_inv h m fl" "A = lp_live h fl" "lp_geometry h" "set fl \<subseteq> chunks h"
    by (rule lp_pageE [OF assms(1)])
  have p: "p \<in> chunks h" "p \<notin> set fl" using assms(2) fl(2) by (auto simp: lp_live_iff)
  obtain q w h' m' where d: "LogicalPage_deallocate p (h, m) = (h', m')" "lp_inv h' m' (p # fl)"
      "h' = h\<lparr>m_head := q, m_used_size := w\<rparr>" "m' = store64 m p (m_head h)"
    by (rule lp_deallocate_ok [OF fl(1) p]) blast
  note b = chunk_bounds [OF fl(3) p(1)]
  have g: "8 \<le> unat (m_size_class h)" using fl(3) by (simp add: lp_geometry_def)
  have "unat x \<in> region p 8" if "m' x \<noteq> m x" for x using store64_outside [OF b(3)] that d(4) by metis
  moreover have "unat x \<in> page_region h" if "unat x \<in> region p 8" for x :: u64 using that b g by auto
  moreover have "unat x \<notin> region c j" if "unat x \<in> region p 8" "(A(p := None)) c = Some j" for c j and x :: u64
    using chunks_apart [OF fl(3) p(1), of c] that g fl(2) by (auto simp: lp_live_iff split: if_splits)
  ultimately have f: "page_frame (A(p := None)) (h, m) (h', m')"
    using d(3) by (simp add: page_frame_def same_place_def del: in_region_iff)
  have "lp_live h' (p # fl) = A(p := None)" using fl(2) d(3) by (auto simp: lp_live_def)
  then have "lp_page (h', m') (A(p := None))" using d(2) by (auto simp: lp_page_def)
  then show ?thesis using d(1) f by simp
qed

interpretation lp: logical_page_contract lp_page "page_allocate LOGICAL_PAGE" "page_deallocate LOGICAL_PAGE" lp_fit
proof (unfold_locales, goal_cases)
  case (1 s A)
  then show ?case using chunk_bounds(4) [of "fst s" 0]
    by (auto simp: lp_page_def lp_inv_def lp_linked_def lp_live_def)
next
  case (2 s A p k)
  then obtain fl where "lp_geometry (fst s)" "p \<in> chunks (fst s)" "k = unat (m_size_class (fst s))"
    by (auto simp: lp_page_def lp_inv_def lp_linked_def lp_live_iff)
  then show ?case using chunk_bounds(1,2) by fastforce
next
  case (3 s A p k q j)
  then have "lp_geometry (fst s)" "p \<in> chunks (fst s)" "q \<in> chunks (fst s)" "k = unat (m_size_class (fst s))" "j = k"
    by (auto simp: lp_page_def lp_inv_def lp_linked_def lp_live_iff)
  then show ?case using chunks_apart [of "fst s" p q] 3(4) by (auto simp: region_def)
next
  case (4 s A)
  then obtain fl where fl: "lp_inv (fst s) (snd s) fl" "A = lp_live (fst s) fl" "lp_geometry (fst s)"
    using lp_pageE [of "fst s" "snd s" A] by auto
  have "m_used_size (fst s) = 0 \<longleftrightarrow> chunks (fst s) - set fl = {}"
    using lp_live_count [OF fl(1)] fl(3) by (simp add: unat_eq_zero [symmetric] lp_geometry_def del: Diff_eq_empty_iff) 
  then show ?case using fl(2) by (auto simp: lp_live_def fun_eq_iff split: if_splits)
next
  case (5 h m A h' m')
  then show ?case by (rule lp_stable)
next
  case (6 s A sz)
  then show ?case by (cases "LogicalPage_allocate sz s") simp
next
  case (7 s A sz s')
  then show ?case by (cases s) (auto simp: Let_def split: if_splits)
next
  case (8 s A sz p s')
  then show ?case using lp_alloc_new by (cases s) auto
next
  case (9 s A p k)
  then show ?case using lp_dealloc_live by (cases s) auto
next
  case (10 s A p k)
  then show ?case by (auto simp: lp_page_def lp_inv_def lp_linked_def lp_live_iff lp_geometry_def)
qed

subsection \<open>Pages of any size\<close>

fun capacity :: "live_block \<Rightarrow> nat" where
  "capacity (b, s, p) = unat s - unat p - 16"

definition any_live :: "live_block list \<Rightarrow> u64 \<rightharpoonup> nat" where
  "any_live L = map_of (map (\<lambda>l. (payload l, capacity l)) L)"

definition any_page :: "page_state \<Rightarrow> (u64 \<rightharpoonup> nat) \<Rightarrow> bool" where
  "any_page s A \<longleftrightarrow> (\<exists>fl L. any_inv (fst s) (snd s) fl L \<and> A = any_live L)"

definition any_fit :: "u64 \<Rightarrow> page_state \<Rightarrow> bool" where
  "any_fit sz s \<longleftrightarrow> unat sz + 32 < 2 ^ 64"

lemma any_payload_region:
  assumes "any_inv h m fl L" "l \<in> set L"
  shows "region (payload l) (capacity l) \<subseteq> {fst (nbl l)..<fst (nbl l) + snd (nbl l)}"
    "unat (payload l) \<in> {fst (nbl l)..<fst (nbl l) + snd (nbl l)}" "payload l \<noteq> 0"
    "region (payload l) (capacity l) \<subseteq> page_region h"
proof -
  obtain b s p where l: "l = (b, s, p)" by (cases l)
  obtain us vs where L: "L = us @ (b, s, p) # vs" using assms(2) l by (meson split_list)
  have lo: "live_ok m (b, s, p)" using assms l by (auto simp: any_inv_def)
  have u: "unat (payload l) = unat b + unat p + 16"
    using free_header(8) [OF assms(1) [unfolded L] refl] l by simp
  show "region (payload l) (capacity l) \<subseteq> {fst (nbl l)..<fst (nbl l) + snd (nbl l)}"
    "unat (payload l) \<in> {fst (nbl l)..<fst (nbl l) + snd (nbl l)}"
    using u lo l by (auto simp: region_def)
  have "0 < unat (payload l)" using u by simp
  then show "payload l \<noteq> 0" using unat_neq_0_iff by blast
  have "unat (m_logical_page_start_address h) \<le> unat b"
    "unat b + unat s \<le> unat (m_logical_page_start_address h) + unat (m_logical_page_size h)"
    using any_live_bounds [of h fl L b s p] assms l by (auto simp: any_inv_def)
  then show "region (payload l) (capacity l) \<subseteq> page_region h" using u lo l by (auto simp: region_def)
qed

lemma any_blocks_meet:
  assumes "any_inv h m fl L" "k \<in> set L" "l \<in> set L" "k \<noteq> l"
  shows "apart (nbl k) (nbl l)"
proof -
  obtain us vs where L: "L = us @ k # vs" using assms(2) by (meson split_list)
  then have "l \<in> set (us @ vs)" using assms(3,4) by auto
  moreover have "any_tiles h fl L" using assms(1) by (simp add: any_inv_def)
  ultimately show ?thesis using any_blocks_apart(3) L by blast
qed

lemma apart_disjoint: "apart x y \<Longrightarrow> {fst x..<fst x + snd x} \<inter> {fst y..<fst y + snd y} = {}"
  by (cases x; cases y) auto

lemma any_payload_inj:
  assumes "any_inv h m fl L" "k \<in> set L" "l \<in> set L" "payload k = payload l"
  shows "k = l"
proof (rule ccontr)
  assume "k \<noteq> l"
  from apart_disjoint [OF any_blocks_meet [OF assms(1-3) this]] show False
    using any_payload_region(2) [OF assms(1,2)] any_payload_region(2) [OF assms(1,3)] assms(4) by auto
qed

lemma any_payload_distinct:
  assumes "any_inv h m fl L"
  shows "distinct (map payload L)"
proof -
  have "apart_blocks (map nbl L)" using assms
    by (auto simp: any_inv_def any_tiles_def tiles_def apart_blocks_append)
  moreover have "0 < snd (nbl l)" if "l \<in> set L" for l
    using assms that by (cases l) (force simp: any_inv_def)
  ultimately have "distinct L"
  proof (induction L)
    case (Cons l L)
    have "l \<notin> set L" using Cons.prems(1) Cons.prems(2) [of l] by (cases l) (auto simp: apart_blocks_append)
    then show ?case using Cons by auto
  qed simp
  then show ?thesis using any_payload_inj [OF assms] by (auto simp: distinct_map inj_on_def)
qed

lemma any_live_iff:
  assumes "any_inv h m fl L"
  shows "any_live L q = Some k \<longleftrightarrow> (\<exists>l\<in>set L. q = payload l \<and> k = capacity l)"
  unfolding any_live_def using any_payload_distinct [OF assms]
  by (subst map_of_eq_Some_iff) (auto simp: comp_def)

lemma any_live_None: "any_live L q = None \<longleftrightarrow> q \<notin> set (map payload L)"
  by (simp add: any_live_def map_of_eq_None_iff image_image)

lemma map_of_remove:
  "distinct (map fst (us @ x # vs)) \<Longrightarrow> map_of (us @ vs) = (map_of (us @ x # vs))(fst x := None)"
proof (induction us)
  case Nil
  then have "map_of vs (fst x) = None" by (simp add: map_of_eq_None_iff)
  then show ?case by (cases x) (auto simp: fun_eq_iff)
next
  case (Cons u us)
  then show ?case by (cases u) (auto simp: fun_eq_iff)
qed

lemma any_stable:
  assumes "any_page (h, m) A" "same_core h h'"
    and "\<And>x. m' x \<noteq> m x \<Longrightarrow> unat x \<notin> page_region h \<or> (\<exists>p k. A p = Some k \<and> unat x \<in> region p k)"
  shows "any_page (h', m') A"
proof -
  obtain fl L where i: "any_inv h m fl L" "A = any_live L" using assms(1) by (auto simp: any_page_def)
  have g: "any_geometry h" "any_tiles h fl L" "fl_ok h m fl" using i(1) by (auto simp: any_inv_def)
  have w: "unat x \<notin> page_region h \<or> (\<exists>l\<in>set L. unat x \<in> region (payload l) (capacity l))" if "m' x \<noteq> m x" for x
    using assms(3) [OF that] any_live_iff [OF i(1)] i(2) by metis
  have fl: "fl_ok h' m' fl"
  proof (rule fl_ok_frame [OF g(3)])
    show "m_head h' = m_head h" using same_core_fields [OF assms(2)] by simp
    fix a s and x :: u64 assume a: "(a, s) \<in> set fl" "unat x \<in> region a 16"
    have "unat x \<in> page_region h" using any_free_bounds [OF g(1,2) a(1)] a(2) by auto
    moreover have "unat x \<notin> region (payload l) (capacity l)" if "l \<in> set L" for l
      using apart_disjoint [OF any_blocks_apart(1) [OF g(2) a(1) that]] any_payload_region(1) [OF i(1) that]
        any_free_bounds(2) [OF g(1,2) a(1)] a(2) by fastforce
    ultimately show "m' x = m x" using w by blast
  qed
  have live: "live_ok m' l" if l: "l \<in> set L" for l
  proof -
    obtain b s p where bsp: "l = (b, s, p)" by (cases l)
    have lo: "live_ok m (b, s, p)" using i(1) l bsp by (auto simp: any_inv_def)
    obtain us vs where L: "L = us @ (b, s, p) # vs" using l bsp by (meson split_list)
    note fh = free_header [OF i(1) [unfolded L] refl] and bb = any_live_bounds [OF g(1,2) l [unfolded bsp]]
    have u: "unat (b + p) = unat b + unat p" using bb lo by (intro unat_add_nowrap) auto
    have n: "node_ok (b + p)" using u bb lo by (auto simp: node_ok_def unat_gt_0 [symmetric])
    have same: "m' x = m x" if x: "unat x \<in> region (b + p) 16" for x
    proof -
      have "unat x \<in> page_region h" using x u bb lo by auto
      moreover have "unat x \<notin> region (payload k) (capacity k)" if k: "k \<in> set L" for k
      proof (cases "k = l")
        case True
        then show ?thesis using x u fh(8) bsp by auto
      next
        case False
        show ?thesis using apart_disjoint [OF any_blocks_meet [OF i(1) k l False]] any_payload_region(1) [OF i(1) k]
            x u lo bsp by fastforce
      qed
      ultimately show ?thesis using w by blast
    qed
    then show ?thesis using lo bsp node_frame [OF n, of m' m] by (simp add: node_defs)
  qed
  have "any_inv h' m' fl L" using i(1) fl live same_core_fields [OF assms(2)]
    by (simp add: any_inv_def any_geometry_def any_tiles_def)
  then show ?thesis using i(2) by (auto simp: any_page_def)
qed

lemma frame_free_page:
  assumes "any_inv h m fl L" "frame_free fl' m m'" "same_place h h'"
    and "\<And>a s. (a, s) \<in> set fl' \<Longrightarrow> unat (m_logical_page_start_address h) \<le> unat a
      \<and> unat a + unat s \<le> unat (m_logical_page_start_address h) + unat (m_logical_page_size h)"
    and "\<And>a s q k. (a, s) \<in> set fl' \<Longrightarrow> A q = Some k \<Longrightarrow> region q k \<inter> {unat a..<unat a + unat s} = {}"
  shows "page_frame A (h, m) (h', m')"
  unfolding page_frame_def fst_conv snd_conv
proof (intro conjI allI impI)
  fix x assume "m' x \<noteq> m x"
  then have "\<exists>a s. (a, s) \<in> set fl' \<and> unat x \<in> region a (unat s)"
    using assms(2) unfolding frame_free_def by blast
  then obtain a s where x: "(a, s) \<in> set fl'" "unat x \<in> region a (unat s)" by blast
  show "unat x \<in> page_region h" using assms(4) [OF x(1)] x(2) by auto
  show "unat x \<notin> region q k" if "A q = Some k" for q k using assms(5) [OF x(1) that] x(2) by (auto simp: region_def)
qed (rule assms(3))

lemma any_live_free_disjoint:
  assumes "any_inv h m fl L" "(a, s) \<in> set fl" "any_live L q = Some k"
  shows "region q k \<inter> {unat a..<unat a + unat s} = {}"
proof -
  obtain l where l: "l \<in> set L" "q = payload l" "k = capacity l" using any_live_iff [OF assms(1)] assms(3) by blast
  have "any_tiles h fl L" using assms(1) by (simp add: any_inv_def)
  from apart_disjoint [OF any_blocks_apart(1) [OF this assms(2) l(1)]] any_payload_region(1) [OF assms(1) l(1)] l
  show ?thesis by auto
qed

lemma any_free_in_page:
  assumes "any_inv h m fl L" "(a, s) \<in> set fl"
  shows "unat (m_logical_page_start_address h) \<le> unat a
    \<and> unat a + unat s \<le> unat (m_logical_page_start_address h) + unat (m_logical_page_size h)"
  using any_free_bounds(4,5) [of h fl L a s] assms by (simp add: any_inv_def)

lemma any_asz: "any_fit sz s \<Longrightarrow> unat (if sz < NODE_SIZE then NODE_SIZE else sz) + 32 < 2 ^ 64"
  by (simp add: any_fit_def NODE_SIZE_def)

lemma any_alloc_new:
  assumes "any_page (h, m) A" "any_fit sz (h, m)" "LogicalPageAnySize_allocate sz (h, m) = Some (q, s')" "q \<noteq> 0"
  shows "A q = None \<and> (\<exists>k \<ge> unat sz. any_page s' (A(q \<mapsto> k))) \<and> page_frame A (h, m) s'"
proof -
  obtain fl L where i: "any_inv h m fl L" "A = any_live L" using assms(1) by (auto simp: any_page_def)
  have g: "any_geometry h" "any_tiles h fl L" using i(1) by (auto simp: any_inv_def)
  define asz where "asz = (if sz < NODE_SIZE then NODE_SIZE else sz)"
  have z: "unat asz + 32 < 2 ^ 64" "unat sz \<le> unat asz" using any_asz [OF assms(2)]
    by (auto simp: asz_def word_less_nat_alt)
  from i(1) asz_def z(1) show ?thesis
  proof (cases rule: any_allocate_cases)
    case none
    then show ?thesis using assms(3,4) by simp
  next
    case (found xs a s ys T h' m')
    let ?l = "(a, T, pad a)"
    have q: "q = payload ?l" "s' = (h', m')" using found(5) assms(3) by auto
    have d: "payload ?l \<notin> set (map payload L)" using any_payload_distinct [OF found(6)] by simp
    then have "A q = None" unfolding i(2) any_live_None q(1) .
    moreover have "any_page s' (A(q \<mapsto> capacity ?l))"
      unfolding any_page_def using found(6) q i(2)
      by (intro exI [of _ "xs @ carved_rest asz (a, s) @ ys"] exI [of _ "?l # L"])
        (simp add: any_live_def del: capacity.simps payload.simps)
    moreover have "unat sz \<le> capacity ?l"
      using carve_tiles(2) [OF g(1) g(2) [unfolded found(1)] found(3) z(1)] found(4) z(2) by simp
    moreover have "page_frame A (h, m) (h', m')"
    proof (rule frame_free_page [OF i(1) found(8)])
      obtain q w where "h' = h\<lparr>m_head := q, m_used_size := w\<rparr>" using found(7) by blast
      then show "same_place h h'" by (simp add: same_place_def)
    qed (use any_free_in_page [OF i(1)] any_live_free_disjoint [OF i(1)] i(2) in auto)
    ultimately show ?thesis using q(2) by blast
  qed
qed

lemma any_dealloc_live:
  assumes "any_page (h, m) A" "A q = Some k"
  shows "\<exists>s'. LogicalPageAnySize_deallocate cp q (h, m) = Some s' \<and> any_page s' (A(q := None))
    \<and> page_frame (A(q := None)) (h, m) s'"
proof -
  obtain fl L where i: "any_inv h m fl L" "A = any_live L" using assms(1) by (auto simp: any_page_def)
  obtain l where l: "l \<in> set L" "q = payload l" using any_live_iff [OF i(1)] assms(2) i(2) by blast
  obtain us vs b s p where L: "L = us @ (b, s, p) # vs" and bsp: "l = (b, s, p)"
    using split_list [OF l(1)] by (cases l) auto
  obtain h' m' where d: "LogicalPageAnySize_deallocate cp q (h, m) = Some (h', m')"
    "any_inv h' m' (free_spec cp q (b, s) fl) (us @ vs)"
    "same_page (h\<lparr>m_used_size := m_used_size h - s\<rparr>) h'" "frame_free ((b, s) # fl) m m'"
    by (rule any_deallocate_ok [OF i(1) [unfolded L], of q cp]) (use l bsp in auto)
  have dist: "distinct (map payload L)" by (rule any_payload_distinct [OF i(1)])
  have A': "any_live (us @ vs) = A(q := None)"
    using map_of_remove [of "map (\<lambda>l. (payload l, capacity l)) us" "(payload l, capacity l)"
        "map (\<lambda>l. (payload l, capacity l)) vs"] dist l(2) bsp unfolding i(2) L any_live_def
    by (simp add: comp_def del: capacity.simps payload.simps)
  then have "any_page (h', m') (A(q := None))" using d(2) unfolding any_page_def
    by (metis fst_conv snd_conv)
  moreover have "page_frame (A(q := None)) (h, m) (h', m')"
  proof (rule frame_free_page [OF i(1) d(4)])
    show "same_place h h'" using d(3) by (cases h; cases h') (simp add: same_page_def same_place_def)
    fix a r assume a: "(a, r) \<in> set ((b, s) # fl)"
    have bb: "unat (m_logical_page_start_address h) \<le> unat b"
      "unat b + unat s \<le> unat (m_logical_page_start_address h) + unat (m_logical_page_size h)"
      using any_live_bounds [of h fl L b s p] i(1) l(1) bsp by (auto simp: any_inv_def)
    then show "unat (m_logical_page_start_address h) \<le> unat a
      \<and> unat a + unat r \<le> unat (m_logical_page_start_address h) + unat (m_logical_page_size h)"
      using a any_free_in_page [OF i(1), of a r] by auto
    fix c j assume c: "(A(q := None)) c = Some j"
    then have "any_live L c = Some j" "c \<noteq> q" using i(2) by (auto split: if_splits)
    then obtain k where k: "k \<in> set L" "c = payload k" "j = capacity k" "k \<noteq> l"
      using any_live_iff [OF i(1)] l(2) by blast
    show "region c j \<inter> {unat a..<unat a + unat r} = {}"
    proof (cases "(a, r) = (b, s)")
      case True
      then show ?thesis using apart_disjoint [OF any_blocks_meet [OF i(1) k(1) l(1) k(4)]]
          any_payload_region(1) [OF i(1) k(1)] k bsp by auto
    next
      case False
      then show ?thesis using a c i any_live_free_disjoint [OF i(1), of a r c j] by (auto split: if_splits)
    qed
  qed
  ultimately show ?thesis using d(1) by blast
qed

interpretation anysize: logical_page_contract any_page "page_allocate (LOGICAL_PAGE_ANY_SIZE cp)"
  "page_deallocate (LOGICAL_PAGE_ANY_SIZE cp)" any_fit for cp
proof (unfold_locales, goal_cases)
  case (1 s A)
  then obtain fl L where i: "any_inv (fst s) (snd s) fl L" "A = any_live L" by (auto simp: any_page_def)
  show ?case
  proof (cases "A 0")
    case (Some k)
    then obtain l where "l \<in> set L" "0 = payload l" using any_live_iff [OF i(1)] i(2) by blast
    then show ?thesis using any_payload_region(3) [OF i(1), of l] by simp
  qed
next
  case (2 s A q k)
  then obtain fl L where i: "any_inv (fst s) (snd s) fl L" "A = any_live L" by (auto simp: any_page_def)
  then obtain l where "l \<in> set L" "q = payload l" "k = capacity l" using any_live_iff [OF i(1)] 2(2) by blast
  then show ?case using any_payload_region(4) [OF i(1)] by blast
next
  case (3 s A q k c j)
  then obtain fl L where i: "any_inv (fst s) (snd s) fl L" "A = any_live L" by (auto simp: any_page_def)
  obtain x where x: "x \<in> set L" "q = payload x" "k = capacity x" using any_live_iff [OF i(1)] i(2) 3(2) by blast
  obtain y where y: "y \<in> set L" "c = payload y" "j = capacity y" using any_live_iff [OF i(1)] i(2) 3(3) by blast
  have "x \<noteq> y" using x y 3(4) by auto
  from apart_disjoint [OF any_blocks_meet [OF i(1) x(1) y(1) this]] show ?case
    using any_payload_region(1) [OF i(1) x(1)] any_payload_region(1) [OF i(1) y(1)] x y by blast
next
  case (4 s A)
  then obtain fl L where i: "any_inv (fst s) (snd s) fl L" "A = any_live L" by (auto simp: any_page_def)
  have "m_used_size (fst s) = 0 \<longleftrightarrow> (\<forall>l\<in>set L. snd (nbl l) = 0)"
    using i(1) by (simp add: unat_eq_zero [symmetric] any_inv_def)
  moreover have "snd (nbl l) \<noteq> 0" if "l \<in> set L" for l
    using i(1) that by (cases l) (force simp: any_inv_def)
  ultimately have "m_used_size (fst s) = 0 \<longleftrightarrow> L = []" by (metis ex_in_conv set_empty)
  then show ?case using i(2) by (auto simp: any_live_def)
next
  case (5 h m A h' m')
  then show ?case by (rule any_stable)
next
  case (6 s A sz)
  then obtain fl L where i: "any_inv (fst s) (snd s) fl L" by (auto simp: any_page_def)
  from i refl any_asz [OF 6(2)] show ?case by (cases rule: any_allocate_cases) auto
next
  case (7 s A sz s')
  then obtain fl L where i: "any_inv (fst s) (snd s) fl L" by (auto simp: any_page_def)
  from i refl any_asz [OF 7(2)] show ?case
  proof (cases rule: any_allocate_cases)
    case (found xs a s ys T h' m')
    then show ?thesis using 7(3) any_payload_region(3) [OF found(6), of "(a, T, pad a)"] by simp
  qed (use 7 in auto)
next
  case (8 s A sz q s')
  then show ?case using any_alloc_new by (cases s) auto
next
  case (9 s A q k)
  then show ?case using any_dealloc_live by (cases s) auto
next
  case (10 s A q k)
  then obtain fl L where i: "any_inv (fst s) (snd s) fl L" "A = any_live L" by (auto simp: any_page_def)
  then obtain l where l: "l \<in> set L" "k = capacity l" using any_live_iff [OF i(1)] 10(2) by blast
  then have "live_ok (snd s) l" using i(1) by (auto simp: any_inv_def)
  then show ?case using l(2) by (cases l) auto
qed

subsection \<open>Either page class\<close>

text \<open>The payloads that are live in a page, the requests it may get (the heap asks a page of one size
  class for at most its chunk size; a page of any size for less than \<open>2 ^ 64 - 32\<close>, beyond which the
  sum of size, header and padding wraps around), and the contract for whichever class a segment uses.\<close>

fun page_inv :: "LogicalPageType \<Rightarrow> page_state \<Rightarrow> (u64 \<rightharpoonup> nat) \<Rightarrow> bool" where
  "page_inv LOGICAL_PAGE s A = lp_page s A"
| "page_inv (LOGICAL_PAGE_ANY_SIZE _) s A = any_page s A"

fun page_fit :: "LogicalPageType \<Rightarrow> u64 \<Rightarrow> page_state \<Rightarrow> bool" where
  "page_fit LOGICAL_PAGE sz s = lp_fit sz s"
| "page_fit (LOGICAL_PAGE_ANY_SIZE _) sz s = any_fit sz s"

lemma page_contract: "logical_page_contract (page_inv pt) (page_allocate pt) (page_deallocate pt) (page_fit pt)"
proof (cases pt)
  case LOGICAL_PAGE
  moreover have "page_inv LOGICAL_PAGE = lp_page" "page_fit LOGICAL_PAGE = lp_fit" by (simp_all add: fun_eq_iff)
  ultimately show ?thesis using lp.logical_page_contract_axioms by simp
next
  case (LOGICAL_PAGE_ANY_SIZE cp)
  moreover have "page_inv (LOGICAL_PAGE_ANY_SIZE cp) = any_page" "page_fit (LOGICAL_PAGE_ANY_SIZE cp) = any_fit"
    by (simp_all add: fun_eq_iff)
  ultimately show ?thesis using anysize.logical_page_contract_axioms by simp
qed

interpretation page: logical_page_contract "page_inv pt" "page_allocate pt" "page_deallocate pt" "page_fit pt" for pt
  by (rule page_contract)

lemma page_create_ok:
  assumes "page_create pt buffer n sz_class (h, m) = (True, (h', m'))" "unat buffer + unat n < 2 ^ 64"
  shows "page_inv pt (h', m') Map.empty" "m_used_size h' = 0" "m_size_class h' = sz_class"
    "m_logical_page_start_address h' = buffer" "m_logical_page_size h' = n"
    "\<And>x. unat x \<notin> region buffer (unat n) \<Longrightarrow> m' x = m x"
proof -
  have "page_inv pt (h', m') Map.empty \<and> m_used_size h' = 0 \<and> m_size_class h' = sz_class
    \<and> m_logical_page_start_address h' = buffer \<and> m_logical_page_size h' = n
    \<and> (\<forall>x. unat x \<notin> region buffer (unat n) \<longrightarrow> m' x = m x)"
  proof (cases pt)
    case LOGICAL_PAGE
    then have c: "LogicalPage_create buffer n sz_class (h, m) = (True, (h', m'))" using assms(1) by simp
    note l = lp_create_ok [OF c assms(2)]
    have "chunks h' - set (rev (map (chunk_addr h') [0..<chunk_total h'])) = {}" by (auto simp: chunks_def)
    then have "lp_page (h', m') Map.empty" using l(1) unfolding lp_page_def lp_live_def
      by (intro exI [of _ "rev (map (chunk_addr h') [0..<chunk_total h'])"]) (auto simp: fun_eq_iff)
    then show ?thesis using l LOGICAL_PAGE by simp
  next
    case (LOGICAL_PAGE_ANY_SIZE cp)
    then have c: "LogicalPageAnySize_create buffer n sz_class (h, m) = (True, (h', m'))" using assms(1) by simp
    note l = any_create_ok [OF c assms(2)]
    have "16 \<le> unat n" using c by (auto simp: NODE_SIZE_def word_le_nat_alt split: if_splits)
    then have "\<forall>x. unat x \<notin> region buffer (unat n) \<longrightarrow> m' x = m x" using l(6) by auto
    moreover have "any_page (h', m') Map.empty" using l(1) unfolding any_page_def
      by (intro exI [of _ "[(buffer, n)]"] exI [of _ "[]"]) (simp add: any_live_def)
    ultimately show ?thesis using l(2-5) LOGICAL_PAGE_ANY_SIZE by simp
  qed
  then show "page_inv pt (h', m') Map.empty" "m_used_size h' = 0" "m_size_class h' = sz_class"
    "m_logical_page_start_address h' = buffer" "m_logical_page_size h' = n"
    "\<And>x. unat x \<notin> region buffer (unat n) \<Longrightarrow> m' x = m x" by auto
qed

lemma page_run_served:
  assumes "page_create pt buffer n sz_class s0 = (True, s)" "unat buffer + unat n < 2 ^ 64"
    and "(client_step (page_allocate pt) (page_deallocate pt) (page_fit pt))\<^sup>*\<^sup>* (s, Map.empty) (s', held)"
  shows "page.served pt (s', held)" "page_region (fst s') = region buffer (unat n)"
    "m_size_class (fst s') = sz_class"
proof -
  obtain h m where s0: "s0 = (h, m)" by (cases s0)
  obtain h1 m1 where s: "s = (h1, m1)" by (cases s)
  note c = page_create_ok [OF assms(1) [unfolded s0 s] assms(2)]
  have st: "page.served pt (s, Map.empty)" using page.served_start c(1) s by simp
  then show "page.served pt (s', held)" using page.served_run assms(3) by blast
  from page.served_place [OF assms(3) st] have "same_place h1 (fst s')" using s by simp
  from same_place_fields [OF this] show "page_region (fst s') = region buffer (unat n)"
    "m_size_class (fst s') = sz_class" using c(3-5) by simp_all
qed

subsection \<open>Properties\<close>

text \<open>A concrete run for the witnesses: two chunks of 32 bytes, handed out one after the other.\<close>

primrec example_page :: "nat \<Rightarrow> page_state" where
  "example_page 0 = snd (page_create LOGICAL_PAGE 4160 64 32 (new_header, \<lambda>_. 0))"
| "example_page (Suc n) = snd (the (page_allocate LOGICAL_PAGE 32 (example_page n)))"

declare example_page.simps [simp del] page_create.simps [simp del] page_allocate.simps [simp del]
  page_deallocate.simps [simp del] page_fit.simps [simp del]

lemma example_page_run:
  "page_create LOGICAL_PAGE 4160 64 32 (new_header, \<lambda>_. 0) = (True, example_page 0)"
  "(client_step (page_allocate LOGICAL_PAGE) (page_deallocate LOGICAL_PAGE) (page_fit LOGICAL_PAGE))\<^sup>*\<^sup>*
     (example_page 0, Map.empty) (example_page 2, [4192 \<mapsto> 32, 4160 \<mapsto> 32])"
proof -
  have "fst (page_create LOGICAL_PAGE 4160 64 32 (new_header, \<lambda>_. 0))" by code_simp
  then show "page_create LOGICAL_PAGE 4160 64 32 (new_header, \<lambda>_. 0) = (True, example_page 0)"
    by (simp add: prod_eq_iff example_page.simps(1))
  let ?s = example_page and ?al = "page_allocate LOGICAL_PAGE" and ?fit = "page_fit LOGICAL_PAGE"
  let ?R = "client_step ?al (page_deallocate LOGICAL_PAGE) ?fit"
  have st: "?al 32 (?s n) = Some (fst (the (?al 32 (?s n))), ?s (Suc n))" for n
    by (simp add: example_page.simps(2) page_allocate.simps(1) del: LogicalPage_allocate.simps)
  have p: "fst (the (?al 32 (?s 0))) = 4192" "fst (the (?al 32 (?s 1))) = 4160" by code_simp+
  have f: "?fit 32 (?s 0)" "?fit 32 (?s 1)" by code_simp+
  have "?al 32 (?s 0) = Some (4192, ?s 1)" "?al 32 (?s 1) = Some (4160, ?s 2)"
    using p st [of 0] st [of 1] by (simp_all add: numeral_2_eq_2)
  then have "?R (?s 0, Map.empty) (?s 1, [4192 \<mapsto> unat (32 :: u64)])"
    "?R (?s 1, [4192 \<mapsto> unat (32 :: u64)]) (?s 2, [4192 \<mapsto> unat (32 :: u64), 4160 \<mapsto> unat (32 :: u64)])"
    using client_step.grant [of ?fit 32 "?s 0" ?al 4192 "?s 1" "page_deallocate LOGICAL_PAGE" Map.empty]
      client_step.grant [of ?fit 32 "?s 1" ?al 4160 "?s 2" "page_deallocate LOGICAL_PAGE" "[4192 \<mapsto> 32]"] f
    by simp_all
  then show "?R\<^sup>*\<^sup>* (?s 0, Map.empty) (?s 2, [4192 \<mapsto> 32, 4160 \<mapsto> 32])" by simp
qed

text \<open>C8: Whatever sequence of allocations, frees of held pointers and writes into held payloads a
  client performs on a freshly created page of either class, the payloads it holds are non-null, lie
  inside the buffer of the page and are pairwise disjoint, and the page counts no used byte exactly when
  the client holds nothing.\<close>

theorem page_client_safe:
  assumes "page_create pt buffer n sz_class s0 = (True, s)" "unat buffer + unat n < 2 ^ 64"
    and "(client_step (page_allocate pt) (page_deallocate pt) (page_fit pt))\<^sup>*\<^sup>* (s, Map.empty) (s', held)"
  shows "(\<forall>p k. held p = Some k \<longrightarrow> p \<noteq> 0 \<and> region p k \<subseteq> region buffer (unat n)
      \<and> (\<forall>q j. held q = Some j \<longrightarrow> p \<noteq> q \<longrightarrow> region p k \<inter> region q j = {}))
    \<and> (m_used_size (fst s') = 0 \<longleftrightarrow> held = Map.empty)"
  using page.served_held [OF page_run_served(1) [OF assms]] page.served_used [OF page_run_served(1) [OF assms]]
    page_run_served(2) [OF assms] by blast

theorem page_client_safe_witness:
  "region 4192 32 \<inter> region 4160 32 = {} \<and> m_used_size (fst (example_page 2)) \<noteq> 0"
  using page_client_safe [OF example_page_run(1) _ example_page_run(2)] by (auto dest: spec [of _ 4192])



end
