(* ===== verification/Deallocation_Queue.thy ===== *)
theory Deallocation_Queue
  imports Arena
begin

text \<open>
  \<open>include/deallocation_queue.h\<close>: the pointers that other threads free are collected in a doubly linked
  list of 64 KB pages of 8190 pointers each, and taken out again last in, first out.

  The pages are a typed store from addresses to \<open>PointerPage\<close> values.  \<open>None\<close> is an operation that does
  not return: it spins on the lock, or dereferences a null pointer (\<open>push\<close> does not check the page that
  it obtains).
\<close>

definition POINTER_CAPACITY :: u64 where
  "POINTER_CAPACITY = 8190"

definition sizeof_PointerPage :: u64 where
  "sizeof_PointerPage = 65536"

record PointerPage =
  pp_next :: u64
  pp_prev :: u64
  pp_pointers :: "u64 \<Rightarrow> u64"

record queue_machine = machine +
  pointer_pages :: "u64 \<Rightarrow> PointerPage"

record DeallocationQueue =
  dq_head :: u64
  dq_active_page :: u64
  dq_active_page_used_count :: u64
  dq_lock :: u32

subsection \<open>Operations\<close>

definition DeallocationQueue_new :: DeallocationQueue where
  "DeallocationQueue_new = \<lparr>dq_head = 0, dq_active_page = 0, dq_active_page_used_count = 0, dq_lock = spin_initialise 0\<rparr>"

definition set_pp_next :: "u64 \<Rightarrow> u64 \<Rightarrow> 'w queue_machine_scheme \<Rightarrow> 'w queue_machine_scheme" where
  "set_pp_next page v w = w\<lparr>pointer_pages := (pointer_pages w)(page := (pointer_pages w page)\<lparr>pp_next := v\<rparr>)\<rparr>"

definition set_pp_prev :: "u64 \<Rightarrow> u64 \<Rightarrow> 'w queue_machine_scheme \<Rightarrow> 'w queue_machine_scheme" where
  "set_pp_prev page v w = w\<lparr>pointer_pages := (pointer_pages w)(page := (pointer_pages w page)\<lparr>pp_prev := v\<rparr>)\<rparr>"

definition set_pp_pointer :: "u64 \<Rightarrow> u64 \<Rightarrow> u64 \<Rightarrow> 'w queue_machine_scheme \<Rightarrow> 'w queue_machine_scheme" where
  "set_pp_pointer page i v w = w\<lparr>pointer_pages := (pointer_pages w)(page :=
     (pointer_pages w page)\<lparr>pp_pointers := (pp_pointers (pointer_pages w page))(i := v)\<rparr>)\<rparr>"

text \<open>\<open>&(buffer[i])\<close>, and the \<open>memset\<close> of \<open>create\<close> over \<open>n\<close> pages.\<close>

definition pp_at :: "u64 \<Rightarrow> nat \<Rightarrow> u64" where
  "pp_at buffer i = buffer + of_nat i * sizeof_PointerPage"

fun clear_pointer_pages :: "u64 \<Rightarrow> nat \<Rightarrow> 'w queue_machine_scheme \<Rightarrow> 'w queue_machine_scheme" where
  "clear_pointer_pages buffer 0 w = w"
| "clear_pointer_pages buffer (Suc i) w =
     clear_pointer_pages buffer i
       (w\<lparr>pointer_pages := (pointer_pages w)(pp_at buffer i := \<lparr>pp_next = 0, pp_prev = 0, pp_pointers = \<lambda>_. 0\<rparr>)\<rparr>)"

text \<open>The loop of \<open>create\<close>, from index \<open>i\<close>; \<open>iter\<close> is never advanced.\<close>

function link_pointer_pages ::
  "u64 \<Rightarrow> nat \<Rightarrow> u64 \<Rightarrow> nat \<Rightarrow> 'w queue_machine_scheme \<Rightarrow> 'w queue_machine_scheme" where
  "link_pointer_pages buffer n iter i w =
     (if i < n
      then link_pointer_pages buffer n iter (Suc i)
             (if i + 1 < n
              then let nxt = pp_at buffer (i + 1) in set_pp_prev nxt iter (set_pp_next iter nxt w)
              else set_pp_next iter 0 w)
      else w)"
  by pat_completeness auto
termination
  by (relation "measure (\<lambda>(buffer, n, iter, i, w). n - i)") auto

declare link_pointer_pages.simps [simp del]

definition DeallocationQueue_create ::
  "os \<Rightarrow> u64 \<Rightarrow> u64 \<Rightarrow> DeallocationQueue \<times> 'w queue_machine_scheme \<Rightarrow> bool \<times> DeallocationQueue \<times> 'w queue_machine_scheme" where
  "DeallocationQueue_create os initial_pointer_page_count external_buffer = (\<lambda>(q, w).
     if initial_pointer_page_count = 0 then (False, q, w)
     else let (buffer, w) = (if external_buffer = 0
                then MetadataAllocator_allocate os (initial_pointer_page_count * sizeof_PointerPage) w
                else (external_buffer, w))
          in if buffer = 0 then (False, q, w)
             else let n = unat initial_pointer_page_count;
                      w = clear_pointer_pages buffer n w;
                      q = q\<lparr>dq_head := buffer\<rparr>;
                      w = set_pp_prev buffer 0 (set_pp_next buffer 0 w);
                      w = link_pointer_pages buffer n (dq_head q) 0 w;
                      q = q\<lparr>dq_active_page := dq_head q\<rparr>
                  in (True, q, w))"

text \<open>The step of \<open>push\<close> to the next page when the active one is full.\<close>

definition next_pointer_page ::
  "os \<Rightarrow> DeallocationQueue \<times> 'w queue_machine_scheme \<Rightarrow> (DeallocationQueue \<times> 'w queue_machine_scheme) option" where
  "next_pointer_page os = (\<lambda>(q, w). do {
     (q, w) \<leftarrow>
       (if pp_next (pointer_pages w (dq_active_page q)) = 0
        then let (new_page, w) = MetadataAllocator_allocate os sizeof_PointerPage w
             in if new_page = 0 then None
                else let w = set_pp_next new_page 0 w;
                         w = set_pp_next (dq_active_page q) new_page w;
                         w = set_pp_prev new_page (dq_active_page q) w
                     in Some (q\<lparr>dq_active_page := new_page\<rparr>, w)
        else Some (q\<lparr>dq_active_page := pp_next (pointer_pages w (dq_active_page q))\<rparr>, w));
     Some (q\<lparr>dq_active_page_used_count := 0\<rparr>, w) })"

definition DeallocationQueue_push ::
  "os \<Rightarrow> u64 \<Rightarrow> DeallocationQueue \<times> 'w queue_machine_scheme \<Rightarrow> (DeallocationQueue \<times> 'w queue_machine_scheme) option" where
  "DeallocationQueue_push os pointer = (\<lambda>(q, w). do {
     l \<leftarrow> enter_concurrent_context USERSPACE_LOCK (dq_lock q);
     let q = q\<lparr>dq_lock := l\<rparr>;
     if dq_active_page q = 0 then None else do {
       (q, w) \<leftarrow> (if dq_active_page_used_count q = POINTER_CAPACITY then next_pointer_page os (q, w) else Some (q, w));
       let w = set_pp_pointer (dq_active_page q) (dq_active_page_used_count q) pointer w;
       let q = q\<lparr>dq_active_page_used_count := dq_active_page_used_count q + 1\<rparr>;
       Some (q\<lparr>dq_lock := leave_concurrent_context USERSPACE_LOCK (dq_lock q)\<rparr>, w) } })"

definition DeallocationQueue_pop ::
  "DeallocationQueue \<times> 'w queue_machine_scheme \<Rightarrow> (u64 \<times> DeallocationQueue \<times> 'w queue_machine_scheme) option" where
  "DeallocationQueue_pop = (\<lambda>(q, w). do {
     l \<leftarrow> enter_concurrent_context USERSPACE_LOCK (dq_lock q);
     let q = q\<lparr>dq_lock := l\<rparr>;
     if dq_active_page_used_count q = 0 \<and> dq_head q = dq_active_page q
     then Some (0, q\<lparr>dq_lock := leave_concurrent_context USERSPACE_LOCK (dq_lock q)\<rparr>, w)
     else let q = (if dq_active_page_used_count q = 0
                   then q\<lparr>dq_active_page := pp_prev (pointer_pages w (dq_active_page q)),
                          dq_active_page_used_count := POINTER_CAPACITY\<rparr>
                   else q);
              ret = pp_pointers (pointer_pages w (dq_active_page q)) (dq_active_page_used_count q - 1);
              q = q\<lparr>dq_active_page_used_count := dq_active_page_used_count q - 1\<rparr>
          in Some (ret, q\<lparr>dq_lock := leave_concurrent_context USERSPACE_LOCK (dq_lock q)\<rparr>, w) })"

partial_function (option) free_pointer_pages :: "os \<Rightarrow> u64 \<Rightarrow> 'w queue_machine_scheme \<Rightarrow> 'w queue_machine_scheme option" where
  "free_pointer_pages os iter w =
     (if iter \<noteq> 0
      then let nxt = pp_next (pointer_pages w iter)
           in free_pointer_pages os nxt (MetadataAllocator_deallocate os iter sizeof_PointerPage w)
      else Some w)"

definition DeallocationQueue_destroy ::
  "os \<Rightarrow> DeallocationQueue \<times> 'w queue_machine_scheme \<Rightarrow> (DeallocationQueue \<times> 'w queue_machine_scheme) option" where
  "DeallocationQueue_destroy os = (\<lambda>(q, w). do {
     l \<leftarrow> enter_concurrent_context USERSPACE_LOCK (dq_lock q);
     w \<leftarrow> free_pointer_pages os (dq_head q) w;
     Some (q\<lparr>dq_lock := leave_concurrent_context USERSPACE_LOCK l\<rparr>, w) })"

declare free_pointer_pages.simps [code]

subsection \<open>The contract of the queue\<close>

text \<open>A stack of pointers: \<open>push\<close> may fail only by not returning, \<open>pop\<close> always returns.\<close>

primrec push_all :: "(u64 \<Rightarrow> 's \<Rightarrow> 's option) \<Rightarrow> u64 list \<Rightarrow> 's \<Rightarrow> 's option" where
  "push_all push [] s = Some s"
| "push_all push (p # ps) s = do { s \<leftarrow> push p s; push_all push ps s }"

primrec pop_n :: "('s \<Rightarrow> (u64 \<times> 's) option) \<Rightarrow> nat \<Rightarrow> 's \<Rightarrow> (u64 list \<times> 's) option" where
  "pop_n pop 0 s = Some ([], s)"
| "pop_n pop (Suc n) s = do { (p, s) \<leftarrow> pop s; (ps, s) \<leftarrow> pop_n pop n s; Some (p # ps, s) }"

locale pointer_stack =
  fixes inv :: "'s \<Rightarrow> u64 list \<Rightarrow> bool"
    and push :: "u64 \<Rightarrow> 's \<Rightarrow> 's option"
    and pop :: "'s \<Rightarrow> (u64 \<times> 's) option"
  assumes push_ok: "inv s xs \<Longrightarrow> push p s = Some s' \<Longrightarrow> inv s' (p # xs)"
    and pop_empty: "inv s [] \<Longrightarrow> pop s = Some (0, s)"
    and pop_top: "inv s (p # xs) \<Longrightarrow> \<exists>s'. pop s = Some (p, s') \<and> inv s' xs"
begin

lemma push_all_ok: "inv s xs \<Longrightarrow> push_all push ps s = Some s' \<Longrightarrow> inv s' (rev ps @ xs)"
proof (induction ps arbitrary: s xs)
  case (Cons p ps)
  then obtain t where "push p s = Some t" "push_all push ps t = Some s'" by (auto split: bind_splits)
  then show ?case using Cons.IH [of t "p # xs"] push_ok [OF Cons.prems(1)] by simp
qed simp

lemma pop_n_ok: "inv s (ps @ xs) \<Longrightarrow> \<exists>s'. pop_n pop (length ps) s = Some (ps, s') \<and> inv s' xs"
proof (induction ps arbitrary: s)
  case (Cons p ps)
  then obtain t where "pop s = Some (p, t)" "inv t (ps @ xs)" using pop_top by fastforce
  then show ?case using Cons.IH [of t] by fastforce
qed auto

text \<open>What is pushed comes back in reverse order, after which the stack is as it was.\<close>

lemma push_pop:
  assumes "inv s xs" "push_all push ps s = Some s'"
  shows "\<exists>s''. pop_n pop (length ps) s' = Some (rev ps, s'') \<and> inv s'' xs"
  using pop_n_ok [OF push_all_ok [OF assms]] by simp

end

subsection \<open>The queue meets its contract\<close>

abbreviation pp_nxt :: "'w queue_machine_scheme \<Rightarrow> u64 \<Rightarrow> u64" where
  "pp_nxt w p \<equiv> pp_next (pointer_pages w p)"

text \<open>The pointers of a page, in the order in which they were pushed, and the back links.\<close>

definition pp_contents :: "'w queue_machine_scheme \<Rightarrow> nat \<Rightarrow> u64 \<Rightarrow> u64 list" where
  "pp_contents w n p = map (\<lambda>i. pp_pointers (pointer_pages w p) (of_nat i)) [0..<n]"

fun back_linked :: "'w queue_machine_scheme \<Rightarrow> u64 list \<Rightarrow> bool" where
  "back_linked w (p # r # ps) \<longleftrightarrow> pp_prev (pointer_pages w r) = p \<and> back_linked w (r # ps)"
| "back_linked w _ \<longleftrightarrow> True"

definition dq_shape :: "DeallocationQueue \<Rightarrow> 'w queue_machine_scheme \<Rightarrow> u64 list \<Rightarrow> u64 list \<Rightarrow> bool" where
  "dq_shape q w us vs \<longleftrightarrow> chain (pp_nxt w) (dq_head q) (us @ dq_active_page q # vs)
     \<and> back_linked w (us @ dq_active_page q # vs)
     \<and> (\<forall>p\<in>set (us @ dq_active_page q # vs). is_mapped (vm w) (unat p))
     \<and> unat (dq_active_page_used_count q) \<le> 8190"

definition dq_contents :: "DeallocationQueue \<Rightarrow> 'w queue_machine_scheme \<Rightarrow> u64 list \<Rightarrow> u64 list" where
  "dq_contents q w us = concat (map (pp_contents w 8190) us)
     @ pp_contents w (unat (dq_active_page_used_count q)) (dq_active_page q)"

definition dq_inv :: "os \<Rightarrow> DeallocationQueue \<times> 'w queue_machine_scheme \<Rightarrow> u64 list \<Rightarrow> bool" where
  "dq_inv os = (\<lambda>(q, w) xs. os_ok os \<and> dq_lock q = 0 \<and> (\<exists>us vs. dq_shape q w us vs \<and> rev xs = dq_contents q w us))"

lemma back_linked_append:
  "back_linked w (us @ p # vs) \<longleftrightarrow> back_linked w (us @ [p]) \<and> back_linked w (p # vs)"
proof (induction us)
  case (Cons u us)
  then show ?case by (cases us) auto
qed (cases vs; simp)

lemma back_linked_last: "back_linked w (us @ [p]) \<Longrightarrow> us \<noteq> [] \<Longrightarrow> pp_prev (pointer_pages w p) = last us"
proof (induction us)
  case (Cons u us)
  then show ?case by (cases us) auto
qed simp

lemma back_linked_cong:
  "(\<And>p. p \<in> set ps \<Longrightarrow> pp_prev (pointer_pages w' p) = pp_prev (pointer_pages w p)) \<Longrightarrow> back_linked w' ps = back_linked w ps"
  by (induction w ps rule: back_linked.induct) auto

lemma pp_contents_Suc:
  "pp_contents w (Suc n) p = pp_contents w n p @ [pp_pointers (pointer_pages w p) (of_nat n)]"
  by (simp add: pp_contents_def)

lemma pp_contents_cong:
  "pp_pointers (pointer_pages w' p) = pp_pointers (pointer_pages w p) \<Longrightarrow> pp_contents w' n p = pp_contents w n p"
  by (simp add: pp_contents_def)

lemma pp_contents_all:
  "(\<And>p. p \<in> set us \<Longrightarrow> pointer_pages w' p = pointer_pages w p) \<Longrightarrow> concat (map (pp_contents w' n) us) = concat (map (pp_contents w n) us)"
  by (intro arg_cong [of _ _ concat] map_cong refl pp_contents_cong) simp

lemma dq_distinct: "dq_shape q w us vs \<Longrightarrow> distinct (us @ dq_active_page q # vs)"
  unfolding dq_shape_def by (blast dest: chain_distinct)

text \<open>Storing a pointer in the active page.\<close>

lemma dq_store:
  assumes s: "dq_shape q w us vs" and l: "unat (dq_active_page_used_count q) < 8190"
    and w': "w' = set_pp_pointer (dq_active_page q) (dq_active_page_used_count q) p w"
    and q': "q' = q\<lparr>dq_active_page_used_count := dq_active_page_used_count q + 1, dq_lock := 0\<rparr>"
  shows "dq_shape q' w' us vs" "dq_contents q' w' us = dq_contents q w us @ [p]"
proof -
  let ?a = "dq_active_page q" and ?n = "dq_active_page_used_count q"
  have same: "pp_next (pointer_pages w' r) = pp_next (pointer_pages w r)" "pp_prev (pointer_pages w' r) = pp_prev (pointer_pages w r)"
    "r \<noteq> ?a \<Longrightarrow> pointer_pages w' r = pointer_pages w r" "vm w' = vm w" for r
    by (simp_all add: w' set_pp_pointer_def)
  have n: "unat (?n + 1) = unat ?n + 1" using l by (subst unat_add_nowrap) simp_all
  have "back_linked w' (us @ ?a # vs) = back_linked w (us @ ?a # vs)" by (rule back_linked_cong) (rule same)
  moreover have "pp_nxt w' = pp_nxt w" using same(1) by auto
  ultimately show "dq_shape q' w' us vs" using s n l same(4) by (simp add: dq_shape_def q')
  have "?a \<notin> set us" using dq_distinct [OF s] by simp
  then have full: "concat (map (pp_contents w' 8190) us) = concat (map (pp_contents w 8190) us)"
    by (intro pp_contents_all) (metis same(3))
  have "pp_contents w' (unat ?n) ?a = pp_contents w (unat ?n) ?a"
    unfolding pp_contents_def
  proof (intro map_cong refl)
    fix i assume "i \<in> set [0..<unat ?n]"
    then have "of_nat i \<noteq> ?n" using unat_of_nat_nowrap [of i] unat_lt_2_64 [of ?n] by auto
    then show "pp_pointers (pointer_pages w' ?a) (of_nat i) = pp_pointers (pointer_pages w ?a) (of_nat i)"
      by (simp add: w' set_pp_pointer_def)
  qed
  moreover have "pp_pointers (pointer_pages w' ?a) (of_nat (unat ?n)) = p" by (simp add: w' set_pp_pointer_def)
  ultimately show "dq_contents q' w' us = dq_contents q w us @ [p]"
    using full n by (simp add: dq_contents_def q' pp_contents_Suc)
qed

text \<open>Moving on to the next page.\<close>

lemma dq_advance_existing:
  assumes s: "dq_shape q w us (v # vs)" and n: "dq_active_page_used_count q = POINTER_CAPACITY"
    and q': "q' = q\<lparr>dq_active_page := v, dq_active_page_used_count := 0\<rparr>"
  shows "dq_shape q' w (us @ [dq_active_page q]) vs" "dq_contents q' w (us @ [dq_active_page q]) = dq_contents q w us"
  using assms by (simp_all add: dq_shape_def dq_contents_def pp_contents_def POINTER_CAPACITY_def)

lemma dq_advance_new:
  assumes os: "os_ok os" and s: "dq_shape q w us []" and n: "dq_active_page_used_count q = POINTER_CAPACITY"
    and a: "MetadataAllocator_allocate os sizeof_PointerPage w = (v, w1)" "v \<noteq> 0"
    and w': "w' = set_pp_prev v (dq_active_page q) (set_pp_next (dq_active_page q) v (set_pp_next v 0 w1))"
    and q': "q' = q\<lparr>dq_active_page := v, dq_active_page_used_count := 0\<rparr>"
  shows "dq_shape q' w' (us @ [dq_active_page q]) []" "dq_contents q' w' (us @ [dq_active_page q]) = dq_contents q w us"
proof -
  let ?a = "dq_active_page q" and ?ps = "us @ [dq_active_page q]"
  have f: "fresh_block w w1 v (page_span sizeof_PointerPage)"
    using vm_allocate_fresh [OF os a(1) [unfolded MetadataAllocator_allocate_def]] a(2) by simp
  have sp: "page_span sizeof_PointerPage = 65536" by (simp add: page_span_def sizeof_PointerPage_def)
  have k: "keeps {} w w1" "\<not> is_mapped (vm w) (unat v)" "is_mapped (vm w1) (unat v)" using f sp by (auto simp: fresh_block_def)
  obtain cs m where w1: "w1 = w\<lparr>vm := cs, ram := m\<rparr>" using k(1) by (auto simp: keeps_def)
  have mp: "\<forall>p\<in>set ?ps. is_mapped (vm w) (unat p)" using s by (simp add: dq_shape_def)
  then have v: "v \<notin> set ?ps" using k(2) by auto
  have dist: "distinct ?ps" using dq_distinct [OF s] by simp
  have pg: "pointer_pages w' v = (pointer_pages w v)\<lparr>pp_next := 0, pp_prev := ?a\<rparr>"
    "pointer_pages w' ?a = (pointer_pages w ?a)\<lparr>pp_next := v\<rparr>"
    "\<And>r. r \<in> set us \<Longrightarrow> pointer_pages w' r = pointer_pages w r" "vm w' = vm w1"
    using v dist by (auto simp: w' w1 set_pp_prev_def set_pp_next_def)
  have "path (pp_nxt w) (dq_head q) us ?a" using s by (auto simp: dq_shape_def paths)
  then have "path (pp_nxt w') (dq_head q) us ?a" using pg(3) by (auto elim: path_congI)
  moreover have "?a \<noteq> 0" using s by (auto simp: dq_shape_def paths)
  ultimately have "chain (pp_nxt w') (dq_head q) (?ps @ [v])" using pg(1,2) a(2) by (auto simp: paths)
  moreover have "back_linked w' (?ps @ [v])"
  proof -
    have "back_linked w' ?ps = back_linked w ?ps" by (rule back_linked_cong) (use pg(2,3) in auto)
    then show ?thesis using s pg(1) back_linked_append [of w' us ?a "[v]"] by (simp add: dq_shape_def)
  qed
  moreover have "\<forall>p\<in>set (?ps @ [v]). is_mapped (vm w') (unat p)" using mp k(1,3) pg(4) by (auto simp: keeps_def)
  ultimately show "dq_shape q' w' ?ps []" by (simp add: dq_shape_def q')
  have "concat (map (pp_contents w' 8190) us) = concat (map (pp_contents w 8190) us)" using pg(3) by (rule pp_contents_all)
  moreover have "pp_contents w' 8190 ?a = pp_contents w 8190 ?a" using pg(2) by (intro pp_contents_cong) simp
  moreover have "pp_contents w' 0 v = []" by (simp add: pp_contents_def)
  ultimately show "dq_contents q' w' ?ps = dq_contents q w us"
    using n by (simp add: dq_contents_def q' POINTER_CAPACITY_def)
qed

lemma next_pointer_page_ok:
  assumes os: "os_ok os" and s: "dq_shape q w us vs" and n: "dq_active_page_used_count q = POINTER_CAPACITY"
    and r: "next_pointer_page os (q, w) = Some (q', w')"
  shows "\<exists>us' vs'. dq_shape q' w' us' vs' \<and> dq_contents q' w' us' = dq_contents q w us
    \<and> dq_active_page_used_count q' = 0 \<and> dq_lock q' = dq_lock q"
proof (cases vs)
  case Nil
  then have nx: "pp_next (pointer_pages w (dq_active_page q)) = 0" using s by (auto simp: dq_shape_def paths)
  obtain v w1 where a: "MetadataAllocator_allocate os sizeof_PointerPage w = (v, w1)" by fastforce
  then have v: "v \<noteq> 0" "q' = q\<lparr>dq_active_page := v, dq_active_page_used_count := 0\<rparr>"
    "w' = set_pp_prev v (dq_active_page q) (set_pp_next (dq_active_page q) v (set_pp_next v 0 w1))"
    using r nx by (auto simp: next_pointer_page_def Let_def split: if_splits)
  show ?thesis using dq_advance_new [OF os s [unfolded Nil] n a v(1,3,2)] v(2) by auto
next
  case (Cons v vs')
  then have nx: "pp_next (pointer_pages w (dq_active_page q)) = v" "v \<noteq> 0" using s by (auto simp: dq_shape_def paths)
  then have q': "q' = q\<lparr>dq_active_page := v, dq_active_page_used_count := 0\<rparr>" "w' = w"
    using r by (auto simp: next_pointer_page_def)
  show ?thesis using dq_advance_existing [OF s [unfolded Cons] n q'(1)] q' by auto
qed

lemma dq_push_ok:
  assumes "dq_inv os (q, w) xs" "DeallocationQueue_push os p (q, w) = Some (q', w')"
  shows "dq_inv os (q', w') (p # xs)"
proof -
  obtain us vs where s: "os_ok os" "dq_lock q = 0" "dq_shape q w us vs" "rev xs = dq_contents q w us"
    using assms(1) by (auto simp: dq_inv_def)
  let ?q = "q\<lparr>dq_lock := 1\<rparr>"
  have s1: "dq_shape ?q w us vs" "dq_contents ?q w us = rev xs" using s by (simp_all add: dq_shape_def dq_contents_def)
  obtain q1 w1 where m: "(if dq_active_page_used_count ?q = POINTER_CAPACITY then next_pointer_page os (?q, w) else Some (?q, w))
      = Some (q1, w1)"
    and fin: "w' = set_pp_pointer (dq_active_page q1) (dq_active_page_used_count q1) p w1"
      "q' = q1\<lparr>dq_active_page_used_count := dq_active_page_used_count q1 + 1, dq_lock := 0\<rparr>"
    using assms(2) s(2)
    by (auto simp: DeallocationQueue_push_def Let_def split: if_splits bind_splits)
  have "\<exists>us' vs'. dq_shape q1 w1 us' vs' \<and> dq_contents q1 w1 us' = rev xs \<and> unat (dq_active_page_used_count q1) < 8190"
  proof (cases "dq_active_page_used_count ?q = POINTER_CAPACITY")
    case True
    then show ?thesis using next_pointer_page_ok [OF s(1) s1(1) True] m s1(2) by fastforce
  next
    case False
    then have "unat (dq_active_page_used_count q) \<noteq> 8190" by (auto simp: POINTER_CAPACITY_def unat_eq_iff_u64)
    moreover have "unat (dq_active_page_used_count q) \<le> 8190" using s(3) by (simp add: dq_shape_def)
    moreover have "q1 = ?q" "w1 = w" using m False by auto
    ultimately show ?thesis using s1 by (intro exI [of _ us] exI [of _ vs]) auto
  qed
  then obtain us' vs' where t: "dq_shape q1 w1 us' vs'" "dq_contents q1 w1 us' = rev xs"
    "unat (dq_active_page_used_count q1) < 8190" by blast
  show ?thesis using dq_store [OF t(1,3) fin] t(2) s(1) fin(2) by (auto simp: dq_inv_def)
qed

lemma dq_pop_empty:
  assumes "dq_inv os (q, w) []"
  shows "DeallocationQueue_pop (q, w) = Some (0, q, w)"
proof -
  obtain us vs where s: "dq_lock q = 0" "dq_shape q w us vs" "dq_contents q w us = []"
    using assms by (auto simp: dq_inv_def)
  have "us = []" "unat (dq_active_page_used_count q) = 0"
    using s(3) by (cases us; auto simp: dq_contents_def pp_contents_def)+
  then have "dq_active_page_used_count q = 0" "dq_head q = dq_active_page q"
    using s(2) by (auto simp: dq_shape_def unat_eq_zero)
  then show ?thesis using s(1) by (simp add: DeallocationQueue_pop_def)
qed

lemma dq_pop_top:
  assumes "dq_inv os (q, w) (p # xs)"
  shows "\<exists>q' w'. DeallocationQueue_pop (q, w) = Some (p, q', w') \<and> dq_inv os (q', w') xs"
proof -
  obtain us vs where s: "os_ok os" "dq_lock q = 0" "dq_shape q w us vs" "dq_contents q w us = rev xs @ [p]"
    using assms by (auto simp: dq_inv_def)
  have top: "\<exists>q' w'. Some (pp_pointers (pointer_pages w (dq_active_page r)) (dq_active_page_used_count r - 1),
      r\<lparr>dq_active_page_used_count := dq_active_page_used_count r - 1, dq_lock := 0\<rparr>, w) = Some (p, q', w')
      \<and> dq_inv os (q', w') xs"
    if r: "dq_shape r w us vs" "dq_contents r w us = rev xs @ [p]" "dq_active_page_used_count r \<noteq> 0" for r us vs
  proof -
    let ?n = "dq_active_page_used_count r"
    let ?r = "r\<lparr>dq_active_page_used_count := ?n - 1, dq_lock := 0\<rparr>"
    obtain k where k: "unat ?n = Suc k" using r(3) by (cases "unat ?n") (auto simp: unat_eq_zero)
    then have n1: "unat (?n - 1) = k" by (simp add: unat_sub_nowrap)
    have "?n - 1 = of_nat (unat (?n - 1))" by simp
    then have n2: "?n - 1 = of_nat k" unfolding n1 .
    have "dq_contents r w us = dq_contents ?r w us @ [pp_pointers (pointer_pages w (dq_active_page r)) (?n - 1)]"
      using k n1 n2 by (simp add: dq_contents_def pp_contents_Suc)
    then have "dq_contents ?r w us = rev xs" "pp_pointers (pointer_pages w (dq_active_page r)) (?n - 1) = p" using r(2) by simp_all
    moreover have "dq_shape ?r w us vs" using r(1) k n1 by (simp add: dq_shape_def)
    ultimately show ?thesis using s(1) by (auto simp: dq_inv_def)
  qed
  show ?thesis
  proof (cases "dq_active_page_used_count q = 0")
    case False
    then show ?thesis using top [OF s(3,4)] s(2) by (simp add: DeallocationQueue_pop_def Let_def)
  next
    case True
    then have "us \<noteq> []" using s(4) by (auto simp: dq_contents_def pp_contents_def)
    then obtain us' v where us: "us = us' @ [v]" by (metis rev_exhaust)
    let ?r = "q\<lparr>dq_active_page := v, dq_active_page_used_count := POINTER_CAPACITY\<rparr>"
    have pv: "pp_prev (pointer_pages w (dq_active_page q)) = v"
      using s(3) back_linked_last [of w us "dq_active_page q"] us back_linked_append [of w us "dq_active_page q" vs]
      by (simp add: dq_shape_def)
    have hd: "dq_head q \<noteq> dq_active_page q"
      using s(3) dq_distinct [OF s(3)] us by (cases us') (auto simp: dq_shape_def)
    have sh: "dq_shape ?r w us' (dq_active_page q # vs)" using s(3) us by (simp add: dq_shape_def POINTER_CAPACITY_def)
    have ct: "dq_contents ?r w us' = rev xs @ [p]"
      using s(4) us True by (simp add: dq_contents_def pp_contents_def POINTER_CAPACITY_def)
    show ?thesis using top [OF sh ct] True hd pv s(2)
      by (simp add: DeallocationQueue_pop_def Let_def POINTER_CAPACITY_def)
  qed
qed

interpretation dq: pointer_stack "dq_inv os" "DeallocationQueue_push os" DeallocationQueue_pop for os
proof (unfold_locales, goal_cases)
  case (1 s xs p s')
  then show ?case using dq_push_ok by (cases s; cases s') auto
next
  case (2 s)
  then show ?case using dq_pop_empty by (cases s) auto
next
  case (3 s p xs)
  then show ?case using dq_pop_top by (cases s) fastforce
qed

subsection \<open>Creation\<close>

lemma clear_pointer_pages_vm [simp]: "vm (clear_pointer_pages b n w) = vm w"
  by (induction b n w rule: clear_pointer_pages.induct) simp_all

lemma pp_setters_vm [simp]: "vm (set_pp_next p v w) = vm w" "vm (set_pp_prev p v w) = vm w"
  by (simp_all add: set_pp_next_def set_pp_prev_def)

lemma link_pointer_pages_vm [simp]: "vm (link_pointer_pages b n it i w) = vm w"
  by (induction b n it i w rule: link_pointer_pages.induct) (subst link_pointer_pages.simps, simp add: Let_def)

text \<open>Whatever the number of pages, the first one ends up with no successor.\<close>

lemma link_pointer_pages_head:
  "i < n \<Longrightarrow> pp_next (pointer_pages (link_pointer_pages b n it i w) it) = 0"
proof (induction b n it i w rule: link_pointer_pages.induct)
  case (1 b n it i w)
  show ?case
  proof (cases "Suc i < n")
    case True
    then show ?thesis using 1 by (subst link_pointer_pages.simps) simp
  next
    case False
    then show ?thesis using 1(2)
      by (subst link_pointer_pages.simps, subst link_pointer_pages.simps) (simp add: set_pp_next_def)
  qed
qed

lemma dq_create_ok:
  assumes os: "os_ok os" and ext: "buf \<noteq> 0 \<Longrightarrow> is_mapped (vm w) (unat buf)"
    and c: "DeallocationQueue_create os n buf (DeallocationQueue_new, w) = (True, q, w')"
  shows "dq_inv os (q, w') []" "pp_next (pointer_pages w' (dq_head q)) = 0"
proof -
  obtain b w1 where b: "(if buf = 0 then MetadataAllocator_allocate os (n * sizeof_PointerPage) w else (buf, w)) = (b, w1)"
    by fastforce
  then have n: "n \<noteq> 0" "b \<noteq> 0" and q: "q = DeallocationQueue_new\<lparr>dq_head := b, dq_active_page := b\<rparr>"
    and w': "w' = link_pointer_pages b (unat n) b 0 (set_pp_prev b 0 (set_pp_next b 0 (clear_pointer_pages b (unat n) w1)))"
    using c by (auto simp: DeallocationQueue_create_def Let_def split: if_splits prod.splits)
  have m: "is_mapped (vm w1) (unat b)"
  proof (cases "buf = 0")
    case True
    then have "VirtualMemory_allocate os False False (n * sizeof_PointerPage) 0 w = (b, w1)"
      using b by (simp add: MetadataAllocator_allocate_def)
    with os show ?thesis
    proof (cases rule: vm_allocate_cases)
      case (ok cs m)
      have "0 < page_span (n * sizeof_PointerPage)" using ok(2) page_span_ge [of "n * sizeof_PointerPage"] by linarith
      then show ?thesis using ok(5,7) by simp
    qed (use n in simp)
  next
    case False
    then show ?thesis using b ext by auto
  qed
  have "unat n > 0" using n(1) by (simp add: unat_gt_0)
  then show nx: "pp_next (pointer_pages w' (dq_head q)) = 0" using w' q link_pointer_pages_head by simp
  have "dq_shape q w' [] []" using nx q n m w' by (auto simp: dq_shape_def DeallocationQueue_new_def)
  moreover have "dq_contents q w' [] = []" using q by (simp add: dq_contents_def DeallocationQueue_new_def pp_contents_def)
  moreover have "dq_lock q = 0" using q by (simp add: DeallocationQueue_new_def spin_initialise_def)
  ultimately show "dq_inv os (q, w') []" using os by (auto simp: dq_inv_def)
qed

subsection \<open>Properties\<close>

text \<open>C20: The queue is a stack: after creation, whatever is pushed (any number of pointers, across page
  boundaries) comes out again in reverse order, and then the queue reports that it is empty.\<close>

theorem queue_lifo:
  assumes "os_ok os" "buf \<noteq> 0 \<longrightarrow> is_mapped (vm w) (unat buf)"
    and "DeallocationQueue_create os n buf (DeallocationQueue_new, w) = (True, s)"
    and "push_all (DeallocationQueue_push os) ps s = Some s'"
  shows "\<exists>s''. pop_n DeallocationQueue_pop (length ps) s' = Some (rev ps, s'') \<and> DeallocationQueue_pop s'' = Some (0, s'')"
proof -
  obtain q w' where s: "s = (q, w')" by (cases s)
  have "dq_inv os s []" using dq_create_ok(1) [OF assms(1) _ assms(3) [unfolded s]] assms(2) s by blast
  from dq.push_pop [OF this assms(4)] show ?thesis using dq.pop_empty by blast
qed

definition queue_machine_blank :: queue_machine where
  "queue_machine_blank = \<lparr>vm = [], ram = \<lambda>_. 0, pointer_pages = \<lambda>_. \<lparr>pp_next = 0, pp_prev = 0, pp_pointers = \<lambda>_. 0\<rparr>\<rparr>"

definition example_queue :: "DeallocationQueue \<times> queue_machine" where
  "example_queue = snd (DeallocationQueue_create bump_os 1 0 (DeallocationQueue_new, queue_machine_blank))"

lemma example_queue_created:
  "DeallocationQueue_create bump_os 1 0 (DeallocationQueue_new, queue_machine_blank) = (True, example_queue)"
proof -
  have "fst (DeallocationQueue_create bump_os 1 0 (DeallocationQueue_new, queue_machine_blank))" by code_simp
  then show ?thesis by (simp add: example_queue_def prod_eq_iff)
qed

theorem queue_lifo_witness:
  "\<exists>s' s''. push_all (DeallocationQueue_push bump_os) [4096, 8192, 4104] example_queue = Some s'
     \<and> pop_n DeallocationQueue_pop 3 s' = Some ([4104, 8192, 4096], s'') \<and> DeallocationQueue_pop s'' = Some (0, s'')"
proof -
  have "push_all (DeallocationQueue_push bump_os) [4096, 8192, 4104] example_queue \<noteq> None" by code_simp
  then obtain s' where s': "push_all (DeallocationQueue_push bump_os) [4096, 8192, 4104] example_queue = Some s'" by blast
  have "length [4096, 8192, 4104 :: u64] = 3" "rev [4096, 8192, 4104 :: u64] = [4104, 8192, 4096]" by simp_all
  with queue_lifo [OF bump_os_ok _ example_queue_created s'] s' show ?thesis by metis
qed

text \<open>C32: \<open>push\<close> returns unless the active page is full, has no successor and the system has no
  memory for another one, in which case the null page is dereferenced.\<close>

theorem queue_push_returns:
  assumes "dq_inv os (q, w) xs"
  shows "DeallocationQueue_push os p (q, w) = None \<longleftrightarrow>
    dq_active_page_used_count q = POINTER_CAPACITY \<and> pp_next (pointer_pages w (dq_active_page q)) = 0
    \<and> fst (MetadataAllocator_allocate os sizeof_PointerPage w) = 0"
proof -
  have "dq_lock q = 0" "dq_active_page q \<noteq> 0" using assms by (auto simp: dq_inv_def dq_shape_def paths)
  then show ?thesis
    by (auto simp: DeallocationQueue_push_def next_pointer_page_def Let_def split: if_splits prod.splits bind_splits)
qed

theorem queue_push_returns_witness: "DeallocationQueue_push bump_os 4096 example_queue \<noteq> None"
proof -
  obtain q w where e: "example_queue = (q, w)" by (cases example_queue)
  have i: "dq_inv bump_os (q, w) []"
    using dq_create_ok(1) [OF bump_os_ok _ example_queue_created [unfolded e]] by simp
  have "dq_active_page_used_count (fst example_queue) = 0" by code_simp
  then have "dq_active_page_used_count q \<noteq> POINTER_CAPACITY" by (simp add: e POINTER_CAPACITY_def)
  then show ?thesis unfolding e queue_push_returns [OF i] by blast
qed

text \<open>However many pages \<open>create\<close> is asked for, it links only the first: its successor is null, so
  the other pages are never used and never given back.\<close>

theorem queue_create_links_one_page:
  assumes "os_ok os" "buf \<noteq> 0 \<longrightarrow> is_mapped (vm w) (unat buf)"
    and "DeallocationQueue_create os n buf (DeallocationQueue_new, w) = (True, q, w')"
  shows "dq_active_page q = dq_head q \<and> pp_next (pointer_pages w' (dq_head q)) = 0"
  using dq_create_ok(2) [OF assms(1) _ assms(3)] assms(2,3)
  by (auto simp: DeallocationQueue_create_def Let_def split: if_splits prod.splits)

theorem queue_create_links_one_page_witness:
  "let (ok, q, w) = DeallocationQueue_create bump_os 3 0 (DeallocationQueue_new, queue_machine_blank)
   in ok \<and> pp_next (pointer_pages w (dq_head q)) = 0"
proof -
  obtain ok q w where e: "DeallocationQueue_create bump_os 3 0 (DeallocationQueue_new, queue_machine_blank) = (ok, q, w)"
    by (cases "DeallocationQueue_create bump_os 3 0 (DeallocationQueue_new, queue_machine_blank)") auto
  have "fst (DeallocationQueue_create bump_os 3 0 (DeallocationQueue_new, queue_machine_blank))" by code_simp
  then have ok using e by simp
  with e queue_create_links_one_page [OF bump_os_ok, of 0 queue_machine_blank 3 q w] show ?thesis by simp
qed

end
