(* ===== verification/Segment.thy ===== *)
theory Segment
  imports Page_Contract Deallocation_Queue
begin

text \<open>
  \<open>include/segment.h\<close>: a segment keeps a doubly linked list of logical pages of one size, allocates from
  them next-fit, grows by blocks from the arena and gives free pages back.

  The template parameters of \<open>Segment\<close> are the record \<open>segment_policy\<close>.  The world holds the memory, the
  system-call history, the typed store of page headers (the first 64 bytes of every logical page), the
  typed store of pointer pages and the arena that the segments share.  A page is addressed by the
  address of its header; \<open>get_page\<close> and \<open>put_page\<close> give the operations of the page classes their view.

  \<open>None\<close> is a call that does not return: it spins on a lock, loops for ever, dereferences a null pointer
  or divides by zero.  \<open>assert\<close> does nothing, as in the release builds.  The grow coefficient, a \<open>double\<close>
  in the source, is an exact rational.
\<close>

datatype PageRecyclingPolicy = IMMEDIATE | DEFERRED

datatype ConcurrencyPolicy = THREAD_LOCAL | CENTRAL | SINGLE_THREAD

record segment_policy =
  concurrency_policy :: ConcurrencyPolicy
  page_type :: LogicalPageType
  arena_type :: arena_policy
  page_recycling_policy :: PageRecyclingPolicy
  buffer_aligned_to_logical_page_size :: bool

record world = queue_machine +
  pages :: "u64 \<Rightarrow> LogicalPageHeader"
  arena :: Arena

record SegmentCreationParameters =
  p_logical_page_size :: u64
  p_logical_page_count :: u64
  p_page_recycling_threshold :: u64
  p_deallocation_queue_initial_capacity :: u64
  p_size_class :: u32
  p_grow_coefficient :: rat

record Segment =
  seg_size_class :: u32
  seg_logical_page_size :: u64
  seg_max_object_size :: u64
  seg_logical_page_object_size :: u64
  seg_logical_page_count :: u64
  seg_buffer_length :: u64
  seg_head :: u64
  seg_tail :: u64
  seg_last_used :: u64
  seg_page_recycling_threshold :: u64
  seg_grow_coefficient :: rat
  seg_deallocation_queue :: DeallocationQueue
  seg_lock :: u32

type_synonym segment_state = "Segment \<times> world"

definition Segment_new :: Segment where
  "Segment_new = \<lparr>seg_size_class = 0, seg_logical_page_size = 0, seg_max_object_size = 0,
     seg_logical_page_object_size = sizeof_LogicalPageHeader, seg_logical_page_count = 0, seg_buffer_length = 0,
     seg_head = 0, seg_tail = 0, seg_last_used = 0, seg_page_recycling_threshold = 0, seg_grow_coefficient = 1,
     seg_deallocation_queue = DeallocationQueue_new, seg_lock = spin_initialise 0\<rparr>"

subsection \<open>Pages in the world\<close>

definition get_page :: "u64 \<Rightarrow> world \<Rightarrow> page_state" where
  "get_page p w = (pages w p, ram w)"

definition put_page :: "u64 \<Rightarrow> page_state \<Rightarrow> world \<Rightarrow> world" where
  "put_page p s w = w\<lparr>pages := (pages w)(p := fst s), ram := snd s\<rparr>"

definition upd_page :: "u64 \<Rightarrow> (LogicalPageHeader \<Rightarrow> LogicalPageHeader) \<Rightarrow> world \<Rightarrow> world" where
  "upd_page p f w = w\<lparr>pages := (pages w)(p := f (pages w p))\<rparr>"

abbreviation next_page :: "world \<Rightarrow> u64 \<Rightarrow> u64" where
  "next_page w p \<equiv> get_next_logical_page (pages w p)"

abbreviation prev_page :: "world \<Rightarrow> u64 \<Rightarrow> u64" where
  "prev_page w p \<equiv> get_previous_logical_page (pages w p)"

definition arena_allocate :: "segment_policy \<Rightarrow> os \<Rightarrow> u64 \<Rightarrow> world \<Rightarrow> (u64 \<times> world) option" where
  "arena_allocate P os sz w = do {
     (p, a, w) \<leftarrow> Arena_allocate (arena_type P) os sz (arena w, w);
     Some (p, w\<lparr>arena := a\<rparr>) }"

subsection \<open>The list of pages\<close>

text \<open>The lambda of \<open>grow\<close>: a page is constructed in place; where \<open>create\<close> fails, the first page of the
  whole buffer is given back.\<close>

definition create_new_logical_page ::
  "segment_policy \<Rightarrow> os \<Rightarrow> u64 \<Rightarrow> u64 \<Rightarrow> segment_state \<Rightarrow> bool \<times> segment_state" where
  "create_new_logical_page P os buffer logical_page_buffer = (\<lambda>(sg, w).
     let iter_page = logical_page_buffer;
         w = upd_page iter_page initialise w;
         (success, s) = page_create (page_type P) (logical_page_buffer + seg_logical_page_object_size sg)
                          (seg_logical_page_size sg - seg_logical_page_object_size sg) (seg_size_class sg)
                          (get_page iter_page w);
         w = put_page iter_page s w
     in if success = False then (False, sg, release_to_system os buffer (seg_logical_page_size sg) w)
        else (True, sg\<lparr>seg_logical_page_count := seg_logical_page_count sg + 1\<rparr>, upd_page iter_page mark_as_used w))"

text \<open>The loop over the rest of the pages, with \<open>n\<close> pages left: the last page created, or none.\<close>

fun grow_rest :: "segment_policy \<Rightarrow> os \<Rightarrow> u64 \<Rightarrow> nat \<Rightarrow> u64 \<Rightarrow> u64 \<Rightarrow> segment_state \<Rightarrow> bool \<times> u64 \<times> segment_state" where
  "grow_rest P os buffer 0 i previous_page s = (True, previous_page, s)"
| "grow_rest P os buffer (Suc n) i previous_page s =
     (let iter_page = buffer + i * seg_logical_page_size (fst s);
          (ok, (sg, w)) = create_new_logical_page P os buffer iter_page s
      in if ok = False then (False, previous_page, (sg, w))
         else let w = upd_page previous_page (set_next_logical_page iter_page) w;
                  w = upd_page iter_page (set_previous_logical_page previous_page) w
              in grow_rest P os buffer n (i + 1) iter_page (sg, w))"

definition grow :: "segment_policy \<Rightarrow> os \<Rightarrow> u64 \<Rightarrow> u64 \<Rightarrow> segment_state \<Rightarrow> u64 \<times> segment_state" where
  "grow P os buffer logical_page_count s =
     (let previous_page = seg_tail (fst s);
          (ok, (sg, w)) = create_new_logical_page P os buffer buffer s
      in if ok = False then (0, (sg, w))
         else let first_new_logical_page = buffer;
                  (sg, w) = (if seg_head sg = 0 then (sg\<lparr>seg_head := buffer, seg_tail := buffer\<rparr>, w)
                             else let w = upd_page previous_page (set_next_logical_page buffer) w;
                                      w = upd_page buffer (set_previous_logical_page previous_page) w
                                  in (sg, w));
                  (ok, last_page, (sg, w)) = grow_rest P os buffer (unat logical_page_count - 1) 1 buffer (sg, w)
              in if ok = False then (0, (sg, w))
                 else (first_new_logical_page, (sg\<lparr>seg_tail := last_page\<rparr>, w)))"

definition remove_logical_page :: "u64 \<Rightarrow> segment_state \<Rightarrow> segment_state" where
  "remove_logical_page affected = (\<lambda>(sg, w).
     let nxt = next_page w affected;
         previous = prev_page w affected;
         sg = (if affected = seg_last_used sg
               then if previous \<noteq> 0 then sg\<lparr>seg_last_used := previous\<rparr>
                    else if nxt \<noteq> 0 then sg\<lparr>seg_last_used := nxt\<rparr> else sg\<lparr>seg_last_used := 0\<rparr>
               else sg);
         (sg, w) =
           (if previous = 0
            then let sg = sg\<lparr>seg_head := nxt\<rparr>
                 in (if seg_head sg = 0 \<or> next_page w (seg_head sg) = 0 then sg\<lparr>seg_tail := seg_head sg\<rparr> else sg, w)
            else let w = upd_page previous (set_next_logical_page nxt) w
                 in (if seg_tail sg = affected then sg\<lparr>seg_tail := previous\<rparr> else sg, w));
         w = (if nxt \<noteq> 0 then upd_page nxt (set_previous_logical_page previous) w else w)
     in (sg\<lparr>seg_logical_page_count := seg_logical_page_count sg - 1\<rparr>, w))"

definition add_logical_page :: "u64 \<Rightarrow> segment_state \<Rightarrow> segment_state" where
  "add_logical_page logical_page = (\<lambda>(sg, w).
     let (sg, w) = (if seg_tail sg \<noteq> 0
                    then let w = upd_page (seg_tail sg) (set_next_logical_page logical_page) w;
                             w = upd_page logical_page (set_previous_logical_page (seg_tail sg)) w
                         in (sg, w)
                    else (sg\<lparr>seg_head := logical_page, seg_tail := logical_page\<rparr>, w));
         w = upd_page logical_page (set_next_logical_page 0) w
     in (sg\<lparr>seg_logical_page_count := seg_logical_page_count sg + 1\<rparr>, w))"

definition recycle_logical_page :: "os \<Rightarrow> u64 \<Rightarrow> segment_state \<Rightarrow> segment_state" where
  "recycle_logical_page os affected s =
     (let (sg, w) = remove_logical_page affected s
      in (sg, release_to_system os affected (seg_logical_page_size sg) w))"

text \<open>The loop that \<open>owns_pointer\<close>, \<open>get_usable_size\<close> and \<open>deallocate_by_search\<close> share: the first page
  of the list whose extent holds the address, or 0.\<close>

partial_function (option) find_page :: "u64 \<Rightarrow> u64 \<Rightarrow> world \<Rightarrow> u64 \<Rightarrow> u64 option" where
  "find_page address logical_page_size w iter =
     (if iter \<noteq> 0
      then let start = iter; ending = start + logical_page_size
           in if address \<ge> start \<and> address < ending then Some iter
              else find_page address logical_page_size w (next_page w iter)
      else Some 0)"

definition get_logical_page_from_address :: "u64 \<Rightarrow> u64 \<Rightarrow> u64" where
  "get_logical_page_from_address ptr logical_page_size = (ptr AND NOT (logical_page_size - 1))"

definition get_size_class_from_address :: "u64 \<Rightarrow> u64 \<Rightarrow> world \<Rightarrow> u32" where
  "get_size_class_from_address ptr logical_page_size w =
     get_size_class (pages w (get_logical_page_from_address ptr logical_page_size))"

subsection \<open>Deallocation\<close>

text \<open>What both ways of finding the page do with it.\<close>

definition deallocate_from_page :: "segment_policy \<Rightarrow> os \<Rightarrow> u64 \<Rightarrow> u64 \<Rightarrow> segment_state \<Rightarrow> segment_state option" where
  "deallocate_from_page P os affected ptr = (\<lambda>(sg, w). do {
     s \<leftarrow> page_deallocate (page_type P) ptr (get_page affected w);
     let w = put_page affected s w;
     Some (if get_used_size (pages w affected) = 0
           then let w = upd_page affected mark_as_non_used w
                in if page_recycling_policy P = IMMEDIATE
                   then if seg_logical_page_count sg > seg_page_recycling_threshold sg
                        then recycle_logical_page os affected (sg, w) else (sg, w)
                   else (sg, w)
           else (sg, w)) })"

definition deallocate_from_aligned_logical_page ::
  "segment_policy \<Rightarrow> os \<Rightarrow> u64 \<Rightarrow> segment_state \<Rightarrow> segment_state option" where
  "deallocate_from_aligned_logical_page P os ptr = (\<lambda>(sg, w).
     let affected = get_logical_page_from_address ptr (seg_logical_page_size sg)
     in deallocate_from_page P os affected ptr (sg, w))"

definition deallocate_by_search :: "segment_policy \<Rightarrow> os \<Rightarrow> u64 \<Rightarrow> segment_state \<Rightarrow> segment_state option" where
  "deallocate_by_search P os ptr = (\<lambda>(sg, w). do {
     iter \<leftarrow> find_page ptr (seg_logical_page_size sg) w (seg_head sg);
     if iter = 0 then Some (sg, w) else deallocate_from_page P os iter ptr (sg, w) })"

definition deallocate_internal :: "segment_policy \<Rightarrow> os \<Rightarrow> u64 \<Rightarrow> segment_state \<Rightarrow> segment_state option" where
  "deallocate_internal P os ptr s =
     (if buffer_aligned_to_logical_page_size P then deallocate_from_aligned_logical_page P os ptr s
      else deallocate_by_search P os ptr s)"

partial_function (option) process_queue_loop ::
  "segment_policy \<Rightarrow> os \<Rightarrow> bool \<Rightarrow> u64 \<Rightarrow> segment_state \<Rightarrow> (u64 \<times> segment_state) option" where
  "process_queue_loop P os return_initial_pointer ret s = do {
     (pointer, q, w) \<leftarrow> DeallocationQueue_pop (seg_deallocation_queue (fst s), snd s);
     let sg = (fst s)\<lparr>seg_deallocation_queue := q\<rparr>;
     if pointer = 0 then Some (ret, (sg, w))
     else if return_initial_pointer
     then if ret \<noteq> 0
          then do { s \<leftarrow> deallocate_internal P os pointer (sg, w);
                    process_queue_loop P os return_initial_pointer ret s }
          else process_queue_loop P os return_initial_pointer pointer (sg, w)
     else do { s \<leftarrow> deallocate_internal P os pointer (sg, w);
               process_queue_loop P os return_initial_pointer ret s } }"

definition process_deallocation_queue ::
  "segment_policy \<Rightarrow> os \<Rightarrow> bool \<Rightarrow> segment_state \<Rightarrow> (u64 \<times> segment_state) option" where
  "process_deallocation_queue P os return_initial_pointer s = process_queue_loop P os return_initial_pointer 0 s"

subsection \<open>Allocation\<close>

text \<open>A pass over the pages from \<open>iter\<close> to \<open>stop\<close>: the pointer and the page that served it, or 0.\<close>

partial_function (option) search_pages ::
  "LogicalPageType \<Rightarrow> u64 \<Rightarrow> u64 \<Rightarrow> u64 \<Rightarrow> world \<Rightarrow> (u64 \<times> u64 \<times> world) option" where
  "search_pages pt sz stop iter w =
     (if iter = stop then Some (0, iter, w)
      else if iter = 0 then None
      else do {
        (ret, s) \<leftarrow> page_allocate pt sz (get_page iter w);
        let w = put_page iter s w;
        if ret \<noteq> 0 then Some (ret, iter, w)
        else search_pages pt sz stop (next_page w iter) w })"

text \<open>The new page count that the grow coefficient asks for, and the least one that serves the request.\<close>

definition calculate_quantities :: "segment_policy \<Rightarrow> u64 \<Rightarrow> Segment \<Rightarrow> (u64 \<times> u64) option" where
  "calculate_quantities P sz sg = do {
     minimum_new_logical_page_count \<leftarrow>
       (if supports_any_size (page_type P)
        then get_required_page_count_for_allocation (seg_logical_page_size sg) (seg_logical_page_object_size sg) sz 1
        else if seg_size_class sg = 0 then None
        else get_required_page_count_for_allocation (seg_logical_page_size sg) (seg_logical_page_object_size sg)
               (ucast (seg_size_class sg)) (sz div ucast (seg_size_class sg)));
     Some (if seg_grow_coefficient sg > 0
           then let desired_new_logical_page_count =
                      of_int \<lfloor>of_nat (unat (seg_logical_page_count sg)) * seg_grow_coefficient sg\<rfloor>
                in (if desired_new_logical_page_count < minimum_new_logical_page_count
                    then minimum_new_logical_page_count else desired_new_logical_page_count,
                    minimum_new_logical_page_count)
           else (minimum_new_logical_page_count, minimum_new_logical_page_count)) }"

definition allocate_by_growing :: "segment_policy \<Rightarrow> os \<Rightarrow> u64 \<Rightarrow> segment_state \<Rightarrow> (u64 \<times> segment_state) option" where
  "allocate_by_growing P os sz = (\<lambda>(sg, w). do {
     (new_logical_page_count, minimum_new_logical_page_count) \<leftarrow> calculate_quantities P sz sg;
     (new_buffer, w) \<leftarrow> arena_allocate P os (seg_logical_page_size sg * new_logical_page_count) w;
     (new_buffer, w) \<leftarrow>
       (if new_buffer = 0 \<and> new_logical_page_count > minimum_new_logical_page_count
        then arena_allocate P os (seg_logical_page_size sg * minimum_new_logical_page_count) w
        else Some (new_buffer, w));
     if new_buffer = 0 then Some (0, (sg, w))
     else let (first_new_logical_page, (sg, w)) = grow P os new_buffer new_logical_page_count (sg, w)
          in if first_new_logical_page \<noteq> 0
             then do {
               (ret, s) \<leftarrow> page_allocate (page_type P) sz (get_page first_new_logical_page w);
               let w = put_page first_new_logical_page s w;
               if ret \<noteq> 0 then Some (ret, (sg\<lparr>seg_last_used := first_new_logical_page\<rparr>, w))
               else Some (0, (sg, w)) }
             else Some (0, (sg, w)) })"

definition allocate_internal :: "segment_policy \<Rightarrow> os \<Rightarrow> u64 \<Rightarrow> segment_state \<Rightarrow> (u64 \<times> segment_state) option" where
  "allocate_internal P os sz = (\<lambda>(sg, w).
     if sz > seg_max_object_size sg then Some (0, (sg, w))
     else do {
       (ret, iter, w) \<leftarrow> search_pages (page_type P) sz 0 (if seg_last_used sg \<noteq> 0 then seg_last_used sg else seg_head sg) w;
       if ret \<noteq> 0 then Some (ret, (sg\<lparr>seg_last_used := iter\<rparr>, w))
       else do {
         (ret, iter, w) \<leftarrow>
           (if seg_last_used sg \<noteq> 0 then search_pages (page_type P) sz (seg_last_used sg) (seg_head sg) w
            else Some (0, 0, w));
         if ret \<noteq> 0 then Some (ret, (sg\<lparr>seg_last_used := iter\<rparr>, w))
         else if concurrency_policy P = CENTRAL \<or> concurrency_policy P = SINGLE_THREAD
         then allocate_by_growing P os sz (sg, w)
         else Some (0, (sg, w)) } })"

subsection \<open>The interface\<close>

definition Segment_create ::
  "segment_policy \<Rightarrow> os \<Rightarrow> u64 \<Rightarrow> SegmentCreationParameters \<Rightarrow> segment_state \<Rightarrow> bool \<times> segment_state" where
  "Segment_create P os external_buffer params = (\<lambda>(sg, w).
     if p_logical_page_size params \<le> 0
        \<or> is_size_a_multiple_of_page_allocation_granularity (p_logical_page_size params) = False
        \<or> p_logical_page_count params \<le> 0 \<or> p_logical_page_size params \<le> seg_logical_page_object_size sg
        \<or> external_buffer = 0
     then (False, (sg, w))
     else let (ok, q, w) =
            (if concurrency_policy P = THREAD_LOCAL
             then let (buf, w) = MetadataAllocator_allocate os (p_deallocation_queue_initial_capacity params) w
                  in DeallocationQueue_create os (p_deallocation_queue_initial_capacity params div sizeof_PointerPage) buf
                       (seg_deallocation_queue sg, w)
             else (True, seg_deallocation_queue sg, w));
            sg = sg\<lparr>seg_deallocation_queue := q\<rparr>
          in if ok = False then (False, (sg, w))
             else let sg = sg\<lparr>seg_logical_page_size := p_logical_page_size params\<rparr>;
                      sg = sg\<lparr>seg_max_object_size := seg_logical_page_size sg - sizeof_LogicalPageHeader\<rparr>;
                      sg = sg\<lparr>seg_size_class := p_size_class params,
                              seg_page_recycling_threshold := p_page_recycling_threshold params,
                              seg_grow_coefficient := p_grow_coefficient params\<rparr>;
                      (first, (sg, w)) = grow P os external_buffer (p_logical_page_count params) (sg, w)
                  in if first = 0 then (False, (sg, w))
                     else (True, (if concurrency_policy P = THREAD_LOCAL
                                  then sg\<lparr>seg_buffer_length := seg_logical_page_size sg * p_logical_page_count params\<rparr>
                                  else sg, w)))"

text \<open>The segment-wide lock around an operation.\<close>

definition locked :: "(segment_state \<Rightarrow> ('a \<times> segment_state) option) \<Rightarrow> segment_state \<Rightarrow> ('a \<times> segment_state) option" where
  "locked f = (\<lambda>(sg, w). do {
     l \<leftarrow> enter_concurrent_context USERSPACE_LOCK (seg_lock sg);
     (r, (sg, w)) \<leftarrow> f (sg\<lparr>seg_lock := l\<rparr>, w);
     Some (r, (sg\<lparr>seg_lock := leave_concurrent_context USERSPACE_LOCK (seg_lock sg)\<rparr>, w)) })"

definition Segment_allocate :: "segment_policy \<Rightarrow> os \<Rightarrow> u64 \<Rightarrow> segment_state \<Rightarrow> (u64 \<times> segment_state) option" where
  "Segment_allocate P os sz s =
     (case concurrency_policy P of
        THREAD_LOCAL \<Rightarrow>
          if supports_any_size (page_type P) = False
          then do { (pointer, s) \<leftarrow> process_deallocation_queue P os True s;
                    if pointer \<noteq> 0 then Some (pointer, s) else allocate_internal P os sz s }
          else do { (_, s) \<leftarrow> process_deallocation_queue P os False s; allocate_internal P os sz s }
      | CENTRAL \<Rightarrow> locked (allocate_internal P os sz) s
      | SINGLE_THREAD \<Rightarrow> allocate_internal P os sz s)"

definition Segment_deallocate :: "segment_policy \<Rightarrow> os \<Rightarrow> u64 \<Rightarrow> segment_state \<Rightarrow> segment_state option" where
  "Segment_deallocate P os ptr = (\<lambda>(sg, w).
     if seg_head sg = 0 then Some (sg, w)
     else case concurrency_policy P of
        THREAD_LOCAL \<Rightarrow> do {
          (q, w) \<leftarrow> DeallocationQueue_push os ptr (seg_deallocation_queue sg, w);
          Some (sg\<lparr>seg_deallocation_queue := q\<rparr>, w) }
      | CENTRAL \<Rightarrow> do {
          (_, s) \<leftarrow> locked (\<lambda>s. do { s \<leftarrow> deallocate_internal P os ptr s; Some ((), s) }) (sg, w);
          Some s }
      | SINGLE_THREAD \<Rightarrow> deallocate_internal P os ptr (sg, w))"

definition owns_pointer_unlocked :: "segment_policy \<Rightarrow> u64 \<Rightarrow> segment_state \<Rightarrow> (bool \<times> segment_state) option" where
  "owns_pointer_unlocked P ptr = (\<lambda>(sg, w).
     if concurrency_policy P = THREAD_LOCAL
     then Some (ptr \<ge> seg_head sg \<and> ptr < seg_head sg + seg_buffer_length sg, (sg, w))
     else do { iter \<leftarrow> find_page ptr (seg_logical_page_size sg) w (seg_head sg); Some (iter \<noteq> 0, (sg, w)) })"

definition Segment_owns_pointer :: "segment_policy \<Rightarrow> u64 \<Rightarrow> segment_state \<Rightarrow> (bool \<times> segment_state) option" where
  "Segment_owns_pointer P ptr s =
     (if concurrency_policy P = THREAD_LOCAL \<or> concurrency_policy P = CENTRAL
      then locked (owns_pointer_unlocked P ptr) s else owns_pointer_unlocked P ptr s)"

definition Segment_get_usable_size :: "segment_policy \<Rightarrow> u64 \<Rightarrow> segment_state \<Rightarrow> u64 option" where
  "Segment_get_usable_size P ptr = (\<lambda>(sg, w).
     if supports_any_size (page_type P) = False then Some (ucast (seg_size_class sg))
     else do {
       iter \<leftarrow> find_page ptr (seg_logical_page_size sg) w (seg_head sg);
       Some (if iter = 0 then 0 else page_get_usable_size (page_type P) ptr (get_page iter w)) })"

partial_function (option) recycle_free_loop :: "os \<Rightarrow> u64 \<Rightarrow> u64 \<Rightarrow> u64 \<Rightarrow> segment_state \<Rightarrow> segment_state option" where
  "recycle_free_loop os num_logical_pages_to_recycle iter iter_previous s =
     (if num_logical_pages_to_recycle \<noteq> 0
      then if iter = 0 then None
           else if can_be_recycled (pages (snd s) iter)
           then let s = recycle_logical_page os iter s
                in if iter_previous = 0 then None
                   else recycle_free_loop os (num_logical_pages_to_recycle - 1) (next_page (snd s) iter_previous) iter_previous s
           else recycle_free_loop os num_logical_pages_to_recycle (next_page (snd s) iter) iter s
      else Some s)"

definition recycle_free_logical_pages :: "os \<Rightarrow> segment_state \<Rightarrow> segment_state option" where
  "recycle_free_logical_pages os s = do {
     (_, s) \<leftarrow> locked (\<lambda>s. do {
        s \<leftarrow> recycle_free_loop os (seg_logical_page_count (fst s) - seg_page_recycling_threshold (fst s)) (seg_head (fst s)) 0 s;
        Some ((), s) }) s;
     Some s }"

partial_function (option) transfer_loop :: "u64 \<Rightarrow> Segment \<Rightarrow> segment_state \<Rightarrow> (Segment \<times> segment_state) option" where
  "transfer_loop iter from s =
     (if iter \<noteq> 0
      then let iter_next = next_page (snd s) iter;
               (sg, w) = add_logical_page iter s;
               (from, w) = remove_logical_page iter (from, w)
           in transfer_loop iter_next from (sg, w)
      else Some (from, s))"

definition transfer_logical_pages_from :: "Segment \<Rightarrow> segment_state \<Rightarrow> (Segment \<times> segment_state) option" where
  "transfer_logical_pages_from from s = locked (transfer_loop (seg_head from) from) s"

partial_function (option) destroy_pages :: "os \<Rightarrow> u64 \<Rightarrow> u64 \<Rightarrow> world \<Rightarrow> world option" where
  "destroy_pages os logical_page_size iter w =
     (if iter \<noteq> 0
      then let nxt = next_page w iter;
               w = (if get_used_size (pages w iter) = 0 then release_to_system os iter logical_page_size w else w)
           in destroy_pages os logical_page_size nxt w
      else Some w)"

definition Segment_destroy :: "segment_policy \<Rightarrow> os \<Rightarrow> segment_state \<Rightarrow> segment_state option" where
  "Segment_destroy P os s = do {
     (_, (sg, w)) \<leftarrow> (if concurrency_policy P = THREAD_LOCAL then process_deallocation_queue P os False s else Some (0, s));
     w \<leftarrow> destroy_pages os (seg_logical_page_size sg) (seg_head sg) w;
     Some (sg\<lparr>seg_head := 0, seg_tail := 0\<rparr>, w) }"

partial_function (option) each_page :: "(u64 \<Rightarrow> world \<Rightarrow> world) \<Rightarrow> u64 \<Rightarrow> world \<Rightarrow> world option" where
  "each_page f iter w =
     (if iter \<noteq> 0 then let w = f iter w in each_page f (next_page w iter) w else Some w)"

definition Segment_lock_pages :: "os \<Rightarrow> segment_state \<Rightarrow> segment_state option" where
  "Segment_lock_pages os s = do {
     (_, s) \<leftarrow> locked (\<lambda>(sg, w). do {
        w \<leftarrow> each_page (\<lambda>iter w. upd_page iter mark_as_locked
                                  (snd (VirtualMemory_lock os iter (seg_logical_page_size sg) w))) (seg_head sg) w;
        Some ((), (sg, w)) }) s;
     Some s }"

definition Segment_unlock_pages :: "os \<Rightarrow> segment_state \<Rightarrow> segment_state option" where
  "Segment_unlock_pages os s = do {
     (_, s) \<leftarrow> locked (\<lambda>(sg, w). do {
        w \<leftarrow> each_page (\<lambda>iter w. upd_page iter mark_as_non_locked
                                  (snd (VirtualMemory_unlock os iter (seg_logical_page_size sg) w))) (seg_head sg) w;
        Some ((), (sg, w)) }) s;
     Some s }"

declare find_page.simps [code] process_queue_loop.simps [code] search_pages.simps [code]
  recycle_free_loop.simps [code] transfer_loop.simps [code] destroy_pages.simps [code] each_page.simps [code]

end
