(* ===== verification/Evaluation.thy ===== *)
theory Evaluation
  imports Segment
begin

text \<open>
  Running the model inside the logic: the collection \<open>run\<close> holds the equations that compute the operations
  on concrete states, in the form in which the simplifier unfolds an operation only when its state is
  known.  Memory stays a term of 64-bit stores and of zeroed ranges, page headers stay function updates.
  A closed term is evaluated by \<open>simp add: run cong: run_cong\<close>.
\<close>

named_theorems run \<open>evaluation of the model on concrete states\<close>

lemmas run_cong = let_weak_cong bind_option_cong_code

declare Let_def [run]

subsection \<open>Memory\<close>

declare load64_store64_other [run]

lemma load64_zero [run]: "load64 (\<lambda>_. 0) a = 0"
  by (simp add: load64_code)

lemma byte_offset:
  assumes "unat (b - a :: u64) + 8 \<le> 2 ^ 64" "i < 8"
  shows "unat (b + of_nat i - a) = unat (b - a) + i"
proof -
  have i: "unat (of_nat i :: u64) = i" using assms(2) by (simp add: unat_of_nat_nowrap)
  have "b + of_nat i - a = (b - a) + of_nat i" by simp
  then show ?thesis using assms i by (simp only:) (subst unat_add_nowrap; simp)
qed

lemma load64_memset [run]:
  assumes "unat (b - a) + 8 \<le> n" "unat (b - a) + 8 \<le> 2 ^ 64"
  shows "load64 (memset m a 0 n) b = 0"
proof -
  have "load64 (memset m a 0 n) b = load64 (\<lambda>_. 0) b"
    using assms by (intro load64_cong) (simp add: memset_def byte_offset)
  then show ?thesis by (simp add: load64_zero)
qed

lemma memset_off [run]:
  assumes "unat (b - a) \<ge> n" "unat (b - a) + 8 \<le> 2 ^ 64"
  shows "load64 (memset m a v n) b = load64 m b"
  using assms by (intro load64_cong) (simp add: memset_def byte_offset)

lemma load64_upd_outside [run]: "8 \<le> unat (x - b) \<Longrightarrow> load64 (m(x := v)) b = load64 m b"
proof (rule load64_cong)
  fix i :: nat assume x: "8 \<le> unat (x - b)" and i: "i < 8"
  have "unat (b + of_nat i - b) = i" using i by (simp add: unat_of_nat_nowrap)
  then have "x \<noteq> b + of_nat i" using x i by auto
  then show "(m(x := v)) (b + of_nat i) = m (b + of_nat i)" by simp
qed

subsection \<open>The operations\<close>

lemmas utilities_run [run] = PAGE_ALLOCATION_GRANULARITY_def is_address_aligned_def
  is_address_page_allocation_granularity_aligned_def modulo_pow2_def modulo_def get_next_pow2_multiple_of_def
  is_size_a_multiple_of_page_allocation_granularity_def get_required_page_count_for_allocation_def

lemmas header_run [run] = sizeof_LogicalPageHeader_def new_header_def initialise_def page_owns_pointer_def
  page_link_defs page_flag_defs get_used_size_def get_size_class_def

lemmas anysize_run [run] = NODE_SIZE_def MIN_ALIGNMENT_SIZE_def MAX_BLOCK_SIZE_def get_next_pointer_def set_next_pointer_def
  clear_next_pointer_def get_block_size_def set_block_size_def get_padding_size_def set_padding_size_def
  calculate_padding_needed_def find_insertion_point.simps LogicalPageAnySize_get_usable_size_def LogicalPageAnySize_insert.simps
  LogicalPageAnySize_remove.simps find_node.simps coalesce.simps LogicalPageAnySize_create.simps return_excess.simps
  LogicalPageAnySize_allocate.simps insert_free_node.simps LogicalPageAnySize_deallocate.simps
  is_sane_loop.simps get_node_count_loop.simps LogicalPage_get_usable_size_def

lemma find_internal_run [run]:
  "find_internal m e sz al 0 prev n = Some (0, 0, n)"
  "a \<noteq> 0 \<Longrightarrow> a \<noteq> e \<Longrightarrow> sz + NODE_SIZE + calculate_padding_needed NODE_SIZE a al \<le> get_block_size m a
     \<Longrightarrow> find_internal m e sz al a prev n = Some (prev, a, calculate_padding_needed NODE_SIZE a al)"
  "a \<noteq> 0 \<Longrightarrow> a \<noteq> e \<Longrightarrow> \<not> sz + NODE_SIZE + calculate_padding_needed NODE_SIZE a al \<le> get_block_size m a
     \<Longrightarrow> find_internal m e sz al a prev n = find_internal m e sz al (get_next_pointer m a)
           (if get_next_pointer m a \<noteq> 0 then a else prev) (calculate_padding_needed NODE_SIZE a al)"
  by (subst find_internal.simps; simp add: Let_def)+

lemmas page_run [run] = page_create.simps page_allocate.simps page_deallocate.simps page_get_usable_size.simps

lemmas system_run [run] = spin_initialise_def spin_unlock_def get_page_size_def MAP_FAILED_def MAP_PRIVATE_def MAP_ANONYMOUS_def
  MAP_POPULATE_def MAP_HUGETLB_def page_span_def VirtualMemory_allocate_def VirtualMemory_deallocate_def VirtualMemory_lock_def
  VirtualMemory_unlock_def lock_all_pages_def bump_os_def

lemmas arena_run [run] = Arena_new_def allocate_from_system_def release_to_system_def allocate_aligned_def
  build_cache_def [THEN fun_cong, where x = "(a, w)" for a w, unfolded prod.case]
  release_pages.simps rebuild_cache_def
  Arena_destroy_def [THEN fun_cong, where x = "(a, w)" for a w, unfolded prod.case]
  Arena_create_def [THEN fun_cong, where x = "(a, w)" for a w, unfolded prod.case]
  Arena_allocate_def [THEN fun_cong, where x = "(a, w)" for a w, unfolded prod.case]
  Arena_lock_pages_def Arena_unlock_pages_def lock_pages_loop.simps page_alignment_def
  MetadataAllocator_allocate_def MetadataAllocator_deallocate_def

lemmas queue_run [run] = POINTER_CAPACITY_def sizeof_PointerPage_def DeallocationQueue_new_def set_pp_next_def set_pp_prev_def
  set_pp_pointer_def pp_at_def clear_pointer_pages.simps link_pointer_pages.simps
  DeallocationQueue_create_def [THEN fun_cong, where x = "(q, w)" for q w, unfolded prod.case]
  next_pointer_page_def [THEN fun_cong, where x = "(q, w)" for q w, unfolded prod.case]
  DeallocationQueue_push_def [THEN fun_cong, where x = "(q, w)" for q w, unfolded prod.case]
  DeallocationQueue_pop_def [THEN fun_cong, where x = "(q, w)" for q w, unfolded prod.case]
  DeallocationQueue_destroy_def [THEN fun_cong, where x = "(q, w)" for q w, unfolded prod.case]
  free_pointer_pages.simps

lemmas segment_run [run] = Segment_new_def get_page_def put_page_def upd_page_def arena_allocate_def grow_def grow_rest.simps
  create_new_logical_page_def [THEN fun_cong, where x = "(sg, w)" for sg w, unfolded prod.case]
  remove_logical_page_def [THEN fun_cong, where x = "(sg, w)" for sg w, unfolded prod.case]
  add_logical_page_def [THEN fun_cong, where x = "(sg, w)" for sg w, unfolded prod.case]
  recycle_logical_page_def find_page.simps get_logical_page_from_address_def get_size_class_from_address_def
  deallocate_from_page_def [THEN fun_cong, where x = "(sg, w)" for sg w, unfolded prod.case]
  deallocate_from_aligned_logical_page_def [THEN fun_cong, where x = "(sg, w)" for sg w, unfolded prod.case]
  deallocate_by_search_def [THEN fun_cong, where x = "(sg, w)" for sg w, unfolded prod.case]
  deallocate_internal_def process_queue_loop.simps process_deallocation_queue_def search_pages.simps calculate_quantities_def
  allocate_by_growing_def [THEN fun_cong, where x = "(sg, w)" for sg w, unfolded prod.case]
  allocate_internal_def [THEN fun_cong, where x = "(sg, w)" for sg w, unfolded prod.case]
  Segment_create_def [THEN fun_cong, where x = "(sg, w)" for sg w, unfolded prod.case]
  locked_def [THEN fun_cong, where x = "(sg, w)" for sg w, unfolded prod.case]
  Segment_allocate_def
  Segment_deallocate_def [THEN fun_cong, where x = "(sg, w)" for sg w, unfolded prod.case]
  owns_pointer_unlocked_def [THEN fun_cong, where x = "(sg, w)" for sg w, unfolded prod.case]
  Segment_owns_pointer_def
  Segment_get_usable_size_def [THEN fun_cong, where x = "(sg, w)" for sg w, unfolded prod.case]
  recycle_free_loop.simps recycle_free_logical_pages_def transfer_loop.simps transfer_logical_pages_from_def
  destroy_pages.simps Segment_destroy_def each_page.simps Segment_lock_pages_def Segment_unlock_pages_def

end
