(* ===== verification/Linked_List.thy ===== *)
theory Linked_List
  imports Machine
begin

text \<open>
  Doubly linked lists of addresses, over a successor and a predecessor function: what the page list of
  a segment is, and how linking a node at the end and unlinking a node change it.

  \<open>dlseg nxt prv q p xs r\<close>: from \<open>p\<close>, whose predecessor is \<open>q\<close>, the nodes \<open>xs\<close> are visited and \<open>r\<close> is
  reached.
\<close>

fun dlseg :: "(u64 \<Rightarrow> u64) \<Rightarrow> (u64 \<Rightarrow> u64) \<Rightarrow> u64 \<Rightarrow> u64 \<Rightarrow> u64 list \<Rightarrow> u64 \<Rightarrow> bool" where
  "dlseg nxt prv q p [] r \<longleftrightarrow> p = r"
| "dlseg nxt prv q p (x # xs) r \<longleftrightarrow> p = x \<and> x \<noteq> 0 \<and> prv x = q \<and> dlseg nxt prv x (nxt x) xs r"

abbreviation dlist :: "(u64 \<Rightarrow> u64) \<Rightarrow> (u64 \<Rightarrow> u64) \<Rightarrow> u64 \<Rightarrow> u64 list \<Rightarrow> bool" where
  "dlist nxt prv p xs \<equiv> dlseg nxt prv 0 p xs 0"

definition last_or :: "u64 \<Rightarrow> u64 list \<Rightarrow> u64" where
  "last_or q xs = (if xs = [] then q else last xs)"

definition head_or :: "u64 list \<Rightarrow> u64 \<Rightarrow> u64" where
  "head_or xs r = (case xs of [] \<Rightarrow> r | x # _ \<Rightarrow> x)"

lemma last_or_simps [simp]: "last_or q [] = q" "last_or q (x # xs) = last_or x xs" "last_or q (xs @ [x]) = x"
  by (simp_all add: last_or_def)

lemma last_or_append [simp]: "last_or q (xs @ ys) = last_or (last_or q xs) ys"
  by (induction xs arbitrary: q) simp_all

lemma head_or_simps [simp]: "head_or [] r = r" "head_or (x # xs) r = x"
  by (simp_all add: head_or_def)

lemma dlseg_path: "dlseg nxt prv q p xs r \<Longrightarrow> path nxt p xs r"
  by (induction xs arbitrary: q p) auto

lemma dlseg_start: "dlseg nxt prv q p xs r \<Longrightarrow> p = head_or xs r"
  by (cases xs) auto

lemma dlseg_append:
  "dlseg nxt prv q p (xs @ ys) r \<longleftrightarrow>
     dlseg nxt prv q p xs (head_or ys r) \<and> dlseg nxt prv (last_or q xs) (head_or ys r) ys r"
proof (induction xs arbitrary: q p)
  case Nil
  then show ?case by (cases ys) auto
qed auto

lemma dlseg_cong:
  "(\<And>x. x \<in> set xs \<Longrightarrow> nxt' x = nxt x \<and> prv' x = prv x) \<Longrightarrow> dlseg nxt' prv' q p xs r = dlseg nxt prv q p xs r"
  by (induction xs arbitrary: q p) auto

lemma dlist_distinct: "dlist nxt prv p xs \<Longrightarrow> distinct xs"
  by (rule chain_distinct [OF dlseg_path])

lemma dlist_nonnull: "dlist nxt prv p xs \<Longrightarrow> 0 \<notin> set xs"
  by (rule path_nonzero [OF dlseg_path])

text \<open>The successor of the last node may be redirected.\<close>

lemma dlseg_redirect:
  assumes "dlseg nxt prv q p (xs @ [y]) r" "y \<notin> set xs"
  shows "dlseg (nxt(y := r')) prv q p (xs @ [y]) r'"
proof -
  have "dlseg (nxt(y := r')) prv q p xs y = dlseg nxt prv q p xs y"
    using assms(2) by (intro dlseg_cong) auto
  then show ?thesis using assms(1) by (simp add: dlseg_append)
qed

text \<open>Linking a node behind the last one.\<close>

lemma dlist_link:
  assumes l: "dlist nxt prv p xs" and x: "x \<notin> set xs" "x \<noteq> 0" "nxt x = 0"
    and nxt': "nxt' = (if xs = [] then nxt else nxt(last xs := x))" and prv': "prv' x = last_or 0 xs"
    and same: "\<And>y. y \<in> set xs \<Longrightarrow> prv' y = prv y"
  shows "dlist nxt' prv' (if xs = [] then x else p) (xs @ [x])"
proof (cases xs rule: rev_cases)
  case Nil
  then show ?thesis using assms by simp
next
  case (snoc ys y)
  have d: "y \<notin> set ys" "y \<noteq> x" using dlist_distinct [OF l] snoc x(1) by auto
  have "dlseg (nxt(y := x)) prv 0 p xs x" using dlseg_redirect [of nxt prv 0 p ys y 0 x] l snoc d by simp
  then have "dlseg nxt' prv' 0 p xs x"
    using dlseg_cong [of xs nxt' "nxt(y := x)" prv' prv 0 p x] same nxt' snoc by simp
  moreover have "nxt' x = 0" using nxt' snoc d(2) x(3) by simp
  ultimately show ?thesis using snoc x prv' by (simp add: dlseg_append)
qed

text \<open>Unlinking a node.\<close>

lemma dlist_unlink:
  assumes l: "dlist nxt prv p (us @ a # vs)"
    and nxt': "nxt' = (if prv a = 0 then nxt else nxt(prv a := nxt a))"
    and prv': "prv' = (if nxt a = 0 then prv else prv(nxt a := prv a))"
  shows "dlist nxt' prv' (if prv a = 0 then nxt a else p) (us @ vs)"
    and "prv a = last_or 0 us" "nxt a = head_or vs 0"
proof -
  have nz: "0 \<notin> set (us @ a # vs)" and dt: "distinct (us @ a # vs)" using dlist_nonnull [OF l] dlist_distinct [OF l] by auto
  have s: "dlseg nxt prv 0 p us a" "prv a = last_or 0 us" "dlseg nxt prv a (nxt a) vs 0"
    using l by (auto simp: dlseg_append)
  show pa: "prv a = last_or 0 us" by (rule s(2))
  show na: "nxt a = head_or vs 0" by (rule dlseg_start [OF s(3)])
  have p0: "prv a = 0 \<longleftrightarrow> us = []" using s(2) nz by (cases us rule: rev_cases) auto
  have n0: "nxt a = 0 \<longleftrightarrow> vs = []" using na nz by (cases vs) auto
  have us: "dlseg nxt' prv' 0 (if prv a = 0 then nxt a else p) us (nxt a)"
  proof (cases us rule: rev_cases)
    case Nil
    then show ?thesis using p0 by simp
  next
    case (snoc ys y)
    have y: "prv a = y" "y \<notin> set ys" using s(2) snoc dt by auto
    have "dlseg (nxt(y := nxt a)) prv 0 p us (nxt a)" using dlseg_redirect [of nxt prv 0 p ys y a "nxt a"] s(1) snoc y by simp
    moreover have "dlseg nxt' prv' 0 p us (nxt a) = dlseg (nxt(y := nxt a)) prv 0 p us (nxt a)"
      using y nxt' prv' na nz dt snoc by (intro dlseg_cong) (cases vs; auto)
    ultimately show ?thesis using p0 snoc by simp
  qed
  have "dlseg nxt' prv' (prv a) (nxt a) vs 0"
  proof (cases vs)
    case Nil
    then show ?thesis using n0 by simp
  next
    case (Cons v zs)
    have pv: "prv a \<notin> set vs" using pa p0 dt nz by (cases us rule: rev_cases) auto
    have "dlseg nxt' prv' v (nxt v) zs 0 = dlseg nxt prv v (nxt v) zs 0"
      using Cons na nxt' prv' pv dt by (intro dlseg_cong) auto
    moreover have "nxt' v = nxt v" using Cons nxt' pv by auto
    ultimately show ?thesis using s(3) Cons na prv' n0 by simp
  qed
  then show "dlist nxt' prv' (if prv a = 0 then nxt a else p) (us @ vs)"
    using us unfolding dlseg_append na [symmetric] pa [symmetric] by blast
qed

end
