(* ===== verification/Segment_Pages.thy ===== *)
theory Segment_Pages
  imports Segment Linked_List
begin

text \<open>
  The page list of a segment as a doubly linked list, and the effect of the operations that change it:
  \<open>remove_logical_page\<close> unlinks, \<open>grow\<close> appends, \<open>find_page\<close> searches.  \<open>seg_inv\<close> is the invariant of a
  segment: the list is well formed, every page in it satisfies the contract of its class with its own
  live payloads, and the extents of the pages are disjoint.
\<close>

subsection \<open>Reading an updated world\<close>

lemma upd_page_simps [simp]:
  "ram (upd_page p f w) = ram w" "vm (upd_page p f w) = vm w" "pointer_pages (upd_page p f w) = pointer_pages w"
  "arena (upd_page p f w) = arena w" "pages (upd_page p f w) = (pages w)(p := f (pages w p))"
  by (simp_all add: upd_page_def)

lemma put_page_simps [simp]:
  "ram (put_page p s w) = snd s" "vm (put_page p s w) = vm w" "pointer_pages (put_page p s w) = pointer_pages w"
  "arena (put_page p s w) = arena w" "pages (put_page p s w) = (pages w)(p := fst s)"
  by (simp_all add: put_page_def)

lemma get_page_simps [simp]: "fst (get_page p w) = pages w p" "snd (get_page p w) = ram w"
  by (simp_all add: get_page_def)

lemma put_get_page [simp]: "put_page p (get_page p w) w = w"
  by (simp add: put_page_def get_page_def)

lemma links_upd [simp]:
  "(\<lambda>q. get_next_logical_page (((pages w)(p := set_next_logical_page v h)) q)) = (next_page w)(p := v)"
  "get_previous_logical_page (set_next_logical_page v h) = get_previous_logical_page h"
  "get_next_logical_page (set_previous_logical_page v h) = get_next_logical_page h"
  "get_next_logical_page (set_next_logical_page v h) = v"
  "get_previous_logical_page (set_previous_logical_page v h) = v"
  "get_next_logical_page (mark_as_used h) = get_next_logical_page h"
  "get_previous_logical_page (mark_as_used h) = get_previous_logical_page h"
  "get_next_logical_page (mark_as_non_used h) = get_next_logical_page h"
  "get_previous_logical_page (mark_as_non_used h) = get_previous_logical_page h"
  by (auto simp: page_link_defs page_flag_defs)

subsection \<open>The page list\<close>

definition seg_pages :: "Segment \<Rightarrow> world \<Rightarrow> u64 list \<Rightarrow> bool" where
  "seg_pages sg w ps \<longleftrightarrow> dlist (next_page w) (prev_page w) (seg_head sg) ps \<and> seg_tail sg = last_or 0 ps
     \<and> unat (seg_logical_page_count sg) = length ps \<and> (seg_last_used sg = 0 \<or> seg_last_used sg \<in> set ps)"

text \<open>A change of the world that touches nothing but the links and flags of pages.\<close>

definition relinked :: "world \<Rightarrow> world \<Rightarrow> bool" where
  "relinked w w' \<longleftrightarrow> (\<exists>g. w' = w\<lparr>pages := g\<rparr> \<and> (\<forall>p. same_core (pages w p) (g p)))"

lemma relinked_refl [simp]: "relinked w w"
  by (auto simp: relinked_def intro!: exI [of _ "pages w"])

lemma relinked_upd:
  assumes "relinked w w'" "\<And>h. same_core h (f h)"
  shows "relinked w (upd_page p f w')"
proof -
  obtain g where g: "w' = w\<lparr>pages := g\<rparr>" "\<And>p. same_core (pages w p) (g p)" using assms(1) by (auto simp: relinked_def)
  have "upd_page p f w' = w\<lparr>pages := g(p := f (g p))\<rparr>" using g(1) by (simp add: upd_page_def)
  moreover have "same_core (pages w q) ((g(p := f (g p))) q)" for q
    using g(2) same_core_trans [OF g(2) assms(2)] by simp
  ultimately show ?thesis unfolding relinked_def by blast
qed

text \<open>What \<open>remove_logical_page\<close> may change of the segment itself.\<close>

definition same_segment :: "Segment \<Rightarrow> Segment \<Rightarrow> bool" where
  "same_segment sg sg' \<longleftrightarrow> sg'\<lparr>seg_head := 0, seg_tail := 0, seg_last_used := 0, seg_logical_page_count := 0,
      seg_deallocation_queue := DeallocationQueue_new, seg_lock := 0\<rparr>
    = sg\<lparr>seg_head := 0, seg_tail := 0, seg_last_used := 0, seg_logical_page_count := 0,
      seg_deallocation_queue := DeallocationQueue_new, seg_lock := 0\<rparr>"

lemma same_segment_fields:
  assumes "same_segment sg sg'"
  shows "seg_size_class sg' = seg_size_class sg" "seg_logical_page_size sg' = seg_logical_page_size sg"
    "seg_max_object_size sg' = seg_max_object_size sg" "seg_logical_page_object_size sg' = seg_logical_page_object_size sg"
    "seg_buffer_length sg' = seg_buffer_length sg" "seg_page_recycling_threshold sg' = seg_page_recycling_threshold sg"
    "seg_grow_coefficient sg' = seg_grow_coefficient sg"
  using assms unfolding same_segment_def by (cases sg; cases sg'; simp)+

lemma same_segment_refl [simp]: "same_segment sg sg"
  by (simp add: same_segment_def)

lemma same_segment_trans: "same_segment sg sg' \<Longrightarrow> same_segment sg' sg'' \<Longrightarrow> same_segment sg sg''"
  by (simp add: same_segment_def)

lemma remove_logical_page_effect:
  assumes "remove_logical_page a (sg, w) = (sg', w')"
  shows "next_page w' = (if prev_page w a = 0 then next_page w else (next_page w)(prev_page w a := next_page w a))"
    and "prev_page w' = (if next_page w a = 0 then prev_page w else (prev_page w)(next_page w a := prev_page w a))"
    and "relinked w w'" "same_segment sg sg'" "seg_lock sg' = seg_lock sg"
    "seg_deallocation_queue sg' = seg_deallocation_queue sg"
    and "\<And>q. q \<notin> {prev_page w a, next_page w a} - {0} \<Longrightarrow> pages w' q = pages w q"
proof -
  let ?n = "next_page w a" and ?p = "prev_page w a"
  let ?w1 = "if ?p = 0 then w else upd_page ?p (set_next_logical_page ?n) w"
  have w': "w' = (if ?n \<noteq> 0 then upd_page ?n (set_previous_logical_page ?p) ?w1 else ?w1)"
    using assms by (auto simp: remove_logical_page_def Let_def split: if_splits)
  show "relinked w w'" unfolding w' by (auto intro!: relinked_upd)
  show "next_page w' = (if ?p = 0 then next_page w else (next_page w)(?p := ?n))"
    "prev_page w' = (if ?n = 0 then prev_page w else (prev_page w)(?n := ?p))"
    unfolding w' by (auto simp: fun_eq_iff)
  show "pages w' q = pages w q" if "q \<notin> {?p, ?n} - {0}" for q using that unfolding w' by auto
  show "same_segment sg sg'" "seg_lock sg' = seg_lock sg" "seg_deallocation_queue sg' = seg_deallocation_queue sg"
    using assms by (auto simp: remove_logical_page_def Let_def same_segment_def split: if_splits)
qed

lemma remove_logical_page_ok:
  assumes s: "seg_pages sg w (us @ a # vs)" and r: "remove_logical_page a (sg, w) = (sg', w')"
  shows "seg_pages sg' w' (us @ vs)"
proof -
  note e = remove_logical_page_effect [OF r]
  have l: "dlist (next_page w) (prev_page w) (seg_head sg) (us @ a # vs)" using s by (simp add: seg_pages_def)
  note u = dlist_unlink [OF l e(1,2)]
  have nz: "0 \<notin> set (us @ a # vs)" and dt: "distinct (us @ a # vs)" using dlist_nonnull [OF l] dlist_distinct [OF l] by auto
  have nx: "next_page w v = head_or zs 0" if "vs = v # zs" for v zs
    using l that dlseg_start by (auto simp: dlseg_append)
  have hd: "seg_head sg' = (if prev_page w a = 0 then next_page w a else seg_head sg)"
    using r by (auto simp: remove_logical_page_def Let_def split: if_splits)
  have tl: "seg_tail sg' = last_or 0 (us @ vs)"
  proof (cases us rule: rev_cases)
    case Nil
    then show ?thesis using r u(2,3) s nx nz
      by (cases vs; cases "tl vs") (auto simp: remove_logical_page_def Let_def seg_pages_def last_or_def split: if_splits)
  next
    case (snoc ys y)
    have "seg_tail sg = a \<longleftrightarrow> vs = []" using s dt by (cases vs rule: rev_cases) (auto simp: seg_pages_def)
    then show ?thesis using r u(2,3) s snoc nz
      by (auto simp: remove_logical_page_def Let_def seg_pages_def last_or_def split: if_splits)
  qed
  have "unat (seg_logical_page_count sg) = Suc (length (us @ vs))" using s by (simp add: seg_pages_def)
  moreover have "seg_logical_page_count sg' = seg_logical_page_count sg - 1"
    using r by (auto simp: remove_logical_page_def Let_def split: if_splits)
  ultimately have ct: "unat (seg_logical_page_count sg') = length (us @ vs)" by (simp add: unat_sub_nowrap)
  have lu: "seg_last_used sg' = (if seg_last_used sg = a then if prev_page w a \<noteq> 0 then prev_page w a else next_page w a
      else seg_last_used sg)"
    using r by (auto simp: remove_logical_page_def Let_def split: if_splits)
  have "last_or 0 us = 0 \<or> last_or 0 us \<in> set us" "head_or vs 0 = 0 \<or> head_or vs 0 \<in> set vs"
    by (cases us rule: rev_cases; simp) (cases vs; simp)
  then have "seg_last_used sg' = 0 \<or> seg_last_used sg' \<in> set (us @ vs)"
    using lu u(2,3) s by (auto simp: seg_pages_def)
  then show ?thesis using u(1) hd tl ct by (simp add: seg_pages_def)
qed

subsection \<open>Searching the list\<close>

lemma find_page_loop_ok:
  assumes "path (next_page w) iter ps 0"
  shows "find_page x n w iter = Some (case find (\<lambda>p. p \<le> x \<and> x < p + n) ps of None \<Rightarrow> 0 | Some p \<Rightarrow> p)"
  using assms
proof (induction ps arbitrary: iter)
  case Nil
  then show ?case by (simp add: find_page.simps)
next
  case (Cons p ps)
  then show ?case by (subst find_page.simps) auto
qed

lemma find_page_ok:
  assumes "seg_pages sg w ps" "p \<in> set ps" "p \<le> x" "x < p + n"
    and "\<And>q. q \<in> set ps \<Longrightarrow> q \<le> x \<Longrightarrow> x < q + n \<Longrightarrow> q = p"
  shows "find_page x n w (seg_head sg) = Some p"
proof -
  have "find (\<lambda>p. p \<le> x \<and> x < p + n) ps = Some p"
    using assms(2-5)
  proof (induction ps)
    case (Cons q ps)
    show ?case
    proof (cases "q \<le> x \<and> x < q + n")
      case True
      then show ?thesis using Cons.prems(4) [of q] by simp
    next
      case False
      then have "q \<noteq> p" using Cons.prems(2,3) by blast
      then have "find (\<lambda>p. p \<le> x \<and> x < p + n) ps = Some p"
        using Cons.prems by (intro Cons.IH) simp_all
      then show ?thesis using False by auto
    qed
  qed simp
  then show ?thesis using find_page_loop_ok [OF dlseg_path, of w "prev_page w" 0 "seg_head sg" ps x n] assms(1)
    by (simp add: seg_pages_def)
qed

subsection \<open>The invariant of a segment\<close>

abbreviation extent :: "Segment \<Rightarrow> u64 \<Rightarrow> nat set" where
  "extent sg p \<equiv> region p (unat (seg_logical_page_size sg))"

definition extents :: "Segment \<Rightarrow> u64 list \<Rightarrow> nat set" where
  "extents sg ps = (\<Union>p\<in>set ps. extent sg p)"

text \<open>The fixed parameters of a segment whose pages can be created.\<close>

definition seg_static :: "segment_policy \<Rightarrow> Segment \<Rightarrow> bool" where
  "seg_static P sg \<longleftrightarrow> seg_logical_page_object_size sg = 64 \<and> 4096 dvd unat (seg_logical_page_size sg)
     \<and> 0 < unat (seg_logical_page_size sg) \<and> seg_max_object_size sg = seg_logical_page_size sg - 64
     \<and> (if supports_any_size (page_type P) then seg_logical_page_size sg - 64 \<le> MAX_BLOCK_SIZE
        else 8 \<le> unat (seg_size_class sg) \<and> unat (seg_size_class sg) \<le> unat (seg_logical_page_size sg) - 64)
     \<and> (buffer_aligned_to_logical_page_size P \<longrightarrow> is_power_of_two (seg_logical_page_size sg))"

lemma seg_static_upd [simp]:
  "seg_static P (sg\<lparr>seg_tail := a\<rparr>) = seg_static P sg" "seg_static P (sg\<lparr>seg_head := a\<rparr>) = seg_static P sg"
  "seg_static P (sg\<lparr>seg_last_used := a\<rparr>) = seg_static P sg" "seg_static P (sg\<lparr>seg_logical_page_count := a\<rparr>) = seg_static P sg"
  "seg_static P (sg\<lparr>seg_lock := l\<rparr>) = seg_static P sg" "seg_static P (sg\<lparr>seg_deallocation_queue := q\<rparr>) = seg_static P sg"
  by (simp_all add: seg_static_def)

text \<open>Where a page may start: at a granule of the system, and at a multiple of the page size where the
  segment finds pages by masking.\<close>

definition page_aligned :: "segment_policy \<Rightarrow> Segment \<Rightarrow> u64 \<Rightarrow> bool" where
  "page_aligned P sg p \<longleftrightarrow> 4096 dvd unat p
     \<and> (buffer_aligned_to_logical_page_size P \<longrightarrow> unat (seg_logical_page_size sg) dvd unat p)"

lemma page_aligned_granule: "page_aligned P sg p \<Longrightarrow> 4096 dvd unat p"
  by (simp add: page_aligned_def)

lemma page_aligned_cong: "seg_logical_page_size sg' = seg_logical_page_size sg \<Longrightarrow> page_aligned P sg' p = page_aligned P sg p"
  by (simp add: page_aligned_def)

lemma page_aligned_block:
  "page_aligned P sg b \<Longrightarrow> seg_static P sg \<Longrightarrow> unat p = unat b + i * unat (seg_logical_page_size sg) \<Longrightarrow> page_aligned P sg p"
  by (simp add: page_aligned_def seg_static_def)

text \<open>A page of the segment with its live payloads.\<close>

definition page_ok :: "segment_policy \<Rightarrow> Segment \<Rightarrow> world \<Rightarrow> u64 \<Rightarrow> (u64 \<rightharpoonup> nat) \<Rightarrow> bool" where
  "page_ok P sg w p A \<longleftrightarrow> p \<noteq> 0 \<and> page_aligned P sg p \<and> unat p + unat (seg_logical_page_size sg) < 2 ^ 64
     \<and> m_logical_page_start_address (pages w p) = p + 64
     \<and> m_logical_page_size (pages w p) = seg_logical_page_size sg - 64
     \<and> m_size_class (pages w p) = seg_size_class sg \<and> page_inv (page_type P) (get_page p w) A"

definition seg_inv :: "segment_policy \<Rightarrow> Segment \<Rightarrow> world \<Rightarrow> u64 list \<Rightarrow> (u64 \<Rightarrow> u64 \<rightharpoonup> nat) \<Rightarrow> bool" where
  "seg_inv P sg w ps A \<longleftrightarrow> seg_static P sg \<and> seg_pages sg w ps \<and> (\<forall>p\<in>set ps. page_ok P sg w p (A p))
     \<and> (\<forall>p\<in>set ps. \<forall>q\<in>set ps. p \<noteq> q \<longrightarrow> extent sg p \<inter> extent sg q = {})"

lemma seg_static_size:
  assumes "seg_static P sg"
  shows "4096 \<le> unat (seg_logical_page_size sg)" "unat (seg_logical_page_size sg - 64) = unat (seg_logical_page_size sg) - 64"
proof -
  show *: "4096 \<le> unat (seg_logical_page_size sg)" using assms by (auto simp: seg_static_def intro: dvd_imp_le)
  then show "unat (seg_logical_page_size sg - 64) = unat (seg_logical_page_size sg) - 64" by (simp add: unat_sub_nowrap)
qed

text \<open>The header is in front of the buffer, and both make up the extent.\<close>

lemma page_region_extent:
  assumes "seg_static P sg" "page_ok P sg w p A"
  shows "page_region (pages w p) = {unat p + 64..<unat p + unat (seg_logical_page_size sg)}"
    "page_region (pages w p) \<subseteq> extent sg p" "unat (p + 64) = unat p + 64"
proof -
  have n: "4096 \<le> unat (seg_logical_page_size sg)" "unat p + unat (seg_logical_page_size sg) < 2 ^ 64"
    using seg_static_size(1) [OF assms(1)] assms(2) by (auto simp: page_ok_def)
  show p: "unat (p + 64) = unat p + 64" using n by (subst unat_add_nowrap) simp_all
  show "page_region (pages w p) = {unat p + 64..<unat p + unat (seg_logical_page_size sg)}"
    using assms(2) p n seg_static_size(2) [OF assms(1)] by (simp add: page_ok_def region_def)
  then show "page_region (pages w p) \<subseteq> extent sg p" by (auto simp: region_def)
qed

lemma seg_inv_pages:
  assumes "seg_inv P sg w ps A" "p \<in> set ps"
  shows "page_ok P sg w p (A p)" "seg_static P sg" "page_inv (page_type P) (get_page p w) (A p)"
  using assms by (auto simp: seg_inv_def page_ok_def)

lemma seg_inv_distinct: "seg_inv P sg w ps A \<Longrightarrow> distinct ps"
  by (auto simp: seg_inv_def seg_pages_def dest: dlist_distinct)

text \<open>A page survives every change that leaves its header (links and flags apart) and the bytes of its
  buffer alone.\<close>

lemma page_ok_stable:
  assumes st: "seg_static P sg" and ok: "page_ok P sg w p A" and core: "same_core (pages w p) (pages w' p)"
    and same: "\<And>x. unat x \<in> extent sg p \<Longrightarrow> ram w' x = ram w x"
    and sg: "seg_logical_page_size sg' = seg_logical_page_size sg" "seg_size_class sg' = seg_size_class sg"
  shows "page_ok P sg' w' p A"
proof -
  have "page_inv (page_type P) (pages w' p, ram w') A"
  proof (rule page.stable)
    show "page_inv (page_type P) (pages w p, ram w) A" using ok by (simp add: page_ok_def get_page_def)
    show "same_core (pages w p) (pages w' p)" by (rule core)
    fix x assume "ram w' x \<noteq> ram w x"
    then have "unat x \<notin> page_region (pages w p)" using same page_region_extent(2) [OF st ok] by blast
    then show "unat x \<notin> page_region (pages w p) \<or> (\<exists>p k. A p = Some k \<and> unat x \<in> region p k)" ..
  qed
  then show ?thesis using ok same_core_fields [OF core] sg by (simp add: page_ok_def get_page_def page_aligned_cong [OF sg(1)])
qed

text \<open>An operation of the page class on one page of the segment.\<close>

lemma put_page_ok:
  assumes inv: "seg_inv P sg w ps A" and p: "p \<in> set ps"
    and new: "page_inv (page_type P) s A'" and fr: "page_frame B (get_page p w) s"
  shows "seg_inv P sg (put_page p s w) ps (A(p := A'))"
proof -
  note sp = same_place_fields [of "pages w p" "fst s"]
  have pl: "same_place (pages w p) (fst s)" using fr by (simp add: page_frame_def get_page_def)
  have st: "seg_static P sg" and pk: "\<And>q. q \<in> set ps \<Longrightarrow> page_ok P sg w q (A q)"
    and dj: "\<And>q. q \<in> set ps \<Longrightarrow> q \<noteq> p \<Longrightarrow> extent sg p \<inter> extent sg q = {}"
    using inv p by (auto simp: seg_inv_def)
  have bytes: "snd s x = ram w x" if "unat x \<notin> extent sg p" for x
    using fr that page_region_extent(2) [OF st pk [OF p]] unfolding page_frame_def get_page_def fst_conv snd_conv by blast
  have lk: "next_page (put_page p s w) = next_page w" "prev_page (put_page p s w) = prev_page w"
    using sp [OF pl] by (auto simp: page_link_defs)
  then have "seg_pages sg (put_page p s w) ps" using inv by (simp add: seg_inv_def seg_pages_def)
  moreover have "page_ok P sg (put_page p s w) q ((A(p := A')) q)" if q: "q \<in> set ps" for q
  proof (cases "q = p")
    case True
    then show ?thesis using pk [OF p] sp [OF pl] new by (simp add: page_ok_def get_page_def)
  next
    case False
    have "page_ok P sg (put_page p s w) q (A q)"
    proof (rule page_ok_stable [OF st pk [OF q]])
      show "ram (put_page p s w) x = ram w x" if "unat x \<in> extent sg q" for x
        using bytes dj [OF q False] that by fastforce
    qed (use False in simp_all)
    then show ?thesis using False by simp
  qed
  ultimately show ?thesis using inv by (simp add: seg_inv_def)
qed

subsection \<open>Next-fit search\<close>

text \<open>The requests a segment may get: the heaps ask a segment of one size class for at most that
  class.\<close>

definition seg_fit :: "segment_policy \<Rightarrow> Segment \<Rightarrow> u64 \<Rightarrow> bool" where
  "seg_fit P sg sz \<longleftrightarrow> (if supports_any_size (page_type P) then unat sz + 32 < 2 ^ 64
     else unat sz \<le> unat (seg_size_class sg))"

lemma seg_fit_page: "seg_fit P sg sz \<Longrightarrow> page_ok P sg w p A \<Longrightarrow> page_fit (page_type P) sz (get_page p w)"
  by (cases "page_type P") (auto simp: seg_fit_def page_ok_def get_page_def lp_fit_def any_fit_def page_fit.simps)

text \<open>Either no page on the way can serve the request and nothing changes, or the first that can does.\<close>

lemma search_pages_ok:
  assumes inv: "seg_inv P sg w ps A" and fit: "seg_fit P sg sz"
    and "path (next_page w) iter xs stop" "set xs \<subseteq> set ps" "stop \<notin> set xs"
  shows "(\<forall>p\<in>set xs. page_allocate (page_type P) sz (get_page p w) = Some (0, get_page p w))
      \<and> search_pages (page_type P) sz stop iter w = Some (0, stop, w)
    \<or> (\<exists>us p vs r s. xs = us @ p # vs \<and> r \<noteq> 0
      \<and> (\<forall>q\<in>set us. page_allocate (page_type P) sz (get_page q w) = Some (0, get_page q w))
      \<and> page_allocate (page_type P) sz (get_page p w) = Some (r, s)
      \<and> search_pages (page_type P) sz stop iter w = Some (r, p, put_page p s w))"
  using assms(3-5)
proof (induction xs arbitrary: iter)
  case Nil
  then show ?case by (simp add: search_pages.simps)
next
  case (Cons x xs)
  have x: "iter = x" "x \<noteq> 0" "x \<noteq> stop" "x \<in> set ps" "path (next_page w) (next_page w x) xs stop"
    using Cons.prems by auto
  note pi = seg_inv_pages [OF inv x(4)]
  have f: "page_fit (page_type P) sz (get_page x w)" by (rule seg_fit_page [OF fit pi(1)])
  obtain r s where a: "page_allocate (page_type P) sz (get_page x w) = Some (r, s)"
    using page.alloc_total [OF pi(3) f] by blast
  show ?case
  proof (cases "r = 0")
    case True
    then have s: "s = get_page x w" using page.alloc_null [OF pi(3) f] a by blast
    have un: "search_pages (page_type P) sz stop iter w = search_pages (page_type P) sz stop (next_page w x) w"
      using x(1-3) a True s by (subst search_pages.simps) simp
    from Cons.IH [OF x(5)] Cons.prems consider
      (none) "\<forall>p\<in>set xs. page_allocate (page_type P) sz (get_page p w) = Some (0, get_page p w)"
        "search_pages (page_type P) sz stop (next_page w x) w = Some (0, stop, w)"
      | (some) us p vs r s where "xs = us @ p # vs" "r \<noteq> 0"
        "\<forall>q\<in>set us. page_allocate (page_type P) sz (get_page q w) = Some (0, get_page q w)"
        "page_allocate (page_type P) sz (get_page p w) = Some (r, s)"
        "search_pages (page_type P) sz stop (next_page w x) w = Some (r, p, put_page p s w)"
      by auto
    then show ?thesis
    proof cases
      case none
      then show ?thesis using a True s un by simp
    next
      case some
      then show ?thesis using a True s un
        by (metis append_Cons set_ConsD)
    qed
  next
    case False
    have "search_pages (page_type P) sz stop iter w = Some (r, x, put_page x s w)"
      using x(1-3) a False by (subst search_pages.simps) simp
    moreover have "x # xs = [] @ x # xs" by simp
    ultimately show ?thesis using a False by (metis empty_iff list.set(1))
  qed
qed

text \<open>The two passes of \<open>allocate_internal\<close> together visit every page of the segment.\<close>

lemma allocate_internal_cases:
  assumes inv: "seg_inv P sg w ps A" and fit: "seg_fit P sg sz" and sz: "sz \<le> seg_max_object_size sg"
  obtains (served) p r s where "p \<in> set ps" "r \<noteq> 0" "page_allocate (page_type P) sz (get_page p w) = Some (r, s)"
      "allocate_internal P os sz (sg, w) = Some (r, (sg\<lparr>seg_last_used := p\<rparr>, put_page p s w))"
  | (full) "\<forall>p\<in>set ps. page_allocate (page_type P) sz (get_page p w) = Some (0, get_page p w)"
      "allocate_internal P os sz (sg, w) = (if concurrency_policy P = THREAD_LOCAL then Some (0, (sg, w))
        else allocate_by_growing P os sz (sg, w))"
proof -
  have nsz: "\<not> seg_max_object_size sg < sz" using sz by simp
  have l: "dlist (next_page w) (prev_page w) (seg_head sg) ps" and lu: "seg_last_used sg = 0 \<or> seg_last_used sg \<in> set ps"
    using inv by (auto simp: seg_inv_def seg_pages_def)
  have dt: "distinct ps" and nz: "0 \<notin> set ps" using dlist_distinct [OF l] dlist_nonnull [OF l] by auto
  have "\<exists>us vs. ps = us @ vs \<and> (if seg_last_used sg = 0 then us = [] else vs \<noteq> [] \<and> hd vs = seg_last_used sg)"
  proof (cases "seg_last_used sg = 0")
    case False
    then obtain us vs where "ps = us @ seg_last_used sg # vs" using lu by (meson split_list)
    then show ?thesis using False by (intro exI [of _ us] exI [of _ "seg_last_used sg # vs"]) simp
  qed auto
  then obtain us vs where ps: "ps = us @ vs"
    and st: "if seg_last_used sg = 0 then us = [] else vs \<noteq> [] \<and> hd vs = seg_last_used sg" by blast
  let ?start = "if seg_last_used sg \<noteq> 0 then seg_last_used sg else seg_head sg"
  have "path (next_page w) (seg_head sg) (us @ vs) 0" using dlseg_path [OF l] ps by simp
  then obtain m where m: "path (next_page w) (seg_head sg) us m" "path (next_page w) m vs 0" by (auto simp: path_append)
  have ms: "m = ?start" using m st by (cases vs) (auto split: if_splits)
  have v: "path (next_page w) ?start vs 0" "set vs \<subseteq> set ps" "0 \<notin> set vs" using m ms ps nz by auto
  note s1 = search_pages_ok [OF inv fit v]
  show ?thesis
  proof (cases "\<forall>p\<in>set vs. page_allocate (page_type P) sz (get_page p w) = Some (0, get_page p w)")
    case False
    then obtain xs p ys r s where "vs = xs @ p # ys" "r \<noteq> 0" "page_allocate (page_type P) sz (get_page p w) = Some (r, s)"
      "search_pages (page_type P) sz 0 ?start w = Some (r, p, put_page p s w)" using s1 by blast
    then show ?thesis using served [of p r s] ps nsz by (simp add: allocate_internal_def)
  next
    case none1: True
    then have e1: "search_pages (page_type P) sz 0 ?start w = Some (0, 0, w)" using s1 by fastforce
    show ?thesis
    proof (cases "seg_last_used sg = 0")
      case True
      have "allocate_internal P os sz (sg, w) = (if concurrency_policy P = THREAD_LOCAL then Some (0, (sg, w))
        else allocate_by_growing P os sz (sg, w))"
        using True e1 nsz by (cases "concurrency_policy P") (simp_all add: allocate_internal_def)
      then show ?thesis using full none1 ps st True by simp
    next
      case False
      have u: "path (next_page w) (seg_head sg) us (seg_last_used sg)" "set us \<subseteq> set ps" "seg_last_used sg \<notin> set us"
        using m(1) ms False ps st dt by (cases vs; auto)+
      note s2 = search_pages_ok [OF inv fit u]
      show ?thesis
      proof (cases "\<forall>p\<in>set us. page_allocate (page_type P) sz (get_page p w) = Some (0, get_page p w)")
        case True
        then have "search_pages (page_type P) sz (seg_last_used sg) (seg_head sg) w = Some (0, seg_last_used sg, w)"
          using s2 by fastforce
        then have "allocate_internal P os sz (sg, w) = (if concurrency_policy P = THREAD_LOCAL then Some (0, (sg, w))
          else allocate_by_growing P os sz (sg, w))"
          using False e1 nsz by (cases "concurrency_policy P") (simp_all add: allocate_internal_def)
        then show ?thesis using full none1 True ps by (simp add: ball_Un)
      next
        case nn: False
        then obtain xs p ys r s where "us = xs @ p # ys" "r \<noteq> 0" "page_allocate (page_type P) sz (get_page p w) = Some (r, s)"
          "search_pages (page_type P) sz (seg_last_used sg) (seg_head sg) w = Some (r, p, put_page p s w)" using s2 by blast
        then show ?thesis using served [of p r s] ps nsz e1 False by (simp add: allocate_internal_def)
      qed
    qed
  qed
qed

subsection \<open>New pages\<close>

lemma lp_push_fold_links:
  "fold (\<lambda>i. LogicalPage_push (f i)) xs (h, m) = (h', m') \<Longrightarrow> h'\<lparr>m_head := 0\<rparr> = h\<lparr>m_head := 0\<rparr>"
proof (induction xs arbitrary: h m)
  case (Cons x xs)
  then show ?case using Cons.IH [of "h\<lparr>m_head := f x\<rparr>" "store64 m (f x) (m_head h)"] by simp
qed simp

lemma page_create_links:
  assumes "page_create pt buffer n sz_class (h, m) = (True, (h', m'))"
  shows "m_next_logical_page_ptr h' = 0 \<and> m_prev_logical_page_ptr h' = 0"
proof (cases pt)
  case LOGICAL_PAGE
  let ?h = "(initialise h)\<lparr>m_size_class := sz_class, m_logical_page_start_address := buffer, m_logical_page_size := n\<rparr>"
  have "LogicalPage_grow buffer n (?h, m) = (h', m')"
    using assms LOGICAL_PAGE by (auto simp: page_create.simps Let_def split: if_splits)
  then have "h'\<lparr>m_head := 0\<rparr> = ?h\<lparr>m_head := 0\<rparr>" by (auto simp: Let_def dest: lp_push_fold_links)
  then show ?thesis by (cases h; cases h') (simp add: initialise_def)
next
  case (LOGICAL_PAGE_ANY_SIZE cp)
  then show ?thesis using assms
    by (auto simp: page_create.simps Let_def initialise_def LogicalPageAnySize_insert.simps split: if_splits)
qed

lemma page_create_succeeds:
  assumes st: "seg_static P sg" and p: "p \<noteq> 0" "page_aligned P sg p" "unat p + unat (seg_logical_page_size sg) < 2 ^ 64"
  shows "fst (page_create (page_type P) (p + 64) (seg_logical_page_size sg - 64) (seg_size_class sg) s)"
proof -
  obtain h m where s: "s = (h, m)" by (cases s)
  note n = seg_static_size [OF st]
  have "unat (p + 64) = unat p + 64" using p(3) n(1) by (subst unat_add_nowrap) simp_all
  then have "p + 64 \<noteq> 0" using unat_neq_0_iff [of "p + 64"] by simp
  then show ?thesis using st page_aligned_granule [OF p(2)] n s
    by (cases "page_type P")
      (auto simp: page_create.simps seg_static_def Let_def granularity_aligned_iff sizeof_LogicalPageHeader_def NODE_SIZE_def
        word_less_nat_alt word_le_nat_alt)
qed

text \<open>A change of the world within the bytes \<open>X\<close> and the headers of the pages \<open>Q\<close>.\<close>

definition touched :: "nat set \<Rightarrow> u64 set \<Rightarrow> world \<Rightarrow> world \<Rightarrow> bool" where
  "touched X Q w w' \<longleftrightarrow> vm w' = vm w \<and> arena w' = arena w \<and> pointer_pages w' = pointer_pages w
     \<and> (\<forall>x. unat x \<notin> X \<longrightarrow> ram w' x = ram w x) \<and> (\<forall>q. q \<notin> Q \<longrightarrow> pages w' q = pages w q)"

lemma touched_refl [simp]: "touched X Q w w"
  by (simp add: touched_def)

lemma touched_trans:
  "touched X Q w w' \<Longrightarrow> touched Y R w' w'' \<Longrightarrow> X \<subseteq> Z \<Longrightarrow> Y \<subseteq> Z \<Longrightarrow> Q \<subseteq> S \<Longrightarrow> R \<subseteq> S \<Longrightarrow> touched Z S w w''"
  unfolding touched_def by (metis subsetD)

lemma create_new_logical_page_ok:
  assumes st: "seg_static P sg" and p: "p \<noteq> 0" "page_aligned P sg p" "unat p + unat (seg_logical_page_size sg) < 2 ^ 64"
  obtains w' where "create_new_logical_page P os buffer p (sg, w)
      = (True, (sg\<lparr>seg_logical_page_count := seg_logical_page_count sg + 1\<rparr>, w'))"
    "page_ok P sg w' p Map.empty" "next_page w' p = 0" "prev_page w' p = 0" "touched (extent sg p) {p} w w'"
proof -
  let ?n = "seg_logical_page_size sg" and ?w = "upd_page p initialise w"
  have o: "seg_logical_page_object_size sg = 64" using st by (simp add: seg_static_def)
  note n = seg_static_size [OF st]
  have p64: "unat (p + 64) = unat p + 64" using p(3) n(1) by (subst unat_add_nowrap) simp_all
  obtain h m where "page_create (page_type P) (p + 64) (?n - 64) (seg_size_class sg) (get_page p ?w) = (True, (h, m))"
    using page_create_succeeds [OF st p] by (metis prod.collapse)
  then have c: "page_create (page_type P) (p + 64) (?n - 64) (seg_size_class sg) (pages ?w p, ram ?w) = (True, (h, m))"
    by (simp add: get_page_def)
  note ck = page_create_ok [OF c] page_create_links [OF c]
  have nw: "unat (p + 64) + unat (?n - 64) < 2 ^ 64" using p64 n p(3) by simp
  let ?w' = "upd_page p mark_as_used (put_page p (h, m) ?w)"
  show ?thesis
  proof (rule that [of ?w'])
    show "create_new_logical_page P os buffer p (sg, w)
        = (True, (sg\<lparr>seg_logical_page_count := seg_logical_page_count sg + 1\<rparr>, ?w'))"
      using c o by (simp add: create_new_logical_page_def Let_def get_page_def)
    have "page_inv (page_type P) (mark_as_used h, m) Map.empty"
      using page.stable [OF ck(1) [OF nw], of "mark_as_used h" m] by simp
    then show "page_ok P sg ?w' p Map.empty"
      using p ck(2-5) [OF nw] by (simp add: page_ok_def get_page_def page_flag_defs)
    show "next_page ?w' p = 0" "prev_page ?w' p = 0" using ck(7) by (simp_all add: page_link_defs page_flag_defs)
    have "region (p + 64) (unat (?n - 64)) \<subseteq> extent sg p" using p64 n by (auto simp: region_def)
    then show "touched (extent sg p) {p} w ?w'" using ck(6) [OF nw] by (auto simp: touched_def simp del: in_region_iff)
  qed
qed

lemma distinct_pages_bound:
  assumes "distinct xs" "0 \<notin> set xs"
  shows "length (xs :: u64 list) < 2 ^ 64"
proof -
  have "unat ` set xs \<subseteq> {1..<2 ^ 64}"
    using assms(2) unat_lt_2_64 by (auto simp: Suc_le_eq unat_gt_0) 
  then have "card (unat ` set xs) \<le> card {1..<2 ^ 64 :: nat}" by (intro card_mono) auto
  moreover have "card (unat ` set xs) = length xs"
    using assms(1) by (subst card_image) (auto simp: distinct_card inj_on_def word_unat_eq_iff)
  ultimately show ?thesis by simp
qed

text \<open>A new page is linked behind the last one.\<close>

lemma link_new_page:
  assumes inv: "seg_inv P sg w ps A" and p: "p \<noteq> 0" "page_aligned P sg p" "unat p + unat (seg_logical_page_size sg) < 2 ^ 64"
    and fresh: "extent sg p \<inter> extents sg ps = {}"
  obtains w1 where "create_new_logical_page P os buffer p (sg, w)
      = (True, (sg\<lparr>seg_logical_page_count := seg_logical_page_count sg + 1\<rparr>, w1))"
    "touched (extent sg p) (set (p # ps)) w (if ps = [] then w1 else
       upd_page p (set_previous_logical_page (last ps)) (upd_page (last ps) (set_next_logical_page p) w1))"
    "seg_inv P (sg\<lparr>seg_logical_page_count := seg_logical_page_count sg + 1, seg_head := if ps = [] then p else seg_head sg,
        seg_tail := p\<rparr>)
      (if ps = [] then w1 else upd_page p (set_previous_logical_page (last ps)) (upd_page (last ps) (set_next_logical_page p) w1))
      (ps @ [p]) (A(p := Map.empty))"
proof -
  let ?sg = "sg\<lparr>seg_logical_page_count := seg_logical_page_count sg + 1, seg_head := if ps = [] then p else seg_head sg, seg_tail := p\<rparr>"
  have st: "seg_static P sg" and pk: "\<And>q. q \<in> set ps \<Longrightarrow> page_ok P sg w q (A q)" and sp: "seg_pages sg w ps"
    using inv by (auto simp: seg_inv_def)
  have l: "dlist (next_page w) (prev_page w) (seg_head sg) ps" using sp by (simp add: seg_pages_def)
  have n: "0 < unat (seg_logical_page_size sg)" using seg_static_size(1) [OF st] by simp
  have dj: "extent sg p \<inter> extent sg q = {}" if "q \<in> set ps" for q using fresh that by (auto simp: extents_def)
  have np: "p \<notin> set ps" using dj [of p] n by (auto simp: region_def)
  obtain w1 where c: "create_new_logical_page P os buffer p (sg, w)
      = (True, (sg\<lparr>seg_logical_page_count := seg_logical_page_count sg + 1\<rparr>, w1))"
    and ok: "page_ok P sg w1 p Map.empty" and lk: "next_page w1 p = 0" "prev_page w1 p = 0" and tc: "touched (extent sg p) {p} w w1"
    by (rule create_new_logical_page_ok [OF st p])
  define w2 where "w2 = (if ps = [] then w1 else
     upd_page p (set_previous_logical_page (last ps)) (upd_page (last ps) (set_next_logical_page p) w1))"
  have rl: "relinked w1 w2" unfolding w2_def by (auto intro!: relinked_upd)
  have lastp: "ps \<noteq> [] \<Longrightarrow> last ps \<in> set ps" by simp
  have t2: "touched (extent sg p) (set (p # ps)) w w2"
  proof (rule touched_trans [OF tc])
    show "touched {} (set (p # ps)) w1 w2" unfolding w2_def using lastp by (auto simp: touched_def)
  qed auto
  have core: "same_core (pages w1 q) (pages w2 q)" for q using rl by (auto simp: relinked_def)
  have ram2: "ram w2 = ram w1" using rl by (auto simp: relinked_def)
  have "dlist (next_page w2) (prev_page w2) (if ps = [] then p else seg_head sg) (ps @ [p])"
  proof (rule dlist_link)
    show "dlist ((next_page w)(p := 0)) (prev_page w) (seg_head sg) ps"
    proof -
      have "dlist ((next_page w)(p := 0)) (prev_page w) (seg_head sg) ps = dlist (next_page w) (prev_page w) (seg_head sg) ps"
        using np by (intro dlseg_cong) auto
      then show ?thesis using l by blast
    qed
    show "next_page w2 = (if ps = [] then (next_page w)(p := 0) else ((next_page w)(p := 0))(last ps := p))"
      using tc lk(1) np lastp by (auto simp: w2_def fun_eq_iff touched_def)
    show "prev_page w2 p = last_or 0 ps" using lk(2) by (simp add: w2_def last_or_def)
    show "prev_page w2 y = prev_page w y" if "y \<in> set ps" for y
      using that tc np lastp by (auto simp: w2_def touched_def)
  qed (use np p in auto)
  moreover have "unat (seg_logical_page_count sg + 1) = length ps + 1"
  proof -
    have "length (ps @ [p]) < 2 ^ 64"
      using np p(1) dlist_distinct [OF l] dlist_nonnull [OF l] by (intro distinct_pages_bound) auto
    then show ?thesis using sp by (subst unat_add_nowrap) (simp_all add: seg_pages_def)
  qed
  ultimately have pages2: "seg_pages ?sg w2 (ps @ [p])" using sp by (auto simp: seg_pages_def)
  have stab: "page_ok P ?sg w2 q ((A(p := Map.empty)) q)" if q: "q \<in> set (ps @ [p])" for q
  proof (cases "q = p")
    case True
    have "page_ok P ?sg w2 p Map.empty" by (rule page_ok_stable [OF st ok core]) (simp_all add: ram2)
    then show ?thesis using True by simp
  next
    case False
    then have q: "q \<in> set ps" using q by simp
    have "page_ok P ?sg w2 q (A q)"
    proof (rule page_ok_stable [OF st pk [OF q]])
      show "same_core (pages w q) (pages w2 q)" using core [of q] tc False by (simp add: touched_def)
      show "ram w2 x = ram w x" if "unat x \<in> extent sg q" for x
        using t2 that dj [OF q] unfolding touched_def by (metis IntI empty_iff)
    qed simp_all
    then show ?thesis using False by simp
  qed
  have "seg_inv P ?sg w2 (ps @ [p]) (A(p := Map.empty))"
    unfolding seg_inv_def
  proof (intro conjI)
    show "seg_static P ?sg" using st by simp
    show "\<forall>q\<in>set (ps @ [p]). \<forall>r\<in>set (ps @ [p]). q \<noteq> r \<longrightarrow> extent ?sg q \<inter> extent ?sg r = {}"
      using inv dj by (auto simp: seg_inv_def Int_commute)
  qed (use pages2 stab in blast)+
  then show ?thesis using that [OF c] t2 unfolding w2_def by blast
qed

subsection \<open>Growing\<close>

text \<open>The pages that a block is cut into.\<close>

definition block_pages :: "Segment \<Rightarrow> u64 \<Rightarrow> nat \<Rightarrow> nat \<Rightarrow> u64 list" where
  "block_pages sg buffer i j = map (\<lambda>k. buffer + of_nat k * seg_logical_page_size sg) [i..<j]"

lemma unat_block_page:
  assumes "seg_static P sg" "unat buffer + j * unat (seg_logical_page_size sg) < 2 ^ 64" "k \<le> j"
  shows "unat (buffer + of_nat k * seg_logical_page_size sg) = unat buffer + k * unat (seg_logical_page_size sg)"
proof -
  let ?n = "unat (seg_logical_page_size sg)"
  have m: "k * ?n \<le> j * ?n" using assms(3) by simp
  have "k \<le> k * ?n" using seg_static_size(1) [OF assms(1)] mult_le_mono2 [of 1 ?n k] by simp
  then have "k < 2 ^ 64" using m assms(2) by linarith
  then have k: "unat (of_nat k :: u64) = k" by (rule unat_of_nat_nowrap)
  have kn: "k * ?n < 2 ^ 64" "unat buffer + k * ?n < 2 ^ 64" using m assms(2) by linarith+
  then have "unat (of_nat k * seg_logical_page_size sg) = k * ?n" using k by (subst unat_mult_nowrap) simp_all
  then show ?thesis using kn(2) by (subst unat_add_nowrap) simp_all
qed

text \<open>The lists of the loop carry the tail that \<open>grow\<close> sets at its end.\<close>

lemma create_page_tail:
  assumes "create_new_logical_page P os buffer p (sg\<lparr>seg_tail := t\<rparr>, w) = (ok, (sg1, w1))"
  shows "create_new_logical_page P os buffer p (sg, w) = (ok, (sg1\<lparr>seg_tail := seg_tail sg\<rparr>, w1))"
  using assms by (auto simp: create_new_logical_page_def Let_def split: if_splits prod.splits)

definition grown :: "Segment \<Rightarrow> Segment \<Rightarrow> bool" where
  "grown sg sg' \<longleftrightarrow> sg'\<lparr>seg_logical_page_count := 0, seg_head := 0, seg_tail := 0\<rparr>
     = sg\<lparr>seg_logical_page_count := 0, seg_head := 0, seg_tail := 0\<rparr>"

lemma grown_refl: "grown sg sg"
  by (simp add: grown_def)

definition fresh_live :: "u64 list \<Rightarrow> (u64 \<Rightarrow> u64 \<rightharpoonup> nat) \<Rightarrow> u64 \<Rightarrow> u64 \<rightharpoonup> nat" where
  "fresh_live new A = (\<lambda>q. if q \<in> set new then Map.empty else A q)"

lemma fresh_live_Cons: "fresh_live (p # new) A = fresh_live new (A(p := Map.empty))"
  by (auto simp: fresh_live_def)

lemma grow_rest_ok:
  assumes "seg_inv P (sg\<lparr>seg_tail := last ps\<rparr>) w ps A" "ps \<noteq> []" "buffer \<noteq> 0" "page_aligned P sg buffer"
    and "unat buffer + (k + n) * unat (seg_logical_page_size sg) < 2 ^ 64"
    and "{unat buffer + k * unat (seg_logical_page_size sg)..<unat buffer + (k + n) * unat (seg_logical_page_size sg)}
       \<inter> extents sg ps = {}"
  shows "\<exists>sg' w'. grow_rest P os buffer n (of_nat k) (last ps) (sg, w)
      = (True, last (ps @ block_pages sg buffer k (k + n)), (sg', w'))
    \<and> seg_inv P (sg'\<lparr>seg_tail := last (ps @ block_pages sg buffer k (k + n))\<rparr>) w' (ps @ block_pages sg buffer k (k + n))
        (fresh_live (block_pages sg buffer k (k + n)) A)
    \<and> touched {unat buffer + k * unat (seg_logical_page_size sg)..<unat buffer + (k + n) * unat (seg_logical_page_size sg)}
        (set (ps @ block_pages sg buffer k (k + n))) w w' \<and> grown sg sg'"
  using assms
proof (induction n arbitrary: k sg w ps A)
  case 0
  then show ?case
    using grown_refl [of sg] by (simp add: block_pages_def fresh_live_def)
next
  case (Suc n)
  let ?S = "unat (seg_logical_page_size sg)" and ?p = "buffer + of_nat k * seg_logical_page_size sg"
  let ?sg = "sg\<lparr>seg_tail := last ps\<rparr>"
  have st: "seg_static P sg" using Suc.prems(1) by (simp add: seg_inv_def)
  note S = seg_static_size(1) [OF st]
  have le: "Suc k * ?S \<le> (k + Suc n) * ?S" by (intro mult_le_mono1) simp
  have p: "unat ?p = unat buffer + k * ?S" using unat_block_page [OF st Suc.prems(5), of k] by simp
  have pe: "extent sg ?p = {unat buffer + k * ?S..<unat buffer + Suc k * ?S}" using p by (auto simp: region_def)
  have "0 < unat buffer" using Suc.prems(3) by (simp add: unat_gt_0)
  then have p0: "?p \<noteq> 0" using p unat_neq_0_iff [of ?p] by simp
  have pd: "page_aligned P ?sg ?p" using page_aligned_block [OF Suc.prems(4) st p] by (simp add: page_aligned_def)
  have "unat ?p + ?S < 2 ^ 64" using p le [unfolded mult_Suc] Suc.prems(5) by linarith
  then have pw: "unat ?p + unat (seg_logical_page_size ?sg) < 2 ^ 64" by simp
  have ex: "extents ?sg ps = extents sg ps" by (simp add: extents_def)
  have sub: "extent sg ?p \<subseteq> {unat buffer + k * ?S..<unat buffer + (k + Suc n) * ?S}"
    "{unat buffer + Suc k * ?S..<unat buffer + (k + Suc n) * ?S} \<subseteq> {unat buffer + k * ?S..<unat buffer + (k + Suc n) * ?S}"
    unfolding pe using le by (simp_all only: ivl_subset) (simp_all add: mult_Suc)
  have "extent sg ?p \<inter> extents sg ps = {}" using Suc.prems(6) sub(1) by blast
  then have fr: "extent ?sg ?p \<inter> extents ?sg ps = {}" using ex by simp
  define w2 where "w2 w1 = upd_page ?p (set_previous_logical_page (last ps)) (upd_page (last ps) (set_next_logical_page ?p) w1)" for w1
  obtain w1 where c: "create_new_logical_page P os buffer ?p (?sg, w)
      = (True, (?sg\<lparr>seg_logical_page_count := seg_logical_page_count sg + 1\<rparr>, w1))"
    and t: "touched (extent ?sg ?p) (set (?p # ps)) w (w2 w1)"
    and i: "seg_inv P (?sg\<lparr>seg_logical_page_count := seg_logical_page_count sg + 1, seg_head := seg_head sg, seg_tail := ?p\<rparr>)
      (w2 w1) (ps @ [?p]) (A(?p := Map.empty))"
    by (rule link_new_page [OF Suc.prems(1) p0 pd pw fr, of os buffer]) (use Suc.prems(2) in \<open>simp add: w2_def\<close>)
  let ?sg1 = "sg\<lparr>seg_logical_page_count := seg_logical_page_count sg + 1\<rparr>"
  have c': "create_new_logical_page P os buffer ?p (sg, w) = (True, (?sg1, w1))"
    using create_page_tail [OF c] by simp
  have i': "seg_inv P (?sg1\<lparr>seg_tail := last (ps @ [?p])\<rparr>) (w2 w1) (ps @ [?p]) (A(?p := Map.empty))" using i by simp
  have S1: "seg_logical_page_size ?sg1 = seg_logical_page_size sg" by simp
  have ex1: "extents ?sg1 (ps @ [?p]) = extents sg ps \<union> extent sg ?p" by (auto simp: extents_def)
  have bp: "block_pages ?sg1 buffer (Suc k) (Suc k + n) = block_pages sg buffer (Suc k) (Suc k + n)"
    "block_pages sg buffer k (k + Suc n) = ?p # block_pages sg buffer (Suc k) (Suc k + n)"
  proof -
    have "[k..<k + Suc n] = k # [Suc k..<Suc k + n]" by (simp add: upt_conv_Cons del: upt_Suc)
    then show "block_pages sg buffer k (k + Suc n) = ?p # block_pages sg buffer (Suc k) (Suc k + n)"
      by (simp only: block_pages_def list.map)
  qed (simp add: block_pages_def)
  have f6: "{unat buffer + Suc k * unat (seg_logical_page_size ?sg1)..<unat buffer + (Suc k + n) * unat (seg_logical_page_size ?sg1)}
      \<inter> extents ?sg1 (ps @ [?p]) = {}"
  proof -
    have "{unat buffer + Suc k * ?S..<unat buffer + (k + Suc n) * ?S} \<inter> extent sg ?p = {}" unfolding pe by auto
    then show ?thesis using Suc.prems(6) sub(2) unfolding ex1 add_Suc_shift S1 by blast
  qed
  have a5: "page_aligned P ?sg1 buffer" using Suc.prems(4) by (simp add: page_aligned_def)
  have w5: "unat buffer + (Suc k + n) * unat (seg_logical_page_size ?sg1) < 2 ^ 64"
    using Suc.prems(5) by (simp only: S1 add_Suc_shift)
  obtain sg' w' where
    r: "grow_rest P os buffer n (of_nat (Suc k)) (last (ps @ [?p])) (?sg1, w2 w1)
        = (True, last ((ps @ [?p]) @ block_pages sg buffer (Suc k) (Suc k + n)), (sg', w'))"
    "seg_inv P (sg'\<lparr>seg_tail := last ((ps @ [?p]) @ block_pages sg buffer (Suc k) (Suc k + n))\<rparr>) w'
      ((ps @ [?p]) @ block_pages sg buffer (Suc k) (Suc k + n)) (fresh_live (block_pages sg buffer (Suc k) (Suc k + n)) (A(?p := Map.empty)))"
    "touched {unat buffer + Suc k * ?S..<unat buffer + (Suc k + n) * ?S}
      (set ((ps @ [?p]) @ block_pages sg buffer (Suc k) (Suc k + n))) (w2 w1) w'" "grown ?sg1 sg'"
    using Suc.IH [OF i' _ Suc.prems(3) a5 w5 f6, unfolded bp(1) S1] by blast
  have g: "grow_rest P os buffer (Suc n) (of_nat k) (last ps) (sg, w)
      = (True, last (ps @ block_pages sg buffer k (k + Suc n)), (sg', w'))"
    unfolding bp(2) using c' r(1) by (simp add: Let_def w2_def add.commute)
  have "touched {unat buffer + k * ?S..<unat buffer + (k + Suc n) * ?S} (set (ps @ block_pages sg buffer k (k + Suc n))) w w'"
  proof (rule touched_trans [OF t r(3)])
    show "extent ?sg ?p \<subseteq> {unat buffer + k * ?S..<unat buffer + (k + Suc n) * ?S}" using sub(1) by simp
    show "{unat buffer + Suc k * ?S..<unat buffer + (Suc k + n) * ?S} \<subseteq> {unat buffer + k * ?S..<unat buffer + (k + Suc n) * ?S}"
      using sub(2) unfolding add_Suc_shift .
  qed (use bp(2) in auto)
  moreover have "grown sg sg'" using r(4) by (auto simp: grown_def)
  ultimately show ?case using g r(2) unfolding bp(2) fresh_live_Cons append_assoc append_Cons append_Nil by blast
qed

lemma grow_ok:
  assumes inv: "seg_inv P sg w ps A" and b: "buffer \<noteq> 0" "page_aligned P sg buffer" and n: "0 < unat n"
    and nw: "unat buffer + unat n * unat (seg_logical_page_size sg) < 2 ^ 64"
    and fr: "region buffer (unat n * unat (seg_logical_page_size sg)) \<inter> extents sg ps = {}"
  obtains sg' w' where "grow P os buffer n (sg, w) = (buffer, (sg', w'))"
    "seg_inv P sg' w' (ps @ block_pages sg buffer 0 (unat n)) (fresh_live (block_pages sg buffer 0 (unat n)) A)"
    "touched (region buffer (unat n * unat (seg_logical_page_size sg))) (set (ps @ block_pages sg buffer 0 (unat n))) w w'"
    "grown sg sg'"
proof -
  let ?S = "unat (seg_logical_page_size sg)"
  obtain m where m: "unat n = Suc m" using n by (cases "unat n") auto
  have le: "?S \<le> unat n * ?S" using m by simp
  have sub: "extent sg buffer \<subseteq> region buffer (unat n * ?S)" using le by (auto simp: region_def)
  have bw: "unat buffer + unat (seg_logical_page_size sg) < 2 ^ 64" using nw le by linarith
  have fb: "extent sg buffer \<inter> extents sg ps = {}" using fr sub by blast
  obtain w1 where c: "create_new_logical_page P os buffer buffer (sg, w)
      = (True, (sg\<lparr>seg_logical_page_count := seg_logical_page_count sg + 1\<rparr>, w1))"
    and t: "touched (extent sg buffer) (set (buffer # ps)) w (if ps = [] then w1 else
       upd_page buffer (set_previous_logical_page (last ps)) (upd_page (last ps) (set_next_logical_page buffer) w1))"
    and i: "seg_inv P (sg\<lparr>seg_logical_page_count := seg_logical_page_count sg + 1, seg_head := if ps = [] then buffer else seg_head sg,
        seg_tail := buffer\<rparr>) (if ps = [] then w1 else upd_page buffer (set_previous_logical_page (last ps))
         (upd_page (last ps) (set_next_logical_page buffer) w1)) (ps @ [buffer]) (A(buffer := Map.empty))"
    by (rule link_new_page [OF inv b bw fb])
  define w2 where "w2 = (if ps = [] then w1 else
     upd_page buffer (set_previous_logical_page (last ps)) (upd_page (last ps) (set_next_logical_page buffer) w1))"
  define sg1 where "sg1 = (if ps = [] then sg\<lparr>seg_logical_page_count := seg_logical_page_count sg + 1, seg_head := buffer, seg_tail := buffer\<rparr>
     else sg\<lparr>seg_logical_page_count := seg_logical_page_count sg + 1\<rparr>)"
  have hd: "seg_head sg = 0 \<longleftrightarrow> ps = []" "ps \<noteq> [] \<Longrightarrow> seg_tail sg = last ps"
    using inv by (cases ps; auto simp: seg_inv_def seg_pages_def last_or_def)+
  have i1: "seg_inv P (sg1\<lparr>seg_tail := last (ps @ [buffer])\<rparr>) w2 (ps @ [buffer]) (A(buffer := Map.empty))"
    using i by (auto simp: w2_def sg1_def)
  have S1: "seg_logical_page_size sg1 = seg_logical_page_size sg" by (simp add: sg1_def)
  have b1: "page_aligned P sg1 buffer" using b(2) page_aligned_cong [OF S1] by simp
  have w1': "unat buffer + (1 + m) * unat (seg_logical_page_size sg1) < 2 ^ 64" using nw m S1 by simp
  have ex: "extents sg1 (ps @ [buffer]) = extents sg ps \<union> extent sg buffer" by (auto simp: extents_def S1)
  have f1: "{unat buffer + 1 * unat (seg_logical_page_size sg1)..<unat buffer + (1 + m) * unat (seg_logical_page_size sg1)}
      \<inter> extents sg1 (ps @ [buffer]) = {}"
  proof -
    have "{unat buffer + 1 * ?S..<unat buffer + (1 + m) * ?S} \<subseteq> region buffer (unat n * ?S)" using m by (auto simp: region_def)
    moreover have "{unat buffer + 1 * ?S..<unat buffer + (1 + m) * ?S} \<inter> extent sg buffer = {}" by (auto simp: region_def)
    ultimately show ?thesis unfolding ex S1 using fr by blast
  qed
  have bp: "block_pages sg1 buffer 1 (1 + m) = block_pages sg buffer 1 (1 + m)"
    "block_pages sg buffer 0 (unat n) = buffer # block_pages sg buffer 1 (1 + m)"
    using m by (simp_all add: block_pages_def S1 upt_conv_Cons del: upt_Suc)
  obtain sg' w' where r: "grow_rest P os buffer m (of_nat 1) (last (ps @ [buffer])) (sg1, w2)
      = (True, last ((ps @ [buffer]) @ block_pages sg buffer 1 (1 + m)), (sg', w'))"
    "seg_inv P (sg'\<lparr>seg_tail := last ((ps @ [buffer]) @ block_pages sg buffer 1 (1 + m))\<rparr>) w'
      ((ps @ [buffer]) @ block_pages sg buffer 1 (1 + m)) (fresh_live (block_pages sg buffer 1 (1 + m)) (A(buffer := Map.empty)))"
    "touched {unat buffer + 1 * ?S..<unat buffer + (1 + m) * ?S} (set ((ps @ [buffer]) @ block_pages sg buffer 1 (1 + m))) w2 w'"
    "grown sg1 sg'"
    using grow_rest_ok [OF i1 _ b(1) b1 w1' f1, of os, unfolded bp(1) S1] by blast
  have "grow P os buffer n (sg, w) = (buffer, (sg'\<lparr>seg_tail := last ((ps @ [buffer]) @ block_pages sg buffer 1 (1 + m))\<rparr>, w'))"
    using c r(1) hd m by (cases "ps = []") (simp_all add: grow_def Let_def w2_def sg1_def)
  moreover have "touched (region buffer (unat n * ?S)) (set (ps @ block_pages sg buffer 0 (unat n))) w w'"
    by (rule touched_trans [OF t [folded w2_def] r(3)]) (use sub bp(2) m in \<open>auto simp: region_def\<close>)
  moreover have "grown sg (sg'\<lparr>seg_tail := last ((ps @ [buffer]) @ block_pages sg buffer 1 (1 + m))\<rparr>)"
    using r(4) unfolding grown_def sg1_def by (auto split: if_splits)
  ultimately show ?thesis using that r(2) unfolding bp(2) fresh_live_Cons append_assoc append_Cons append_Nil by blast
qed

end
