(* ===== verification/Segment_Contract.thy ===== *)
theory Segment_Contract
  imports Segment_Pages
begin

text \<open>
  What a segment promises: allocation from its pages and by growing, deallocation with recycling, and
  the safety of any client of a segment, in terms of the live payloads of the whole segment.

  \<open>seg_live P (sg, w) X L\<close>: the segment is well formed, its pages occupy the addresses \<open>X\<close> and the payloads
  \<open>L\<close> are live in them.
\<close>

subsection \<open>Live payloads of a segment\<close>

definition live_in :: "u64 list \<Rightarrow> (u64 \<Rightarrow> u64 \<rightharpoonup> nat) \<Rightarrow> (u64 \<rightharpoonup> nat) \<Rightarrow> bool" where
  "live_in ps A L \<longleftrightarrow> (\<forall>q k. L q = Some k \<longleftrightarrow> (\<exists>p\<in>set ps. A p q = Some k))"

definition seg_live :: "segment_policy \<Rightarrow> segment_state \<Rightarrow> nat set \<Rightarrow> (u64 \<rightharpoonup> nat) \<Rightarrow> bool" where
  "seg_live P s X L \<longleftrightarrow> (\<exists>ps A. seg_inv P (fst s) (snd s) ps A \<and> X = extents (fst s) ps \<and> live_in ps A L)"

lemma live_page:
  assumes inv: "seg_inv P sg w ps A" and p: "p \<in> set ps" and q: "A p q = Some k"
  shows "region q k \<subseteq> page_region (pages w p)" "page_region (pages w p) \<subseteq> extent sg p"
    "unat q \<in> extent sg p" "q \<noteq> 0" "0 < k"
proof -
  note pi = seg_inv_pages [OF inv p]
  show 1: "region q k \<subseteq> page_region (pages w p)" using page.live_inside [OF pi(3) q] by simp
  show 2: "page_region (pages w p) \<subseteq> extent sg p" by (rule page_region_extent(2) [OF pi(2,1)])
  show "0 < k" by (rule page.live_pos [OF pi(3) q])
  then have "unat q \<in> region q k" by simp
  then show "unat q \<in> extent sg p" using 1 2 by blast
  show "q \<noteq> 0" using page.live_nonnull [OF pi(3)] q by auto
qed

lemma live_page_unique:
  assumes "seg_inv P sg w ps A" "p \<in> set ps" "p' \<in> set ps" "unat q \<in> extent sg p" "A p' q = Some k"
  shows "p' = p"
  using live_page(3) [OF assms(1,3,5)] assms by (auto simp: seg_inv_def simp del: in_region_iff)

lemma seg_live_facts:
  assumes "seg_live P (sg, w) X L" "L q = Some k"
  shows "region q k \<subseteq> X" "q \<noteq> 0" "0 < k"
    and "L r = Some j \<Longrightarrow> q \<noteq> r \<Longrightarrow> region q k \<inter> region r j = {}"
proof -
  obtain ps A where s: "seg_inv P sg w ps A" "X = extents sg ps" "live_in ps A L" using assms(1) by (auto simp: seg_live_def)
  obtain p where p: "p \<in> set ps" "A p q = Some k" using assms(2) s(3) by (auto simp: live_in_def)
  note l = live_page [OF s(1) p]
  show "region q k \<subseteq> X" using l(1,2) p(1) s(2) by (auto simp: extents_def simp del: in_region_iff)
  show "q \<noteq> 0" "0 < k" by (rule l)+
  assume r: "L r = Some j" "q \<noteq> r"
  obtain p' where p': "p' \<in> set ps" "A p' r = Some j" using r s(3) by (auto simp: live_in_def)
  note l' = live_page [OF s(1) p']
  show "region q k \<inter> region r j = {}"
  proof (cases "p = p'")
    case True
    then show ?thesis using page.live_disjoint [OF seg_inv_pages(3) [OF s(1) p(1)] p(2)] p'(2) r(2) by blast
  next
    case False
    then have "extent sg p \<inter> extent sg p' = {}" using s(1) p(1) p'(1) by (auto simp: seg_inv_def)
    then show ?thesis using l(1,2) l'(1,2) by blast
  qed
qed

text \<open>The live payloads after one page has changed its own.\<close>

lemma live_in_upd:
  assumes inv: "seg_inv P sg w ps A" and p: "p \<in> set ps" and live: "live_in ps A L" and q: "unat q \<in> extent sg p"
  shows "live_in ps (A(p := (A p)(q := v))) (L(q := v))"
  unfolding live_in_def
proof (intro allI)
  fix r k
  show "(L(q := v)) r = Some k \<longleftrightarrow> (\<exists>p'\<in>set ps. (A(p := (A p)(q := v))) p' r = Some k)"
  proof (cases "r = q")
    case True
    have "(A(p := (A p)(q := v))) p' q = Some k \<longleftrightarrow> p' = p \<and> v = Some k" if "p' \<in> set ps" for p'
      using live_page_unique [OF inv p that q, of k] by (cases "p' = p") auto
    then show ?thesis using True p by (metis fun_upd_same)
  next
    case False
    then have "(A(p := (A p)(q := v))) p' r = A p' r" for p' by simp
    then show ?thesis using False live by (simp add: live_in_def)
  qed
qed

subsection \<open>Allocating from a page\<close>

definition keeps_live :: "(u64 \<rightharpoonup> nat) \<Rightarrow> world \<Rightarrow> world \<Rightarrow> bool" where
  "keeps_live L w w' \<longleftrightarrow> (\<forall>q k x. L q = Some k \<longrightarrow> unat x \<in> region q k \<longrightarrow> ram w' x = ram w x)"

lemma page_frame_live:
  assumes inv: "seg_inv P sg w ps A" and p: "p \<in> set ps" and live: "live_in ps A L"
    and fr: "page_frame B (get_page p w) s" and L': "\<And>q k. L' q = Some k \<Longrightarrow> L q = Some k"
    and B: "\<And>q k. L' q = Some k \<Longrightarrow> A p q = Some k \<Longrightarrow> B q = Some k"
  shows "keeps_live L' w (put_page p s w)" "touched (extent sg p) {p} w (put_page p s w)"
proof -
  note ex = page_region_extent(2) [OF seg_inv_pages(2,1) [OF inv p]]
  have ch: "unat x \<in> page_region (pages w p)" "B q = Some k \<Longrightarrow> unat x \<notin> region q k" if "snd s x \<noteq> ram w x" for x q k
    using fr that unfolding page_frame_def get_page_simps by blast+
  show "touched (extent sg p) {p} w (put_page p s w)" using ch(1) ex by (auto simp: touched_def simp del: in_region_iff)
  show "keeps_live L' w (put_page p s w)" unfolding keeps_live_def put_page_simps
  proof (intro allI impI)
    fix q k and x :: u64 assume q: "L' q = Some k" and x: "unat x \<in> region q k"
    obtain p' where p': "p' \<in> set ps" "A p' q = Some k" using L' [OF q] live by (auto simp: live_in_def)
    show "snd s x = ram w x"
    proof (cases "p' = p")
      case True
      then show ?thesis using ch(2) [of x q k] B [OF q] p'(2) x by blast
    next
      case False
      then have "extent sg p \<inter> extent sg p' = {}" using inv p p'(1) by (auto simp: seg_inv_def)
      then show ?thesis using ch(1) [of x] ex live_page(1,2) [OF inv p'] x by blast
    qed
  qed
qed

lemma serve_from_page:
  assumes inv: "seg_inv P sg w ps A" and p: "p \<in> set ps" and live: "live_in ps A L" and fit: "seg_fit P sg sz"
    and a: "page_allocate (page_type P) sz (get_page p w) = Some (r, s)" "r \<noteq> 0"
  shows "L r = None" "\<exists>k \<ge> unat sz. seg_live P (sg\<lparr>seg_last_used := p\<rparr>, put_page p s w) (extents sg ps) (L(r \<mapsto> k))"
    "keeps_live L w (put_page p s w)" "touched (extent sg p) {p} w (put_page p s w)"
proof -
  note pi = seg_inv_pages [OF inv p]
  have f: "page_fit (page_type P) sz (get_page p w)" by (rule seg_fit_page [OF fit pi(1)])
  obtain k where k: "A p r = None" "k \<ge> unat sz" "page_inv (page_type P) s ((A p)(r \<mapsto> k))" "page_frame (A p) (get_page p w) s"
    using page.alloc_new [OF pi(3) f a] by blast
  have new: "seg_inv P sg (put_page p s w) ps (A(p := (A p)(r \<mapsto> k)))" by (rule put_page_ok [OF inv p k(3,4)])
  have re: "unat r \<in> extent sg p" using live_page(3) [OF new p, of r k] by simp
  show "L r = None"
  proof (rule ccontr)
    assume "L r \<noteq> None"
    then obtain j p' where "p' \<in> set ps" "A p' r = Some j" using live by (auto simp: live_in_def)
    then show False using live_page_unique [OF inv p _ re] k(1) by force
  qed
  have "live_in ps (A(p := (A p)(r \<mapsto> k))) (L(r \<mapsto> k))" using live_in_upd [OF inv p live re, of "Some k"] .
  moreover have "seg_inv P (sg\<lparr>seg_last_used := p\<rparr>) (put_page p s w) ps (A(p := (A p)(r \<mapsto> k)))"
    using new p by (auto simp: seg_inv_def seg_pages_def page_ok_def page_aligned_def)
  moreover have "extents (sg\<lparr>seg_last_used := p\<rparr>) ps = extents sg ps" by (simp add: extents_def)
  ultimately show "\<exists>k \<ge> unat sz. seg_live P (sg\<lparr>seg_last_used := p\<rparr>, put_page p s w) (extents sg ps) (L(r \<mapsto> k))"
    using k(2) unfolding seg_live_def fst_conv snd_conv by metis
  show "keeps_live L w (put_page p s w)" "touched (extent sg p) {p} w (put_page p s w)"
    using page_frame_live [OF inv p live k(4), of L] by auto
qed

subsection \<open>Allocating by growing\<close>

lemma extents_block_pages:
  assumes st: "seg_static P sg" and nw: "unat b + n * unat (seg_logical_page_size sg) < 2 ^ 64"
  shows "extents sg (block_pages sg b 0 n) = region b (n * unat (seg_logical_page_size sg))"
  using nw
proof (induction n)
  case 0
  then show ?case by (simp add: extents_def block_pages_def region_def)
next
  case (Suc n)
  let ?S = "unat (seg_logical_page_size sg)" and ?p = "b + of_nat n * seg_logical_page_size sg"
  have p: "unat ?p = unat b + n * ?S" using unat_block_page [OF st Suc.prems, of n] by simp
  have "extents sg (block_pages sg b 0 (Suc n)) = extents sg (block_pages sg b 0 n) \<union> extent sg ?p"
    by (auto simp: extents_def block_pages_def)
  also have "extents sg (block_pages sg b 0 n) = region b (n * ?S)" using Suc by simp
  also have "region b (n * ?S) \<union> extent sg ?p = region b (Suc n * ?S)" using p by (auto simp: region_def)
  finally show ?case .
qed

lemma seg_inv_world:
  assumes inv: "seg_inv P sg w ps A" and pg: "pages w' = pages w"
    and same: "\<And>x. unat x \<in> extents sg ps \<Longrightarrow> ram w' x = ram w x"
  shows "seg_inv P sg w' ps A"
proof -
  have st: "seg_static P sg" using inv by (simp add: seg_inv_def)
  have "page_ok P sg w' p (A p)" if p: "p \<in> set ps" for p
  proof (rule page_ok_stable [OF st])
    show "page_ok P sg w p (A p)" using inv p by (simp add: seg_inv_def)
    show "ram w' x = ram w x" if "unat x \<in> extent sg p" for x using same that p by (auto simp: extents_def)
  qed (simp_all add: pg)
  then show ?thesis using inv pg by (simp add: seg_inv_def seg_pages_def)
qed

lemma grown_fields:
  assumes "grown sg sg'"
  shows "seg_logical_page_size sg' = seg_logical_page_size sg" "seg_size_class sg' = seg_size_class sg" "same_segment sg sg'"
    "seg_lock sg' = seg_lock sg" "seg_deallocation_queue sg' = seg_deallocation_queue sg"
  using assms unfolding grown_def same_segment_def by (cases sg; cases sg'; simp)+

lemma live_in_fresh:
  assumes "seg_inv P sg w (ps @ new) B" "live_in ps A L"
  shows "live_in (ps @ new) (fresh_live new A) L"
proof -
  have "set ps \<inter> set new = {}" using seg_inv_distinct [OF assms(1)] by simp
  then have "fresh_live new A p q = Some k \<longleftrightarrow> p \<in> set ps \<and> A p q = Some k" if "p \<in> set (ps @ new)" for p q k
    using that by (auto simp: fresh_live_def)
  then show ?thesis using assms(2) by (auto simp: live_in_def)
qed

lemma arena_allocate_ok:
  assumes os: "os_ok os" and ar: "arena_inv (arena w, w) H" and fit: "arena_fit n (arena w, w)"
    and a: "arena_allocate P os n w = Some (b, w')" "b \<noteq> 0"
  shows "arena_inv (arena w', w') (H \<union> region b (unat n))" "region b (unat n) \<inter> H = {}" "unat b + unat n < 2 ^ 64"
    "4096 dvd unat b" "pages w' = pages w" "pointer_pages w' = pointer_pages w"
    "\<And>x. unat x \<in> H \<Longrightarrow> ram w' x = ram w x"
proof -
  obtain c v where c: "Arena_allocate (arena_type P) os n (arena w, w) = Some (b, c, v)" "w' = v\<lparr>arena := c\<rparr>"
    using a(1) by (auto simp: arena_allocate_def split: bind_splits)
  have "arena_inv (c, v) (H \<union> region b (unat n)) \<and> region b (unat n) \<inter> H = {} \<and> unat b + unat n < 2 ^ 64
    \<and> 4096 dvd unat b \<and> keeps (spare (arena w)) w v"
    using os ar fit by (cases rule: arena_allocate_cases [where P = "arena_type P"]) (use c(1) a(2) in auto)
  then have k: "arena_inv (c, v) (H \<union> region b (unat n))" "region b (unat n) \<inter> H = {}" "unat b + unat n < 2 ^ 64"
    "4096 dvd unat b" "keeps (spare (arena w)) w v" by auto
  show "arena_inv (arena w', w') (H \<union> region b (unat n))" using k(1) c(2) by (simp add: arena_inv_def)
  show "region b (unat n) \<inter> H = {}" "unat b + unat n < 2 ^ 64" "4096 dvd unat b" by (rule k)+
  show "pages w' = pages w" "pointer_pages w' = pointer_pages w" using k(5) c(2) by (auto simp: keeps_def)
  show "ram w' x = ram w x" if "unat x \<in> H" for x
  proof -
    have "is_mapped (vm w) (unat x)" "unat x \<notin> spare (arena w)" using ar that by (auto simp: arena_inv_def)
    then show ?thesis using k(5) c(2) by (auto simp: keeps_def)
  qed
qed

text \<open>Where a segment finds pages by masking, the arena hands out blocks aligned to its page size.\<close>

definition arena_aligned :: "u64 \<Rightarrow> Arena \<Rightarrow> bool" where
  "arena_aligned S a \<longleftrightarrow> m_page_alignment a = S \<and> unat S dvd unat (m_cache_used_size a)"

definition arena_matches :: "segment_policy \<Rightarrow> Segment \<Rightarrow> Arena \<Rightarrow> bool" where
  "arena_matches P sg a \<longleftrightarrow> (buffer_aligned_to_logical_page_size P \<longrightarrow> arena_aligned (seg_logical_page_size sg) a)"

text \<open>Blocks that are multiples of the page size of a segment keep the arena aligned, for every segment whose
  page size divides it.\<close>

definition keeps_alignment :: "Segment \<Rightarrow> Arena \<Rightarrow> Arena \<Rightarrow> bool" where
  "keeps_alignment sg a a' \<longleftrightarrow> (\<forall>S. unat S dvd unat (seg_logical_page_size sg) \<longrightarrow> arena_aligned S a \<longrightarrow> arena_aligned S a')"

lemma keeps_alignment_refl [simp]: "keeps_alignment sg a a"
  by (simp add: keeps_alignment_def)

lemma arena_matches_cong:
  "seg_logical_page_size sg' = seg_logical_page_size sg \<Longrightarrow> arena_matches P sg' a = arena_matches P sg a"
  by (simp add: arena_matches_def)

lemma arena_allocate_aligned:
  assumes os: "os_ok os" and ar: "arena_inv (arena w, w) H" and fit: "arena_fit n (arena w, w)"
    and a: "arena_allocate P os n w = Some (b, w')" "b \<noteq> 0" and S: "arena_aligned S (arena w)" "unat S dvd unat n"
  shows "unat S dvd unat b" "arena_aligned S (arena w')"
proof -
  obtain c v where c: "Arena_allocate (arena_type P) os n (arena w, w) = Some (b, c, v)" "w' = v\<lparr>arena := c\<rparr>"
    using a(1) by (auto simp: arena_allocate_def split: bind_splits)
  have "unat (m_page_alignment (arena w)) dvd unat (m_cache_used_size (arena w)) \<Longrightarrow> unat (m_page_alignment (arena w)) dvd unat n
    \<Longrightarrow> unat (m_page_alignment (arena w)) dvd unat b \<and> m_page_alignment c = m_page_alignment (arena w)
        \<and> unat (m_page_alignment c) dvd unat (m_cache_used_size c)"
    using os ar fit by (cases rule: arena_allocate_cases [where P = "arena_type P"]) (use c(1) a(2) in auto)
  then show "unat S dvd unat b" "arena_aligned S (arena w')" using S c(2) by (auto simp: arena_aligned_def)
qed

lemma arena_allocate_matches:
  assumes os: "os_ok os" and ar: "arena_inv (arena w, w) H" and fit: "arena_fit n (arena w, w)"
    and a: "arena_allocate P os n w = Some (b, w')" "b \<noteq> 0"
    and m: "arena_matches P sg (arena w)" and n: "unat (seg_logical_page_size sg) dvd unat n"
  shows "page_aligned P sg b" "arena_matches P sg (arena w')" "keeps_alignment sg (arena w) (arena w')"
  using arena_allocate_aligned [OF os ar fit a] m n arena_allocate_ok(4) [OF os ar fit a]
  by (auto simp: page_aligned_def arena_matches_def keeps_alignment_def)

text \<open>Everything outside a segment's pages is left alone, as far as it has been handed out.\<close>

definition keeps_others :: "nat set \<Rightarrow> world \<Rightarrow> world \<Rightarrow> bool" where
  "keeps_others Y w w' \<longleftrightarrow> (\<forall>x. unat x \<in> Y \<longrightarrow> ram w' x = ram w x) \<and> (\<forall>q. unat q \<in> Y \<longrightarrow> pages w' q = pages w q)"

lemma extents_pages: "seg_static P sg \<Longrightarrow> p \<in> set ps \<Longrightarrow> unat p \<in> extents sg ps"
  using seg_static_size(1) by (force simp: extents_def)

lemma touched_others:
  "touched X Q w w' \<Longrightarrow> X \<inter> Y = {} \<Longrightarrow> (\<And>q. q \<in> Q \<Longrightarrow> unat q \<notin> Y) \<Longrightarrow> keeps_others Y w w'"
  unfolding touched_def keeps_others_def by (metis IntI empty_iff)

lemma keeps_others_trans: "keeps_others Y w w' \<Longrightarrow> keeps_others Y w' w'' \<Longrightarrow> keeps_others Y w w''"
  by (simp add: keeps_others_def)

lemma keeps_live_trans: "keeps_live L w w' \<Longrightarrow> keeps_live L w' w'' \<Longrightarrow> keeps_live L w w''"
  by (simp add: keeps_live_def)

text \<open>The arena has a block for the growth that the coefficient asks for.\<close>

definition can_grow :: "segment_policy \<Rightarrow> os \<Rightarrow> u64 \<Rightarrow> segment_state \<Rightarrow> bool" where
  "can_grow P os sz = (\<lambda>(sg, w). case calculate_quantities P sz sg of None \<Rightarrow> False
     | Some (n, m) \<Rightarrow> unat (seg_logical_page_size sg) * unat n + unat (m_page_alignment (arena w)) < 2 ^ 64
         \<and> (case arena_allocate P os (seg_logical_page_size sg * n) w of None \<Rightarrow> False | Some (b, _) \<Rightarrow> b \<noteq> 0))"

lemma required_count_pos:
  "get_required_page_count_for_allocation a b c d = Some m \<Longrightarrow> m \<noteq> 0"
  by (auto simp: get_required_page_count_for_allocation_def Let_def split: if_splits)

lemma calculate_quantities_pos:
  assumes "calculate_quantities P sz sg = Some (n, m)"
  shows "n \<noteq> 0" "m \<le> n"
proof -
  have "m \<noteq> 0 \<and> m \<le> n" using assms
    by (auto simp: calculate_quantities_def Let_def not_less dest: required_count_pos split: if_splits bind_splits)
  then show "m \<le> n" "n \<noteq> 0" by auto
qed

lemma allocate_by_growing_ok:
  assumes os: "os_ok os" and ar: "arena_inv (arena w, w) H" and inv: "seg_inv P sg w ps A" and X: "extents sg ps \<subseteq> H"
    and live: "live_in ps A L" and fit: "seg_fit P sg sz" and g: "can_grow P os sz (sg, w)" and am: "arena_matches P sg (arena w)"
  obtains r sg' w' B where "allocate_by_growing P os sz (sg, w) = Some (r, (sg', w'))"
    "arena_inv (arena w', w') (H \<union> B)" "arena_matches P sg (arena w')" "B \<inter> H = {}" "keeps_live L w w'" "keeps_others (H - extents sg ps) w w'"
    "keeps_alignment sg (arena w) (arena w')" "same_segment sg sg'" "seg_lock sg' = seg_lock sg" "seg_deallocation_queue sg' = seg_deallocation_queue sg"
    "pointer_pages w' = pointer_pages w" "r = 0 \<longrightarrow> seg_live P (sg', w') (extents sg ps \<union> B) L"
    "r \<noteq> 0 \<longrightarrow> L r = None \<and> (\<exists>k \<ge> unat sz. seg_live P (sg', w') (extents sg ps \<union> B) (L(r \<mapsto> k)))"
proof -
  let ?S = "seg_logical_page_size sg"
  obtain n m b w1 where q: "calculate_quantities P sz sg = Some (n, m)"
    "unat ?S * unat n + unat (m_page_alignment (arena w)) < 2 ^ 64" "arena_allocate P os (?S * n) w = Some (b, w1)" "b \<noteq> 0"
    using g by (auto simp: can_grow_def split: option.splits)
  have n0: "0 < unat n" using calculate_quantities_pos(1) [OF q(1)] by (simp add: unat_gt_0)
  have st: "seg_static P sg" using inv by (simp add: seg_inv_def)
  have Sn: "unat (?S * n) = unat n * unat ?S" using q(2) by (subst unat_mult_nowrap) (simp_all add: mult.commute)
  have af: "arena_fit (?S * n) (arena w, w)" using q(2) Sn st by (simp add: arena_fit_def seg_static_def mult.commute)
  note aa = arena_allocate_ok [OF os ar af q(3,4)]
  have bm: "page_aligned P sg b" "arena_matches P sg (arena w1)" "keeps_alignment sg (arena w) (arena w1)"
    by (rule arena_allocate_matches [OF os ar af q(3,4) am]; use Sn in simp)+
  define B where "B = region b (unat n * unat ?S)"
  have aB: "arena_inv (arena w1, w1) (H \<union> B)" "B \<inter> H = {}" "unat b + unat n * unat ?S < 2 ^ 64"
    using aa(1-3) Sn by (simp_all add: B_def)
  have inv1: "seg_inv P sg w1 ps A" using inv aa(5) by (rule seg_inv_world) (use aa(7) X in blast)
  have fr: "region b (unat n * unat ?S) \<inter> extents sg ps = {}" using aB(2) X by (auto simp: B_def)
  let ?new = "block_pages sg b 0 (unat n)"
  obtain sg2 w2 where gr: "grow P os b n (sg, w1) = (b, (sg2, w2))" "seg_inv P sg2 w2 (ps @ ?new) (fresh_live ?new A)"
    "touched B (set (ps @ ?new)) w1 w2" "grown sg sg2"
    using grow_ok [OF inv1 q(4) bm(1) n0 aB(3) fr, of os] unfolding B_def by metis
  note gf = grown_fields [OF gr(4)]
  have ex: "extents sg2 (ps @ ?new) = extents sg ps \<union> B"
    using extents_block_pages [OF st aB(3)] gf(1) by (auto simp: extents_def B_def)
  have live2: "live_in (ps @ ?new) (fresh_live ?new A) L" by (rule live_in_fresh [OF gr(2) live])
  have LX: "region c k \<subseteq> extents sg ps" if "L c = Some k" for c k
  proof -
    have "seg_live P (sg, w) (extents sg ps) L" using inv live by (auto simp: seg_live_def)
    then show ?thesis using seg_live_facts(1) that by blast
  qed
  have kl: "keeps_live L w w2" unfolding keeps_live_def
  proof (intro allI impI)
    fix c k and x :: u64 assume "L c = Some k" "unat x \<in> region c k"
    then have x: "unat x \<in> extents sg ps" using LX by blast
    then have "ram w2 x = ram w1 x" using gr(3) fr unfolding touched_def B_def by blast
    then show "ram w2 x = ram w x" using aa(7) x X by auto
  qed
  have ko: "keeps_others (H - extents sg ps) w w2"
  proof (rule keeps_others_trans)
    show "keeps_others (H - extents sg ps) w w1" using aa(5,7) by (simp add: keeps_others_def)
    show "keeps_others (H - extents sg ps) w1 w2"
    proof (rule touched_others [OF gr(3)])
      show "B \<inter> (H - extents sg ps) = {}" using aB(2) by blast
      fix c assume "c \<in> set (ps @ ?new)"
      then have "unat c \<in> extents sg2 (ps @ ?new)" using gr(2) by (intro extents_pages [of P]) (simp_all add: seg_inv_def)
      then show "unat c \<notin> H - extents sg ps" using ex aB(2) by blast
    qed
  qed
  have ar2: "arena_inv (arena w2, w2) (H \<union> B)" using aB(1) gr(3) by (simp add: arena_inv_def touched_def)
  have bm2: "arena_matches P sg (arena w2)" "keeps_alignment sg (arena w) (arena w2)" using bm(2,3) gr(3) by (simp_all add: touched_def)
  have pp: "pointer_pages w2 = pointer_pages w" using aa(6) gr(3) by (simp add: touched_def)
  have b: "b \<in> set (ps @ ?new)" using n0 by (auto simp: block_pages_def intro!: image_eqI [of _ _ 0])
  have fit2: "seg_fit P sg2 sz" using fit unfolding seg_fit_def gf(2) .
  note pi = seg_inv_pages [OF gr(2) b]
  obtain r s where pa: "page_allocate (page_type P) sz (get_page b w2) = Some (r, s)"
    using page.alloc_total [OF pi(3) seg_fit_page [OF fit2 pi(1)]] by blast
  have al: "allocate_by_growing P os sz (sg, w) = Some (r, if r \<noteq> 0 then (sg2\<lparr>seg_last_used := b\<rparr>, put_page b s w2) else (sg2, put_page b s w2))"
    using q(1,3,4) gr(1) pa by (simp add: allocate_by_growing_def)
  show ?thesis
  proof (cases "r = 0")
    case True
    then have s: "s = get_page b w2" using page.alloc_null [OF pi(3) seg_fit_page [OF fit2 pi(1)]] pa by blast
    have "seg_live P (sg2, w2) (extents sg ps \<union> B) L" using gr(2) ex live2 by (auto simp: seg_live_def)
    then show ?thesis using that [of r sg2 w2 B] al True s ar2 bm2 aB(2) kl ko gf pp by simp
  next
    case False
    note sv = serve_from_page [OF gr(2) b live2 fit2 pa False]
    have ar3: "arena_inv (arena (put_page b s w2), put_page b s w2) (H \<union> B)" using ar2 by (simp add: arena_inv_def)
    have kl3: "keeps_live L w (put_page b s w2)" by (rule keeps_live_trans [OF kl sv(3)])
    have bX: "extent sg2 b \<subseteq> extents sg ps \<union> B" using ex b by (auto simp: extents_def)
    have ko3: "keeps_others (H - extents sg ps) w (put_page b s w2)"
    proof (rule keeps_others_trans [OF ko touched_others [OF sv(4)]])
      show "extent sg2 b \<inter> (H - extents sg ps) = {}" using bX aB(2) by blast
      have "unat b \<in> extents sg2 (ps @ ?new)" using gr(2) b by (intro extents_pages [of P]) (simp_all add: seg_inv_def)
      then show "unat c \<notin> H - extents sg ps" if "c \<in> {b}" for c using that ex aB(2) by blast
    qed
    have ss: "same_segment sg (sg2\<lparr>seg_last_used := b\<rparr>)" using gf(3) by (simp add: same_segment_def)
    show ?thesis
      by (rule that [of r "sg2\<lparr>seg_last_used := b\<rparr>" "put_page b s w2" B])
        (use al False ar3 bm2 aB(2) kl3 ko3 ss gf(4,5) pp sv(1,2) ex in simp_all)
  qed
qed

subsection \<open>Recycling a page\<close>

text \<open>The invariant does not depend on links and flags beyond the shape of the list.\<close>

lemma seg_inv_relinked:
  assumes inv: "seg_inv P sg w ps A" and re: "relinked w w'" and l: "seg_pages sg' w' ps'" "set ps' \<subseteq> set ps"
    and ss: "same_segment sg sg'"
  shows "seg_inv P sg' w' ps' A"
proof -
  note f = same_segment_fields [OF ss]
  have st: "seg_static P sg" using inv by (simp add: seg_inv_def)
  obtain g where g: "w' = w\<lparr>pages := g\<rparr>" "\<And>p. same_core (pages w p) (g p)" using re by (auto simp: relinked_def)
  have "page_ok P sg' w' p (A p)" if "p \<in> set ps'" for p
  proof (rule page_ok_stable [OF st])
    show "page_ok P sg w p (A p)" using inv that l(2) by (auto simp: seg_inv_def)
  qed (use f g in simp_all)
  moreover have "seg_static P sg'" using st f by (simp add: seg_static_def)
  ultimately show ?thesis using inv l f unfolding seg_inv_def by (metis subsetD)
qed

lemma release_fields [simp]:
  "pages (release_to_system os p n w) = pages w" "ram (release_to_system os p n w) = ram w"
  "arena (release_to_system os p n w) = arena w" "pointer_pages (release_to_system os p n w) = pointer_pages w"
  by (simp_all add: release_to_system_def VirtualMemory_deallocate_def Let_def)

lemma recycle_logical_page_ok:
  assumes inv: "seg_inv P sg w (us @ a # vs) A" and ar: "arena_inv (arena w, w) H" and X: "extents sg (us @ a # vs) \<subseteq> H"
    and r: "recycle_logical_page os a (sg, w) = (sg', w')"
  shows "seg_inv P sg' w' (us @ vs) A" "arena_inv (arena w', w') (H - extent sg a)"
    "ram w' = ram w" "pointer_pages w' = pointer_pages w" "\<And>q. q \<notin> set (us @ vs) \<Longrightarrow> pages w' q = pages w q" "same_segment sg sg'" "seg_lock sg' = seg_lock sg"
    "seg_deallocation_queue sg' = seg_deallocation_queue sg" "arena w' = arena w"
proof -
  obtain w1 where r1: "remove_logical_page a (sg, w) = (sg', w1)" "w' = release_to_system os a (seg_logical_page_size sg') w1"
    using r by (auto simp: recycle_logical_page_def split: prod.splits)
  note e = remove_logical_page_effect [OF r1(1)]
  have l: "seg_pages sg w (us @ a # vs)" and st: "seg_static P sg" using inv by (auto simp: seg_inv_def)
  have n: "seg_logical_page_size sg' = seg_logical_page_size sg" by (rule same_segment_fields [OF e(4)])
  have inv1: "seg_inv P sg' w1 (us @ vs) A"
    by (rule seg_inv_relinked [OF inv e(3) remove_logical_page_ok [OF l r1(1)] _ e(4)]) auto
  then show "seg_inv P sg' w' (us @ vs) A" by (rule seg_inv_world) (simp_all add: r1(2))
  obtain g where g: "w1 = w\<lparr>pages := g\<rparr>" using e(3) by (auto simp: relinked_def)
  have "arena_inv (arena w1, w1) H" using ar g by (simp add: arena_inv_def)
  then have "arena_inv (arena w1, w') (H - extent sg a)"
    unfolding r1(2) n using X st by (intro arena_release_inv) (auto simp: extents_def seg_static_def)
  then show "arena_inv (arena w', w') (H - extent sg a)" by (simp add: r1(2))
  have dl: "dlist (next_page w) (prev_page w) (seg_head sg) (us @ a # vs)" using l by (simp add: seg_pages_def)
  note u = dlist_unlink [OF dl refl refl]
  show "same_segment sg sg'" "seg_lock sg' = seg_lock sg" "seg_deallocation_queue sg' = seg_deallocation_queue sg"
    by (rule e)+
  show "ram w' = ram w" "pointer_pages w' = pointer_pages w" "arena w' = arena w" using g r1(2) by simp_all
  show "pages w' q = pages w q" if "q \<notin> set (us @ vs)" for q
  proof -
    have "last_or 0 us \<in> insert 0 (set us)" "head_or vs 0 \<in> insert 0 (set vs)"
      by (cases us rule: rev_cases; simp) (cases vs; simp)
    then have "q \<notin> {prev_page w a, next_page w a} - {0}" using that u(2,3) by auto
    then show ?thesis using e(7) r1(2) by simp
  qed
qed

subsection \<open>Deallocation\<close>

lemma seg_pages_relinked:
  assumes "seg_pages sg w ps" "next_page w' = next_page w" "prev_page w' = prev_page w"
  shows "seg_pages sg w' ps"
  using assms by (simp add: seg_pages_def)

lemma mark_non_used:
  assumes inv: "seg_inv P sg w ps A"
  shows "seg_inv P sg (upd_page p mark_as_non_used w) ps A"
proof (rule seg_inv_relinked [OF inv])
  show "relinked w (upd_page p mark_as_non_used w)" by (rule relinked_upd) simp_all
  show "seg_pages sg (upd_page p mark_as_non_used w) ps"
    by (rule seg_pages_relinked) (use inv in \<open>auto simp: seg_inv_def fun_eq_iff\<close>)
qed simp_all

text \<open>What a segment may do to the world when it gives up the addresses \<open>X - X'\<close>.\<close>

definition gives_up :: "nat set \<Rightarrow> nat set \<Rightarrow> nat set \<Rightarrow> (u64 \<rightharpoonup> nat) \<Rightarrow> segment_state \<Rightarrow> segment_state \<Rightarrow> bool" where
  "gives_up H X X' L s s' \<longleftrightarrow> X' \<subseteq> X \<and> arena (snd s') = arena (snd s) \<and> arena_inv (arena (snd s'), snd s') (H - (X - X'))
     \<and> keeps_live L (snd s) (snd s') \<and> keeps_others (H - X) (snd s) (snd s')
     \<and> same_segment (fst s) (fst s') \<and> seg_lock (fst s') = seg_lock (fst s)
     \<and> seg_deallocation_queue (fst s') = seg_deallocation_queue (fst s)"

lemma live_in_remove:
  "live_in (us @ a # vs) A L \<Longrightarrow> A a = Map.empty \<Longrightarrow> live_in (us @ vs) A L"
  by (auto simp: live_in_def)

lemma extents_remove:
  assumes "seg_inv P sg w (us @ a # vs) A"
  shows "extents sg (us @ vs) = extents sg (us @ a # vs) - extent sg a"
proof -
  have "extent sg q \<inter> extent sg a = {}" if "q \<in> set (us @ vs)" for q
    using assms that seg_inv_distinct [OF assms] by (auto simp: seg_inv_def simp del: in_region_iff)
  then show ?thesis unfolding extents_def by auto
qed

lemma recycle_gives_up:
  assumes inv: "seg_inv P sg w ps A" and a: "a \<in> set ps" and ar: "arena_inv (arena w, w) H" and X: "extents sg ps \<subseteq> H"
    and live: "live_in ps A L" and e: "A a = Map.empty"
  shows "seg_live P (recycle_logical_page os a (sg, w)) (extents sg ps - extent sg a) L"
    "gives_up H (extents sg ps) (extents sg ps - extent sg a) L (sg, w) (recycle_logical_page os a (sg, w))"
proof -
  obtain us vs where ps: "ps = us @ a # vs" using a by (meson split_list)
  obtain sg' w' where r: "recycle_logical_page os a (sg, w) = (sg', w')" by (cases "recycle_logical_page os a (sg, w)")
  note k = recycle_logical_page_ok [OF inv [unfolded ps] ar X [unfolded ps] r]
  have n: "seg_logical_page_size sg' = seg_logical_page_size sg" by (rule same_segment_fields [OF k(6)])
  have x: "extents sg' (us @ vs) = extents sg ps - extent sg a"
    using extents_remove [OF inv [unfolded ps]] n by (simp add: ps extents_def)
  show "seg_live P (recycle_logical_page os a (sg, w)) (extents sg ps - extent sg a) L"
    unfolding r seg_live_def using k(1) x live_in_remove [OF live [unfolded ps] e] by auto
  have "extent sg a \<subseteq> extents sg ps" using a by (auto simp: extents_def)
  then have d: "extents sg ps - (extents sg ps - extent sg a) = extent sg a" by blast
  have st: "seg_static P sg" using inv by (simp add: seg_inv_def)
  have "keeps_others (H - extents sg ps) w w'"
    using k(3,5) extents_pages [OF st] unfolding keeps_others_def ps by (metis Diff_iff in_set_conv_decomp set_append Un_iff list.set_intros(2))
  then show "gives_up H (extents sg ps) (extents sg ps - extent sg a) L (sg, w) (recycle_logical_page os a (sg, w))"
    unfolding gives_up_def r fst_conv snd_conv d using k by (simp add: keeps_live_def)
qed

lemma gives_up_after:
  assumes "keeps_live L w w1" "keeps_others (H - X) w w1" "arena w1 = arena w" "gives_up H X X' L (sg, w1) s'"
  shows "gives_up H X X' L (sg, w) s'"
  using assms(3,4) keeps_live_trans [OF assms(1)] keeps_others_trans [OF assms(2)] unfolding gives_up_def by auto

lemma deallocate_from_page_ok:
  assumes inv: "seg_inv P sg w ps A" and p: "p \<in> set ps" and ar: "arena_inv (arena w, w) H" and X: "extents sg ps \<subseteq> H"
    and live: "live_in ps A L" and k: "A p ptr = Some k"
  obtains s' X' where "deallocate_from_page P os p ptr (sg, w) = Some s'" "seg_live P s' X' (L(ptr := None))"
    "gives_up H (extents sg ps) X' (L(ptr := None)) (sg, w) s'"
proof -
  note pi = seg_inv_pages [OF inv p]
  obtain s where s: "page_deallocate (page_type P) ptr (get_page p w) = Some s" "page_inv (page_type P) s ((A p)(ptr := None))"
    "page_frame ((A p)(ptr := None)) (get_page p w) s" using page.dealloc_live [OF pi(3) k] by blast
  let ?w = "put_page p s w" and ?A = "A(p := (A p)(ptr := None))" and ?L = "L(ptr := None)" and ?X = "extents sg ps"
  let ?m = "upd_page p mark_as_non_used ?w"
  have inv1: "seg_inv P sg ?w ps ?A" by (rule put_page_ok [OF inv p s(2,3)])
  have live1: "live_in ps ?A ?L" by (rule live_in_upd [OF inv p live live_page(3) [OF inv p k]])
  have pu: "unat p \<in> ?X" and pe: "extent sg p \<subseteq> ?X" using extents_pages [OF pi(2) p] p by (auto simp: extents_def)
  have kl: "keeps_live ?L w ?w" and tc: "touched (extent sg p) {p} w ?w"
    by (rule page_frame_live [OF inv p live s(3), of ?L]; simp split: if_splits)+
  have ko: "keeps_others (H - ?X) w ?w" by (rule touched_others [OF tc]) (use pu pe in auto)
  have ar1: "arena_inv (arena ?w, ?w) H" using ar by (simp add: arena_inv_def)
  have arm: "arena_inv (arena ?m, ?m) H" using ar by (simp add: arena_inv_def)
  have invm: "seg_inv P sg ?m ps ?A" by (rule mark_non_used [OF inv1])
  have kom: "keeps_others (H - ?X) w ?m" using ko pu by (auto simp: keeps_others_def)
  have klm: "keeps_live ?L w ?m" using kl by (simp add: keeps_live_def)
  have stay: "seg_live P (sg, v) ?X ?L" if "seg_inv P sg v ps ?A" for v using that live1 by (auto simp: seg_live_def)
  have same: "gives_up H ?X ?X ?L (sg, w) (sg, v)"
    if "arena_inv (arena v, v) H" "keeps_live ?L w v" "keeps_others (H - ?X) w v" "arena v = arena w" for v
    using that by (simp add: gives_up_def)
  have e: "?A p = Map.empty" if "get_used_size (pages ?w p) = 0"
    using that page.used_none [OF s(2)] by (simp add: get_used_size_def)
  show ?thesis
  proof (cases "get_used_size (pages ?w p) = 0 \<and> page_recycling_policy P = IMMEDIATE
      \<and> seg_logical_page_count sg > seg_page_recycling_threshold sg")
    case True
    note r = recycle_gives_up [OF invm p arm X live1 e]
    show ?thesis
      by (rule that [of "recycle_logical_page os p (sg, ?m)"]; (rule gives_up_after [OF klm kom])?)
        (use s(1) True r in \<open>auto simp: deallocate_from_page_def Let_def\<close>)
  next
    case False
    let ?v = "if get_used_size (pages ?w p) = 0 then ?m else ?w"
    have d: "deallocate_from_page P os p ptr (sg, w) = Some (sg, ?v)"
      using s(1) False by (auto simp: deallocate_from_page_def Let_def)
    show ?thesis
    proof (cases "get_used_size (pages ?w p) = 0")
      case True
      then show ?thesis using d by (intro that [OF _ stay [OF invm] same [OF arm klm kom]]) simp_all
    next
      case False
      then show ?thesis using d by (intro that [OF _ stay [OF inv1] same [OF ar1 kl ko]]) simp_all
    qed
  qed
qed

subsection \<open>From an address to its page\<close>

lemma mask_page:
  assumes "is_power_of_two n" "unat n dvd unat p" "unat x \<in> region p (unat n)"
  shows "get_logical_page_from_address x n = p"
proof -
  obtain c where c: "unat p = unat n * c" using assms(2) ..
  then obtain d where d: "unat x = unat n * c + d" "d < unat n"
    using assms(3) le_iff_add [of "unat p" "unat x"] by auto
  have "unat x mod unat n = d" using d by simp
  then have "unat x - unat x mod unat n = unat p" using c d(1) by simp
  then have "unat (get_logical_page_from_address x n) = unat p"
    unfolding get_logical_page_from_address_def and_not_pow2_mask [OF assms(1)] unat_round_down .
  then show ?thesis by (simp add: unat_eq_iff_u64)
qed

lemma in_extent_iff:
  assumes "page_ok P sg w p A"
  shows "unat x \<in> extent sg p \<longleftrightarrow> p \<le> x \<and> x < p + seg_logical_page_size sg"
proof -
  have "unat (p + seg_logical_page_size sg) = unat p + unat (seg_logical_page_size sg)"
    using assms by (intro unat_add_nowrap) (simp add: page_ok_def)
  then show ?thesis by (simp add: word_le_nat_alt word_less_nat_alt)
qed

lemma find_extent:
  assumes inv: "seg_inv P sg w ps A" and p: "p \<in> set ps" and x: "unat x \<in> extent sg p"
  shows "find_page x (seg_logical_page_size sg) w (seg_head sg) = Some p"
proof (rule find_page_ok)
  show "seg_pages sg w ps" "p \<in> set ps" using inv p by (auto simp: seg_inv_def)
  show "p \<le> x" "x < p + seg_logical_page_size sg" using x in_extent_iff [OF seg_inv_pages(1) [OF inv p]] by blast+
  fix q assume q: "q \<in> set ps" "q \<le> x" "x < q + seg_logical_page_size sg"
  then have "unat x \<in> extent sg q" using in_extent_iff [OF seg_inv_pages(1) [OF inv q(1)]] by blast
  then show "q = p" using inv p q(1) x unfolding seg_inv_def by blast
qed

lemma deallocate_internal_ok:
  assumes lv: "seg_live P (sg, w) X L" and ar: "arena_inv (arena w, w) H" and X: "X \<subseteq> H" and k: "L ptr = Some k"
  obtains s' X' where "deallocate_internal P os ptr (sg, w) = Some s'" "seg_live P s' X' (L(ptr := None))"
    "gives_up H X X' (L(ptr := None)) (sg, w) s'"
proof -
  obtain ps A where s: "seg_inv P sg w ps A" "X = extents sg ps" "live_in ps A L" using lv by (auto simp: seg_live_def)
  obtain p where p: "p \<in> set ps" "A p ptr = Some k" using k s(3) by (auto simp: live_in_def)
  note pi = seg_inv_pages [OF s(1) p(1)]
  have e: "unat ptr \<in> extent sg p" by (rule live_page(3) [OF s(1) p])
  have "deallocate_internal P os ptr (sg, w) = deallocate_from_page P os p ptr (sg, w)"
  proof (cases "buffer_aligned_to_logical_page_size P")
    case True
    then have "get_logical_page_from_address ptr (seg_logical_page_size sg) = p"
      using pi(1,2) e by (intro mask_page) (auto simp: page_ok_def page_aligned_def seg_static_def)
    then show ?thesis using True by (simp add: deallocate_internal_def deallocate_from_aligned_logical_page_def)
  next
    case False
    have "p \<noteq> 0" using pi(1) by (simp add: page_ok_def)
    then show ?thesis using False find_extent [OF s(1) p(1) e] by (simp add: deallocate_internal_def deallocate_by_search_def)
  qed
  then show ?thesis
    using deallocate_from_page_ok [OF s(1) p(1) ar X [unfolded s(2)] s(3) p(2)] that s(2) by metis
qed

subsection \<open>Allocation\<close>

text \<open>What a segment may do to the world when it obtains the addresses \<open>B\<close>.\<close>

definition takes :: "nat set \<Rightarrow> nat set \<Rightarrow> nat set \<Rightarrow> (u64 \<rightharpoonup> nat) \<Rightarrow> segment_state \<Rightarrow> segment_state \<Rightarrow> bool" where
  "takes H X B L s s' \<longleftrightarrow> B \<inter> H = {} \<and> arena_inv (arena (snd s'), snd s') (H \<union> B)
     \<and> keeps_live L (snd s) (snd s') \<and> keeps_others (H - X) (snd s) (snd s')
     \<and> keeps_alignment (fst s) (arena (snd s)) (arena (snd s')) \<and> pointer_pages (snd s') = pointer_pages (snd s)
     \<and> same_segment (fst s) (fst s') \<and> seg_lock (fst s') = seg_lock (fst s)
     \<and> seg_deallocation_queue (fst s') = seg_deallocation_queue (fst s)"

lemma takes_refl: "arena_inv (arena w, w) H \<Longrightarrow> takes H X {} L (sg, w) (sg, w)"
  by (simp add: takes_def keeps_live_def keeps_others_def)

lemma allocate_internal_ok:
  assumes os: "os_ok os" and lv: "seg_live P (sg, w) X L" and ar: "arena_inv (arena w, w) H" and X: "X \<subseteq> H"
    and am: "arena_matches P sg (arena w)" and fit: "seg_fit P sg sz"
    and g: "sz \<le> seg_max_object_size sg \<Longrightarrow> concurrency_policy P \<noteq> THREAD_LOCAL \<Longrightarrow> can_grow P os sz (sg, w)"
  obtains r s' B where "allocate_internal P os sz (sg, w) = Some (r, s')" "takes H X B L (sg, w) s'"
    "arena_matches P sg (arena (snd s'))" "r = 0 \<longrightarrow> seg_live P s' (X \<union> B) L"
    "r \<noteq> 0 \<longrightarrow> L r = None \<and> (\<exists>k \<ge> unat sz. seg_live P s' (X \<union> B) (L(r \<mapsto> k)))"
proof -
  obtain ps A where s: "seg_inv P sg w ps A" "X = extents sg ps" "live_in ps A L" using lv by (auto simp: seg_live_def)
  show ?thesis
  proof (cases "sz \<le> seg_max_object_size sg")
    case False
    then have "allocate_internal P os sz (sg, w) = Some (0, (sg, w))"
      by (simp add: allocate_internal_def not_le)
    then show ?thesis using that [of 0 "(sg, w)" "{}"] lv am takes_refl [OF ar] by simp
  next
    case True
    from s(1) fit True show ?thesis
    proof (cases rule: allocate_internal_cases [where os = os])
      case (served p r t)
      note sv = serve_from_page [OF s(1) served(1) s(3) fit served(3,2)]
      have st: "seg_static P sg" using s(1) by (simp add: seg_inv_def)
      have e: "extent sg p \<subseteq> X" "unat p \<in> X" using served(1) extents_pages [OF st] s(2) by (auto simp: extents_def)
      have "keeps_others (H - X) w (put_page p t w)" by (rule touched_others [OF sv(4)]) (use e in auto)
      then have "takes H X {} L (sg, w) (sg\<lparr>seg_last_used := p\<rparr>, put_page p t w)"
        using ar sv(3) by (simp add: takes_def arena_inv_def same_segment_def)
      then show ?thesis using that [OF served(4)] sv(1,2) am served(2) s(2) by auto
    next
      case full
      show ?thesis
      proof (cases "concurrency_policy P = THREAD_LOCAL")
        case True
        then show ?thesis using full(2) that [of 0 "(sg, w)" "{}"] lv am takes_refl [OF ar] by simp
      next
        case False
        obtain r sg' w' B where b: "allocate_by_growing P os sz (sg, w) = Some (r, (sg', w'))"
          "arena_inv (arena w', w') (H \<union> B)" "arena_matches P sg (arena w')" "B \<inter> H = {}" "keeps_live L w w'"
          "keeps_others (H - extents sg ps) w w'" "keeps_alignment sg (arena w) (arena w')"
          "same_segment sg sg'" "seg_lock sg' = seg_lock sg" "seg_deallocation_queue sg' = seg_deallocation_queue sg"
          "pointer_pages w' = pointer_pages w" "r = 0 \<longrightarrow> seg_live P (sg', w') (extents sg ps \<union> B) L"
          "r \<noteq> 0 \<longrightarrow> L r = None \<and> (\<exists>k \<ge> unat sz. seg_live P (sg', w') (extents sg ps \<union> B) (L(r \<mapsto> k)))"
          by (rule allocate_by_growing_ok [OF os ar s(1) X [unfolded s(2)] s(3) fit g [OF True False] am])
        show ?thesis
          by (rule that [of r "(sg', w')" B]) (use full(2) False b s(2) in \<open>simp_all add: takes_def\<close>)
      qed
    qed
  qed
qed

text \<open>A segment does not notice what happens outside its pages.\<close>

lemma seg_live_others:
  assumes lv: "seg_live P (sg, w) X L" and k: "keeps_others Y w w'" and X: "X \<subseteq> Y"
  shows "seg_live P (sg, w') X L"
proof -
  obtain ps A where s: "seg_inv P sg w ps A" "X = extents sg ps" "live_in ps A L" using lv by (auto simp: seg_live_def)
  have st: "seg_static P sg" and l: "seg_pages sg w ps" using s(1) by (auto simp: seg_inv_def)
  have pg: "pages w' p = pages w p" if "p \<in> set ps" for p
    using k X extents_pages [OF st that] s(2) unfolding keeps_others_def by blast
  have "page_ok P sg w' p (A p)" if p: "p \<in> set ps" for p
  proof (rule page_ok_stable [OF st])
    show "page_ok P sg w p (A p)" using s(1) p by (simp add: seg_inv_def)
    show "ram w' x = ram w x" if "unat x \<in> extent sg p" for x
    proof -
      have "unat x \<in> extents sg ps" using that p unfolding extents_def by blast
      then have "unat x \<in> Y" using X s(2) by blast
      then show ?thesis using k by (simp add: keeps_others_def)
    qed
  qed (simp_all add: pg [OF p])
  moreover have "dlist (next_page w') (prev_page w') (seg_head sg) ps = dlist (next_page w) (prev_page w) (seg_head sg) ps"
    by (rule dlseg_cong) (simp add: pg)
  then have "seg_pages sg w' ps" using l by (simp add: seg_pages_def)
  ultimately have "seg_inv P sg w' ps A" using s(1) by (simp add: seg_inv_def)
  then show ?thesis using s(2,3) unfolding seg_live_def fst_conv snd_conv by blast
qed

end
