(* ===== verification/Allocator_Contract.thy ===== *)
theory Allocator_Contract
  imports Machine
begin

text \<open>
  The contract that every allocator of the library offers its user (\<open>allocate\<close> and \<open>deallocate\<close> of a
  logical page, a segment or a heap), as a locale, and what a user may conclude from it.

  A user holds payloads (pointer to requested size) and remembers the bytes it has stored in them.  The
  contract speaks about the live payloads of the allocator (pointer to capacity, at least the requested
  size), the memory and the addresses that are safe to access.
\<close>

type_synonym 's user_state = "'s \<times> (u64 \<rightharpoonup> nat) \<times> (u64 \<rightharpoonup> u8)"

definition forget :: "nat set \<Rightarrow> (u64 \<rightharpoonup> u8) \<Rightarrow> u64 \<rightharpoonup> u8" where
  "forget R M x = (if unat x \<in> R then None else M x)"

inductive user_step ::
  "(u64 \<Rightarrow> 's \<Rightarrow> (u64 \<times> 's) option) \<Rightarrow> (u64 \<Rightarrow> 's \<Rightarrow> 's option) \<Rightarrow> (u64 \<Rightarrow> 's \<Rightarrow> bool)
   \<Rightarrow> (u64 \<Rightarrow> u8 \<Rightarrow> 's \<Rightarrow> 's) \<Rightarrow> 's user_state \<Rightarrow> 's user_state \<Rightarrow> bool"
  for alloc dealloc fit poke where
  grant: "fit sz s \<Longrightarrow> alloc sz s = Some (p, s') \<Longrightarrow> p \<noteq> 0
    \<Longrightarrow> user_step alloc dealloc fit poke (s, held, M) (s', held(p \<mapsto> unat sz), forget (region p (unat sz)) M)"
| refuse: "fit sz s \<Longrightarrow> alloc sz s = Some (0, s') \<Longrightarrow> user_step alloc dealloc fit poke (s, held, M) (s', held, M)"
| give_back: "held p = Some n \<Longrightarrow> dealloc p s = Some s'
    \<Longrightarrow> user_step alloc dealloc fit poke (s, held, M) (s', held(p := None), forget (region p n) M)"
| store: "held p = Some n \<Longrightarrow> unat x \<in> region p n
    \<Longrightarrow> user_step alloc dealloc fit poke (s, held, M) (poke x v s, held, M(x \<mapsto> v))"

inductive_cases user_stepE: "user_step alloc dealloc fit poke c c'"

text \<open>
  The abstract allocator: blocks of an unbounded supply of memory, and their contents.  A request is
  answered with any block that is disjoint from the held ones, or refused; a fresh block has unknown
  contents.
\<close>

type_synonym spec_state = "(u64 \<rightharpoonup> nat) \<times> (u64 \<rightharpoonup> u8)"

inductive spec_step :: "spec_state \<Rightarrow> spec_state \<Rightarrow> bool" where
  spec_grant: "p \<noteq> 0 \<Longrightarrow> held p = None \<Longrightarrow> \<forall>q j. held q = Some j \<longrightarrow> region p n \<inter> region q j = {}
    \<Longrightarrow> spec_step (held, M) (held(p \<mapsto> n), forget (region p n) M)"
| spec_refuse: "spec_step (held, M) (held, M)"
| spec_give_back: "held p = Some n \<Longrightarrow> spec_step (held, M) (held(p := None), forget (region p n) M)"
| spec_store: "held p = Some n \<Longrightarrow> unat x \<in> region p n \<Longrightarrow> spec_step (held, M) (held, M(x \<mapsto> v))"

text \<open>The contract in two parts: what holds whenever the operations return, and that a live payload can always be given
  back.\<close>

locale partial_allocator =
  fixes inv :: "'s \<Rightarrow> (u64 \<rightharpoonup> nat) \<Rightarrow> bool"
    and alloc :: "u64 \<Rightarrow> 's \<Rightarrow> (u64 \<times> 's) option"
    and dealloc :: "u64 \<Rightarrow> 's \<Rightarrow> 's option"
    and fit :: "u64 \<Rightarrow> 's \<Rightarrow> bool"
    and poke :: "u64 \<Rightarrow> u8 \<Rightarrow> 's \<Rightarrow> 's"
    and mem_of :: "'s \<Rightarrow> mem"
    and space :: "'s \<Rightarrow> nat set"
  assumes live_nonnull: "inv s A \<Longrightarrow> A 0 = None"
    and live_inside: "inv s A \<Longrightarrow> A p = Some k \<Longrightarrow> region p k \<subseteq> space s"
    and live_disjoint: "inv s A \<Longrightarrow> A p = Some k \<Longrightarrow> A q = Some j \<Longrightarrow> p \<noteq> q \<Longrightarrow> region p k \<inter> region q j = {}"
    and alloc_total: "inv s A \<Longrightarrow> fit sz s \<Longrightarrow> \<exists>p s'. alloc sz s = Some (p, s')"
    and alloc_null: "inv s A \<Longrightarrow> fit sz s \<Longrightarrow> alloc sz s = Some (0, s') \<Longrightarrow> inv s' A"
    and alloc_new: "inv s A \<Longrightarrow> fit sz s \<Longrightarrow> alloc sz s = Some (p, s') \<Longrightarrow> p \<noteq> 0
      \<Longrightarrow> A p = None \<and> (\<exists>k \<ge> unat sz. inv s' (A(p \<mapsto> k)))"
    and alloc_keeps: "inv s A \<Longrightarrow> fit sz s \<Longrightarrow> alloc sz s = Some (p, s') \<Longrightarrow> A q = Some k \<Longrightarrow> unat x \<in> region q k
      \<Longrightarrow> mem_of s' x = mem_of s x"
    and dealloc_inv: "inv s A \<Longrightarrow> A p = Some k \<Longrightarrow> dealloc p s = Some s' \<Longrightarrow> inv s' (A(p := None))"
    and dealloc_keeps: "inv s A \<Longrightarrow> A p = Some j \<Longrightarrow> dealloc p s = Some s' \<Longrightarrow> p \<noteq> q \<Longrightarrow> A q = Some k
      \<Longrightarrow> unat x \<in> region q k \<Longrightarrow> mem_of s' x = mem_of s x"
    and poke_live: "inv s A \<Longrightarrow> A p = Some k \<Longrightarrow> unat x \<in> region p k \<Longrightarrow> inv (poke x v s) A"
    and poke_mem: "mem_of (poke x v s) = (mem_of s)(x := v)"
begin

definition honours :: "'s user_state \<Rightarrow> bool" where
  "honours = (\<lambda>(s, held, M). \<exists>A. inv s A \<and> dom A = dom held \<and> (\<forall>p n. held p = Some n \<longrightarrow> (\<exists>k \<ge> n. A p = Some k))
     \<and> (\<forall>x v. M x = Some v \<longrightarrow> mem_of s x = v \<and> (\<exists>p n. held p = Some n \<and> unat x \<in> region p n)))"

lemma honours_start: "inv s Map.empty \<Longrightarrow> honours (s, Map.empty, Map.empty)"
  by (auto simp: honours_def intro!: exI [of _ Map.empty])

lemma held_live:
  assumes "dom A = dom held" "\<And>p n. held p = Some n \<Longrightarrow> \<exists>k \<ge> n. A p = Some k" "held p = Some n" "unat x \<in> region p n"
  obtains k where "A p = Some k" "n \<le> k" "unat x \<in> region p k"
proof -
  obtain k where k: "A p = Some k" "n \<le> k" using assms(2) [OF assms(3)] by blast
  then show ?thesis using that assms(4) by force
qed

lemma honours_step:
  assumes st: "user_step alloc dealloc fit poke c c'" and h: "honours c"
  shows "honours c'"
  using st
proof cases
  case (grant sz s p s' held M)
  obtain A where A: "inv s A" "dom A = dom held" "\<And>p n. held p = Some n \<Longrightarrow> \<exists>k \<ge> n. A p = Some k"
    "\<And>x v. M x = Some v \<Longrightarrow> mem_of s x = v \<and> (\<exists>p n. held p = Some n \<and> unat x \<in> region p n)"
    using h grant(1) by (auto simp: honours_def)
  obtain k where k: "A p = None" "k \<ge> unat sz" "inv s' (A(p \<mapsto> k))" using alloc_new [OF A(1) grant(3,4,5)] by blast
  have "mem_of s' x = v \<and> (\<exists>q n. (held(p \<mapsto> unat sz)) q = Some n \<and> unat x \<in> region q n)"
    if m: "forget (region p (unat sz)) M x = Some v" for x v
  proof -
    have M: "M x = Some v" using m by (simp add: forget_def split: if_splits)
    obtain q n where q: "held q = Some n" "unat x \<in> region q n" using A(4) [OF M] by blast
    obtain j where "A q = Some j" "unat x \<in> region q j" by (rule held_live [OF A(2,3) q])
    then have "mem_of s' x = v" using alloc_keeps [OF A(1) grant(3,4)] A(4) [OF M] by simp
    moreover have "q \<noteq> p" using q(1) k(1) A(2) by (metis domIff option.discI)
    ultimately show ?thesis using q by auto
  qed
  then show ?thesis using k A(2,3) unfolding grant(2) honours_def prod.case
    by (intro exI [of _ "A(p \<mapsto> k)"]) auto
next
  case (refuse sz s s' held M)
  obtain A where A: "inv s A" "dom A = dom held" "\<And>p n. held p = Some n \<Longrightarrow> \<exists>k \<ge> n. A p = Some k"
    "\<And>x v. M x = Some v \<Longrightarrow> mem_of s x = v \<and> (\<exists>p n. held p = Some n \<and> unat x \<in> region p n)"
    using h refuse(1) by (auto simp: honours_def)
  have "mem_of s' x = v \<and> (\<exists>q n. held q = Some n \<and> unat x \<in> region q n)" if M: "M x = Some v" for x v
  proof -
    obtain q n where q: "held q = Some n" "unat x \<in> region q n" using A(4) [OF M] by blast
    obtain j where "A q = Some j" "unat x \<in> region q j" by (rule held_live [OF A(2,3) q])
    then show ?thesis using alloc_keeps [OF A(1) refuse(3,4)] A(4) [OF M] by simp
  qed
  then show ?thesis using alloc_null [OF A(1) refuse(3,4)] A(2,3) unfolding refuse(2) honours_def by auto
next
  case (give_back held p n s s' M)
  obtain A where A: "inv s A" "dom A = dom held" "\<And>p n. held p = Some n \<Longrightarrow> \<exists>k \<ge> n. A p = Some k"
    "\<And>x v. M x = Some v \<Longrightarrow> mem_of s x = v \<and> (\<exists>p n. held p = Some n \<and> unat x \<in> region p n)"
    using h give_back(1) by (auto simp: honours_def)
  obtain k where k: "A p = Some k" using A(3) [OF give_back(3)] by blast
  have i: "inv s' (A(p := None))" by (rule dealloc_inv [OF A(1) k give_back(4)])
  have "mem_of s' x = v \<and> (\<exists>q j. (held(p := None)) q = Some j \<and> unat x \<in> region q j)"
    if m: "forget (region p n) M x = Some v" for x v
  proof -
    have M: "M x = Some v" "unat x \<notin> region p n" using m by (simp_all add: forget_def split: if_splits)
    obtain q j where q: "held q = Some j" "unat x \<in> region q j" using A(4) [OF M(1)] by blast
    have qp: "p \<noteq> q" using q M(2) give_back(3) by auto
    obtain i where "A q = Some i" "unat x \<in> region q i" by (rule held_live [OF A(2,3) q])
    then have "mem_of s' x = v" using dealloc_keeps [OF A(1) k give_back(4) qp] A(4) [OF M(1)] by simp
    then show ?thesis using q qp by auto
  qed
  then show ?thesis using i A(2,3) unfolding give_back(2) honours_def prod.case
    by (intro exI [of _ "A(p := None)"]) auto
next
  case (store held p n x s M v)
  obtain A where A: "inv s A" "dom A = dom held" "\<And>p n. held p = Some n \<Longrightarrow> \<exists>k \<ge> n. A p = Some k"
    "\<And>x v. M x = Some v \<Longrightarrow> mem_of s x = v \<and> (\<exists>p n. held p = Some n \<and> unat x \<in> region p n)"
    using h store(1) by (auto simp: honours_def)
  obtain k where k: "A p = Some k" "unat x \<in> region p k" by (rule held_live [OF A(2,3) store(3,4)])
  then show ?thesis using poke_live [OF A(1) k] A(2-4) store(3,4) unfolding store(2) honours_def
    by (auto simp: poke_mem intro!: exI [of _ A])
qed

lemma honours_run: "(user_step alloc dealloc fit poke)\<^sup>*\<^sup>* c c' \<Longrightarrow> honours c \<Longrightarrow> honours c'"
  by (induction rule: rtranclp_induct) (auto intro: honours_step)

text \<open>What the user of such an allocator sees.\<close>

lemma user_payloads:
  assumes h: "honours (s, held, M)" and p: "held p = Some n"
  shows "p \<noteq> 0" "region p n \<subseteq> space s" "held q = Some j \<Longrightarrow> p \<noteq> q \<Longrightarrow> region p n \<inter> region q j = {}"
proof -
  obtain A where A: "inv s A" "dom A = dom held" "\<And>p n. held p = Some n \<Longrightarrow> \<exists>k \<ge> n. A p = Some k"
    using h by (auto simp: honours_def)
  obtain k where k: "A p = Some k" "n \<le> k" using A(3) [OF p] by blast
  have sub: "region p n \<subseteq> region p k" using k(2) by auto
  show "p \<noteq> 0" using live_nonnull [OF A(1)] k(1) by auto
  show "region p n \<subseteq> space s" using live_inside [OF A(1) k(1)] sub by blast
  assume q: "held q = Some j" "p \<noteq> q"
  obtain i where i: "A q = Some i" "j \<le> i" using A(3) [OF q(1)] by blast
  have "region q j \<subseteq> region q i" using i(2) by auto
  then show "region p n \<inter> region q j = {}" using live_disjoint [OF A(1) k(1) i(1) q(2)] sub by blast
qed

lemma user_contents: "honours (s, held, M) \<Longrightarrow> M x = Some v \<Longrightarrow> mem_of s x = v"
  by (auto simp: honours_def)

lemma user_requests_return: "honours (s, held, M) \<Longrightarrow> fit sz s \<Longrightarrow> \<exists>p s'. alloc sz s = Some (p, s')"
  using alloc_total by (auto simp: honours_def)

text \<open>The allocator refines the abstract one: every step of the user is a step of the specification.\<close>

lemma user_step_refines:
  assumes st: "user_step alloc dealloc fit poke c c'" and h: "honours c"
  shows "spec_step (snd c) (snd c')"
  using st
proof cases
  case (grant sz s p s' held M)
  obtain A where A: "inv s A" "dom A = dom held" using h grant(1) by (auto simp: honours_def)
  have new: "held p = None" using alloc_new [OF A(1) grant(3,4,5)] A(2) by (metis domIff)
  have h': "honours (s', held(p \<mapsto> unat sz), forget (region p (unat sz)) M)" using honours_step [OF st h] grant(2) by simp
  have "region p (unat sz) \<inter> region q j = {}" if q: "held q = Some j" for q j
    using user_payloads(3) [OF h', of p "unat sz" q j] q new by (cases "q = p") auto
  then show ?thesis using spec_grant [of p held "unat sz" M] new grant(1,2,5) by simp
qed (auto intro: spec_step.intros)

lemma user_run_refines:
  "(user_step alloc dealloc fit poke)\<^sup>*\<^sup>* c c' \<Longrightarrow> honours c \<Longrightarrow> spec_step\<^sup>*\<^sup>* (snd c) (snd c')"
proof (induction rule: rtranclp_induct)
  case (step c' c'')
  have "honours c'" by (rule honours_run [OF step(1) step(4)])
  then show ?case using step(3) [OF step(4)] user_step_refines [OF step(2)] by (meson rtranclp.rtrancl_into_rtrancl)
qed simp

end

locale allocator_contract = partial_allocator +
  assumes dealloc_total: "inv s A \<Longrightarrow> A p = Some k \<Longrightarrow> \<exists>s'. dealloc p s = Some s'"
begin

lemma dealloc_live: "inv s A \<Longrightarrow> A p = Some k \<Longrightarrow> \<exists>s'. dealloc p s = Some s' \<and> inv s' (A(p := None))"
  using dealloc_total dealloc_inv by metis

lemma user_progress:
  assumes h: "honours (s, held, M)"
  shows "fit sz s \<Longrightarrow> \<exists>p s'. alloc sz s = Some (p, s')" "held p = Some n \<Longrightarrow> \<exists>s'. dealloc p s = Some s'"
proof -
  show "fit sz s \<Longrightarrow> \<exists>p s'. alloc sz s = Some (p, s')" by (rule user_requests_return [OF h])
  show "held p = Some n \<Longrightarrow> \<exists>s'. dealloc p s = Some s'" using h dealloc_total unfolding honours_def by blast
qed

end

end
