(* ===== verification/Page_Client.thy ===== *)
theory Page_Client
  imports Page_Contract Allocator_Contract
begin

text \<open>
  A logical page is an allocator: the contract of Page_Contract gives the one of Allocator_Contract, and
  with it the bytes that a user stores are the bytes that it reads back.
\<close>

definition page_poke :: "u64 \<Rightarrow> u8 \<Rightarrow> page_state \<Rightarrow> page_state" where
  "page_poke x v s = (fst s, (snd s)(x := v))"

sublocale logical_page_contract \<subseteq> user: allocator_contract inv alloc dealloc fit page_poke snd "\<lambda>s. page_region (fst s)"
proof (unfold_locales, goal_cases)
  case (1 s A)
  then show ?case by (rule live_nonnull)
next
  case (2 s A p k)
  then show ?case by (rule live_inside)
next
  case (3 s A p k q j)
  then show ?case by (rule live_disjoint)
next
  case (4 s A sz)
  then show ?case by (rule alloc_total)
next
  case (5 s A sz s')
  then show ?case using alloc_null by blast
next
  case (6 s A sz p s')
  then show ?case using alloc_new by blast
next
  case (7 s A sz p s' q k x)
  show ?case
  proof (cases "p = 0")
    case True
    then show ?thesis using alloc_null 7 by blast
  next
    case False
    then show ?thesis using alloc_new [OF 7(1-3)] 7(4,5) unfolding page_frame_def by metis
  qed
next
  case (8 s A p k s')
  then show ?case using dealloc_live [OF 8(1,2)] by auto
next
  case (9 s A p j s' q k x)
  have "page_frame (A(p := None)) s s'" using dealloc_live [OF 9(1,2)] 9(3) by auto
  moreover have "(A(p := None)) q = Some k" using 9(4,5) by simp
  ultimately show ?case using 9(6) unfolding page_frame_def by metis
next
  case (10 s A p k x v)
  have "inv (fst s, (snd s)(x := v)) A"
  proof (rule stable)
    show "inv (fst s, snd s) A" "same_core (fst s) (fst s)" using 10(1) by simp_all
    show "unat y \<notin> page_region (fst s) \<or> (\<exists>p k. A p = Some k \<and> unat y \<in> region p k)"
      if "((snd s)(x := v)) y \<noteq> snd s y" for y
      using that 10(2,3) by (cases "y = x") auto
  qed
  then show ?case by (simp add: page_poke_def)
next
  case (11 x v s)
  then show ?case by (simp add: page_poke_def)
next
  case (12 s A p k)
  then show ?case using dealloc_live by blast
qed

text \<open>The memory of a page is the user's: in every run of allocations, frees of held pointers and
  stores into held payloads on a fresh page of either class, a byte that the user has stored and not freed
  since reads back with the value stored last.\<close>

theorem page_reads_back:
  assumes "page_create pt buffer n sz_class s0 = (True, s)" "unat buffer + unat n < 2 ^ 64"
    and "(user_step (page_allocate pt) (page_deallocate pt) (page_fit pt) page_poke)\<^sup>*\<^sup>*
      (s, Map.empty, Map.empty) (s', held, M)"
    and "M x = Some v"
  shows "snd s' x = v"
  using page.user.user_contents [OF page.user.honours_run [OF assms(3)] assms(4)]
    page.user.honours_start [of pt s] page_create_ok(1) assms(1,2) by (cases s; cases s0) auto

theorem page_reads_back_witness:
  "snd (snd (the (page_allocate LOGICAL_PAGE 32 (page_poke 4200 7 (example_page 1))))) 4200 = 7"
proof -
  let ?al = "page_allocate LOGICAL_PAGE" and ?de = "page_deallocate LOGICAL_PAGE" and ?fit = "page_fit LOGICAL_PAGE"
  let ?R = "user_step ?al ?de ?fit page_poke" and ?s = "page_poke 4200 7 (example_page 1)"
  let ?M = "(forget (region 4192 32) Map.empty)(4200 \<mapsto> 7 :: u8)" and ?t = "snd (the (?al 32 ?s))"
  have "?fit 32 (example_page 0)" "fst (the (?al 32 (example_page 0))) = 4192" by code_simp+
  moreover have "?al 32 (example_page 0) = Some (fst (the (?al 32 (example_page 0))), example_page 1)"
    by (simp add: example_page.simps(2) page_allocate.simps(1) del: LogicalPage_allocate.simps)
  ultimately have "?R (example_page 0, Map.empty, Map.empty) (example_page 1, [4192 \<mapsto> 32], forget (region 4192 32) Map.empty)"
    using user_step.grant [of ?fit 32 "example_page 0" ?al 4192 "example_page 1" ?de page_poke Map.empty Map.empty] by simp
  moreover have "?R (example_page 1, [4192 \<mapsto> 32], forget (region 4192 32) Map.empty) (?s, [4192 \<mapsto> 32], ?M)"
    by (rule user_step.store [of _ 4192 32]) simp_all
  moreover have f: "?fit 32 ?s" and "fst (the (?al 32 ?s)) = 4160" by code_simp+
  then have "?al 32 ?s = Some (4160, ?t)"
    by (simp add: page_allocate.simps(1) prod_eq_iff del: LogicalPage_allocate.simps)
  then have "?R (?s, [4192 \<mapsto> 32], ?M) (?t, [4192 \<mapsto> 32, 4160 \<mapsto> 32], forget (region 4160 32) ?M)"
    using user_step.grant [of ?fit 32 ?s ?al 4160 ?t ?de page_poke "[4192 \<mapsto> 32]" ?M] f by simp
  ultimately have "?R\<^sup>*\<^sup>* (example_page 0, Map.empty, Map.empty) (?t, [4192 \<mapsto> 32, 4160 \<mapsto> 32], forget (region 4160 32) ?M)"
    by (meson converse_rtranclp_into_rtranclp rtranclp.rtrancl_refl)
  from page_reads_back [OF example_page_run(1) _ this, of 4200 7] show ?thesis by (simp add: forget_def)
qed

end
