(* ===== verification/Segment_Client.thy ===== *)
theory Segment_Client
  imports Segment_Contract Page_Client
begin

text \<open>
  An unbounded segment (\<open>SINGLE_THREAD\<close> or \<open>CENTRAL\<close>) is an allocator: its interface meets the contract of
  Allocator_Contract.  The invariant \<open>seg_ok\<close> adds to \<open>seg_live\<close> that the segment is not locked and that
  its pages lie in blocks that the arena has handed out.
\<close>

subsection \<open>Stores into payloads and the lock\<close>

definition world_poke :: "u64 \<Rightarrow> u8 \<Rightarrow> world \<Rightarrow> world" where
  "world_poke x v w = w\<lparr>ram := (ram w)(x := v)\<rparr>"

lemma world_poke_simps [simp]:
  "ram (world_poke x v w) = (ram w)(x := v)" "pages (world_poke x v w) = pages w" "arena (world_poke x v w) = arena w"
  "vm (world_poke x v w) = vm w" "pointer_pages (world_poke x v w) = pointer_pages w"
  by (simp_all add: world_poke_def)

lemma seg_live_poke:
  assumes lv: "seg_live P (sg, w) X L" and q: "L q = Some k" "unat x \<in> region q k"
  shows "seg_live P (sg, world_poke x v w) X L"
proof -
  obtain ps A where s: "seg_inv P sg w ps A" "X = extents sg ps" "live_in ps A L" using lv by (auto simp: seg_live_def)
  obtain p where p: "p \<in> set ps" "A p q = Some k" using q s(3) by (auto simp: live_in_def)
  note lp = live_page [OF s(1) p]
  have xe: "unat x \<in> extent sg p" using lp(1,2) q(2) by blast
  have "page_ok P sg (world_poke x v w) p' (A p')" if p': "p' \<in> set ps" for p'
  proof -
    note pi = seg_inv_pages [OF s(1) p']
    have "page_inv (page_type P) (pages w p', (ram w)(x := v)) (A p')"
    proof (rule page.stable)
      show "page_inv (page_type P) (pages w p', ram w) (A p')" using pi(3) by (simp add: get_page_def)
      show "same_core (pages w p') (pages w p')" by simp
      fix y assume "((ram w)(x := v)) y \<noteq> ram w y"
      then have y: "y = x" by (auto split: if_splits)
      show "unat y \<notin> page_region (pages w p') \<or> (\<exists>q k. A p' q = Some k \<and> unat y \<in> region q k)"
      proof (cases "p' = p")
        case True
        then show ?thesis using y p(2) q(2) by blast
      next
        case False
        then have "extent sg p' \<inter> extent sg p = {}" using s(1) p(1) p' by (auto simp: seg_inv_def)
        then show ?thesis using y xe page_region_extent(2) [OF pi(2,1)] by blast
      qed
    qed
    then show ?thesis using pi(1) by (simp add: page_ok_def get_page_def)
  qed
  then have "seg_inv P sg (world_poke x v w) ps A" using s(1) by (simp add: seg_inv_def seg_pages_def)
  then show ?thesis using s(2,3) by (auto simp: seg_live_def)
qed

lemma seg_live_lock [simp]: "seg_live P (sg\<lparr>seg_lock := l\<rparr>, w) X L = seg_live P (sg, w) X L"
  by (simp add: seg_live_def seg_inv_def seg_pages_def page_ok_def page_aligned_def extents_def)

lemma quantities_lock [simp]: "calculate_quantities P sz (sg\<lparr>seg_lock := l\<rparr>) = calculate_quantities P sz sg"
  unfolding calculate_quantities_def by (simp cong: if_cong)

lemma lock_irrelevant [simp]:
  "seg_fit P (sg\<lparr>seg_lock := l\<rparr>) sz = seg_fit P sg sz" "arena_matches P (sg\<lparr>seg_lock := l\<rparr>) a = arena_matches P sg a"
  "can_grow P os sz (sg\<lparr>seg_lock := l\<rparr>, w) = can_grow P os sz (sg, w)"
  "same_segment (sg\<lparr>seg_lock := l\<rparr>) sg' = same_segment sg sg'" "same_segment sg' (sg\<lparr>seg_lock := l\<rparr>) = same_segment sg' sg"
  by (simp_all add: seg_fit_def arena_matches_def can_grow_def same_segment_def split: option.splits)

lemma lock_same: "seg_lock sg = l \<Longrightarrow> sg\<lparr>seg_lock := l\<rparr> = sg"
  by (cases sg) simp

lemma locked_returns:
  assumes "seg_lock sg = 0" "f (sg\<lparr>seg_lock := 1\<rparr>, w) = Some (r, (sg', w'))"
  shows "locked f (sg, w) = Some (r, (sg'\<lparr>seg_lock := 0\<rparr>, w'))"
  using assms by (simp add: locked_def)

subsection \<open>A segment as an allocator\<close>

definition seg_ok :: "segment_policy \<Rightarrow> os \<Rightarrow> segment_state \<Rightarrow> (u64 \<rightharpoonup> nat) \<Rightarrow> bool" where
  "seg_ok P os = (\<lambda>(sg, w) L. os_ok os \<and> concurrency_policy P \<noteq> THREAD_LOCAL \<and> seg_lock sg = 0
     \<and> arena_matches P sg (arena w) \<and> (\<exists>H X. arena_inv (arena w, w) H \<and> X \<subseteq> H \<and> seg_live P (sg, w) X L))"

text \<open>The requests that a segment serves: the size class holds them, and the arena has memory if the
  segment must grow.\<close>

definition seg_serves :: "segment_policy \<Rightarrow> os \<Rightarrow> u64 \<Rightarrow> segment_state \<Rightarrow> bool" where
  "seg_serves P os sz = (\<lambda>(sg, w). seg_fit P sg sz \<and> (sz \<le> seg_max_object_size sg \<longrightarrow> can_grow P os sz (sg, w)))"

definition seg_poke :: "u64 \<Rightarrow> u8 \<Rightarrow> segment_state \<Rightarrow> segment_state" where
  "seg_poke x v = (\<lambda>(sg, w). (sg, world_poke x v w))"

lemma Segment_allocate_unlocked:
  assumes "concurrency_policy P \<noteq> THREAD_LOCAL" "seg_lock sg = 0"
    and "allocate_internal P os sz (sg\<lparr>seg_lock := l\<rparr>, w) = Some (r, (sg', w'))" "seg_lock sg' = l"
    and "l = (if concurrency_policy P = CENTRAL then 1 else 0)"
  shows "Segment_allocate P os sz (sg, w) = Some (r, (sg'\<lparr>seg_lock := 0\<rparr>, w'))"
  using assms locked_returns [OF assms(2), of "allocate_internal P os sz" w r sg' w']
  by (cases "concurrency_policy P") (auto simp: Segment_allocate_def lock_same)

text \<open>The operations of the interface, in terms of the addresses that they obtain or give up.\<close>

lemma segment_allocate_takes:
  assumes os: "os_ok os" and cp: "concurrency_policy P \<noteq> THREAD_LOCAL" and l0: "seg_lock sg = 0"
    and am: "arena_matches P sg (arena w)" and ar: "arena_inv (arena w, w) H" and X: "X \<subseteq> H" and lv: "seg_live P (sg, w) X L"
    and sv: "seg_serves P os sz (sg, w)"
  obtains r s' B where "Segment_allocate P os sz (sg, w) = Some (r, s')" "takes H X B L (sg, w) s'"
    "arena_matches P (fst s') (arena (snd s'))" "r = 0 \<longrightarrow> seg_live P s' (X \<union> B) L"
    "r \<noteq> 0 \<longrightarrow> L r = None \<and> (\<exists>k \<ge> unat sz. seg_live P s' (X \<union> B) (L(r \<mapsto> k)))"
proof -
  define l :: u32 where "l = (if concurrency_policy P = CENTRAL then 1 else 0)"
  let ?sg = "sg\<lparr>seg_lock := l\<rparr>"
  obtain r s' B where a: "allocate_internal P os sz (?sg, w) = Some (r, s')" "takes H X B L (?sg, w) s'"
    "arena_matches P ?sg (arena (snd s'))" "r = 0 \<longrightarrow> seg_live P s' (X \<union> B) L"
    "r \<noteq> 0 \<longrightarrow> L r = None \<and> (\<exists>k \<ge> unat sz. seg_live P s' (X \<union> B) (L(r \<mapsto> k)))"
    by (rule allocate_internal_ok [of os P ?sg w X L H sz]) (use assms in \<open>simp_all add: seg_serves_def\<close>)
  obtain sg' w' where s': "s' = (sg', w')" by (cases s')
  have t: "same_segment sg sg'" "seg_lock sg' = l" using a(2) by (auto simp: takes_def s')
  have al: "Segment_allocate P os sz (sg, w) = Some (r, (sg'\<lparr>seg_lock := 0\<rparr>, w'))"
    by (rule Segment_allocate_unlocked [OF cp l0 a(1) [unfolded s'] t(2) l_def])
  have "takes H X B L (sg, w) (sg'\<lparr>seg_lock := 0\<rparr>, w')" using a(2) l0 by (simp add: takes_def s' keeps_alignment_def)
  moreover have "arena_matches P (sg'\<lparr>seg_lock := 0\<rparr>) (arena w')"
    using a(3) arena_matches_cong [OF same_segment_fields(2) [OF t(1)]] by (simp add: s')
  moreover have "seg_live P (sg'\<lparr>seg_lock := 0\<rparr>, w') = seg_live P s'" by (simp add: s' fun_eq_iff)
  ultimately show ?thesis by (intro that [OF al]) (use a(4,5) in auto)
qed

lemma segment_deallocate_gives:
  assumes cp: "concurrency_policy P \<noteq> THREAD_LOCAL" and l0: "seg_lock sg = 0"
    and ar: "arena_inv (arena w, w) H" and X: "X \<subseteq> H" and lv: "seg_live P (sg, w) X L" and k: "L p = Some k"
  obtains s' X' where "Segment_deallocate P os p (sg, w) = Some s'" "seg_live P s' X' (L(p := None))"
    "gives_up H X X' (L(p := None)) (sg, w) s'"
proof -
  define l :: u32 where "l = (if concurrency_policy P = CENTRAL then 1 else 0)"
  let ?sg = "sg\<lparr>seg_lock := l\<rparr>"
  have lv': "seg_live P (?sg, w) X L" using lv by simp
  obtain s' X' where d: "deallocate_internal P os p (?sg, w) = Some s'" "seg_live P s' X' (L(p := None))"
    "gives_up H X X' (L(p := None)) (?sg, w) s'"
    by (rule deallocate_internal_ok [OF lv' ar X k])
  obtain sg' w' where s': "s' = (sg', w')" by (cases s')
  have l: "seg_lock sg' = l" using d(3) by (auto simp: gives_up_def s')
  obtain ps A where "seg_inv P sg w ps A" "live_in ps A L" using lv by (auto simp: seg_live_def)
  then have "seg_head sg \<noteq> 0" using k by (cases ps) (auto simp: live_in_def seg_inv_def seg_pages_def)
  then have al: "Segment_deallocate P os p (sg, w) = Some (sg'\<lparr>seg_lock := 0\<rparr>, w')"
    using cp l0 d(1) l locked_returns [OF l0, of "\<lambda>s. do { s \<leftarrow> deallocate_internal P os p s; Some ((), s) }" w "()" sg' w']
    by (cases "concurrency_policy P") (simp_all add: Segment_deallocate_def l_def s' lock_same)
  show ?thesis by (rule that [OF al]) (use d(2,3) l0 in \<open>auto simp: s' gives_up_def\<close>)
qed

lemma segment_allocate_ok:
  assumes ok: "seg_ok P os (sg, w) L" and sv: "seg_serves P os sz (sg, w)"
  obtains r s' where "Segment_allocate P os sz (sg, w) = Some (r, s')" "keeps_live L w (snd s')"
    "if r = 0 then seg_ok P os s' L else L r = None \<and> (\<exists>k \<ge> unat sz. seg_ok P os s' (L(r \<mapsto> k)))"
proof -
  obtain H X where h: "os_ok os" "concurrency_policy P \<noteq> THREAD_LOCAL" "seg_lock sg = 0" "arena_matches P sg (arena w)"
    "arena_inv (arena w, w) H" "X \<subseteq> H" "seg_live P (sg, w) X L" using ok by (auto simp: seg_ok_def)
  obtain r s' B where a: "Segment_allocate P os sz (sg, w) = Some (r, s')" "takes H X B L (sg, w) s'"
    "arena_matches P (fst s') (arena (snd s'))" "r = 0 \<longrightarrow> seg_live P s' (X \<union> B) L"
    "r \<noteq> 0 \<longrightarrow> L r = None \<and> (\<exists>k \<ge> unat sz. seg_live P s' (X \<union> B) (L(r \<mapsto> k)))"
    by (rule segment_allocate_takes [OF h sv])
  have "seg_ok P os s' K" if "seg_live P s' (X \<union> B) K" for K
  proof -
    have "X \<union> B \<subseteq> H \<union> B" using h(6) by blast
    then show ?thesis using that h(1-3) a(2,3) by (cases s') (auto simp: seg_ok_def takes_def simp del: Un_subset_iff)
  qed
  then show ?thesis by (intro that [OF a(1)]) (use a(2,4,5) in \<open>auto simp: takes_def\<close>)
qed

lemma segment_deallocate_ok:
  assumes ok: "seg_ok P os (sg, w) L" and k: "L p = Some k"
  obtains s' where "Segment_deallocate P os p (sg, w) = Some s'" "seg_ok P os s' (L(p := None))"
    "keeps_live (L(p := None)) w (snd s')"
proof -
  obtain H X where h: "os_ok os" "concurrency_policy P \<noteq> THREAD_LOCAL" "seg_lock sg = 0" "arena_matches P sg (arena w)"
    "arena_inv (arena w, w) H" "X \<subseteq> H" "seg_live P (sg, w) X L" using ok by (auto simp: seg_ok_def)
  obtain s' X' where d: "Segment_deallocate P os p (sg, w) = Some s'" "seg_live P s' X' (L(p := None))"
    "gives_up H X X' (L(p := None)) (sg, w) s'"
    by (rule segment_deallocate_gives [OF h(2,3,5-7) k])
  obtain sg' w' where s': "s' = (sg', w')" by (cases s')
  have t: "X' \<subseteq> X" "arena w' = arena w" "arena_inv (arena w', w') (H - (X - X'))" "keeps_live (L(p := None)) w w'"
    "same_segment sg sg'" "seg_lock sg' = 0" using d(3) h(3) by (auto simp: gives_up_def s')
  have "arena_matches P sg' (arena w')"
    using h(4) arena_matches_cong [OF same_segment_fields(2) [OF t(5)]] t(2) by simp
  moreover have "X' \<subseteq> H - (X - X')" using t(1) h(6) by blast
  ultimately have "seg_ok P os s' (L(p := None))"
    using h(1,2) t(3,6) d(2) unfolding seg_ok_def s' by auto
  then show ?thesis using that [OF d(1)] t(4) by (simp add: s')
qed

lemma segment_allocate_result:
  assumes "seg_ok P os (sg, w) L" "seg_serves P os sz (sg, w)" "Segment_allocate P os sz (sg, w) = Some (r, s')"
  shows "keeps_live L w (snd s')"
    "if r = 0 then seg_ok P os s' L else L r = None \<and> (\<exists>k \<ge> unat sz. seg_ok P os s' (L(r \<mapsto> k)))"
proof -
  obtain r' t where "Segment_allocate P os sz (sg, w) = Some (r', t)" "keeps_live L w (snd t)"
    "if r' = 0 then seg_ok P os t L else L r' = None \<and> (\<exists>k \<ge> unat sz. seg_ok P os t (L(r' \<mapsto> k)))"
    by (rule segment_allocate_ok [OF assms(1,2)])
  then show "keeps_live L w (snd s')"
    "if r = 0 then seg_ok P os s' L else L r = None \<and> (\<exists>k \<ge> unat sz. seg_ok P os s' (L(r \<mapsto> k)))"
    using assms(3) by simp_all
qed

interpretation seg: allocator_contract "seg_ok P os" "Segment_allocate P os" "Segment_deallocate P os" "seg_serves P os"
  seg_poke "\<lambda>s. ram (snd s)" "\<lambda>s. {x. is_mapped (vm (snd s)) x}"
  for P os
proof (unfold_locales, goal_cases)
  case (1 s A)
  then show ?case using seg_live_facts(2) [of P _ _ _ A 0] by (cases s; cases "A 0") (auto simp: seg_ok_def)
next
  case (2 s A p k)
  then show ?case using seg_live_facts(1) by (cases s) (fastforce simp: seg_ok_def arena_inv_def)
next
  case (3 s A p k q j)
  obtain sg w X where "seg_live P (sg, w) X A" using 3(1) by (cases s) (auto simp: seg_ok_def)
  then show ?case using seg_live_facts(4) 3(2-4) by blast
next
  case (4 s A sz)
  then show ?case by (cases s) (metis segment_allocate_ok)
next
  case (5 s A sz s')
  then show ?case using segment_allocate_result(2) by (cases s) auto
next
  case (6 s A sz p s')
  then show ?case using segment_allocate_result(2) by (cases s) auto
next
  case (7 s A sz p s' q k x)
  then show ?case using segment_allocate_result(1) by (cases s) (auto simp: keeps_live_def simp del: in_region_iff)
next
  case (8 s A p k s')
  then show ?case by (cases s) (metis segment_deallocate_ok option.inject)
next
  case (9 s A p j s' q k x)
  obtain sg w where s: "s = (sg, w)" by (cases s)
  obtain t where "Segment_deallocate P os p (sg, w) = Some t" "keeps_live (A(p := None)) w (snd t)"
    by (rule segment_deallocate_ok [OF 9(1,2) [unfolded s]])
  moreover have "(A(p := None)) q = Some k" using 9(4,5) by simp
  ultimately show ?case using 9(3,6) unfolding keeps_live_def s by (metis option.inject snd_conv)
next
  case (10 s A p k x v)
  obtain sg w where s: "s = (sg, w)" by (cases s)
  obtain H X where h: "os_ok os" "concurrency_policy P \<noteq> THREAD_LOCAL" "seg_lock sg = 0" "arena_matches P sg (arena w)"
    "arena_inv (arena w, w) H" "X \<subseteq> H" "seg_live P (sg, w) X A" using 10(1) by (auto simp: seg_ok_def s)
  have "arena_inv (arena w, world_poke x v w) H" using h(5) by (simp add: arena_inv_def)
  then show ?case using h(1-4,6) seg_live_poke [OF h(7) 10(2,3)] unfolding s seg_ok_def seg_poke_def by auto
next
  case (11 x v s)
  then show ?case by (cases s) (simp add: seg_poke_def)
next
  case (12 s A p k)
  then show ?case by (cases s) (metis segment_deallocate_ok)
qed

text \<open>Ownership of an address.\<close>

lemma segment_owns:
  assumes "seg_live P (sg, w) X L" "concurrency_policy P \<noteq> THREAD_LOCAL" "seg_lock sg = 0"
  shows "Segment_owns_pointer P x (sg, w) = Some (unat x \<in> X, (sg, w))"
proof -
  obtain ps A where s: "seg_inv P sg w ps A" "X = extents sg ps" using assms(1) by (auto simp: seg_live_def)
  have l: "seg_pages sg w ps" using s(1) by (simp add: seg_inv_def)
  have f: "find_page x (seg_logical_page_size sg) w (seg_head sg) = Some p \<Longrightarrow> p \<noteq> 0 \<longleftrightarrow> unat x \<in> X"
    "\<exists>p. find_page x (seg_logical_page_size sg) w (seg_head sg) = Some p" for p
  proof -
    have r: "find_page x (seg_logical_page_size sg) w (seg_head sg)
        = Some (case find (\<lambda>p. p \<le> x \<and> x < p + seg_logical_page_size sg) ps of None \<Rightarrow> 0 | Some p \<Rightarrow> p)"
      using find_page_loop_ok [OF dlseg_path, of w "prev_page w" 0 "seg_head sg" ps x] l by (simp add: seg_pages_def)
    then show "\<exists>p. find_page x (seg_logical_page_size sg) w (seg_head sg) = Some p" by blast
    have ex: "unat x \<in> X \<longleftrightarrow> (\<exists>p\<in>set ps. p \<le> x \<and> x < p + seg_logical_page_size sg)"
      using in_extent_iff [OF seg_inv_pages(1) [OF s(1)]] unfolding s(2) extents_def by (simp del: in_region_iff)
    have nz: "\<And>p. p \<in> set ps \<Longrightarrow> p \<noteq> 0" using seg_inv_pages(1) [OF s(1)] by (auto simp: page_ok_def)
    assume "find_page x (seg_logical_page_size sg) w (seg_head sg) = Some p"
    then show "p \<noteq> 0 \<longleftrightarrow> unat x \<in> X" using r ex nz
      by (auto simp: find_None_iff find_Some_iff split: option.splits)
  qed
  then obtain p where p: "find_page x (seg_logical_page_size sg) w (seg_head sg) = Some p" "p \<noteq> 0 \<longleftrightarrow> unat x \<in> X" by blast
  have u: "owns_pointer_unlocked P x (sg\<lparr>seg_lock := b\<rparr>, w) = Some (unat x \<in> X, (sg\<lparr>seg_lock := b\<rparr>, w))" for b
    using p assms(2) by (simp add: owns_pointer_unlocked_def)
  show ?thesis
    using assms(2,3) u [of 0] locked_returns [of sg "owns_pointer_unlocked P x" w, OF assms(3) u [of 1]] lock_same [OF assms(3)]
    by (cases "concurrency_policy P") (simp_all add: Segment_owns_pointer_def)
qed

subsection \<open>Creating a segment\<close>

text \<open>The parameters that suit the page class, and a buffer for them that the arena has handed out.\<close>

definition valid_params :: "segment_policy \<Rightarrow> SegmentCreationParameters \<Rightarrow> bool" where
  "valid_params P params \<longleftrightarrow> 4096 dvd unat (p_logical_page_size params) \<and> 0 < p_logical_page_size params
     \<and> 0 < p_logical_page_count params
     \<and> (if supports_any_size (page_type P) then p_logical_page_size params - 64 \<le> MAX_BLOCK_SIZE
        else 8 \<le> unat (p_size_class params) \<and> unat (p_size_class params) \<le> unat (p_logical_page_size params) - 64)
     \<and> (buffer_aligned_to_logical_page_size P \<longrightarrow> is_power_of_two (p_logical_page_size params))"

definition params_extent :: "u64 \<Rightarrow> SegmentCreationParameters \<Rightarrow> nat set" where
  "params_extent buf params = region buf (unat (p_logical_page_count params) * unat (p_logical_page_size params))"

definition valid_buffer :: "segment_policy \<Rightarrow> u64 \<Rightarrow> SegmentCreationParameters \<Rightarrow> bool" where
  "valid_buffer P buf params \<longleftrightarrow> buf \<noteq> 0 \<and> 4096 dvd unat buf
     \<and> unat buf + unat (p_logical_page_count params) * unat (p_logical_page_size params) < 2 ^ 64
     \<and> (buffer_aligned_to_logical_page_size P \<longrightarrow> unat (p_logical_page_size params) dvd unat buf)"

text \<open>The first pages of a segment whose parameters have been stored, with any queue.\<close>

definition prepared_segment :: "SegmentCreationParameters \<Rightarrow> DeallocationQueue \<Rightarrow> Segment" where
  "prepared_segment params q = Segment_new\<lparr>seg_logical_page_size := p_logical_page_size params,
    seg_max_object_size := p_logical_page_size params - 64, seg_size_class := p_size_class params,
    seg_page_recycling_threshold := p_page_recycling_threshold params, seg_grow_coefficient := p_grow_coefficient params,
    seg_deallocation_queue := q\<rparr>"

lemma prepared_segment_grows:
  assumes vp: "valid_params P params" and vb: "valid_buffer P buf params"
  obtains sg' w' where "grow P os buf (p_logical_page_count params) (prepared_segment params q, w) = (buf, (sg', w'))"
    "seg_live P (sg', w') (params_extent buf params) Map.empty" "grown (prepared_segment params q) sg'"
    "vm w' = vm w" "arena w' = arena w" "pointer_pages w' = pointer_pages w"
    "\<forall>Y. Y \<inter> params_extent buf params = {} \<longrightarrow> keeps_others Y w w'"
proof -
  let ?sg = "prepared_segment params q"
  let ?S = "unat (p_logical_page_size params)" and ?n = "p_logical_page_count params"
  have S0: "0 < ?S" using vp by (simp add: valid_params_def word_less_nat_alt)
  have st: "seg_static P ?sg"
    using vp S0 by (auto simp: seg_static_def valid_params_def prepared_segment_def Segment_new_def sizeof_LogicalPageHeader_def)
  have i0: "seg_inv P ?sg w [] (\<lambda>_. Map.empty)"
    using st by (simp add: seg_inv_def seg_pages_def prepared_segment_def Segment_new_def last_or_def)
  have Sz: "seg_logical_page_size ?sg = p_logical_page_size params" by (simp add: prepared_segment_def)
  have b: "buf \<noteq> 0" "page_aligned P ?sg buf" using vb by (simp_all add: valid_buffer_def page_aligned_def Sz)
  have n: "0 < unat ?n" using vp by (simp add: valid_params_def word_less_nat_alt)
  have nw: "unat buf + unat ?n * unat (seg_logical_page_size ?sg) < 2 ^ 64" using vb by (simp add: valid_buffer_def Sz)
  have fr: "region buf (unat ?n * unat (seg_logical_page_size ?sg)) \<inter> extents ?sg [] = {}" by (simp add: extents_def)
  let ?new = "block_pages ?sg buf 0 (unat ?n)"
  obtain sg' w' where g: "grow P os buf ?n (?sg, w) = (buf, (sg', w'))"
    "seg_inv P sg' w' ?new (fresh_live ?new (\<lambda>_. Map.empty))" "touched (params_extent buf params) (set ?new) w w'" "grown ?sg sg'"
    using grow_ok [OF i0 b n nw fr, of os] unfolding append_Nil params_extent_def Sz by metis
  have ex: "extents sg' ?new = params_extent buf params"
    using extents_block_pages [OF st nw] grown_fields [OF g(4)] by (simp add: extents_def params_extent_def Sz)
  have lv: "live_in ?new (fresh_live ?new (\<lambda>_. Map.empty)) Map.empty" by (simp add: live_in_def fresh_live_def)
  have st': "seg_static P sg'" using g(2) by (simp add: seg_inv_def)
  show ?thesis
  proof (rule that [OF g(1) _ g(4)])
    show "seg_live P (sg', w') (params_extent buf params) Map.empty" using g(2) ex lv by (auto simp: seg_live_def)
    show "vm w' = vm w" "arena w' = arena w" "pointer_pages w' = pointer_pages w" using g(3) by (simp_all add: touched_def)
    show "\<forall>Y. Y \<inter> params_extent buf params = {} \<longrightarrow> keeps_others Y w w'"
      by (intro allI impI touched_others [OF g(3)]) (use ex extents_pages [OF st'] in auto)
  qed
qed

lemma valid_params_accepted:
  assumes "valid_params P params" "valid_buffer P buf params"
  shows "\<not> (p_logical_page_size params \<le> 0 \<or> is_size_a_multiple_of_page_allocation_granularity (p_logical_page_size params) = False
    \<or> p_logical_page_count params \<le> 0 \<or> p_logical_page_size params \<le> seg_logical_page_object_size Segment_new \<or> buf = 0)"
proof -
  have "0 < unat (p_logical_page_size params)" using assms(1) by (simp add: valid_params_def word_less_nat_alt)
  then have "4096 \<le> unat (p_logical_page_size params)" using assms(1) by (auto simp: valid_params_def intro: dvd_imp_le)
  then show ?thesis
    using assms by (auto simp: valid_params_def valid_buffer_def granularity_multiple_iff Segment_new_def sizeof_LogicalPageHeader_def
        word_le_nat_alt word_less_nat_alt)
qed

lemma Segment_create_ok:
  assumes cp: "concurrency_policy P \<noteq> THREAD_LOCAL" and vp: "valid_params P params" and vb: "valid_buffer P buf params"
  obtains sg' w' where "Segment_create P os buf params (Segment_new, w) = (True, (sg', w'))"
    "seg_live P (sg', w') (params_extent buf params) Map.empty" "seg_lock sg' = 0"
    "seg_logical_page_size sg' = p_logical_page_size params" "seg_size_class sg' = p_size_class params"
    "vm w' = vm w" "arena w' = arena w" "pointer_pages w' = pointer_pages w"
    "\<forall>Y. Y \<inter> params_extent buf params = {} \<longrightarrow> keeps_others Y w w'"
proof -
  obtain sg' w' where g: "grow P os buf (p_logical_page_count params) (prepared_segment params (seg_deallocation_queue Segment_new), w) = (buf, (sg', w'))"
    "seg_live P (sg', w') (params_extent buf params) Map.empty" "grown (prepared_segment params (seg_deallocation_queue Segment_new)) sg'"
    "vm w' = vm w" "arena w' = arena w" "pointer_pages w' = pointer_pages w"
    "\<forall>Y. Y \<inter> params_extent buf params = {} \<longrightarrow> keeps_others Y w w'"
    by (rule prepared_segment_grows [OF vp vb])
  have "buf \<noteq> 0" using vb by (simp add: valid_buffer_def)
  then have "Segment_create P os buf params (Segment_new, w) = (True, (sg', w'))"
    using cp g(1) valid_params_accepted [OF vp vb]
    by (simp add: Segment_create_def Let_def prepared_segment_def Segment_new_def sizeof_LogicalPageHeader_def)
  moreover have "seg_lock sg' = 0" "seg_logical_page_size sg' = p_logical_page_size params" "seg_size_class sg' = p_size_class params"
    using grown_fields [OF g(3)] by (simp_all add: prepared_segment_def Segment_new_def spin_initialise_def)
  ultimately show ?thesis using that g(2,4-7) by blast
qed

end
