(* ===== verification/Segment_Properties.thy ===== *)
theory Segment_Properties
  imports Evaluation Segment_Client Arena_Properties
begin

text \<open>
  The properties of segments, with a concrete segment on the bump operating system for the witnesses.
\<close>

subsection \<open>A concrete segment\<close>

definition blank_world :: world where
  "blank_world = \<lparr>vm = [], ram = \<lambda>_. 0, pointer_pages = \<lambda>_. \<lparr>pp_next = 0, pp_prev = 0, pp_pointers = \<lambda>_. 0\<rparr>,
     pages = \<lambda>_. new_header, arena = Arena_new bump_os\<rparr>"

definition example_seg_policy :: "PageRecyclingPolicy \<Rightarrow> segment_policy" where
  "example_seg_policy r = \<lparr>concurrency_policy = SINGLE_THREAD, page_type = LOGICAL_PAGE, arena_type = example_policy,
     page_recycling_policy = r, buffer_aligned_to_logical_page_size = True\<rparr>"

definition example_params :: SegmentCreationParameters where
  "example_params = \<lparr>p_logical_page_size = 4096, p_logical_page_count = 2, p_page_recycling_threshold = 1,
     p_deallocation_queue_initial_capacity = 65536, p_size_class = 4032, p_grow_coefficient = 0\<rparr>"

text \<open>Two pages of one chunk each; \<open>example_seg n\<close> is the segment after \<open>n\<close> allocations.\<close>

primrec example_seg :: "nat \<Rightarrow> segment_state" where
  "example_seg 0 = (let (b, w) = the (arena_allocate (example_seg_policy DEFERRED) bump_os 8192 blank_world)
     in snd (Segment_create (example_seg_policy DEFERRED) bump_os b example_params (Segment_new, w)))"
| "example_seg (Suc n) = snd (the (Segment_allocate (example_seg_policy DEFERRED) bump_os 4000 (example_seg n)))"


lemmas example_run [run] = blank_world_def example_seg_policy_def example_params_def example_seg.simps example_policy_def

lemma example_seg_2 [run]:
  "example_seg 2 = snd (the (Segment_allocate (example_seg_policy DEFERRED) bump_os 4000 (example_seg 1)))"
  by (simp only: numeral_2_eq_2 One_nat_def example_seg.simps)

lemma example_seg_steps:
  "arena_allocate (example_seg_policy DEFERRED) bump_os 8192 blank_world
     = Some (65536, snd (the (arena_allocate (example_seg_policy DEFERRED) bump_os 8192 blank_world)))"
  "Segment_create (example_seg_policy DEFERRED) bump_os 65536 example_params
     (Segment_new, snd (the (arena_allocate (example_seg_policy DEFERRED) bump_os 8192 blank_world))) = (True, example_seg 0)"
  "Segment_allocate (example_seg_policy DEFERRED) bump_os 4000 (example_seg 0) = Some (65600, example_seg 1)"
  "Segment_allocate (example_seg_policy DEFERRED) bump_os 4000 (example_seg 1) = Some (69696, example_seg 2)"
  by (simp_all add: run cong: run_cong)

subsection \<open>Using a segment\<close>

text \<open>The circumstances in which a segment is created: the parameters suit the page class, the buffer is
  a block of the arena, and an arena that serves a segment with masked lookup is aligned to its pages.\<close>

definition segment_start :: "segment_policy \<Rightarrow> os \<Rightarrow> u64 \<Rightarrow> SegmentCreationParameters \<Rightarrow> nat set \<Rightarrow> world \<Rightarrow> bool" where
  "segment_start P os buf params H w \<longleftrightarrow> os_ok os \<and> concurrency_policy P \<noteq> THREAD_LOCAL \<and> valid_params P params
     \<and> valid_buffer P buf params \<and> arena_inv (arena w, w) H \<and> params_extent buf params \<subseteq> H
     \<and> (buffer_aligned_to_logical_page_size P \<longrightarrow> m_page_alignment (arena w) = p_logical_page_size params
          \<and> unat (p_logical_page_size params) dvd unat (m_cache_used_size (arena w)))"

lemma segment_start_ok:
  assumes "segment_start P os buf params H w" "Segment_create P os buf params (Segment_new, w) = (True, s)"
  shows "seg_ok P os s Map.empty"
proof -
  have h: "os_ok os" "concurrency_policy P \<noteq> THREAD_LOCAL" "valid_params P params" "valid_buffer P buf params"
    "arena_inv (arena w, w) H" "params_extent buf params \<subseteq> H" using assms(1) by (auto simp: segment_start_def)
  obtain sg' w' where c: "Segment_create P os buf params (Segment_new, w) = (True, (sg', w'))"
    "seg_live P (sg', w') (params_extent buf params) Map.empty" "seg_lock sg' = 0"
    "seg_logical_page_size sg' = p_logical_page_size params" "vm w' = vm w" "arena w' = arena w"
    using Segment_create_ok [OF h(2-4), of os w] by metis
  have "arena_inv (arena w', w') H" using h(5) c(5,6) by (simp add: arena_inv_def)
  moreover have "arena_matches P sg' (arena w')" using assms(1) c(4,6) by (simp add: arena_matches_def arena_aligned_def segment_start_def)
  ultimately show ?thesis using assms(2) h(1,2,6) c(1-3) by (auto simp: seg_ok_def)
qed

abbreviation seg_user :: "segment_policy \<Rightarrow> os \<Rightarrow> segment_state user_state \<Rightarrow> segment_state user_state \<Rightarrow> bool" where
  "seg_user P os \<equiv> user_step (Segment_allocate P os) (Segment_deallocate P os) (seg_serves P os) seg_poke"

lemma segment_run_honoured:
  assumes "segment_start P os buf params H w" "Segment_create P os buf params (Segment_new, w) = (True, s)"
    "(seg_user P os)\<^sup>*\<^sup>* (s, Map.empty, Map.empty) c"
  shows "seg.honours P os c"
  using seg.honours_run [OF assms(3)] seg.honours_start [OF segment_start_ok [OF assms(1,2)]] by blast

text \<open>A run of two allocations with a store in between.\<close>

definition example_stored :: segment_state where
  "example_stored = seg_poke 65700 7 (example_seg 1)"

definition example_end :: segment_state where
  "example_end = snd (the (Segment_allocate (example_seg_policy DEFERRED) bump_os 4000 example_stored))"

abbreviation example_bytes :: "u64 \<rightharpoonup> u8" where
  "example_bytes \<equiv> (forget (region 65600 4000) Map.empty)(65700 \<mapsto> 7)"

lemma example_arena_aligned:
  "m_page_alignment (arena (snd (the (arena_allocate (example_seg_policy DEFERRED) bump_os 8192 blank_world)))) = 4096"
  "m_cache_used_size (arena (snd (the (arena_allocate (example_seg_policy DEFERRED) bump_os 8192 blank_world)))) = 8192"
  by (simp_all add: run cong: run_cong)

lemma example_segment_start:
  "segment_start (example_seg_policy DEFERRED) bump_os 65536 example_params (region 65536 8192)
     (snd (the (arena_allocate (example_seg_policy DEFERRED) bump_os 8192 blank_world)))"
proof -
  have "arena_inv (arena blank_world, blank_world) {}" using arena_new_inv [OF bump_os_ok] by (simp add: blank_world_def)
  moreover have "arena_fit 8192 (arena blank_world, blank_world)" by (simp add: run arena_fit_def)
  ultimately have "arena_inv (arena w, w) (region 65536 8192)"
    if "arena_allocate (example_seg_policy DEFERRED) bump_os 8192 blank_world = Some (65536, w)" for w
    using arena_allocate_ok(1) [OF bump_os_ok _ _ that, of "{}"] by simp
  then show ?thesis using bump_os_ok example_seg_steps(1) example_arena_aligned
    by (simp add: is_power_of_two_def segment_start_def valid_params_def valid_buffer_def params_extent_def example_seg_policy_def example_params_def)
qed

lemma example_seg_run:
  "(seg_user (example_seg_policy DEFERRED) bump_os)\<^sup>*\<^sup>* (example_seg 0, Map.empty, Map.empty)
     (example_end, [65600 \<mapsto> 4000, 69696 \<mapsto> 4000], forget (region 69696 4000) example_bytes)"
proof -
  let ?P = "example_seg_policy DEFERRED"
  have "seg_serves ?P bump_os 4000 (example_seg 0)" "seg_serves ?P bump_os 4000 example_stored"
    by (simp_all add: run seg_serves_def seg_fit_def can_grow_def example_stored_def seg_poke_def world_poke_def cong: run_cong)
  moreover have "Segment_allocate ?P bump_os 4000 example_stored = Some (69696, example_end)"
    by (simp add: run example_stored_def seg_poke_def world_poke_def example_end_def cong: run_cong)
  ultimately have "seg_user ?P bump_os (example_seg 0, Map.empty, Map.empty) (example_seg 1, [65600 \<mapsto> 4000], forget (region 65600 4000) Map.empty)"
    "seg_user ?P bump_os (example_stored, [65600 \<mapsto> 4000], example_bytes)
      (example_end, [65600 \<mapsto> 4000, 69696 \<mapsto> 4000], forget (region 69696 4000) example_bytes)"
    using user_step.grant [of "seg_serves ?P bump_os" 4000 "example_seg 0" "Segment_allocate ?P bump_os", OF _ example_seg_steps(3)]
      user_step.grant [of "seg_serves ?P bump_os" 4000 example_stored "Segment_allocate ?P bump_os" 69696 example_end]
    by simp_all
  moreover have "seg_user ?P bump_os (example_seg 1, [65600 \<mapsto> 4000], forget (region 65600 4000) Map.empty)
      (example_stored, [65600 \<mapsto> 4000], example_bytes)"
    unfolding example_stored_def by (rule user_step.store [of _ 65600 4000]) simp_all
  ultimately show ?thesis by (meson converse_rtranclp_into_rtranclp rtranclp.rtrancl_refl)
qed



text \<open>C9: The memory of a payload is the user's: in every such run, a byte that the user has stored in a
  payload that it holds reads back with the value stored last.\<close>

theorem segment_reads_back:
  assumes "segment_start P os buf params H w" "Segment_create P os buf params (Segment_new, w) = (True, s)"
    and "(seg_user P os)\<^sup>*\<^sup>* (s, Map.empty, Map.empty) ((sg', w'), held, M)" and "M x = Some v"
  shows "ram w' x = v"
  using seg.user_contents [OF segment_run_honoured [OF assms(1-3)] assms(4)] by simp

theorem segment_reads_back_witness: "ram (snd example_end) 65700 = 7"
proof -
  obtain sg w where e: "example_end = (sg, w)" by (cases example_end)
  show ?thesis
    using segment_reads_back [OF example_segment_start example_seg_steps(2) example_seg_run [unfolded e], of 65700 7]
    unfolding e snd_conv by (simp add: forget_def)
qed



subsection \<open>Finding the page of an address\<close>

text \<open>C18: Masked lookup is an optimisation of the search: on a segment whose pages are aligned to their
  size, both ways of freeing a live pointer have the same effect.\<close>

theorem aligned_deallocation_equals_search:
  assumes "seg_live P (sg, w) X L" "buffer_aligned_to_logical_page_size P" "L ptr = Some k"
  shows "deallocate_from_aligned_logical_page P os ptr (sg, w) = deallocate_by_search P os ptr (sg, w)"
proof -
  obtain ps A where s: "seg_inv P sg w ps A" "live_in ps A L" using assms(1) by (auto simp: seg_live_def)
  obtain p where p: "p \<in> set ps" "A p ptr = Some k" using assms(3) s(2) by (auto simp: live_in_def)
  note pi = seg_inv_pages [OF s(1) p(1)]
  have e: "unat ptr \<in> extent sg p" by (rule live_page(3) [OF s(1) p])
  have "get_logical_page_from_address ptr (seg_logical_page_size sg) = p" "p \<noteq> 0"
    using pi(1,2) e assms(2) by (auto intro!: mask_page simp: page_ok_def page_aligned_def seg_static_def simp del: in_region_iff)
  then show ?thesis using find_extent [OF s(1) p(1) e]
    by (simp add: deallocate_from_aligned_logical_page_def deallocate_by_search_def)
qed

theorem aligned_deallocation_equals_search_witness:
  "deallocate_from_aligned_logical_page (example_seg_policy DEFERRED) bump_os 65600 example_end
     = deallocate_by_search (example_seg_policy DEFERRED) bump_os 65600 example_end"
proof -
  obtain sg w where e: "example_end = (sg, w)" by (cases example_end)
  obtain A X where A: "seg_live (example_seg_policy DEFERRED) (sg, w) X A" "\<exists>k \<ge> 4000. A 65600 = Some k"
    using segment_run_honoured [OF example_segment_start example_seg_steps(2) example_seg_run]
    unfolding seg.honours_def e by (auto simp: seg_ok_def split: if_splits)
  then obtain k where "A 65600 = Some k" by blast
  moreover have "buffer_aligned_to_logical_page_size (example_seg_policy DEFERRED)" by (simp add: example_seg_policy_def)
  ultimately show ?thesis unfolding e using aligned_deallocation_equals_search [OF A(1)] by blast
qed

text \<open>\<open>owns_pointer\<close> of an unbounded segment returns, answers exactly whether the address lies in one of
  its pages and changes nothing.\<close>

theorem segment_owns_its_pages:
  assumes "seg_live P (sg, w) X L" "concurrency_policy P \<noteq> THREAD_LOCAL" "seg_lock sg = 0"
  shows "Segment_owns_pointer P x (sg, w) = Some (unat x \<in> X, (sg, w))"
  using assms by (rule segment_owns)

theorem segment_owns_its_pages_witness:
  "Segment_owns_pointer (example_seg_policy DEFERRED) 70000 (example_seg 0) = Some (True, example_seg 0)
   \<and> Segment_owns_pointer (example_seg_policy DEFERRED) 80000 (example_seg 0) = Some (False, example_seg 0)"
proof -
  let ?P = "example_seg_policy DEFERRED" and ?w = "snd (the (arena_allocate (example_seg_policy DEFERRED) bump_os 8192 blank_world))"
  have v: "concurrency_policy ?P \<noteq> THREAD_LOCAL" "valid_params ?P example_params" "valid_buffer ?P 65536 example_params"
    using example_segment_start by (auto simp: segment_start_def)
  obtain sg' w' where "Segment_create ?P bump_os 65536 example_params (Segment_new, ?w) = (True, (sg', w'))"
    "seg_live ?P (sg', w') (params_extent 65536 example_params) Map.empty" "seg_lock sg' = 0"
    using Segment_create_ok [OF v, of bump_os ?w] by metis
  then have e: "example_seg 0 = (sg', w')" "seg_live ?P (sg', w') (region 65536 8192) Map.empty" "seg_lock sg' = 0"
    using example_seg_steps(2) by (simp_all add: params_extent_def example_params_def)
  show ?thesis using segment_owns_its_pages [OF e(2) v(1) e(3)] unfolding e(1) by simp
qed

subsection \<open>Deferred recycling\<close>


text \<open>C34: \<open>recycle_free_logical_pages\<close> does not return when there are pages beyond the threshold and the first
  page is free: after recycling it the loop reads the successor of the page before the first.\<close>

theorem deferred_recycling_of_first_page_crashes:
  assumes "seg_lock sg = 0" "seg_head sg \<noteq> 0" "can_be_recycled (pages w (seg_head sg))"
    "seg_logical_page_count sg \<noteq> seg_page_recycling_threshold sg"
  shows "recycle_free_logical_pages os (sg, w) = None"
  using assms by (simp add: recycle_free_logical_pages_def locked_def recycle_free_loop.simps Let_def)

theorem deferred_recycling_of_first_page_crashes_witness:
  "recycle_free_logical_pages bump_os (the (Segment_deallocate (example_seg_policy DEFERRED) bump_os 65600 (example_seg 1))) = None"
proof -
  obtain sg w where s: "the (Segment_deallocate (example_seg_policy DEFERRED) bump_os 65600 (example_seg 1)) = (sg, w)"
    by (cases "the (Segment_deallocate (example_seg_policy DEFERRED) bump_os 65600 (example_seg 1))")
  have "seg_lock sg = 0 \<and> seg_head sg = 65536 \<and> can_be_recycled (pages w 65536)
    \<and> seg_logical_page_count sg = 2 \<and> seg_page_recycling_threshold sg = 1"
    using s by (simp add: run cong: run_cong) auto
  then show ?thesis unfolding s by (intro deferred_recycling_of_first_page_crashes) simp_all
qed

subsection \<open>Transferring pages\<close>

text \<open>A second segment of two pages in the same world: its pages are at 77824 and 81920.\<close>

definition example_other :: segment_state where
  "example_other = (let (b, w) = the (arena_allocate (example_seg_policy DEFERRED) bump_os 8192 (snd (example_seg 0)))
     in snd (Segment_create (example_seg_policy DEFERRED) bump_os b example_params (Segment_new, w)))"


end
