(* ===== verification/Thread_Local_Segment.thy ===== *)
theory Thread_Local_Segment
  imports Segment_Client
begin

text \<open>
  A \<open>THREAD_LOCAL\<close> segment: whoever frees a pointer puts it into the deallocation queue of the segment, and the owner takes the
  pointers out again when it allocates.  The segment meets the contract of a partial allocator (\<open>deallocate\<close> returns unless
  the queue has to grow and the system has no memory).

  The invariant \<open>tl_ok\<close> relates the payloads that the users hold to the ones that are live in the pages: a payload that waits
  in the queue is live in its page and belongs to nobody.  The pages of the queue are apart from the pages of the segment.
\<close>

subsection \<open>What the queue changes\<close>

text \<open>The queue with its pages \<open>Q\<close> and its contents.\<close>

definition queue_in :: "os \<Rightarrow> DeallocationQueue \<times> world \<Rightarrow> u64 set \<Rightarrow> u64 list \<Rightarrow> bool" where
  "queue_in os = (\<lambda>(q, w) Q xs. os_ok os \<and> dq_lock q = 0
     \<and> (\<exists>us vs. dq_shape q w us vs \<and> rev xs = dq_contents q w us \<and> Q = set (us @ dq_active_page q # vs)))"

definition queue_space :: "u64 set \<Rightarrow> nat set" where
  "queue_space Q = (\<Union>r \<in> Q. region r 65536)"

text \<open>The world, up to the pages \<open>Q\<close> of a queue and to memory that was not mapped.\<close>

definition queue_only :: "u64 set \<Rightarrow> world \<Rightarrow> world \<Rightarrow> bool" where
  "queue_only Q w w' \<longleftrightarrow> pages w' = pages w \<and> arena w' = arena w \<and> (\<forall>r. r \<notin> Q \<longrightarrow> pointer_pages w' r = pointer_pages w r)
     \<and> (\<forall>x. is_mapped (vm w) x \<longrightarrow> is_mapped (vm w') x) \<and> (\<forall>x. is_mapped (vm w) (unat x) \<longrightarrow> ram w' x = ram w x)"

lemma queue_only_refl [simp]: "queue_only Q w w"
  by (simp add: queue_only_def)

lemma queue_space_Un [simp]: "queue_space (Q \<union> R) = queue_space Q \<union> queue_space R"
  by (auto simp: queue_space_def)

lemma queue_inI:
  "os_ok os \<Longrightarrow> dq_lock q = 0 \<Longrightarrow> dq_shape q w us vs \<Longrightarrow> rev xs = dq_contents q w us \<Longrightarrow> Q = set (us @ dq_active_page q # vs)
   \<Longrightarrow> queue_in os (q, w) Q xs"
  unfolding queue_in_def prod.case by blast

lemma queue_in_inv: "queue_in os s Q xs \<Longrightarrow> dq_inv os s xs"
  by (auto simp: queue_in_def dq_inv_def split: prod.splits)

lemma queue_in_frame:
  assumes "queue_in os (q, w) Q xs" "\<And>r. r \<in> Q \<Longrightarrow> pointer_pages w' r = pointer_pages w r"
    "\<And>r. r \<in> Q \<Longrightarrow> is_mapped (vm w') (unat r)"
  shows "queue_in os (q, w') Q xs"
proof -
  obtain us vs where s: "os_ok os" "dq_lock q = 0" "dq_shape q w us vs" "rev xs = dq_contents q w us" "Q = set (us @ dq_active_page q # vs)"
    using assms(1) by (auto simp: queue_in_def)
  have pg: "pointer_pages w' r = pointer_pages w r" if "r \<in> set (us @ dq_active_page q # vs)" for r using assms(2) that s(5) by blast
  have "back_linked w' (us @ dq_active_page q # vs) = back_linked w (us @ dq_active_page q # vs)"
    by (rule back_linked_cong) (simp add: pg)
  moreover have "chain (pp_nxt w') (dq_head q) (us @ dq_active_page q # vs)"
    by (rule path_congI [of "pp_nxt w"]) (use s(3) pg in \<open>simp_all add: dq_shape_def\<close>)
  ultimately have "dq_shape q w' us vs" using s(3,5) assms(3) by (simp add: dq_shape_def)
  moreover have "dq_contents q w' us = dq_contents q w us"
    using pp_contents_all [of us w' w] pp_contents_cong [of w' "dq_active_page q" w] pg by (simp add: dq_contents_def)
  ultimately show ?thesis using s(4) by (intro queue_inI [OF s(1,2) _ _ s(5)]) simp_all
qed

lemma queue_only_trans: "queue_only Q w w' \<Longrightarrow> queue_only Q w' w'' \<Longrightarrow> queue_only Q w w''"
  by (simp add: queue_only_def)

lemma queue_only_mono: "queue_only Q w w' \<Longrightarrow> Q \<subseteq> R \<Longrightarrow> queue_only R w w'"
  by (auto simp: queue_only_def)

text \<open>New pages of a queue come from memory that nobody had.\<close>

definition fresh_pages :: "world \<Rightarrow> world \<Rightarrow> u64 set \<Rightarrow> bool" where
  "fresh_pages w w' R \<longleftrightarrow> (\<forall>r \<in> R. \<forall>x \<in> region r 65536. \<not> is_mapped (vm w) x \<and> is_mapped (vm w') x)"

lemma next_pointer_page_frame:
  assumes os: "os_ok os" and s: "dq_shape q w us vs" and n: "dq_active_page_used_count q = POINTER_CAPACITY"
    and r: "next_pointer_page os (q, w) = Some (q', w')"
  shows "\<exists>us' vs'. dq_shape q' w' us' vs' \<and> dq_contents q' w' us' = dq_contents q w us
    \<and> dq_active_page_used_count q' = 0 \<and> dq_lock q' = dq_lock q
    \<and> set (us @ dq_active_page q # vs) \<subseteq> set (us' @ dq_active_page q' # vs')
    \<and> queue_only (set (us' @ dq_active_page q' # vs')) w w'
    \<and> fresh_pages w w' (set (us' @ dq_active_page q' # vs') - set (us @ dq_active_page q # vs))"
proof (cases vs)
  case Nil
  then have nx: "pp_next (pointer_pages w (dq_active_page q)) = 0" using s by (auto simp: dq_shape_def paths)
  obtain v w1 where a: "MetadataAllocator_allocate os sizeof_PointerPage w = (v, w1)" by fastforce
  then have v: "v \<noteq> 0" "q' = q\<lparr>dq_active_page := v, dq_active_page_used_count := 0\<rparr>"
    "w' = set_pp_prev v (dq_active_page q) (set_pp_next (dq_active_page q) v (set_pp_next v 0 w1))"
    using r nx by (auto simp: next_pointer_page_def Let_def split: if_splits)
  note adv = dq_advance_new [OF os s [unfolded Nil] n a v(1,3,2)]
  have f: "fresh_block w w1 v (page_span sizeof_PointerPage)"
    using vm_allocate_fresh [OF os a [unfolded MetadataAllocator_allocate_def]] v(1) by simp
  have sp: "page_span sizeof_PointerPage = 65536" by (simp add: page_span_def sizeof_PointerPage_def)
  obtain cs m where w1: "w1 = w\<lparr>vm := cs, ram := m\<rparr>" using f by (auto simp: fresh_block_def keeps_def)
  have "queue_only {v, dq_active_page q} w w'"
    using f unfolding v(3) w1 queue_only_def fresh_block_def keeps_def by (auto simp: set_pp_prev_def set_pp_next_def)
  moreover have "fresh_pages w w' {v}"
    using f sp unfolding v(3) fresh_block_def fresh_pages_def by (simp add: set_pp_prev_def set_pp_next_def del: in_region_iff)
  ultimately show ?thesis using adv v(2) Nil
    by (intro exI [of _ "us @ [dq_active_page q]"] exI [of _ "[]"]) (auto simp: fresh_pages_def elim: queue_only_mono)
next
  case (Cons v vs')
  then have nx: "pp_next (pointer_pages w (dq_active_page q)) = v" "v \<noteq> 0" using s by (auto simp: dq_shape_def paths)
  then have q': "q' = q\<lparr>dq_active_page := v, dq_active_page_used_count := 0\<rparr>" "w' = w"
    using r by (auto simp: next_pointer_page_def)
  show ?thesis using dq_advance_existing [OF s [unfolded Cons] n q'(1)] q' Cons
    by (intro exI [of _ "us @ [dq_active_page q]"] exI [of _ vs']) (auto simp: fresh_pages_def)
qed

lemma queue_push_frame:
  assumes "queue_in os (q, w) Q xs" "DeallocationQueue_push os p (q, w) = Some (q', w')"
  obtains Q' where "queue_in os (q', w') Q' (p # xs)" "Q \<subseteq> Q'" "queue_only Q' w w'" "fresh_pages w w' (Q' - Q)"
proof -
  obtain us vs where s: "os_ok os" "dq_lock q = 0" "dq_shape q w us vs" "rev xs = dq_contents q w us" "Q = set (us @ dq_active_page q # vs)"
    using assms(1) by (auto simp: queue_in_def)
  let ?q = "q\<lparr>dq_lock := 1\<rparr>"
  have s1: "dq_shape ?q w us vs" "dq_contents ?q w us = rev xs" using s by (simp_all add: dq_shape_def dq_contents_def)
  obtain q1 w1 where m: "(if dq_active_page_used_count ?q = POINTER_CAPACITY then next_pointer_page os (?q, w) else Some (?q, w))
      = Some (q1, w1)"
    and fin: "w' = set_pp_pointer (dq_active_page q1) (dq_active_page_used_count q1) p w1"
      "q' = q1\<lparr>dq_active_page_used_count := dq_active_page_used_count q1 + 1, dq_lock := 0\<rparr>"
    using assms(2) s(2)
    by (auto simp: DeallocationQueue_push_def Let_def split: if_splits bind_splits)
  have "\<exists>us' vs'. dq_shape q1 w1 us' vs' \<and> dq_contents q1 w1 us' = rev xs \<and> unat (dq_active_page_used_count q1) < 8190
    \<and> Q \<subseteq> set (us' @ dq_active_page q1 # vs') \<and> queue_only (set (us' @ dq_active_page q1 # vs')) w w1
    \<and> fresh_pages w w1 (set (us' @ dq_active_page q1 # vs') - Q)"
  proof (cases "dq_active_page_used_count ?q = POINTER_CAPACITY")
    case True
    then have r: "next_pointer_page os (?q, w) = Some (q1, w1)" using m by simp
    show ?thesis using next_pointer_page_frame [OF s(1) s1(1) True r] s1(2) s(5) by fastforce
  next
    case False
    then have "unat (dq_active_page_used_count q) \<noteq> 8190" by (auto simp: POINTER_CAPACITY_def unat_eq_iff_u64)
    moreover have "unat (dq_active_page_used_count q) \<le> 8190" using s(3) by (simp add: dq_shape_def)
    moreover have "q1 = ?q" "w1 = w" using m False by auto
    ultimately show ?thesis using s1 s(5) by (intro exI [of _ us] exI [of _ vs]) (auto simp: fresh_pages_def)
  qed
  then obtain us' vs' where t: "dq_shape q1 w1 us' vs'" "dq_contents q1 w1 us' = rev xs"
    "unat (dq_active_page_used_count q1) < 8190" "Q \<subseteq> set (us' @ dq_active_page q1 # vs')"
    "queue_only (set (us' @ dq_active_page q1 # vs')) w w1" "fresh_pages w w1 (set (us' @ dq_active_page q1 # vs') - Q)" by blast
  note st = dq_store [OF t(1,3) fin]
  show ?thesis
  proof (rule that)
    show "queue_in os (q', w') (set (us' @ dq_active_page q1 # vs')) (p # xs)"
      by (rule queue_inI [OF s(1) _ st(1)]) (use st(2) t(2) fin(2) in simp_all)
    show "queue_only (set (us' @ dq_active_page q1 # vs')) w w'"
      using t(5) unfolding fin(1) queue_only_def by (auto simp: set_pp_pointer_def)
    show "fresh_pages w w' (set (us' @ dq_active_page q1 # vs') - Q)"
      using t(6) unfolding fin(1) fresh_pages_def by (auto simp: set_pp_pointer_def)
  qed (rule t(4))
qed

lemma pop_world: "DeallocationQueue_pop (q, w) = Some (p, q', w') \<Longrightarrow> w' = w"
  by (auto simp: DeallocationQueue_pop_def Let_def split: bind_splits if_splits)

text \<open>\<open>pop\<close> moves inside the pages of the queue.\<close>

lemma queue_pop_frame:
  assumes "queue_in os (q, w) Q (p # xs)"
  obtains q' where "DeallocationQueue_pop (q, w) = Some (p, q', w)" "queue_in os (q', w) Q xs"
proof -
  obtain q' w' where pop: "DeallocationQueue_pop (q, w) = Some (p, q', w')" "dq_inv os (q', w') xs"
    using dq_pop_top [OF queue_in_inv [OF assms]] by blast
  have w': "w' = w" by (rule pop_world [OF pop(1)])
  obtain us vs where s: "dq_shape q w us vs" "Q = set (us @ dq_active_page q # vs)" "dq_lock q = 0"
    using assms by (auto simp: queue_in_def)
  obtain us' vs' where t: "os_ok os" "dq_lock q' = 0" "dq_shape q' w us' vs'" "rev xs = dq_contents q' w us'"
    using pop(2) w' by (auto simp: dq_inv_def)
  have "dq_head q' = dq_head q" using pop(1) by (auto simp: DeallocationQueue_pop_def Let_def split: bind_splits if_splits)
  then have "us' @ dq_active_page q' # vs' = us @ dq_active_page q # vs"
    using s(1) t(3) by (auto simp: dq_shape_def dest: chain_unique)
  then have "Q = set (us' @ dq_active_page q' # vs')" using s(2) by simp
  then show ?thesis using that [OF _ queue_inI [OF t]] pop(1) w' by simp
qed

subsection \<open>Draining the queue\<close>

lemma remove_logical_page_queue: "pointer_pages (snd (remove_logical_page a (sg, w))) = pointer_pages w"
  by (simp add: remove_logical_page_def Let_def upd_page_def split: prod.splits)

lemma release_queue [simp]: "pointer_pages (release_to_system os a n w) = pointer_pages (w :: world)"
  by (simp add: release_to_system_def VirtualMemory_deallocate_def Let_def)

lemma recycle_logical_page_queue: "pointer_pages (snd (recycle_logical_page os a (sg, w))) = pointer_pages w"
  using remove_logical_page_queue [of a sg w] by (cases "remove_logical_page a (sg, w)") (simp add: recycle_logical_page_def)

lemma deallocate_from_page_queue:
  assumes "deallocate_from_page P os a ptr (sg, w) = Some s'"
  shows "pointer_pages (snd s') = pointer_pages w"
proof -
  obtain t where "page_deallocate (page_type P) ptr (get_page a w) = Some t"
    using assms by (auto simp: deallocate_from_page_def split: bind_splits)
  then show ?thesis using assms recycle_logical_page_queue [of os a sg "upd_page a mark_as_non_used (put_page a t w)"]
    by (auto simp: deallocate_from_page_def Let_def split: if_splits)
qed

lemma deallocate_internal_queue:
  assumes "deallocate_internal P os ptr (sg, w) = Some s'"
  shows "pointer_pages (snd s') = pointer_pages w"
  using assms deallocate_from_page_queue
  by (auto simp: deallocate_internal_def deallocate_from_aligned_logical_page_def deallocate_by_search_def Let_def
      split: if_splits bind_splits)

text \<open>The segment with its queue: the payloads \<open>xs\<close> wait, the others of \<open>K\<close> are held.\<close>

definition tl_live :: "segment_policy \<Rightarrow> os \<Rightarrow> segment_state \<Rightarrow> nat set \<Rightarrow> u64 set \<Rightarrow> u64 list \<Rightarrow> (u64 \<rightharpoonup> nat) \<Rightarrow> bool" where
  "tl_live P os = (\<lambda>(sg, w) X Q xs K. seg_live P (sg, w) X K \<and> queue_in os (seg_deallocation_queue sg, w) Q xs
     \<and> distinct xs \<and> set xs \<subseteq> dom K \<and> X \<inter> queue_space Q = {})"

text \<open>What draining may do: give up the addresses \<open>X - X'\<close>.\<close>

definition drains :: "nat set \<Rightarrow> nat set \<Rightarrow> nat set \<Rightarrow> (u64 \<rightharpoonup> nat) \<Rightarrow> segment_state \<Rightarrow> segment_state \<Rightarrow> bool" where
  "drains H X X' L s s' \<longleftrightarrow> X' \<subseteq> X \<and> arena (snd s') = arena (snd s) \<and> arena_inv (arena (snd s'), snd s') (H - (X - X'))
     \<and> keeps_live L (snd s) (snd s') \<and> keeps_others (H - X) (snd s) (snd s')
     \<and> same_segment (fst s) (fst s') \<and> seg_lock (fst s') = seg_lock (fst s) \<and> pointer_pages (snd s') = pointer_pages (snd s)"

lemma drains_refl: "arena_inv (arena w, w) H \<Longrightarrow> drains H X X L (sg, w) (sg, w)"
  by (simp add: drains_def keeps_live_def keeps_others_def)

lemma drains_trans:
  assumes a: "drains H X X1 L s s1" and b: "drains (H - (X - X1)) X1 X2 L s1 s2"
  shows "drains H X X2 L s s2"
proof -
  have sub: "X1 \<subseteq> X" "X2 \<subseteq> X1" using a b by (auto simp: drains_def)
  then have "H - (X - X1) - (X1 - X2) = H - (X - X2)" by blast
  moreover have "H - X \<subseteq> H - (X - X1) - X1" using sub by blast
  then have "keeps_others (H - X) (snd s1) (snd s2)" using b by (auto simp: drains_def keeps_others_def)
  ultimately show ?thesis using a b sub keeps_live_trans [of L "snd s" "snd s1" "snd s2"] keeps_others_trans [of "H - X" "snd s" "snd s1" "snd s2"]
      same_segment_trans [of "fst s" "fst s1" "fst s2"] unfolding drains_def by (metis order_trans)
qed

lemma seg_live_queue [simp]: "seg_live P (sg\<lparr>seg_deallocation_queue := q\<rparr>, w) X L = seg_live P (sg, w) X L"
  by (simp add: seg_live_def seg_inv_def seg_pages_def page_ok_def page_aligned_def extents_def)

lemma same_segment_queue [simp]: "same_segment (sg\<lparr>seg_deallocation_queue := q\<rparr>) sg' = same_segment sg sg'"
  by (simp add: same_segment_def)

lemma queue_space_page: "r \<in> Q \<Longrightarrow> unat r \<in> queue_space Q"
  by (force simp: queue_space_def)

text \<open>One pointer is taken out of the queue and given back to its page.\<close>

lemma drain_one:
  assumes tl: "tl_live P os (sg, w) X Q (x # xs) K" and ar: "arena_inv (arena w, w) H" and H: "X \<union> queue_space Q \<subseteq> H"
  obtains q s' X' where "DeallocationQueue_pop (seg_deallocation_queue sg, w) = Some (x, q, w)" "x \<noteq> 0"
    "deallocate_internal P os x (sg\<lparr>seg_deallocation_queue := q\<rparr>, w) = Some s'"
    "tl_live P os s' X' Q xs (K(x := None))" "drains H X X' (K(x := None)) (sg, w) s'"
    "tl_live P os (sg\<lparr>seg_deallocation_queue := q\<rparr>, w) X Q xs K"
proof -
  have lv: "seg_live P (sg, w) X K" and qi: "queue_in os (seg_deallocation_queue sg, w) Q (x # xs)" and d: "distinct (x # xs)" "set (x # xs) \<subseteq> dom K"
    and dj: "X \<inter> queue_space Q = {}" using tl by (auto simp: tl_live_def)
  obtain q where pop: "DeallocationQueue_pop (seg_deallocation_queue sg, w) = Some (x, q, w)" "queue_in os (q, w) Q xs"
    by (rule queue_pop_frame [OF qi])
  let ?sg = "sg\<lparr>seg_deallocation_queue := q\<rparr>"
  obtain k where k: "K x = Some k" using d(2) by auto
  have lv': "seg_live P (?sg, w) X K" using lv by simp
  have X: "X \<subseteq> H" using H by blast
  obtain s' X' where f: "deallocate_internal P os x (?sg, w) = Some s'" "seg_live P s' X' (K(x := None))"
    "gives_up H X X' (K(x := None)) (?sg, w) s'"
    by (rule deallocate_internal_ok [OF lv' ar X k])
  obtain sg' w' where s': "s' = (sg', w')" by (cases s')
  have g: "X' \<subseteq> X" "arena_inv (arena w', w') (H - (X - X'))" "seg_deallocation_queue sg' = q"
    "arena w' = arena w" "keeps_live (K(x := None)) w w'" "keeps_others (H - X) w w'" "same_segment sg sg'" "seg_lock sg' = seg_lock sg"
    using f(3) by (auto simp: gives_up_def s')
  have pp: "pointer_pages w' = pointer_pages w" using deallocate_internal_queue [OF f(1)] by (simp add: s')
  have "is_mapped (vm w') (unat r)" if r: "r \<in> Q" for r
  proof -
    have "unat r \<in> H - (X - X')" using queue_space_page [OF r] H dj by blast
    then show ?thesis using g(2) by (auto simp: arena_inv_def)
  qed
  then have "queue_in os (q, w') Q xs" by (intro queue_in_frame [OF pop(2)]) (simp_all add: pp)
  then have "tl_live P os s' X' Q xs (K(x := None))" using f(2) d dj g(1,3) unfolding tl_live_def s' by auto
  moreover have "drains H X X' (K(x := None)) (sg, w) s'" 
    unfolding drains_def s' fst_conv snd_conv using g pp by blast
  moreover have "tl_live P os (?sg, w) X Q xs K" using lv' pop(2) d dj by (simp add: tl_live_def)
  ultimately show ?thesis using that [OF pop(1) seg_live_facts(2) [OF lv k] f(1)] by blast
qed

lemma drain_empty:
  assumes "tl_live P os (sg, w) X Q [] K"
  shows "process_queue_loop P os b ret (sg, w) = Some (ret, (sg, w))"
proof -
  have "dq_inv os (seg_deallocation_queue sg, w) []" using assms queue_in_inv by (auto simp: tl_live_def)
  then show ?thesis using dq_pop_empty [of os "seg_deallocation_queue sg" w] by (subst process_queue_loop.simps) simp
qed

lemma drain_rest:
  assumes "tl_live P os (sg, w) X Q xs K" "arena_inv (arena w, w) H" "X \<union> queue_space Q \<subseteq> H" "b \<longrightarrow> ret \<noteq> 0"
  shows "\<exists>s' X'. process_queue_loop P os b ret (sg, w) = Some (ret, s') \<and> tl_live P os s' X' Q [] (K |` (- set xs))
    \<and> drains H X X' (K |` (- set xs)) (sg, w) s'"
  using assms
proof (induction xs arbitrary: sg w X H K)
  case Nil
  then show ?case using drain_empty [OF Nil.prems(1)] drains_refl [of w H X K sg] by auto
next
  case (Cons x xs)
  obtain q s1 X1 where o: "DeallocationQueue_pop (seg_deallocation_queue sg, w) = Some (x, q, w)" "x \<noteq> 0"
    "deallocate_internal P os x (sg\<lparr>seg_deallocation_queue := q\<rparr>, w) = Some s1"
    "tl_live P os s1 X1 Q xs (K(x := None))" "drains H X X1 (K(x := None)) (sg, w) s1"
    by (rule drain_one [OF Cons.prems(1-3)])
  obtain sg1 w1 where s1: "s1 = (sg1, w1)" by (cases s1)
  have dj: "X \<inter> queue_space Q = {}" using Cons.prems(1) by (simp add: tl_live_def)
  have X1: "X1 \<subseteq> X" "arena_inv (arena w1, w1) (H - (X - X1))" using o(5) by (auto simp: drains_def s1)
  have H1: "X1 \<union> queue_space Q \<subseteq> H - (X - X1)" using X1(1) Cons.prems(3) dj by blast
  obtain s2 X2 where r: "process_queue_loop P os b ret (sg1, w1) = Some (ret, s2)" "tl_live P os s2 X2 Q [] ((K(x := None)) |` (- set xs))"
    "drains (H - (X - X1)) X1 X2 ((K(x := None)) |` (- set xs)) (sg1, w1) s2"
    using Cons.IH [OF o(4) [unfolded s1] X1(2) H1 Cons.prems(4)] by blast
  have K: "(K(x := None)) |` (- set xs) = K |` (- set (x # xs))" by (auto simp: restrict_map_def fun_eq_iff)
  have "drains H X X1 (K |` (- set (x # xs))) (sg, w) s1"
    using o(5) unfolding drains_def keeps_live_def by (auto simp: restrict_map_def split: if_splits)
  then have "drains H X X2 (K |` (- set (x # xs))) (sg, w) s2" by (rule drains_trans) (use r(3) in \<open>simp only: K s1\<close>)
  moreover have "process_queue_loop P os b ret (sg, w) = process_queue_loop P os b ret s1"
    using o(1-3) Cons.prems(4) by (subst process_queue_loop.simps) (simp add: Let_def)
  ultimately show ?case using r(1,2) K s1 by auto
qed

subsection \<open>Allocation\<close>

text \<open>Where the queue had a pointer, the one on top is handed out again; the others go back to their pages.\<close>

lemma drain_top:
  assumes tl: "tl_live P os (sg, w) X Q (x # xs) K" and ar: "arena_inv (arena w, w) H" and H: "X \<union> queue_space Q \<subseteq> H"
  shows "\<exists>s' X'. process_deallocation_queue P os True (sg, w) = Some (x, s') \<and> x \<noteq> 0 \<and> tl_live P os s' X' Q [] (K |` (- set xs))
    \<and> drains H X X' (K |` (- set xs)) (sg, w) s'"
proof -
  obtain q s1 X1 where o: "DeallocationQueue_pop (seg_deallocation_queue sg, w) = Some (x, q, w)" "x \<noteq> 0"
    "tl_live P os (sg\<lparr>seg_deallocation_queue := q\<rparr>, w) X Q xs K"
    by (rule drain_one [OF assms])
  obtain s' X' where r: "process_queue_loop P os True x (sg\<lparr>seg_deallocation_queue := q\<rparr>, w) = Some (x, s')"
    "tl_live P os s' X' Q [] (K |` (- set xs))" "drains H X X' (K |` (- set xs)) (sg\<lparr>seg_deallocation_queue := q\<rparr>, w) s'"
    using drain_rest [OF o(3) ar H, of True x] o(2) by blast
  have "process_deallocation_queue P os True (sg, w) = Some (x, s')"
    unfolding process_deallocation_queue_def using o(1,2) r(1) by (subst process_queue_loop.simps) (simp add: Let_def)
  moreover have "drains H X X' (K |` (- set xs)) (sg, w) s'" using r(3) by (auto simp: drains_def)
  ultimately show ?thesis using o(2) r(2) by blast
qed

lemma seg_live_fixed:
  assumes "seg_live P (sg, w) X K" "\<not> supports_any_size (page_type P)" "K q = Some k"
  shows "k = unat (seg_size_class sg)"
proof -
  obtain ps A where s: "seg_inv P sg w ps A" "live_in ps A K" using assms(1) by (auto simp: seg_live_def)
  obtain p where p: "p \<in> set ps" "A p q = Some k" using assms(3) s(2) by (auto simp: live_in_def)
  have "page_type P = LOGICAL_PAGE" using assms(2) by (cases "page_type P") simp_all
  then have "lp_page (pages w p, ram w) (A p)" "m_size_class (pages w p) = seg_size_class sg"
    using seg_inv_pages [OF s(1) p(1)] by (simp_all add: page_ok_def get_page_def)
  then show ?thesis using p(2) by (auto simp: lp_page_def lp_live_iff)
qed

lemma allocate_internal_local:
  assumes cp: "concurrency_policy P = THREAD_LOCAL" and lv: "seg_live P (sg, w) X L" and fit: "seg_fit P sg sz"
    and ar: "arena_inv (arena w, w) H"
  obtains r s' where "allocate_internal P os sz (sg, w) = Some (r, s')" "drains H X X L (sg, w) s'"
    "seg_deallocation_queue (fst s') = seg_deallocation_queue sg" "r = 0 \<longrightarrow> seg_live P s' X L"
    "r \<noteq> 0 \<longrightarrow> L r = None \<and> (\<exists>k \<ge> unat sz. seg_live P s' X (L(r \<mapsto> k)))"
proof -
  obtain ps A where s: "seg_inv P sg w ps A" "X = extents sg ps" "live_in ps A L" using lv by (auto simp: seg_live_def)
  have stay: "allocate_internal P os sz (sg, w) = Some (0, (sg, w)) \<Longrightarrow> thesis"
    using that [of 0 "(sg, w)"] lv drains_refl [OF ar, of X L sg] by simp
  show ?thesis
  proof (cases "sz \<le> seg_max_object_size sg")
    case False
    then show ?thesis by (intro stay) (simp add: allocate_internal_def not_le)
  next
    case True
    from s(1) fit True show ?thesis
    proof (cases rule: allocate_internal_cases [where os = os])
      case (served p r t)
      note sv = serve_from_page [OF s(1) served(1) s(3) fit served(3,2)]
      have st: "seg_static P sg" using s(1) by (simp add: seg_inv_def)
      have e: "extent sg p \<subseteq> X" "unat p \<in> X" using served(1) extents_pages [OF st] s(2) by (auto simp: extents_def)
      have "keeps_others (H - X) w (put_page p t w)" by (rule touched_others [OF sv(4)]) (use e in auto)
      then have "drains H X X L (sg, w) (sg\<lparr>seg_last_used := p\<rparr>, put_page p t w)"
        using ar sv(3) by (simp add: drains_def arena_inv_def same_segment_def)
      then show ?thesis using that [OF served(4)] sv(1,2) served(2) s(2) by auto
    next
      case full
      then show ?thesis using cp by (intro stay) simp
    qed
  qed
qed

text \<open>After the queue has been emptied the pages serve the request.\<close>

lemma tl_allocate_drained:
  assumes cp: "concurrency_policy P = THREAD_LOCAL" and tl: "tl_live P os (sg, w) X Q [] L"
    and ar: "arena_inv (arena w, w) H" and H: "X \<union> queue_space Q \<subseteq> H" and fit: "seg_fit P sg sz"
  obtains r s' where "allocate_internal P os sz (sg, w) = Some (r, s')" "drains H X X L (sg, w) s'"
    "r = 0 \<longrightarrow> tl_live P os s' X Q [] L" "r \<noteq> 0 \<longrightarrow> L r = None \<and> (\<exists>k \<ge> unat sz. tl_live P os s' X Q [] (L(r \<mapsto> k)))"
proof -
  have lv: "seg_live P (sg, w) X L" and qi: "queue_in os (seg_deallocation_queue sg, w) Q []" and dj: "X \<inter> queue_space Q = {}"
    using tl by (auto simp: tl_live_def)
  obtain r s' where a: "allocate_internal P os sz (sg, w) = Some (r, s')" "drains H X X L (sg, w) s'"
    "seg_deallocation_queue (fst s') = seg_deallocation_queue sg" "r = 0 \<longrightarrow> seg_live P s' X L"
    "r \<noteq> 0 \<longrightarrow> L r = None \<and> (\<exists>k \<ge> unat sz. seg_live P s' X (L(r \<mapsto> k)))"
    by (rule allocate_internal_local [OF cp lv fit ar])
  have d: "arena_inv (arena (snd s'), snd s') H" "pointer_pages (snd s') = pointer_pages w"
    using a(2) unfolding drains_def by (auto simp only: fst_conv snd_conv Diff_cancel Diff_empty)
  have "is_mapped (vm (snd s')) (unat q)" if "q \<in> Q" for q
    using queue_space_page [OF that] H d(1) by (auto simp: arena_inv_def)
  then have q': "queue_in os (seg_deallocation_queue (fst s'), snd s') Q []"
    unfolding a(3) by (intro queue_in_frame [OF qi]) (simp_all add: d(2))
  have "tl_live P os s' X Q [] K" if "seg_live P s' X K" for K
    using that q' dj by (auto simp: tl_live_def split: prod.splits)
  then show ?thesis by (intro that [OF a(1,2)]) (use a(4,5) in blast)+
qed

lemma tl_allocate:
  assumes cp: "concurrency_policy P = THREAD_LOCAL" and tl: "tl_live P os (sg, w) X Q xs K"
    and ar: "arena_inv (arena w, w) H" and H: "X \<union> queue_space Q \<subseteq> H" and fit: "seg_fit P sg sz" and L: "L = K |` (- set xs)"
  obtains r s' X' where "Segment_allocate P os sz (sg, w) = Some (r, s')" "drains H X X' L (sg, w) s'"
    "r = 0 \<longrightarrow> tl_live P os s' X' Q [] L" "r \<noteq> 0 \<longrightarrow> L r = None \<and> (\<exists>k \<ge> unat sz. tl_live P os s' X' Q [] (L(r \<mapsto> k)))"
proof -
  have dj: "X \<inter> queue_space Q = {}" using tl by (simp add: tl_live_def)
  show ?thesis
  proof (cases "supports_any_size (page_type P) \<or> xs = []")
    case True
    let ?b = "\<not> supports_any_size (page_type P)"
    obtain s1 X1 where r: "process_deallocation_queue P os ?b (sg, w) = Some (0, s1)" "tl_live P os s1 X1 Q [] L" "drains H X X1 L (sg, w) s1"
    proof (cases ?b)
      case True
      have "K |` UNIV = K" by (simp add: restrict_map_def)
      then show ?thesis using that [of "(sg, w)" X] True \<open>supports_any_size (page_type P) \<or> xs = []\<close> drain_empty [of P os sg w X Q K] tl L
          drains_refl [OF ar, of X L sg] by (simp add: process_deallocation_queue_def)
    next
      case False
      then show ?thesis using that drain_rest [OF tl ar H, of False 0] L unfolding process_deallocation_queue_def by auto
    qed
    obtain sg1 w1 where s1: "s1 = (sg1, w1)" by (cases s1)
    have d: "X1 \<subseteq> X" "arena_inv (arena w1, w1) (H - (X - X1))" "same_segment sg sg1"
      using r(3) unfolding drains_def fst_conv snd_conv s1 by blast+
    have H1: "X1 \<union> queue_space Q \<subseteq> H - (X - X1)" using d(1) H dj by blast
    have fit1: "seg_fit P sg1 sz" using fit unfolding seg_fit_def same_segment_fields(1) [OF d(3)] .
    obtain r s' where a: "allocate_internal P os sz (sg1, w1) = Some (r, s')" "drains (H - (X - X1)) X1 X1 L (sg1, w1) s'"
      "r = 0 \<longrightarrow> tl_live P os s' X1 Q [] L" "r \<noteq> 0 \<longrightarrow> L r = None \<and> (\<exists>k \<ge> unat sz. tl_live P os s' X1 Q [] (L(r \<mapsto> k)))"
      by (rule tl_allocate_drained [OF cp r(2) [unfolded s1] d(2) H1 fit1])
    have "Segment_allocate P os sz (sg, w) = Some (r, s')"
      using r(1) a(1) cp s1 by (cases "supports_any_size (page_type P)") (simp_all add: Segment_allocate_def)
    then show ?thesis using that drains_trans [OF r(3) [unfolded s1] a(2)] a(3,4) by blast
  next
    case False
    then obtain x ys where x: "xs = x # ys" by (cases xs) auto
    obtain s' X' where r: "process_deallocation_queue P os True (sg, w) = Some (x, s')" "x \<noteq> 0"
      "tl_live P os s' X' Q [] (K |` (- set ys))" "drains H X X' (K |` (- set ys)) (sg, w) s'"
      using drain_top [OF tl [unfolded x] ar H] by blast
    have xK: "x \<notin> set ys" "x \<in> dom K" "seg_live P (sg, w) X K" using tl by (auto simp: tl_live_def x)
    obtain k where k: "K x = Some k" using xK(2) by auto
    have e: "K |` (- set ys) = L(x \<mapsto> k)" "L x = None" using xK(1) k by (auto simp: L x restrict_map_def fun_eq_iff)
    have "unat sz \<le> k" using seg_live_fixed [OF xK(3) _ k] False fit by (simp add: seg_fit_def word_le_nat_alt)
    moreover have "drains H X X' L (sg, w) s'"
      using r(4) e unfolding drains_def keeps_live_def by (metis fun_upd_apply option.distinct(1))
    moreover have "Segment_allocate P os sz (sg, w) = Some (x, s')" using r(1,2) cp False by (simp add: Segment_allocate_def)
    ultimately show ?thesis using that [of x s' X'] e r(2,3) by auto
  qed
qed

subsection \<open>The invariant of the interface\<close>

definition tl_ok :: "segment_policy \<Rightarrow> os \<Rightarrow> segment_state \<Rightarrow> (u64 \<rightharpoonup> nat) \<Rightarrow> bool" where
  "tl_ok P os = (\<lambda>(sg, w) L. os_ok os \<and> concurrency_policy P = THREAD_LOCAL
     \<and> (\<exists>H X Q xs K. arena_inv (arena w, w) H \<and> X \<union> queue_space Q \<subseteq> H \<and> tl_live P os (sg, w) X Q xs K \<and> L = K |` (- set xs)))"

definition tl_serves :: "segment_policy \<Rightarrow> u64 \<Rightarrow> segment_state \<Rightarrow> bool" where
  "tl_serves P sz s = seg_fit P (fst s) sz"

lemma tl_okI:
  "os_ok os \<Longrightarrow> concurrency_policy P = THREAD_LOCAL \<Longrightarrow> arena_inv (arena (snd s), snd s) H \<Longrightarrow> X \<union> queue_space Q \<subseteq> H
   \<Longrightarrow> tl_live P os s X Q xs K \<Longrightarrow> L = K |` (- set xs) \<Longrightarrow> tl_ok P os s L"
  unfolding tl_ok_def by (cases s) (simp only: prod.case fst_conv snd_conv, blast)

lemma tl_okE:
  assumes "tl_ok P os (sg, w) L"
  obtains H X Q xs K where "os_ok os" "concurrency_policy P = THREAD_LOCAL" "arena_inv (arena w, w) H" "X \<union> queue_space Q \<subseteq> H"
    "tl_live P os (sg, w) X Q xs K" "L = K |` (- set xs)"
  using assms unfolding tl_ok_def prod.case by blast

lemma tl_allocate_ok:
  assumes ok: "tl_ok P os (sg, w) L" and fit: "seg_fit P sg sz"
  obtains r s' where "Segment_allocate P os sz (sg, w) = Some (r, s')" "keeps_live L w (snd s')"
    "if r = 0 then tl_ok P os s' L else L r = None \<and> (\<exists>k \<ge> unat sz. tl_ok P os s' (L(r \<mapsto> k)))"
proof -
  obtain H X Q xs K where h: "os_ok os" "concurrency_policy P = THREAD_LOCAL" "arena_inv (arena w, w) H" "X \<union> queue_space Q \<subseteq> H"
    "tl_live P os (sg, w) X Q xs K" "L = K |` (- set xs)" by (rule tl_okE [OF ok])
  have dj: "X \<inter> queue_space Q = {}" using h(5) by (simp add: tl_live_def)
  obtain r s' X' where a: "Segment_allocate P os sz (sg, w) = Some (r, s')" "drains H X X' L (sg, w) s'"
    "r = 0 \<longrightarrow> tl_live P os s' X' Q [] L" "r \<noteq> 0 \<longrightarrow> L r = None \<and> (\<exists>k \<ge> unat sz. tl_live P os s' X' Q [] (L(r \<mapsto> k)))"
    by (rule tl_allocate [OF h(2,5,3,4) fit h(6)])
  have d: "X' \<subseteq> X" "arena_inv (arena (snd s'), snd s') (H - (X - X'))" "keeps_live L w (snd s')"
    using a(2) unfolding drains_def fst_conv snd_conv by blast+
  have "X' \<union> queue_space Q \<subseteq> H - (X - X')" using d(1) h(4) dj by blast
  then have "tl_ok P os s' K'" if "tl_live P os s' X' Q [] K'" for K'
    by (rule tl_okI [OF h(1,2) d(2) _ that]) (simp add: restrict_map_def)
  then have "if r = 0 then tl_ok P os s' L else L r = None \<and> (\<exists>k \<ge> unat sz. tl_ok P os s' (L(r \<mapsto> k)))"
    using a(3,4) by (cases "r = 0") auto
  then show ?thesis by (rule that [OF a(1) d(3)])
qed

subsection \<open>Deallocation\<close>

lemma fresh_pages_space:
  assumes "fresh_pages w w' R" "x \<in> queue_space R"
  shows "\<not> is_mapped (vm w) x" "is_mapped (vm w') x"
  using assms by (auto simp: fresh_pages_def queue_space_def simp del: in_region_iff)

lemma queue_space_grown: "Q \<subseteq> Q' \<Longrightarrow> queue_space Q' = queue_space Q \<union> queue_space (Q' - Q)"
  by (auto simp: queue_space_def simp del: in_region_iff)

text \<open>The payload moves into the queue; pages and payloads stay as they are.\<close>

lemma tl_push:
  assumes cp: "concurrency_policy P = THREAD_LOCAL" and ar: "arena_inv (arena w, w) H" and H: "X \<union> queue_space Q \<subseteq> H"
    and tl: "tl_live P os (sg, w) X Q xs K" and K: "K p = Some k" "p \<notin> set xs" and d: "Segment_deallocate P os p (sg, w) = Some s'"
  obtains Q' q' where "arena_inv (arena (snd s'), snd s') (H \<union> queue_space (Q' - Q))" "X \<union> queue_space Q' \<subseteq> H \<union> queue_space (Q' - Q)"
    "tl_live P os s' X Q' (p # xs) K" "keeps_others H w (snd s')" "Q \<subseteq> Q'" "queue_only Q' w (snd s')" "fresh_pages w (snd s') (Q' - Q)"
    "fst s' = sg\<lparr>seg_deallocation_queue := q'\<rparr>"
proof -
  have lv: "seg_live P (sg, w) X K" and qi: "queue_in os (seg_deallocation_queue sg, w) Q xs" and ds: "distinct xs" "set xs \<subseteq> dom K"
    and dj: "X \<inter> queue_space Q = {}" using tl by (auto simp: tl_live_def)
  obtain ps A where "seg_inv P sg w ps A" "live_in ps A K" using lv by (auto simp: seg_live_def)
  then have "seg_head sg \<noteq> 0" using K(1) by (cases ps) (auto simp: live_in_def seg_inv_def seg_pages_def)
  then obtain q' w' where q': "DeallocationQueue_push os p (seg_deallocation_queue sg, w) = Some (q', w')"
    "s' = (sg\<lparr>seg_deallocation_queue := q'\<rparr>, w')"
    using d cp by (auto simp: Segment_deallocate_def split: bind_splits)
  obtain Q' where Q': "queue_in os (q', w') Q' (p # xs)" "Q \<subseteq> Q'" "queue_only Q' w w'" "fresh_pages w w' (Q' - Q)"
    by (rule queue_push_frame [OF qi q'(1)])
  have w': "pages w' = pages w" "arena w' = arena w" "\<And>x. is_mapped (vm w) x \<Longrightarrow> is_mapped (vm w') x"
    "\<And>x. is_mapped (vm w) (unat x) \<Longrightarrow> ram w' x = ram w x" using Q'(3) by (auto simp: queue_only_def)
  have m: "\<And>x. x \<in> spare (arena w) \<union> H \<Longrightarrow> is_mapped (vm w) x" using ar by (auto simp: arena_inv_def)
  have ko: "keeps_others H w w'" using w'(1,4) m by (auto simp: keeps_others_def)
  have lv': "seg_live P (sg, w') X K" by (rule seg_live_others [OF lv ko]) (use H in blast)
  let ?H = "H \<union> queue_space (Q' - Q)"
  note fs = fresh_pages_space [OF Q'(4)]
  have "\<And>x. x \<in> spare (arena w) \<union> ?H \<Longrightarrow> is_mapped (vm w') x" using m w'(3) fs(2) by blast
  moreover have "spare (arena w) \<inter> ?H = {}" using ar m fs(1) by (auto simp: arena_inv_def)
  ultimately have ar': "arena_inv (arena w', w') ?H" using ar by (simp add: arena_inv_def w'(2))
  note sp = queue_space_grown [OF Q'(2)]
  have dj': "X \<inter> queue_space Q' = {}" using dj sp fs(1) m H by blast
  show ?thesis
  proof (rule that [of Q' q'])
    show "arena_inv (arena (snd s'), snd s') ?H" using ar' by (simp add: q'(2))
    show "X \<union> queue_space Q' \<subseteq> ?H" using H sp by blast
    show "tl_live P os s' X Q' (p # xs) K" using lv' Q'(1) ds K dj' by (auto simp: tl_live_def q'(2))
    show "keeps_others H w (snd s')" "queue_only Q' w (snd s')" "fresh_pages w (snd s') (Q' - Q)" "fst s' = sg\<lparr>seg_deallocation_queue := q'\<rparr>"
      using ko Q'(3,4) by (simp_all add: q'(2))
  qed (rule Q'(2))
qed

lemma tl_deallocate_ok:
  assumes ok: "tl_ok P os (sg, w) L" and p: "L p = Some k" and d: "Segment_deallocate P os p (sg, w) = Some s'"
  shows "tl_ok P os s' (L(p := None))" "keeps_live L w (snd s')"
    "supports_any_size (page_type P) = False \<Longrightarrow> \<exists>t. Segment_allocate P os sz s' = Some (p, t)"
proof -
  obtain H X Q xs K where h: "os_ok os" "concurrency_policy P = THREAD_LOCAL" "arena_inv (arena w, w) H" "X \<union> queue_space Q \<subseteq> H"
    "tl_live P os (sg, w) X Q xs K" "L = K |` (- set xs)" by (rule tl_okE [OF ok])
  have K: "K p = Some k" "p \<notin> set xs" using p h(6) by (auto simp: restrict_map_def split: if_splits)
  have lv: "seg_live P (sg, w) X K" using h(5) by (simp add: tl_live_def)
  obtain Q' where s': "arena_inv (arena (snd s'), snd s') (H \<union> queue_space (Q' - Q))" "X \<union> queue_space Q' \<subseteq> H \<union> queue_space (Q' - Q)"
    "tl_live P os s' X Q' (p # xs) K" "keeps_others H w (snd s')" by (rule tl_push [OF h(2-5) K d])
  have "L(p := None) = K |` (- set (p # xs))" by (auto simp: h(6) restrict_map_def fun_eq_iff)
  then show "tl_ok P os s' (L(p := None))" by (rule tl_okI [OF h(1,2) s'(1-3)])
  have "unat x \<in> H" if "L q = Some j" "unat x \<in> region q j" for q j x
  proof -
    have "K q = Some j" using that(1) h(6) by (auto simp: restrict_map_def split: if_splits)
    then have "region q j \<subseteq> X" using seg_live_facts(1) [OF lv] by blast
    then show ?thesis using that(2) h(4) by blast
  qed
  then show "keeps_live L w (snd s')" using s'(4) unfolding keeps_live_def keeps_others_def by auto
  assume fx: "supports_any_size (page_type P) = False"
  obtain t where "process_deallocation_queue P os True s' = Some (p, t)" "p \<noteq> 0"
    using drain_top [of P os "fst s'" "snd s'" X Q' p xs K "H \<union> queue_space (Q' - Q)"] s'(1-3) by auto
  then show "\<exists>t. Segment_allocate P os sz s' = Some (p, t)" using fx h(2) by (simp add: Segment_allocate_def)
qed

subsection \<open>The contract\<close>

lemma tl_ok_live:
  assumes "tl_ok P os (sg, w) L"
  obtains X K where "seg_live P (sg, w) X K" "\<And>x. x \<in> X \<Longrightarrow> is_mapped (vm w) x" "\<And>q k. L q = Some k \<Longrightarrow> K q = Some k"
proof -
  obtain H X Q xs K where h: "os_ok os" "concurrency_policy P = THREAD_LOCAL" "arena_inv (arena w, w) H" "X \<union> queue_space Q \<subseteq> H"
    "tl_live P os (sg, w) X Q xs K" "L = K |` (- set xs)" by (rule tl_okE [OF assms])
  then show ?thesis by (intro that [of X K]) (auto simp: tl_live_def arena_inv_def restrict_map_def split: if_splits)
qed

lemma tl_allocate_result:
  assumes "tl_ok P os (sg, w) L" "tl_serves P sz (sg, w)" "Segment_allocate P os sz (sg, w) = Some (r, s')"
  shows "keeps_live L w (snd s')"
    "if r = 0 then tl_ok P os s' L else L r = None \<and> (\<exists>k \<ge> unat sz. tl_ok P os s' (L(r \<mapsto> k)))"
proof -
  have fit: "seg_fit P sg sz" using assms(2) by (simp add: tl_serves_def)
  obtain r' t where "Segment_allocate P os sz (sg, w) = Some (r', t)" "keeps_live L w (snd t)"
    "if r' = 0 then tl_ok P os t L else L r' = None \<and> (\<exists>k \<ge> unat sz. tl_ok P os t (L(r' \<mapsto> k)))"
    by (rule tl_allocate_ok [OF assms(1) fit])
  then show "keeps_live L w (snd s')"
    "if r = 0 then tl_ok P os s' L else L r = None \<and> (\<exists>k \<ge> unat sz. tl_ok P os s' (L(r \<mapsto> k)))"
    using assms(3) by simp_all
qed

lemma tl_ok_poke:
  assumes ok: "tl_ok P os (sg, w) L" and p: "L p = Some k" "unat x \<in> region p k"
  shows "tl_ok P os (sg, world_poke x v w) L"
proof -
  obtain H X Q xs K where h: "os_ok os" "concurrency_policy P = THREAD_LOCAL" "arena_inv (arena w, w) H" "X \<union> queue_space Q \<subseteq> H"
    "tl_live P os (sg, w) X Q xs K" "L = K |` (- set xs)" by (rule tl_okE [OF ok])
  have lv: "seg_live P (sg, w) X K" and qi: "queue_in os (seg_deallocation_queue sg, w) Q xs" and r: "distinct xs" "set xs \<subseteq> dom K"
    "X \<inter> queue_space Q = {}" using h(5) by (auto simp: tl_live_def)
  have "K p = Some k" using p(1) h(6) by (auto simp: restrict_map_def split: if_splits)
  then have "seg_live P (sg, world_poke x v w) X K" using seg_live_poke [OF lv _ p(2)] by blast
  moreover have "is_mapped (vm w) (unat a)" if "a \<in> Q" for a
    using queue_space_page [OF that] h(3,4) by (auto simp: arena_inv_def)
  then have "queue_in os (seg_deallocation_queue sg, world_poke x v w) Q xs" by (intro queue_in_frame [OF qi]) simp_all
  ultimately have "tl_live P os (sg, world_poke x v w) X Q xs K" using r by (simp add: tl_live_def)
  moreover have "arena_inv (arena (world_poke x v w), world_poke x v w) H" using h(3) by (simp add: arena_inv_def)
  ultimately show ?thesis by (intro tl_okI [OF h(1,2) _ h(4) _ h(6)]) simp_all
qed

interpretation local_seg: partial_allocator "tl_ok P os" "Segment_allocate P os" "Segment_deallocate P os" "tl_serves P"
  seg_poke "\<lambda>s. ram (snd s)" "\<lambda>s. {x. is_mapped (vm (snd s)) x}"
  for P os
proof (unfold_locales, goal_cases)
  case (1 s A)
  obtain sg w where s: "s = (sg, w)" by (cases s)
  obtain X K where "seg_live P (sg, w) X K" "\<And>k. A 0 = Some k \<Longrightarrow> K 0 = Some k"
    using tl_ok_live [OF 1 [unfolded s]] by metis
  then show ?case using seg_live_facts(2) [of P sg w X K 0] by (cases "A 0") auto
next
  case (2 s A p k)
  obtain sg w where s: "s = (sg, w)" by (cases s)
  obtain X K where "seg_live P (sg, w) X K" "\<And>x. x \<in> X \<Longrightarrow> is_mapped (vm w) x" "K p = Some k"
    using tl_ok_live [OF 2(1) [unfolded s]] 2(2) by metis
  then show ?case using seg_live_facts(1) unfolding s by fastforce
next
  case (3 s A p k q j)
  obtain sg w where s: "s = (sg, w)" by (cases s)
  obtain X K where "seg_live P (sg, w) X K" "K p = Some k" "K q = Some j"
    using tl_ok_live [OF 3(1) [unfolded s]] 3(2,3) by metis
  then show ?case using seg_live_facts(4) 3(4) by blast
next
  case (4 s A sz)
  then show ?case by (cases s) (metis tl_allocate_ok tl_serves_def fst_conv)
next
  case (5 s A sz s')
  then show ?case using tl_allocate_result(2) by (cases s) auto
next
  case (6 s A sz p s')
  then show ?case using tl_allocate_result(2) by (cases s) auto
next
  case (7 s A sz p s' q k x)
  then show ?case using tl_allocate_result(1) by (cases s) (auto simp: keeps_live_def simp del: in_region_iff)
next
  case (8 s A p k s')
  then show ?case using tl_deallocate_ok(1) by (cases s) blast
next
  case (9 s A p j s' q k x)
  then show ?case using tl_deallocate_ok(2) by (cases s) (auto simp: keeps_live_def simp del: in_region_iff)
next
  case (10 s A p k x v)
  then show ?case using tl_ok_poke by (cases s) (auto simp: seg_poke_def simp del: in_region_iff)
next
  case (11 x v s)
  then show ?case by (cases s) (simp add: seg_poke_def)
qed

subsection \<open>Creating the segment\<close>

text \<open>The world, up to memory that was not mapped.\<close>

definition mapped_kept :: "world \<Rightarrow> world \<Rightarrow> bool" where
  "mapped_kept w w' \<longleftrightarrow> pages w' = pages w \<and> arena w' = arena w \<and> (\<forall>x. is_mapped (vm w) x \<longrightarrow> is_mapped (vm w') x)
     \<and> (\<forall>x. is_mapped (vm w) (unat x) \<longrightarrow> ram w' x = ram w x \<and> pointer_pages w' x = pointer_pages w x)"

lemma pointer_page_updates:
  "\<exists>f. clear_pointer_pages b n w = w\<lparr>pointer_pages := f\<rparr>" "\<exists>f. link_pointer_pages b n it i w = w\<lparr>pointer_pages := f\<rparr>"
proof -
  show "\<exists>f. clear_pointer_pages b n w = w\<lparr>pointer_pages := f\<rparr>"
  proof (induction b n w rule: clear_pointer_pages.induct)
    case (1 b w)
    then show ?case by (intro exI [of _ "pointer_pages w"]) simp
  qed auto
  show "\<exists>f. link_pointer_pages b n it i w = w\<lparr>pointer_pages := f\<rparr>"
  proof (induction b n it i w rule: link_pointer_pages.induct)
    case (1 b n it i w)
    then show ?case by (subst link_pointer_pages.simps) (auto simp: Let_def set_pp_prev_def set_pp_next_def intro: exI [of _ "pointer_pages w"])
  qed
qed

lemma pointer_page_updates_at:
  "(\<And>i. i < n \<Longrightarrow> r \<noteq> pp_at b i) \<Longrightarrow> pointer_pages (clear_pointer_pages b n w) r = pointer_pages w r"
  "(\<And>j. j < n \<Longrightarrow> r \<noteq> pp_at b j) \<Longrightarrow> r \<noteq> it \<Longrightarrow> pointer_pages (link_pointer_pages b n it i w) r = pointer_pages w r"
proof -
  show "(\<And>i. i < n \<Longrightarrow> r \<noteq> pp_at b i) \<Longrightarrow> pointer_pages (clear_pointer_pages b n w) r = pointer_pages w r"
    by (induction b n w rule: clear_pointer_pages.induct) simp_all
  show "(\<And>j. j < n \<Longrightarrow> r \<noteq> pp_at b j) \<Longrightarrow> r \<noteq> it \<Longrightarrow> pointer_pages (link_pointer_pages b n it i w) r = pointer_pages w r"
  proof (induction b n it i w rule: link_pointer_pages.induct)
    case (1 b n it i w)
    then show ?case by (subst link_pointer_pages.simps) (auto simp: Let_def set_pp_prev_def set_pp_next_def)
  qed
qed

lemma unat_pp_at: "i < n \<Longrightarrow> unat b + n * 65536 < 2 ^ 64 \<Longrightarrow> unat (pp_at b i) = unat b + i * 65536"
proof -
  assume a: "i < n" "unat b + n * 65536 < 2 ^ 64"
  have "i < 2 ^ 64" "unat b + i * 65536 < 2 ^ 64" using a by simp_all
  then show ?thesis by (simp add: pp_at_def sizeof_PointerPage_def unat_word_ariths unat_of_nat)
qed

lemma queue_created_at:
  assumes os: "os_ok os" and f: "fresh_block w w1 b k" and k: "unat n * 65536 \<le> k"
    and c: "DeallocationQueue_create os n b (DeallocationQueue_new, w1) = (True, q, w')"
  shows "queue_in os (q, w') {b} []" "mapped_kept w w'" "fresh_pages w w' {b}"
proof -
  have fb: "b \<noteq> 0" "unat b + k < 2 ^ 64" "keeps {} w w1" "\<And>x. x \<in> region b k \<Longrightarrow> \<not> is_mapped (vm w) x \<and> is_mapped (vm w1) x"
    using f by (auto simp: fresh_block_def simp del: in_region_iff)
  have n: "n \<noteq> 0" "q = DeallocationQueue_new\<lparr>dq_head := b, dq_active_page := b\<rparr>"
    "w' = link_pointer_pages b (unat n) b 0 (set_pp_prev b 0 (set_pp_next b 0 (clear_pointer_pages b (unat n) w1)))"
    using c fb(1) by (auto simp: DeallocationQueue_create_def Let_def split: if_splits)
  have n0: "0 < unat n" using n(1) by (simp add: unat_gt_0)
  have sub: "region b 65536 \<subseteq> region b k" using n0 k by auto
  have m: "is_mapped (vm w1) (unat b)" using fb(4) sub by fastforce
  have i: "dq_inv os (q, w') []" "pp_next (pointer_pages w' b) = 0"
    using dq_create_ok [OF os _ c] m n(2) by simp_all
  have "dq_shape q w' [] []" using i(2) n(2,3) m fb(1) by (simp add: dq_shape_def DeallocationQueue_new_def)
  then show "queue_in os (q, w') {b} []"
    by (intro queue_inI [OF os, where us = "[]" and vs = "[]"]) (use n(2) in \<open>simp_all add: DeallocationQueue_new_def spin_initialise_def dq_contents_def pp_contents_def\<close>)
  obtain g where g: "w' = w1\<lparr>pointer_pages := g\<rparr>"
    using pointer_page_updates(2) [of b "unat n" b 0 "set_pp_prev b 0 (set_pp_next b 0 (clear_pointer_pages b (unat n) w1))"]
      pointer_page_updates(1) [of b "unat n" w1] n(3) by (auto simp: set_pp_prev_def set_pp_next_def)
  have other: "pointer_pages w' r = pointer_pages w1 r" if r: "unat r \<notin> region b k" for r
  proof -
    have "r \<noteq> pp_at b i" if "i < unat n" for i
      using r unat_pp_at [OF that, of b] fb(2) k that by (auto simp: field_simps)
    moreover have "r \<noteq> b" using r n0 k by auto
    ultimately show ?thesis unfolding n(3) by (simp add: pointer_page_updates_at set_pp_prev_def set_pp_next_def)
  qed
  show "mapped_kept w w'" unfolding mapped_kept_def
  proof (intro conjI allI impI)
    show "pages w' = pages w" "arena w' = arena w" "\<And>x. is_mapped (vm w) x \<Longrightarrow> is_mapped (vm w') x"
      using fb(3) by (auto simp: g keeps_def)
    fix x :: u64 assume x: "is_mapped (vm w) (unat x)"
    show "ram w' x = ram w x" using fb(3) x by (auto simp: g keeps_def)
    show "pointer_pages w' x = pointer_pages w x" using other [of x] fb(3,4) x unfolding keeps_def by fastforce
  qed
  show "fresh_pages w w' {b}" using fb(4) sub by (auto simp: fresh_pages_def g simp del: in_region_iff)
qed

text \<open>The queue of a new segment: its buffer comes from the system, in a second attempt if the first failed.\<close>

lemma local_queue_created:
  assumes os: "os_ok os"
    and c: "(let (buf, w1) = MetadataAllocator_allocate os cap w
             in DeallocationQueue_create os (cap div sizeof_PointerPage) buf (DeallocationQueue_new, w1)) = (True, q, w')"
  obtains b where "queue_in os (q, w') {b} []" "mapped_kept w w'" "fresh_pages w w' {b}"
proof -
  let ?n = "cap div sizeof_PointerPage"
  obtain buf w1 where a: "MetadataAllocator_allocate os cap w = (buf, w1)" by fastforce
  then have c': "DeallocationQueue_create os ?n buf (DeallocationQueue_new, w1) = (True, q, w')" using c by simp
  have sp: "unat ?n * 65536 \<le> unat cap" by (simp add: unat_div sizeof_PointerPage_def)
  have al: "(r = 0 \<and> keeps {} u u') \<or> fresh_block u u' r (page_span m)"
    if "MetadataAllocator_allocate os m u = (r, u')" for m r u u'
    using vm_allocate_fresh [OF os that [unfolded MetadataAllocator_allocate_def]] by blast
  show ?thesis
  proof (cases "buf = 0")
    case False
    then have f: "fresh_block w w1 buf (page_span cap)" using al [OF a] by simp
    have "unat ?n * 65536 \<le> page_span cap" using sp page_span_ge [of cap] by simp
    then show ?thesis using that [of buf] queue_created_at [OF os f _ c'] by blast
  next
    case True
    obtain b w2 where a2: "MetadataAllocator_allocate os (?n * sizeof_PointerPage) w1 = (b, w2)" by fastforce
    then have b: "b \<noteq> 0" "DeallocationQueue_create os ?n b (DeallocationQueue_new, w2) = (True, q, w')"
      using c' True by (auto simp: DeallocationQueue_create_def Let_def split: if_splits)
    have "keeps {} w w1" using al [OF a] True by (auto simp: fresh_block_def)
    then have f: "fresh_block w w2 b (page_span (?n * sizeof_PointerPage))" by (rule fresh_block_trans) (use al [OF a2] b(1) in simp)
    have "unat (?n * sizeof_PointerPage) = unat ?n * 65536"
      using sp unat_lt_2_64 [of cap] by (subst unat_mult_nowrap) (simp_all add: sizeof_PointerPage_def)
    then have "unat ?n * 65536 \<le> page_span (?n * sizeof_PointerPage)" using page_span_ge [of "?n * sizeof_PointerPage"] by simp
    then show ?thesis using that [of b] queue_created_at [OF os f _ b(2)] by blast
  qed
qed

lemma seg_live_buffer_length [simp]: "seg_live P (sg\<lparr>seg_buffer_length := n\<rparr>, w) X L = seg_live P (sg, w) X L"
  by (simp add: seg_live_def seg_inv_def seg_pages_def page_ok_def page_aligned_def extents_def seg_static_def)

lemma grown_queue: "grown sg sg' \<Longrightarrow> seg_deallocation_queue sg' = seg_deallocation_queue sg"
  unfolding grown_def by (cases sg; cases sg'; simp)

lemma local_segment_built:
  assumes os: "os_ok os" and cp: "concurrency_policy P = THREAD_LOCAL" and vp: "valid_params P params" and vb: "valid_buffer P buf params"
    and ar: "arena_inv (arena w, w) H" and X: "params_extent buf params \<subseteq> H"
    and c: "Segment_create P os buf params (Segment_new, w) = (True, (sg, w'))"
  obtains b where "tl_live P os (sg, w') (params_extent buf params) {b} [] Map.empty" "arena_inv (arena w', w') (H \<union> queue_space {b})"
    "queue_space {b} \<inter> H = {}" "arena w' = arena w" "keeps_others (H - params_extent buf params) w w'"
    "\<forall>r. unat r \<in> H \<longrightarrow> pointer_pages w' r = pointer_pages w r" "seg_logical_page_size sg = p_logical_page_size params"
    "seg_size_class sg = p_size_class params" "seg_page_recycling_threshold sg = p_page_recycling_threshold params" "seg_lock sg = 0"
    "seg_buffer_length sg = p_logical_page_size params * p_logical_page_count params"
proof -
  let ?cap = "p_deallocation_queue_initial_capacity params" and ?X = "params_extent buf params"
  obtain ok q w1 where qc: "(let (buf, w1) = MetadataAllocator_allocate os ?cap w
      in DeallocationQueue_create os (?cap div sizeof_PointerPage) buf (DeallocationQueue_new, w1)) = (ok, q, w1)"
    by (metis prod_cases3)
  obtain sg1 w2 where g: "grow P os buf (p_logical_page_count params) (prepared_segment params q, w1) = (buf, (sg1, w2))"
    "seg_live P (sg1, w2) ?X Map.empty" "grown (prepared_segment params q) sg1"
    "vm w2 = vm w1" "arena w2 = arena w1" "pointer_pages w2 = pointer_pages w1"
    "\<forall>Y. Y \<inter> ?X = {} \<longrightarrow> keeps_others Y w1 w2"
    by (rule prepared_segment_grows [OF vp vb])
  have "buf \<noteq> 0" using vb by (simp add: valid_buffer_def)
  then have r: "ok" "sg = sg1\<lparr>seg_buffer_length := seg_logical_page_size sg1 * p_logical_page_count params\<rparr>" "w' = w2"
    using cp g(1) c qc valid_params_accepted [OF vp vb]
    by (auto simp: Segment_create_def Let_def prepared_segment_def Segment_new_def sizeof_LogicalPageHeader_def split: prod.splits if_splits)
  obtain b where b: "queue_in os (q, w1) {b} []" "mapped_kept w w1" "fresh_pages w w1 {b}"
    by (rule local_queue_created [OF os qc [unfolded eqTrueI [OF r(1)]]])
  let ?H = "H \<union> queue_space {b}"
  note fs = fresh_pages_space [OF b(3)]
  have m: "\<And>x. x \<in> spare (arena w) \<union> H \<Longrightarrow> is_mapped (vm w) x" using ar by (auto simp: arena_inv_def)
  have aw: "arena w' = arena w" using b(2) g(5) r(3) by (simp add: mapped_kept_def)
  have "\<And>x. x \<in> spare (arena w) \<union> ?H \<Longrightarrow> is_mapped (vm w') x" using m b(2) fs(2) g(4) r(3) unfolding mapped_kept_def by auto
  moreover have "spare (arena w) \<inter> ?H = {}" using ar m fs(1) by (auto simp: arena_inv_def)
  ultimately have ar': "arena_inv (arena w', w') ?H" using ar aw by (simp add: arena_inv_def)
  have "is_mapped (vm w') (unat b)" using queue_space_page [of b "{b}"] ar' by (auto simp: arena_inv_def)
  then have q': "queue_in os (q, w') {b} []" by (intro queue_in_frame [OF b(1)]) (simp_all add: g(6) r(3))
  note gf = grown_fields [OF g(3)] same_segment_fields [OF grown_fields(3) [OF g(3)]]
  show ?thesis
  proof (rule that)
    show dj: "queue_space {b} \<inter> H = {}" using m fs(1) by blast
    then have "?X \<inter> queue_space {b} = {}" using X by blast
    then show "tl_live P os (sg, w') ?X {b} [] Map.empty" using g(2) q' gf(5) by (simp add: tl_live_def r(2,3) prepared_segment_def)
    have k1: "keeps_others (H - ?X) w w1" using b(2) m by (auto simp: mapped_kept_def keeps_others_def)
    have k2: "keeps_others (H - ?X) w1 w'" using g(7) r(3) by blast
    show "keeps_others (H - ?X) w w'" by (rule keeps_others_trans [OF k1 k2])
    show "\<forall>r. unat r \<in> H \<longrightarrow> pointer_pages w' r = pointer_pages w r" using b(2) m g(6) r(3) by (simp add: mapped_kept_def)
    show "seg_logical_page_size sg = p_logical_page_size params" "seg_size_class sg = p_size_class params" "seg_lock sg = 0"
      "seg_page_recycling_threshold sg = p_page_recycling_threshold params"
      "seg_buffer_length sg = p_logical_page_size params * p_logical_page_count params"
      using gf by (simp_all add: r(2) prepared_segment_def Segment_new_def spin_initialise_def)
  qed (rule ar' aw)+
qed

lemma local_segment_created:
  assumes os: "os_ok os" and cp: "concurrency_policy P = THREAD_LOCAL" and vp: "valid_params P params" and vb: "valid_buffer P buf params"
    and ar: "arena_inv (arena w, w) H" and X: "params_extent buf params \<subseteq> H"
    and c: "Segment_create P os buf params (Segment_new, w) = (True, s)"
  shows "tl_ok P os s Map.empty"
proof -
  obtain sg w' where s: "s = (sg, w')" by (cases s)
  obtain b where b: "tl_live P os (sg, w') (params_extent buf params) {b} [] Map.empty" "arena_inv (arena w', w') (H \<union> queue_space {b})"
    by (rule local_segment_built [OF assms(1-6) c [unfolded s]])
  have "params_extent buf params \<union> queue_space {b} \<subseteq> H \<union> queue_space {b}" using X by blast
  then show ?thesis using tl_okI [OF os cp _ _ b(1), of "H \<union> queue_space {b}" Map.empty] b(2) by (simp add: s)
qed

end
