(* ===== verification/Local_Segment_Properties.thy ===== *)
theory Local_Segment_Properties
  imports Thread_Local_Segment Segment_Properties
begin

text \<open>
  The properties of \<open>THREAD_LOCAL\<close> segments.  The steps of the user are those of Allocator_Contract; the requests are made
  by the owner of the segment, the frees by any thread (each is one \<open>push\<close> under the lock of the queue).
\<close>

abbreviation local_user :: "segment_policy \<Rightarrow> os \<Rightarrow> segment_state user_state \<Rightarrow> segment_state user_state \<Rightarrow> bool" where
  "local_user P os \<equiv> user_step (Segment_allocate P os) (Segment_deallocate P os) (tl_serves P) seg_poke"

definition local_start :: "segment_policy \<Rightarrow> os \<Rightarrow> u64 \<Rightarrow> SegmentCreationParameters \<Rightarrow> nat set \<Rightarrow> world \<Rightarrow> bool" where
  "local_start P os buf params H w \<longleftrightarrow> os_ok os \<and> concurrency_policy P = THREAD_LOCAL \<and> valid_params P params
     \<and> valid_buffer P buf params \<and> arena_inv (arena w, w) H \<and> params_extent buf params \<subseteq> H"

lemma local_run_honoured:
  assumes "local_start P os buf params H w" "Segment_create P os buf params (Segment_new, w) = (True, s)"
    "(local_user P os)\<^sup>*\<^sup>* (s, Map.empty, Map.empty) c"
  shows "local_seg.honours P os c"
proof -
  have "tl_ok P os s Map.empty" using assms(1,2) local_segment_created unfolding local_start_def by blast
  then show ?thesis using local_seg.honours_run [OF assms(3)] local_seg.honours_start by blast
qed

subsection \<open>A concrete segment\<close>

definition local_policy :: segment_policy where
  "local_policy = (example_seg_policy DEFERRED)\<lparr>concurrency_policy := THREAD_LOCAL\<rparr>"

definition local_world :: world where
  "local_world = snd (the (arena_allocate local_policy bump_os 8192 blank_world))"

definition local_seg_0 :: segment_state where
  "local_seg_0 = snd (Segment_create local_policy bump_os 65536 example_params (Segment_new, local_world))"

definition local_seg_1 :: segment_state where
  "local_seg_1 = snd (the (Segment_allocate local_policy bump_os 4000 local_seg_0))"

definition local_seg_2 :: segment_state where
  "local_seg_2 = the (Segment_deallocate local_policy bump_os 65600 local_seg_1)"

definition local_seg_3 :: segment_state where
  "local_seg_3 = snd (the (Segment_allocate local_policy bump_os 3000 local_seg_2))"

lemmas local_run [run] = local_policy_def local_world_def local_seg_0_def local_seg_1_def local_seg_2_def local_seg_3_def

lemma local_steps:
  "Segment_create local_policy bump_os 65536 example_params (Segment_new, local_world) = (True, local_seg_0)"
  "Segment_allocate local_policy bump_os 4000 local_seg_0 = Some (65600, local_seg_1)"
  "Segment_deallocate local_policy bump_os 65600 local_seg_1 = Some local_seg_2"
  "Segment_allocate local_policy bump_os 3000 local_seg_2 = Some (65600, local_seg_3)"
  by (simp_all add: run cong: run_cong)

lemma local_fits: "tl_serves local_policy 4000 local_seg_0" "tl_serves local_policy 3000 local_seg_2"
  by (simp_all add: run tl_serves_def seg_fit_def cong: run_cong)

lemma example_local_start: "local_start local_policy bump_os 65536 example_params (region 65536 8192) local_world"
proof -
  have "arena_inv (arena blank_world, blank_world) {}" using arena_new_inv [OF bump_os_ok] by (simp add: blank_world_def)
  moreover have "arena_fit 8192 (arena blank_world, blank_world)" by (simp add: run arena_fit_def)
  moreover have "arena_allocate local_policy bump_os 8192 blank_world = Some (65536, local_world)" by (simp add: run cong: run_cong)
  ultimately have "arena_inv (arena local_world, local_world) (region 65536 8192)"
    using arena_allocate_ok(1) [OF bump_os_ok, of blank_world "{}" 8192 local_policy 65536 local_world] by simp
  then show ?thesis using bump_os_ok
    by (simp add: is_power_of_two_def local_start_def valid_params_def valid_buffer_def params_extent_def local_policy_def
        example_seg_policy_def example_params_def)
qed

lemma local_example_first:
  "(local_user local_policy bump_os)\<^sup>*\<^sup>* (local_seg_0, Map.empty, Map.empty) (local_seg_1, [65600 \<mapsto> 4000], forget (region 65600 4000) Map.empty)"
  using user_step.grant [of "tl_serves local_policy" 4000 local_seg_0 "Segment_allocate local_policy bump_os", OF local_fits(1) local_steps(2)]
  by (intro r_into_rtranclp) simp

lemma local_example_run:
  "(local_user local_policy bump_os)\<^sup>*\<^sup>* (local_seg_0, Map.empty, Map.empty)
     (seg_poke 65700 7 local_seg_1, [65600 \<mapsto> 4000], (forget (region 65600 4000) Map.empty)(65700 \<mapsto> 7))"
  using local_example_first by (rule rtranclp.rtrancl_into_rtrancl) (rule user_step.store [of _ 65600 4000], simp_all)

subsection \<open>Properties\<close>

text \<open>C6: A thread local segment, whose frees only put the pointer into the deallocation queue, refines the abstract
  allocator: every run of requests of the owner, frees of any thread and stores into held payloads is a run of the
  specification; the held payloads are non-null and mapped, their bytes read back, and a request always returns.\<close>

theorem local_segment_refines_allocator:
  assumes "local_start P os buf params H w" "Segment_create P os buf params (Segment_new, w) = (True, s)"
    and "(local_user P os)\<^sup>*\<^sup>* (s, Map.empty, Map.empty) ((sg', w'), held, M)"
  shows "spec_step\<^sup>*\<^sup>* (Map.empty, Map.empty) (held, M)
    \<and> (\<forall>p n. held p = Some n \<longrightarrow> p \<noteq> 0 \<and> (\<forall>x\<in>region p n. is_mapped (vm w') x))
    \<and> (\<forall>x v. M x = Some v \<longrightarrow> ram w' x = v)
    \<and> (\<forall>sz. tl_serves P sz (sg', w') \<longrightarrow> (\<exists>p t. Segment_allocate P os sz (sg', w') = Some (p, t)))"
proof (intro conjI)
  note h = local_run_honoured [OF assms]
  have "local_seg.honours P os (s, Map.empty, Map.empty)" by (rule local_run_honoured [OF assms(1,2)]) simp
  then show "spec_step\<^sup>*\<^sup>* (Map.empty, Map.empty) (held, M)" using local_seg.user_run_refines [OF assms(3)] by simp
  show "\<forall>p n. held p = Some n \<longrightarrow> p \<noteq> 0 \<and> (\<forall>x\<in>region p n. is_mapped (vm w') x)"
    using local_seg.user_payloads(1,2) [OF h, unfolded snd_conv] by blast
  show "\<forall>x v. M x = Some v \<longrightarrow> ram w' x = v" using local_seg.user_contents [OF h] by simp
  show "\<forall>sz. tl_serves P sz (sg', w') \<longrightarrow> (\<exists>p t. Segment_allocate P os sz (sg', w') = Some (p, t))"
    using local_seg.user_requests_return [OF h] by blast
qed

theorem local_segment_refines_allocator_witness:
  "ram (snd (seg_poke 65700 7 local_seg_1)) 65700 = 7 \<and> is_mapped (vm (snd (seg_poke 65700 7 local_seg_1))) 69599"
proof -
  obtain sg w where e: "seg_poke 65700 7 local_seg_1 = (sg, w)" by (cases "seg_poke 65700 7 local_seg_1")
  note r = local_segment_refines_allocator [OF example_local_start local_steps(1) local_example_run [unfolded e]]
  have "[65600 \<mapsto> 4000] (65600 :: u64) = Some (4000 :: nat)" "69599 \<in> region 65600 4000" by simp_all
  then have "is_mapped (vm w) 69599" using r by blast
  moreover have "ram w 65700 = 7" using r by auto
  ultimately show ?thesis unfolding e snd_conv by simp
qed

text \<open>C21: On fixed-size pages a freed payload waits in the queue and is the first to be handed out again: the next
  request that the size class holds returns the pointer that was freed last, whatever else is waiting.\<close>

theorem local_segment_reuses_last_free:
  assumes "local_start P os buf params H w" "Segment_create P os buf params (Segment_new, w) = (True, s)"
    and "(local_user P os)\<^sup>*\<^sup>* (s, Map.empty, Map.empty) (s1, held, M)"
    and "held p = Some n" "Segment_deallocate P os p s1 = Some s2" "supports_any_size (page_type P) = False" "tl_serves P sz s2"
  shows "\<exists>s3. Segment_allocate P os sz s2 = Some (p, s3)"
proof -
  obtain A k where A: "tl_ok P os s1 A" "A p = Some k"
    using local_run_honoured [OF assms(1-3)] assms(4) unfolding local_seg.honours_def by blast
  then show ?thesis using tl_deallocate_ok(3) [of P os "fst s1" "snd s1"] assms(5,6) by simp
qed

theorem local_segment_reuses_last_free_witness:
  "\<exists>s. Segment_allocate local_policy bump_os 3000 local_seg_2 = Some (65600, s)"
proof -
  have "supports_any_size (page_type local_policy) = False" by (simp add: local_policy_def example_seg_policy_def)
  from local_segment_reuses_last_free [OF example_local_start local_steps(1) local_example_first _ local_steps(3) this local_fits(2)]
  show ?thesis by simp
qed

end
