(* ===== verification/Socket.thy ===== *)
theory Socket
  imports Machine
begin

text \<open>
  \<open>include/os/socket.h\<close> and \<open>include/os/epoll.h\<close>, the Linux build: a TCP socket as a state machine over the descriptors
  of the process, and the poller.

  The kernel is the record \<open>net\<close>: the open descriptors, the descriptors in non-blocking mode and the ones that
  the poller watches.  What a system call answers is an argument of the operation that makes it; its effect on
  the descriptors is as documented (a closed descriptor is no longer watched).  The resolver, which turns
  a host name into an address, is a parameter.
\<close>

subsection \<open>Data\<close>

datatype SocketOptionLevel = SOCKET | TCP_LEVEL | IP

datatype SocketOption = GET_ERROR_AND_CLEAR | REUSE_ADDRESS | REUSE_PORT | KEEP_ALIVE | EXCLUSIVE_ADDRESS | RECEIVE_BUFFER_SIZE
  | RECEIVE_BUFFER_TIMEOUT | SEND_BUFFER_SIZE | SEND_BUFFER_TIMEOUT | TCP_ENABLE_CORK | TCP_ENABLE_QUICKACK | TCP_DISABLE_NAGLE
  | POLLING_INTERVAL | SOCKET_PRIORITY | TIME_TO_LIVE | ZERO_COPY

datatype SocketState = DISCONNECTED | BOUND | CONNECTED | LISTENING | ACCEPTED

text \<open>\<open>sin_addr\<close> is the address of the \<open>sockaddr_in\<close>.  \<open>getaddrinfo\<close> and \<open>inet_pton\<close> answer an address or fail.\<close>

record SocketAddress =
  m_port :: int
  m_address :: string
  sin_addr :: u32

record resolver =
  getaddrinfo :: "string \<Rightarrow> u32 option"
  inet_pton :: "string \<Rightarrow> u32 option"

definition SocketAddress_new :: SocketAddress where
  "SocketAddress_new = \<lparr>m_port = 0, m_address = '''', sin_addr = 0\<rparr>"

definition SocketAddress_initialise :: "resolver \<Rightarrow> string \<Rightarrow> int \<Rightarrow> SocketAddress" where
  "SocketAddress_initialise R address port =
     \<lparr>m_port = port, m_address = address,
      sin_addr = (if length address > 0
        then case getaddrinfo R address of
               Some a \<Rightarrow> a
             | None \<Rightarrow> (case inet_pton R address of Some a \<Rightarrow> a | None \<Rightarrow> 0)
        else 0)\<rparr>"

record Socket =
  m_socket_descriptor :: int
  m_state :: SocketState
  m_in_blocking_mode :: bool
  m_pending_connections_queue_size :: int
  m_bind_address :: SocketAddress
  m_endpoint_address :: SocketAddress

record net =
  open_descriptors :: "int list"
  nonblocking :: "int list"
  watched :: "int list"

definition Socket_new :: Socket where
  "Socket_new = \<lparr>m_socket_descriptor = 0, m_state = DISCONNECTED, m_in_blocking_mode = True, m_pending_connections_queue_size = 0,
     m_bind_address = SocketAddress_new, m_endpoint_address = SocketAddress_new\<rparr>"

text \<open>The system calls: a new descriptor, and \<open>close\<close>.\<close>

definition opened :: "int \<Rightarrow> net \<Rightarrow> net" where
  "opened fd n = n\<lparr>open_descriptors := fd # open_descriptors n\<rparr>"

definition sys_close :: "int \<Rightarrow> net \<Rightarrow> net" where
  "sys_close fd n = \<lparr>open_descriptors = removeAll fd (open_descriptors n), nonblocking = removeAll fd (nonblocking n),
     watched = removeAll fd (watched n)\<rparr>"

subsection \<open>Operations\<close>

text \<open>\<open>r\<close> is the answer of the system call: a descriptor, or a negative number.\<close>

definition Socket_create :: "int \<Rightarrow> Socket \<times> net \<Rightarrow> bool \<times> Socket \<times> net" where
  "Socket_create r = (\<lambda>(s, n).
     let s = s\<lparr>m_socket_descriptor := r\<rparr>
     in if m_socket_descriptor s < 0 then (False, s, n) else (True, s, opened r n))"

definition Socket_close :: "Socket \<times> net \<Rightarrow> Socket \<times> net" where
  "Socket_close = (\<lambda>(s, n).
     if m_state s \<noteq> DISCONNECTED
     then let n = (if m_socket_descriptor s > 0 then sys_close (m_socket_descriptor s) n else n)
          in (s\<lparr>m_state := DISCONNECTED\<rparr>, n)
     else (s, n))"

definition Socket_bind :: "resolver \<Rightarrow> int \<Rightarrow> string \<Rightarrow> int \<Rightarrow> Socket \<Rightarrow> bool \<times> Socket" where
  "Socket_bind R result address port s =
     (let s = s\<lparr>m_bind_address := SocketAddress_initialise R address port\<rparr>
      in if result \<noteq> 0 then (False, s) else (True, s\<lparr>m_state := BOUND\<rparr>))"

definition set_endpoint :: "resolver \<Rightarrow> string \<Rightarrow> int \<Rightarrow> Socket \<Rightarrow> Socket" where
  "set_endpoint R address port s = s\<lparr>m_endpoint_address := SocketAddress_initialise R address port\<rparr>"

definition Socket_connect :: "resolver \<Rightarrow> int \<Rightarrow> string \<Rightarrow> int \<Rightarrow> Socket \<Rightarrow> bool \<times> Socket" where
  "Socket_connect R ret address port s =
     (let s = set_endpoint R address port s
      in if ret \<noteq> 0 then (False, s) else (True, s\<lparr>m_state := CONNECTED\<rparr>))"

definition set_blocking_mode :: "bool \<Rightarrow> Socket \<times> net \<Rightarrow> Socket \<times> net" where
  "set_blocking_mode blocking_mode = (\<lambda>(s, n).
     let fd = m_socket_descriptor s;
         n = (if blocking_mode then n\<lparr>nonblocking := removeAll fd (nonblocking n)\<rparr> else n\<lparr>nonblocking := fd # nonblocking n\<rparr>)
     in (s\<lparr>m_in_blocking_mode := blocking_mode\<rparr>, n))"

definition set_pending_connections_queue_size :: "int \<Rightarrow> Socket \<Rightarrow> Socket" where
  "set_pending_connections_queue_size value s = s\<lparr>m_pending_connections_queue_size := value\<rparr>"

definition Socket_listen :: "int \<Rightarrow> Socket \<Rightarrow> bool \<times> Socket" where
  "Socket_listen result s = (if result \<noteq> 0 then (False, s) else (True, s\<lparr>m_state := LISTENING\<rparr>))"

text \<open>\<open>accept\<close>: the answers of \<open>select\<close> and \<open>accept\<close>, and the address of the peer.  The result is the socket of the new
  connection, if there is one.\<close>

definition Socket_accept :: "int \<Rightarrow> int \<Rightarrow> SocketAddress \<Rightarrow> Socket \<times> net \<Rightarrow> Socket option \<times> Socket \<times> net" where
  "Socket_accept select_result accept_result peer = (\<lambda>(s, n).
     if m_state s \<noteq> LISTENING \<and> m_state s \<noteq> ACCEPTED then (None, s, n)
     else let blocking_mode_before_the_call = m_in_blocking_mode s;
              (s, n) = set_blocking_mode False (s, n);
              success = (if select_result \<le> 0 then False else True);
              (success, connector_socket_desc, n) =
                (if success then if accept_result < 0 then (False, accept_result, n) else (True, accept_result, opened accept_result n)
                 else (False, - 1, n));
              (s, n) = set_blocking_mode blocking_mode_before_the_call (s, n)
          in if \<not> success then (None, s, n)
             else let connector_socket = Socket_new\<lparr>m_socket_descriptor := connector_socket_desc, m_endpoint_address := peer\<rparr>;
                      connector_socket = connector_socket\<lparr>m_state := CONNECTED\<rparr>
                  in (Some connector_socket, s\<lparr>m_state := ACCEPTED\<rparr>, n))"

text \<open>The constants of Linux.\<close>

definition get_socket_option_level_value :: "SocketOptionLevel \<Rightarrow> int" where
  "get_socket_option_level_value level = (case level of SOCKET \<Rightarrow> 1 | TCP_LEVEL \<Rightarrow> 6 | IP \<Rightarrow> 0)"

definition get_socket_option_value :: "SocketOption \<Rightarrow> int" where
  "get_socket_option_value opt = (case opt of
     GET_ERROR_AND_CLEAR \<Rightarrow> 4 | REUSE_ADDRESS \<Rightarrow> 2 | KEEP_ALIVE \<Rightarrow> 9 | EXCLUSIVE_ADDRESS \<Rightarrow> 2 | REUSE_PORT \<Rightarrow> 15
   | RECEIVE_BUFFER_SIZE \<Rightarrow> 8 | RECEIVE_BUFFER_TIMEOUT \<Rightarrow> 20 | SEND_BUFFER_SIZE \<Rightarrow> 7 | SEND_BUFFER_TIMEOUT \<Rightarrow> 21
   | TCP_DISABLE_NAGLE \<Rightarrow> 1 | TCP_ENABLE_QUICKACK \<Rightarrow> 12 | TCP_ENABLE_CORK \<Rightarrow> 3 | SOCKET_PRIORITY \<Rightarrow> 12
   | POLLING_INTERVAL \<Rightarrow> 46 | TIME_TO_LIVE \<Rightarrow> 2 | ZERO_COPY \<Rightarrow> 60)"

text \<open>Both forms of \<open>set_socket_option\<close>: the call of \<open>setsockopt\<close> (level, option, length of the value), if there is
  one, and the result.  The second form passes the size of its length parameter, which is eight.\<close>

definition set_socket_option :: "int \<Rightarrow> SocketOptionLevel \<Rightarrow> SocketOption \<Rightarrow> (int \<times> int \<times> nat) option \<times> bool" where
  "set_socket_option ret level opt =
     (let actual_option = get_socket_option_value opt
      in if actual_option = - 1 then (None, False)
         else let actual_level = get_socket_option_level_value level
              in if actual_level = - 1 then (None, False) else (Some (actual_level, actual_option, 4), ret = 0))"

definition set_socket_option_buffer :: "int \<Rightarrow> SocketOptionLevel \<Rightarrow> SocketOption \<Rightarrow> nat \<Rightarrow> (int \<times> int \<times> nat) option \<times> bool" where
  "set_socket_option_buffer ret level opt buffer_len =
     (let actual_option = get_socket_option_value opt
      in if actual_option = 0 then (None, False)
         else let actual_level = get_socket_option_level_value level
              in if actual_level = - 1 then (None, False) else (Some (actual_level, actual_option, 8), ret = 0))"

definition ECONNRESET :: int where "ECONNRESET = 104"
definition ECONNREFUSED :: int where "ECONNREFUSED = 111"
definition ENOTCONN :: int where "ENOTCONN = 107"
definition EPIPE :: int where "EPIPE = 32"

definition is_connection_lost_during_receive :: "int \<Rightarrow> Socket \<Rightarrow> bool \<times> Socket" where
  "is_connection_lost_during_receive error_code s =
     (if error_code = ECONNRESET \<or> error_code = ECONNREFUSED \<or> error_code = ENOTCONN
      then (True, s\<lparr>m_state := DISCONNECTED\<rparr>) else (False, s))"

definition is_connection_lost_during_send :: "int \<Rightarrow> Socket \<Rightarrow> bool \<times> Socket" where
  "is_connection_lost_during_send error_code s =
     (if error_code = ECONNRESET \<or> error_code = ENOTCONN \<or> error_code = EPIPE
      then (True, s\<lparr>m_state := DISCONNECTED\<rparr>) else (False, s))"

subsection \<open>The poller\<close>

text \<open>The timeout in nanoseconds; the least one is 1.\<close>

definition Epoll_set_timeout :: "int \<Rightarrow> int" where
  "Epoll_set_timeout nanoseconds = (if nanoseconds = 0 then 1 else nanoseconds)"

definition Epoll_clear_descriptors :: "net \<Rightarrow> net" where
  "Epoll_clear_descriptors n = n\<lparr>watched := []\<rparr>"

definition Epoll_add_descriptor :: "int \<Rightarrow> net \<Rightarrow> net" where
  "Epoll_add_descriptor fd n =
     (if fd \<in> set (open_descriptors n) \<and> fd \<notin> set (watched n) then n\<lparr>watched := fd # watched n\<rparr> else n)"

definition Epoll_remove_descriptor :: "int \<Rightarrow> net \<Rightarrow> net" where
  "Epoll_remove_descriptor fd n = n\<lparr>watched := removeAll fd (watched n)\<rparr>"

subsection \<open>Descriptors\<close>

lemma close_twice: "Socket_close (Socket_close (s, n)) = Socket_close (s, n)"
  by (simp add: Socket_close_def Let_def)

lemma close_releases:
  assumes "m_state s \<noteq> DISCONNECTED" "m_socket_descriptor s > 0" "Socket_close (s, n) = (s', n')"
  shows "m_socket_descriptor s \<notin> set (open_descriptors n')" "m_state s' = DISCONNECTED"
  using assms by (auto simp: Socket_close_def sys_close_def Let_def)

text \<open>A lost connection counts as closed already, so closing it does not close the descriptor.\<close>

lemma lost_connection_not_closed:
  assumes "is_connection_lost_during_receive e s = (True, s')"
  shows "Socket_close (s', n) = (s', n)"
  using assms by (auto simp: is_connection_lost_during_receive_def Socket_close_def split: if_splits)

end
