(* ===== verification/Thread_Local_Storage.thy ===== *)
theory Thread_Local_Storage
  imports Machine
begin

text \<open>
  \<open>include/os/thread_local_storage.h\<close>, the Linux build: a wrapper of one \<open>pthread\<close> key.

  The keys of the process are the record \<open>thread_keys\<close>: the index that the wrapper keeps, the keys that
  have been created and not deleted, and the value of every key in every thread (threads are numbered).
  What \<open>pthread_key_create\<close> answers is a parameter: an error, or a key.  A fresh key reads as null in
  every thread, as documented; \<open>pthread_setspecific\<close> succeeds.
\<close>

record thread_keys =
  m_tls_index :: u32
  live_keys :: "u32 list"
  key_values :: "u32 \<Rightarrow> nat \<Rightarrow> u64"

definition ThreadLocalStorage_new :: thread_keys where
  "ThreadLocalStorage_new = \<lparr>m_tls_index = 0, live_keys = [], key_values = \<lambda>_ _. 0\<rparr>"

definition ThreadLocalStorage_create :: "u32 option \<Rightarrow> thread_keys \<Rightarrow> bool \<times> thread_keys" where
  "ThreadLocalStorage_create pthread_key_create s =
     (case pthread_key_create of
        None \<Rightarrow> (False, s)
      | Some k \<Rightarrow> (True, s\<lparr>m_tls_index := k, live_keys := k # live_keys s, key_values := (key_values s)(k := \<lambda>_. 0)\<rparr>))"

definition ThreadLocalStorage_destroy :: "thread_keys \<Rightarrow> thread_keys" where
  "ThreadLocalStorage_destroy s =
     (if m_tls_index s \<noteq> 0
      then s\<lparr>live_keys := removeAll (m_tls_index s) (live_keys s), m_tls_index := 0\<rparr>
      else s)"

definition ThreadLocalStorage_get :: "nat \<Rightarrow> thread_keys \<Rightarrow> u64" where
  "ThreadLocalStorage_get t s = key_values s (m_tls_index s) t"

definition ThreadLocalStorage_set :: "nat \<Rightarrow> u64 \<Rightarrow> thread_keys \<Rightarrow> thread_keys" where
  "ThreadLocalStorage_set t data_address s =
     s\<lparr>key_values := (key_values s)(m_tls_index s := (key_values s (m_tls_index s))(t := data_address))\<rparr>"

lemma tls_get_set [simp]:
  "ThreadLocalStorage_get u (ThreadLocalStorage_set t v s) = (if u = t then v else ThreadLocalStorage_get u s)"
  by (simp add: ThreadLocalStorage_get_def ThreadLocalStorage_set_def)

lemma tls_create_get [simp]:
  "ThreadLocalStorage_create (Some k) s = (ok, s') \<Longrightarrow> ThreadLocalStorage_get t s' = 0"
  by (auto simp: ThreadLocalStorage_get_def ThreadLocalStorage_create_def)

lemma tls_destroy_deletes:
  assumes "ThreadLocalStorage_create (Some k) s = (True, s')" "k \<noteq> 0"
  shows "k \<notin> set (live_keys (ThreadLocalStorage_destroy s'))"
  using assms by (auto simp: ThreadLocalStorage_create_def ThreadLocalStorage_destroy_def)

lemma tls_destroy_zero:
  assumes "ThreadLocalStorage_create (Some 0) s = (True, s')"
  shows "ThreadLocalStorage_destroy s' = s'" "0 \<in> set (live_keys s')"
  using assms by (auto simp: ThreadLocalStorage_create_def ThreadLocalStorage_destroy_def)

end
