(* ===== verification/Profiler.thy ===== *)
theory Profiler
  imports Utilities Lockable Thread_Local_Storage
begin

text \<open>
  \<open>include/profiler.h\<close>: counters of allocations and deallocations per thread and per power-of-two size class,
  and the proxies of the allocation functions that feed them.

  The table of a thread is one of the 64 elements of \<open>m_stats\<close>; the thread local storage holds its address,
  so the elements are a typed store by address, element \<open>i\<close> at \<open>stats_address i\<close>.  \<open>ids\<close> answers the thread
  identifier that the code reads from the segment register.  The allocation functions that the proxies
  call, and \<open>malloc_usable_size\<close>, belong to the C library: they are the record \<open>libc\<close>.
\<close>

definition MEMLIVE_MAX_SIZE_CLASS_COUNT :: nat where
  "MEMLIVE_MAX_SIZE_CLASS_COUNT = 21"

record SizeClassStats =
  m_alloc_count :: u64
  m_free_count :: u64
  m_peak_usage_count :: u64
  m_usage_count :: u64

definition SizeClassStats_new :: SizeClassStats where
  "SizeClassStats_new = \<lparr>m_alloc_count = 0, m_free_count = 0, m_peak_usage_count = 0, m_usage_count = 0\<rparr>"

definition add_allocation :: "SizeClassStats \<Rightarrow> SizeClassStats" where
  "add_allocation s =
     (let s = s\<lparr>m_usage_count := m_usage_count s + 1\<rparr>;
          s = (if m_usage_count s > m_peak_usage_count s then s\<lparr>m_peak_usage_count := m_usage_count s\<rparr> else s)
      in s\<lparr>m_alloc_count := m_alloc_count s + 1\<rparr>)"

definition add_deallocation :: "SizeClassStats \<Rightarrow> SizeClassStats" where
  "add_deallocation s =
     (let s = s\<lparr>m_usage_count := m_usage_count s - 1\<rparr> in s\<lparr>m_free_count := m_free_count s + 1\<rparr>)"

definition SizeClassStats_reset :: "SizeClassStats \<Rightarrow> SizeClassStats" where
  "SizeClassStats_reset s = s\<lparr>m_alloc_count := 0, m_free_count := 0, m_peak_usage_count := 0, m_usage_count := 0\<rparr>"

record ThreadStats =
  m_tls_id :: u64
  m_size_class_stats :: "SizeClassStats list"

definition ThreadStats_new :: ThreadStats where
  "ThreadStats_new = \<lparr>m_tls_id = 0, m_size_class_stats = replicate MEMLIVE_MAX_SIZE_CLASS_COUNT SizeClassStats_new\<rparr>"

definition MAX_THREAD_COUNT :: nat where
  "MAX_THREAD_COUNT = 64"

text \<open>\<open>sizeof(ThreadStats)\<close>: eight bytes and 21 tables of 32 bytes.\<close>

definition sizeof_ThreadStats :: u64 where
  "sizeof_ThreadStats = 680"

record Profiler =
  profiler_lock :: u32
  m_observed_thread_count :: u64
  m_stats :: "u64 \<Rightarrow> ThreadStats"
  stats_base :: u64
  profiler_tls :: thread_keys

definition stats_address :: "u64 \<Rightarrow> Profiler \<Rightarrow> u64" where
  "stats_address i p = stats_base p + i * sizeof_ThreadStats"

definition Profiler_new :: "u64 \<Rightarrow> u32 option \<Rightarrow> Profiler" where
  "Profiler_new base key = \<lparr>profiler_lock = spin_initialise 0, m_observed_thread_count = 0, m_stats = \<lambda>_. ThreadStats_new,
     stats_base = base, profiler_tls = snd (ThreadLocalStorage_create key ThreadLocalStorage_new)\<rparr>"

text \<open>\<open>std::lock_guard\<close> around an operation.\<close>

definition guarded :: "(Profiler \<Rightarrow> 'a \<times> Profiler) \<Rightarrow> Profiler \<Rightarrow> ('a \<times> Profiler) option" where
  "guarded f p = do {
     l \<leftarrow> spin_lock (profiler_lock p);
     let (r, p) = f (p\<lparr>profiler_lock := l\<rparr>);
     Some (r, p\<lparr>profiler_lock := spin_unlock (profiler_lock p)\<rparr>) }"

definition get_thread_local_stats :: "(nat \<Rightarrow> u64) \<Rightarrow> nat \<Rightarrow> Profiler \<Rightarrow> (u64 \<times> Profiler) option" where
  "get_thread_local_stats ids t p =
     (let stats = ThreadLocalStorage_get t (profiler_tls p)
      in if stats = 0
         then guarded (\<lambda>p.
           if m_observed_thread_count p \<noteq> of_nat MAX_THREAD_COUNT
           then let stats = stats_address (m_observed_thread_count p) p;
                    p = p\<lparr>m_stats := (m_stats p)(stats := (m_stats p stats)\<lparr>m_tls_id := ids t\<rparr>)\<rparr>;
                    p = p\<lparr>profiler_tls := ThreadLocalStorage_set t stats (profiler_tls p)\<rparr>
                in (stats, p\<lparr>m_observed_thread_count := m_observed_thread_count p + 1\<rparr>)
           else (stats, p)) p
         else Some (stats, p))"

definition find_stats_index_from_size :: "u64 \<Rightarrow> u64" where
  "find_stats_index_from_size sz = log2_of (get_first_pow2_of sz)"

definition update_class :: "u64 \<Rightarrow> nat \<Rightarrow> (SizeClassStats \<Rightarrow> SizeClassStats) \<Rightarrow> Profiler \<Rightarrow> unit \<times> Profiler" where
  "update_class stats index f p =
     ((), p\<lparr>m_stats := (m_stats p)(stats := (m_stats p stats)\<lparr>m_size_class_stats :=
        (m_size_class_stats (m_stats p stats))[index := f (m_size_class_stats (m_stats p stats) ! index)]\<rparr>)\<rparr>)"

text \<open>What \<open>capture_allocation\<close> and \<open>capture_deallocation\<close> do once they have a size.\<close>

definition capture :: "(SizeClassStats \<Rightarrow> SizeClassStats) \<Rightarrow> (nat \<Rightarrow> u64) \<Rightarrow> nat \<Rightarrow> u64 \<Rightarrow> Profiler \<Rightarrow> Profiler option" where
  "capture f ids t sz p =
     (let index = find_stats_index_from_size sz
      in if index \<ge> of_nat MEMLIVE_MAX_SIZE_CLASS_COUNT then Some p
         else do {
           (thread_local_stats, p) \<leftarrow> get_thread_local_stats ids t p;
           if thread_local_stats = 0 then Some p
           else do { (_, p) \<leftarrow> guarded (update_class thread_local_stats (unat index) f) p; Some p } })"

definition capture_allocation :: "(nat \<Rightarrow> u64) \<Rightarrow> nat \<Rightarrow> u64 \<Rightarrow> u64 \<Rightarrow> Profiler \<Rightarrow> Profiler option" where
  "capture_allocation ids t address sz p = (if sz = 0 then Some p else capture add_allocation ids t sz p)"

definition capture_deallocation :: "(u64 \<Rightarrow> u64) \<Rightarrow> (nat \<Rightarrow> u64) \<Rightarrow> nat \<Rightarrow> u64 \<Rightarrow> Profiler \<Rightarrow> Profiler option" where
  "capture_deallocation malloc_usable_size ids t address p =
     (if address = 0 then Some p else capture add_deallocation ids t (malloc_usable_size address) p)"

text \<open>\<open>reset_stats\<close>: \<open>for (auto stats : ...)\<close> resets a copy of every element.\<close>

definition reset_copies :: "ThreadStats \<Rightarrow> SizeClassStats list" where
  "reset_copies ts = map SizeClassStats_reset (m_size_class_stats ts)"

definition reset_stats :: "Profiler \<Rightarrow> Profiler option" where
  "reset_stats p = do {
     (_, p) \<leftarrow> guarded (\<lambda>p. (map (\<lambda>i. reset_copies (m_stats p (stats_address (of_nat i) p))) [0..<MAX_THREAD_COUNT], p)) p;
     Some p }"

subsection \<open>Proxies\<close>

text \<open>The C library on its own state.\<close>

record 's libc =
  libc_malloc :: "u64 \<Rightarrow> 's \<Rightarrow> u64 \<times> 's"
  libc_calloc :: "u64 \<Rightarrow> u64 \<Rightarrow> 's \<Rightarrow> u64 \<times> 's"
  libc_realloc :: "u64 \<Rightarrow> u64 \<Rightarrow> 's \<Rightarrow> u64 \<times> 's"
  libc_free :: "u64 \<Rightarrow> 's \<Rightarrow> 's"
  libc_aligned_alloc :: "u64 \<Rightarrow> u64 \<Rightarrow> 's \<Rightarrow> u64 \<times> 's"
  libc_usable_size :: "'s \<Rightarrow> u64 \<Rightarrow> u64"

definition proxy_malloc :: "'s libc \<Rightarrow> (nat \<Rightarrow> u64) \<Rightarrow> nat \<Rightarrow> u64 \<Rightarrow> Profiler \<times> 's \<Rightarrow> (u64 \<times> Profiler \<times> 's) option" where
  "proxy_malloc c ids t sz = (\<lambda>(p, s). do {
     let (ret, s) = libc_malloc c sz s;
     p \<leftarrow> capture_allocation ids t ret sz p;
     Some (ret, p, s) })"

definition proxy_calloc :: "'s libc \<Rightarrow> (nat \<Rightarrow> u64) \<Rightarrow> nat \<Rightarrow> u64 \<Rightarrow> u64 \<Rightarrow> Profiler \<times> 's \<Rightarrow> (u64 \<times> Profiler \<times> 's) option" where
  "proxy_calloc c ids t cnt sz = (\<lambda>(p, s). do {
     let (ret, s) = libc_calloc c cnt sz s;
     p \<leftarrow> capture_allocation ids t ret (cnt * sz) p;
     Some (ret, p, s) })"

definition proxy_realloc :: "'s libc \<Rightarrow> (nat \<Rightarrow> u64) \<Rightarrow> nat \<Rightarrow> u64 \<Rightarrow> u64 \<Rightarrow> Profiler \<times> 's \<Rightarrow> (u64 \<times> Profiler \<times> 's) option" where
  "proxy_realloc c ids t address sz = (\<lambda>(p, s). do {
     let (ret, s) = libc_realloc c address sz s;
     p \<leftarrow> capture_allocation ids t address sz p;
     Some (ret, p, s) })"

definition proxy_free :: "'s libc \<Rightarrow> (nat \<Rightarrow> u64) \<Rightarrow> nat \<Rightarrow> u64 \<Rightarrow> Profiler \<times> 's \<Rightarrow> (Profiler \<times> 's) option" where
  "proxy_free c ids t address = (\<lambda>(p, s). do {
     p \<leftarrow> capture_deallocation (libc_usable_size c s) ids t address p;
     Some (p, libc_free c address s) })"

text \<open>On Linux \<open>builtin_aligned_free\<close> is \<open>free\<close>.\<close>

definition proxy_aligned_free :: "'s libc \<Rightarrow> (nat \<Rightarrow> u64) \<Rightarrow> nat \<Rightarrow> u64 \<Rightarrow> Profiler \<times> 's \<Rightarrow> (Profiler \<times> 's) option" where
  "proxy_aligned_free c ids t address = (\<lambda>(p, s). do {
     p \<leftarrow> capture_deallocation (libc_usable_size c s) ids t address p;
     Some (p, libc_free c address s) })"

definition proxy_aligned_alloc :: "'s libc \<Rightarrow> (nat \<Rightarrow> u64) \<Rightarrow> nat \<Rightarrow> u64 \<Rightarrow> u64 \<Rightarrow> Profiler \<times> 's \<Rightarrow> (u64 \<times> Profiler \<times> 's) option" where
  "proxy_aligned_alloc c ids t sz alignment = (\<lambda>(p, s). do {
     let (ret, s) = libc_aligned_alloc c alignment sz s;
     p \<leftarrow> capture_allocation ids t ret sz p;
     Some (ret, p, s) })"

text \<open>The operators; \<open>handler\<close> is the handler that \<open>std::get_new_handler\<close> answers, on the whole state, and
  \<open>Inl\<close> is the exception that it or \<open>handle_operator_new_failure\<close> throws.\<close>

datatype new_failure = std_bad_alloc

type_synonym 's proxy_handler = "(Profiler \<times> 's \<Rightarrow> ((new_failure + unit) \<times> Profiler \<times> 's) option) option"

definition proxy_new_failure :: "'s proxy_handler \<Rightarrow> Profiler \<times> 's \<Rightarrow> ((new_failure + unit) \<times> Profiler \<times> 's) option" where
  "proxy_new_failure handler s = (case handler of Some h \<Rightarrow> h s | None \<Rightarrow> Some (Inl std_bad_alloc, s))"

definition proxy_new ::
  "'s proxy_handler \<Rightarrow> (Profiler \<times> 's \<Rightarrow> (u64 \<times> Profiler \<times> 's) option) \<Rightarrow> Profiler \<times> 's \<Rightarrow> ((new_failure + u64) \<times> Profiler \<times> 's) option" where
  "proxy_new handler alloc s = do {
     (ret, s) \<leftarrow> alloc s;
     if ret = 0
     then do { (r, s) \<leftarrow> proxy_new_failure handler s; case r of Inl e \<Rightarrow> Some (Inl e, s) | Inr _ \<Rightarrow> Some (Inr ret, s) }
     else Some (Inr ret, s) }"

definition proxy_operator_new ::
  "'s libc \<Rightarrow> 's proxy_handler \<Rightarrow> (nat \<Rightarrow> u64) \<Rightarrow> nat \<Rightarrow> u64 \<Rightarrow> Profiler \<times> 's \<Rightarrow> ((new_failure + u64) \<times> Profiler \<times> 's) option" where
  "proxy_operator_new c handler ids t sz = proxy_new handler (proxy_malloc c ids t sz)"

definition proxy_operator_new_aligned ::
  "'s libc \<Rightarrow> 's proxy_handler \<Rightarrow> (nat \<Rightarrow> u64) \<Rightarrow> nat \<Rightarrow> u64 \<Rightarrow> u64 \<Rightarrow> Profiler \<times> 's \<Rightarrow> ((new_failure + u64) \<times> Profiler \<times> 's) option" where
  "proxy_operator_new_aligned c handler ids t sz alignment = proxy_new handler (proxy_aligned_alloc c ids t sz alignment)"

subsection \<open>What the counters count\<close>

text \<open>An event is an allocation by a thread, with the requested size, or a deallocation, with the address and
  the usable size that the C library reports for it.\<close>

datatype profile_event = is_allocation: Allocated nat u64 | Freed nat u64 u64

fun event_thread :: "profile_event \<Rightarrow> nat" where
  "event_thread (Allocated t sz) = t"
| "event_thread (Freed t a sz) = t"

fun profile :: "(nat \<Rightarrow> u64) \<Rightarrow> profile_event list \<Rightarrow> Profiler \<Rightarrow> Profiler option" where
  "profile ids [] p = Some p"
| "profile ids (Allocated t sz # es) p = do { p \<leftarrow> capture_allocation ids t 0 sz p; profile ids es p }"
| "profile ids (Freed t a sz # es) p = do { p \<leftarrow> capture_deallocation (\<lambda>_. sz) ids t a p; profile ids es p }"

text \<open>The specification: the events of a thread in a size class, and what they make of its counters.\<close>

fun counted :: "nat \<Rightarrow> nat \<Rightarrow> profile_event \<Rightarrow> bool" where
  "counted t c (Allocated u sz) \<longleftrightarrow> u = t \<and> sz \<noteq> 0 \<and> unat (find_stats_index_from_size sz) = c"
| "counted t c (Freed u a sz) \<longleftrightarrow> u = t \<and> a \<noteq> 0 \<and> unat (find_stats_index_from_size sz) = c"

fun event_update :: "profile_event \<Rightarrow> SizeClassStats \<Rightarrow> SizeClassStats" where
  "event_update (Allocated t sz) = add_allocation"
| "event_update (Freed t a sz) = add_deallocation"

definition tally :: "nat \<Rightarrow> nat \<Rightarrow> profile_event list \<Rightarrow> SizeClassStats" where
  "tally t c es = fold event_update (filter (counted t c) es) SizeClassStats_new"

lemma tally_snoc: "tally t c (es @ [e]) = (if counted t c e then event_update e (tally t c es) else tally t c es)"
  by (simp add: tally_def)

text \<open>The table of a thread: a thread that has no table yet has empty counters.\<close>

definition thread_table :: "nat \<Rightarrow> Profiler \<Rightarrow> SizeClassStats list" where
  "thread_table t p = (let a = ThreadLocalStorage_get t (profiler_tls p)
     in if a = 0 then m_size_class_stats ThreadStats_new else m_size_class_stats (m_stats p a))"

definition profiler_place :: "u64 \<Rightarrow> bool" where
  "profiler_place base \<longleftrightarrow> base \<noteq> 0 \<and> unat base + 64 * 680 < 2 ^ 64"

text \<open>\<open>ts\<close> are the threads that have a table, in the order of the tables.\<close>

definition profiler_inv :: "nat list \<Rightarrow> Profiler \<Rightarrow> bool" where
  "profiler_inv ts p \<longleftrightarrow> profiler_lock p = 0 \<and> profiler_place (stats_base p) \<and> distinct ts \<and> length ts \<le> 64
     \<and> m_observed_thread_count p = of_nat (length ts)
     \<and> (\<forall>i < length ts. ThreadLocalStorage_get (ts ! i) (profiler_tls p) = stats_address (of_nat i) p)
     \<and> (\<forall>t. t \<notin> set ts \<longrightarrow> ThreadLocalStorage_get t (profiler_tls p) = 0)
     \<and> (\<forall>i. length ts \<le> i \<longrightarrow> i < 64 \<longrightarrow> m_size_class_stats (m_stats p (stats_address (of_nat i) p)) = m_size_class_stats ThreadStats_new)
     \<and> (\<forall>i < 64. length (m_size_class_stats (m_stats p (stats_address (of_nat i) p))) = MEMLIVE_MAX_SIZE_CLASS_COUNT)"

lemma unat_stats_address:
  assumes "profiler_place (stats_base p)" "i < 64"
  shows "unat (stats_address (of_nat i) p) = unat (stats_base p) + i * 680"
proof -
  have "unat (of_nat i :: u64) = i" using assms(2) by (intro unat_of_nat_nowrap) simp
  then have "unat (of_nat i * (680 :: u64)) = i * 680" using assms(2) by (subst unat_mult_nowrap) simp_all
  then show ?thesis using assms by (simp add: stats_address_def sizeof_ThreadStats_def profiler_place_def unat_add_nowrap)
qed

lemma stats_address_distinct:
  assumes "profiler_place (stats_base p)" "i < 64" "j < 64"
  shows "stats_address (of_nat i) p \<noteq> 0" "stats_address (of_nat i) p = stats_address (of_nat j) p \<longleftrightarrow> i = j"
proof -
  have "0 < unat (stats_base p)" using assms(1) by (simp add: profiler_place_def unat_neq_0_iff)
  then have "0 < unat (stats_address (of_nat i) p)" using unat_stats_address [OF assms(1,2)] by simp
  then show "stats_address (of_nat i) p \<noteq> 0" using unat_neq_0_iff by blast
  show "stats_address (of_nat i) p = stats_address (of_nat j) p \<longleftrightarrow> i = j"
    using unat_stats_address [OF assms(1,2)] unat_stats_address [OF assms(1,3)] by (auto simp: unat_eq_iff_u64)
qed

lemma guarded_free: "profiler_lock p = 0 \<Longrightarrow> guarded f p =
    (case f (p\<lparr>profiler_lock := 1\<rparr>) of (r, p') \<Rightarrow> Some (r, p'\<lparr>profiler_lock := 0\<rparr>))"
  by (simp add: guarded_def)

lemma stats_address_upd [simp]:
  "stats_address i (p\<lparr>profiler_lock := l\<rparr>) = stats_address i p" "stats_address i (p\<lparr>m_stats := s\<rparr>) = stats_address i p"
  "stats_address i (p\<lparr>profiler_tls := k\<rparr>) = stats_address i p" "stats_address i (p\<lparr>m_observed_thread_count := n\<rparr>) = stats_address i p"
  by (simp_all add: stats_address_def)

text \<open>A thread gets its table, the next one when it has none.\<close>

lemma get_thread_local_stats_ok:
  assumes inv: "profiler_inv ts p" and t: "t \<in> set ts \<or> length ts < 64"
  obtains ts' i p' where "get_thread_local_stats ids t p = Some (stats_address (of_nat i) p', p')" "profiler_inv ts' p'"
    "i < length ts'" "ts' ! i = t" "set ts' = insert t (set ts)" "\<forall>u. thread_table u p' = thread_table u p"
proof (cases "t \<in> set ts")
  case True
  then obtain i where i: "i < length ts" "ts ! i = t" by (auto simp: in_set_conv_nth)
  then have "ThreadLocalStorage_get t (profiler_tls p) = stats_address (of_nat i) p" "stats_address (of_nat i) p \<noteq> 0"
    using inv stats_address_distinct(1) [of p i i] by (auto simp: profiler_inv_def)
  then have "get_thread_local_stats ids t p = Some (stats_address (of_nat i) p, p)" by (simp add: get_thread_local_stats_def)
  then show ?thesis using that [OF _ inv i] True by auto
next
  case False
  let ?n = "length ts" let ?a = "stats_address (of_nat ?n) p"
  have n: "?n < 64" and place: "profiler_place (stats_base p)" and lock: "profiler_lock p = 0"
    and obs: "m_observed_thread_count p = of_nat ?n" and g: "ThreadLocalStorage_get t (profiler_tls p) = 0"
    using False t inv by (auto simp: profiler_inv_def)
  have addr: "stats_address (of_nat i) p \<noteq> 0" "stats_address (of_nat i) p = ?a \<longleftrightarrow> i = ?n" if "i < 64" for i
    using stats_address_distinct [OF place that n] by auto
  have "unat (of_nat ?n :: u64) = ?n" using n by (intro unat_of_nat_nowrap) simp
  then have "(of_nat ?n :: u64) \<noteq> 64" using n by (auto simp: unat_eq_iff_u64)
  define q where "q = p\<lparr>m_stats := (m_stats p)(?a := (m_stats p ?a)\<lparr>m_tls_id := ids t\<rparr>),
    profiler_tls := ThreadLocalStorage_set t ?a (profiler_tls p), m_observed_thread_count := of_nat ?n + 1\<rparr>"
  have q: "get_thread_local_stats ids t p = Some (?a, q)"
    using \<open>of_nat ?n \<noteq> (64 :: u64)\<close> g lock obs
    by (simp add: get_thread_local_stats_def guarded_free MAX_THREAD_COUNT_def q_def Let_def)
  have a: "stats_address i q = stats_address i p" for i by (simp add: q_def stats_address_def)
  have stats: "m_size_class_stats (m_stats q x) = m_size_class_stats (m_stats p x)" for x by (simp add: q_def)
  show ?thesis
  proof (rule that)
    show "get_thread_local_stats ids t p = Some (stats_address (of_nat ?n) q, q)" using q a by simp
    show "profiler_inv (ts @ [t]) q"
      unfolding profiler_inv_def a stats
    proof (intro conjI allI impI)
      fix i assume "i < length (ts @ [t])"
      then show "ThreadLocalStorage_get ((ts @ [t]) ! i) (profiler_tls q) = stats_address (of_nat i) p"
        using inv False by (cases "i = ?n") (auto simp: q_def profiler_inv_def nth_append)
    qed (use inv False n in \<open>auto simp: profiler_inv_def q_def\<close>)
    have "thread_table u q = thread_table u p" for u
    proof (cases "u = t")
      case True
      then show ?thesis using addr(1) [OF n] g inv n by (simp add: thread_table_def stats q_def profiler_inv_def)
    next
      case False
      then have "ThreadLocalStorage_get u (profiler_tls q) = ThreadLocalStorage_get u (profiler_tls p)" by (simp add: q_def)
      then show ?thesis by (simp add: thread_table_def stats Let_def)
    qed
    then show "\<forall>u. thread_table u q = thread_table u p" by blast
  qed auto
qed

text \<open>One captured event changes one counter of one thread.\<close>

lemma capture_ok:
  assumes inv: "profiler_inv ts p" and t: "t \<in> set ts \<or> length ts < 64"
    and c: "unat (find_stats_index_from_size sz) = c" "c < MEMLIVE_MAX_SIZE_CLASS_COUNT"
  obtains ts' p' where "capture f ids t sz p = Some p'" "profiler_inv ts' p'" "set ts' = insert t (set ts)"
    "\<forall>u. thread_table u p' = (if u = t then (thread_table t p)[c := f (thread_table t p ! c)] else thread_table u p)"
proof -
  obtain ts' i q where q: "get_thread_local_stats ids t p = Some (stats_address (of_nat i) q, q)" "profiler_inv ts' q"
    "i < length ts'" "ts' ! i = t" "set ts' = insert t (set ts)" "\<forall>u. thread_table u q = thread_table u p"
    by (rule get_thread_local_stats_ok [OF inv t, of ids])
  let ?a = "stats_address (of_nat i) q"
  have i: "i < 64" and place: "profiler_place (stats_base q)" and lock: "profiler_lock q = 0"
    using q(2,3) by (auto simp: profiler_inv_def)
  note addr = stats_address_distinct [OF place]
  have idx: "\<not> find_stats_index_from_size sz \<ge> of_nat MEMLIVE_MAX_SIZE_CLASS_COUNT"
    using c by (simp add: word_le_nat_alt MEMLIVE_MAX_SIZE_CLASS_COUNT_def)
  define r where "r = q\<lparr>m_stats := (m_stats q)(?a := (m_stats q ?a)\<lparr>m_size_class_stats :=
        (m_size_class_stats (m_stats q ?a))[c := f (m_size_class_stats (m_stats q ?a) ! c)]\<rparr>)\<rparr>"
  have "capture f ids t sz p = Some r"
    using idx addr(1) [OF i i] lock c(1) by (simp add: capture_def q(1) guarded_free update_class_def r_def)
  moreover have a: "stats_address j r = stats_address j q" for j by (simp add: r_def stats_address_def)
  have "profiler_inv ts' r"
    unfolding profiler_inv_def a
  proof (intro conjI allI impI)
    fix j assume j: "length ts' \<le> j" "j < 64"
    then have "stats_address (of_nat j) q \<noteq> ?a" using addr(2) [OF j(2) i] q(3) by simp
    then show "m_size_class_stats (m_stats r (stats_address (of_nat j) q)) = m_size_class_stats ThreadStats_new"
      using q(2) j by (simp add: profiler_inv_def r_def)
  qed (use q(2) in \<open>auto simp: profiler_inv_def r_def\<close>)
  moreover have "thread_table u r = (if u = t then (thread_table t p)[c := f (thread_table t p ! c)] else thread_table u p)" for u
  proof (cases "u \<in> set ts'")
    case True
    then obtain j where j: "j < length ts'" "ts' ! j = u" by (auto simp: in_set_conv_nth)
    then have g: "ThreadLocalStorage_get u (profiler_tls q) = stats_address (of_nat j) q" "j < 64"
      using q(2) by (auto simp: profiler_inv_def)
    have "u = t \<longleftrightarrow> j = i" using j q(2-4) by (auto simp: profiler_inv_def distinct_conv_nth)
    then show ?thesis unfolding q(6) [rule_format, symmetric]
      using g addr [OF g(2) i] q(2,3,4) by (auto simp: thread_table_def r_def profiler_inv_def)
  next
    case False
    then show ?thesis unfolding q(6) [rule_format, symmetric] using q(2,5) by (auto simp: thread_table_def r_def profiler_inv_def)
  qed
  ultimately show ?thesis using that q(5) by blast
qed

lemma capture_ignored: "\<not> unat (find_stats_index_from_size sz) < MEMLIVE_MAX_SIZE_CLASS_COUNT \<Longrightarrow> capture f ids t sz p = Some p"
  by (simp add: capture_def word_le_nat_alt MEMLIVE_MAX_SIZE_CLASS_COUNT_def)

text \<open>A whole run, of at most 64 threads, refines the specification: whatever the interleaving of the threads,
  the counters of a thread are the ones that its own events make.\<close>

definition profiled :: "profile_event list \<Rightarrow> nat list \<Rightarrow> Profiler \<Rightarrow> bool" where
  "profiled es ts p \<longleftrightarrow> profiler_inv ts p \<and> set ts \<subseteq> event_thread ` set es
     \<and> (\<forall>t. length (thread_table t p) = MEMLIVE_MAX_SIZE_CLASS_COUNT
         \<and> (\<forall>c < MEMLIVE_MAX_SIZE_CLASS_COUNT. thread_table t p ! c = tally t c es))"

definition event_size_class :: "profile_event \<Rightarrow> nat" where
  "event_size_class e = (case e of Allocated t sz \<Rightarrow> unat (find_stats_index_from_size sz)
     | Freed t a sz \<Rightarrow> unat (find_stats_index_from_size sz))"

lemma profiled_ignored:
  assumes "profiled es ts p" "\<And>t c. c < MEMLIVE_MAX_SIZE_CLASS_COUNT \<Longrightarrow> \<not> counted t c e"
  shows "profiled (es @ [e]) ts p"
  using assms by (auto simp: profiled_def tally_snoc)

lemma profiled_capture:
  assumes p: "profiled es ts p" and card: "card (event_thread ` set (es @ [e])) \<le> 64"
    and e: "\<And>t c. counted t c e \<longleftrightarrow> u = t \<and> unat (find_stats_index_from_size sz) = c" "event_thread e = u" "event_update e = f"
  shows "\<exists>ts' p'. capture f ids u sz p = Some p' \<and> profiled (es @ [e]) ts' p'"
proof (cases "unat (find_stats_index_from_size sz) < MEMLIVE_MAX_SIZE_CLASS_COUNT")
  case False
  then have "profiled (es @ [e]) ts p" using e(1) by (intro profiled_ignored [OF p]) auto
  then show ?thesis using capture_ignored [OF False] by blast
next
  case True
  let ?c = "unat (find_stats_index_from_size sz)"
  have inv: "profiler_inv ts p" and sub: "set ts \<subseteq> event_thread ` set es" using p by (auto simp: profiled_def)
  have "u \<in> set ts \<or> length ts < 64"
  proof (rule ccontr)
    assume a: "\<not> (u \<in> set ts \<or> length ts < 64)"
    then have "card (insert u (set ts)) = Suc 64" using inv by (auto simp: profiler_inv_def distinct_card)
    moreover have "insert u (set ts) \<subseteq> event_thread ` set (es @ [e])" using sub e(2) by auto
    ultimately show False using card card_mono [of "event_thread ` set (es @ [e])" "insert u (set ts)"] by simp
  qed
  then obtain ts' p' where "capture f ids u sz p = Some p'" "profiler_inv ts' p'" "set ts' = insert u (set ts)"
    "\<forall>t. thread_table t p' = (if t = u then (thread_table u p)[?c := f (thread_table u p ! ?c)] else thread_table t p)"
    by (rule capture_ok [OF inv _ refl True, of u f ids])
  then show ?thesis using p sub e True by (intro exI conjI) (auto simp: profiled_def tally_snoc nth_list_update)
qed

lemma profiled_run:
  assumes "profiled es ts p" "card (event_thread ` set (es @ fs)) \<le> 64"
  shows "\<exists>ts' p'. profile ids fs p = Some p' \<and> profiled (es @ fs) ts' p'"
  using assms
proof (induction fs arbitrary: es ts p)
  case (Cons e fs)
  have "card (event_thread ` set (es @ [e])) \<le> card (event_thread ` set (es @ e # fs))" by (rule card_mono) auto
  then have card: "card (event_thread ` set (es @ [e])) \<le> 64" using Cons.prems(2) by linarith
  have "\<exists>ts' p'. profile ids [e] p = Some p' \<and> profiled (es @ [e]) ts' p'"
  proof (cases e)
    case (Allocated u sz)
    then show ?thesis
      using profiled_capture [OF Cons.prems(1) card, of u sz add_allocation ids] profiled_ignored [OF Cons.prems(1), of e]
      by (cases "sz = 0") (auto simp: capture_allocation_def split: bind_splits)
  next
    case (Freed u a sz)
    then show ?thesis
      using profiled_capture [OF Cons.prems(1) card, of u sz add_deallocation ids] profiled_ignored [OF Cons.prems(1), of e]
      by (cases "a = 0") (auto simp: capture_deallocation_def split: bind_splits)
  qed
  then obtain ts' p' where p': "profile ids [e] p = Some p'" "profiled (es @ [e]) ts' p'" by blast
  have "profile ids (e # fs) p = profile ids fs p'" using p'(1) by (cases e) (auto split: bind_splits)
  then show ?case using Cons.IH [OF p'(2)] Cons.prems(2) by simp
qed auto

lemma profiled_start:
  assumes "profiler_place base"
  shows "profiled [] [] (Profiler_new base key)"
  using assms
  by (auto simp: profiled_def profiler_inv_def Profiler_new_def tally_def thread_table_def ThreadStats_new_def spin_initialise_def
      ThreadLocalStorage_get_def ThreadLocalStorage_create_def ThreadLocalStorage_new_def split: option.splits)

lemma tally_counts:
  "m_alloc_count (tally t c es) = of_nat (length [e \<leftarrow> es. counted t c e \<and> is_allocation e])
   \<and> m_free_count (tally t c es) = of_nat (length [e \<leftarrow> es. counted t c e \<and> \<not> is_allocation e])"
proof (induction es rule: rev_induct)
  case Nil
  then show ?case by (simp add: tally_def SizeClassStats_new_def)
next
  case (snoc e es)
  then show ?case by (cases e) (auto simp: tally_snoc add_allocation_def add_deallocation_def Let_def)
qed

text \<open>C24: Whatever the interleaving of the allocations and deallocations of at most 64 threads, profiling returns
  and counts every event once, for the thread that caused it, in the class of its size: the number of
  allocations (and of deallocations) of thread \<open>t\<close> in class \<open>c\<close> is the number of such events.\<close>
theorem profiler_counts:
  assumes "profiler_place base" "card (event_thread ` set es) \<le> 64"
  shows "\<exists>p. profile ids es (Profiler_new base key) = Some p \<and> (\<forall>t c. c < MEMLIVE_MAX_SIZE_CLASS_COUNT \<longrightarrow>
    m_alloc_count (thread_table t p ! c) = of_nat (length [e \<leftarrow> es. counted t c e \<and> is_allocation e]) \<and>
    m_free_count (thread_table t p ! c) = of_nat (length [e \<leftarrow> es. counted t c e \<and> \<not> is_allocation e]))"
proof -
  obtain ts p where "profile ids es (Profiler_new base key) = Some p" "profiled es ts p"
    using profiled_run [OF profiled_start [OF assms(1), of key], of es ids] assms(2) by auto
  then show ?thesis by (auto simp: profiled_def tally_counts)
qed

theorem profiler_counts_witness:
  "\<exists>p. profile (\<lambda>t. of_nat t) [Allocated 1 60, Allocated 2 60, Freed 1 4096 64] (Profiler_new 4096 (Some 1)) = Some p
    \<and> m_alloc_count (thread_table 1 p ! 6) = 1 \<and> m_free_count (thread_table 1 p ! 6) = 1"
proof -
  let ?es = "[Allocated 1 60, Allocated 2 60, Freed 1 4096 64]"
  have i: "unat (find_stats_index_from_size 60) = 6" "unat (find_stats_index_from_size 64) = 6" by code_simp+
  have "profiler_place 4096" by (simp add: profiler_place_def)
  moreover have "card (event_thread ` set ?es) \<le> 64" by (simp add: card_insert_if)
  ultimately have "\<exists>p. profile (\<lambda>t. of_nat t) ?es (Profiler_new 4096 (Some 1)) = Some p \<and> (\<forall>t c. c < MEMLIVE_MAX_SIZE_CLASS_COUNT \<longrightarrow>
    m_alloc_count (thread_table t p ! c) = of_nat (length [e \<leftarrow> ?es. counted t c e \<and> is_allocation e]) \<and>
    m_free_count (thread_table t p ! c) = of_nat (length [e \<leftarrow> ?es. counted t c e \<and> \<not> is_allocation e]))"
    by (rule profiler_counts)
  moreover have "(6 :: nat) < MEMLIVE_MAX_SIZE_CLASS_COUNT" by (simp add: MEMLIVE_MAX_SIZE_CLASS_COUNT_def)
  ultimately show ?thesis by (auto simp: i)
qed

text \<open>\<open>reset_stats\<close> resets nothing: it works on copies, so the state after it is the state before it.\<close>
theorem reset_stats_keeps_counters:
  assumes "profiler_lock p = 0"
  shows "reset_stats p = Some p"
proof -
  have "p\<lparr>profiler_lock := 0\<rparr> = p" using assms by (cases p) simp
  then show ?thesis using assms by (simp add: reset_stats_def guarded_free)
qed

theorem reset_stats_keeps_counters_witness:
  "reset_stats (Profiler_new 4096 (Some 1)) = Some (Profiler_new 4096 (Some 1))"
  by (rule reset_stats_keeps_counters) (simp add: Profiler_new_def spin_initialise_def)

text \<open>A deallocation is counted by the usable size of its block and an allocation by the requested size:
  where these fall into different classes (60 bytes in a block of 72), the usage of one class stays at
  one and the usage of the other wraps around below zero.\<close>
theorem usage_count_wraps:
  "map_option (\<lambda>p. map (\<lambda>c. m_usage_count (thread_table 1 p ! c)) [6, 7])
     (profile (\<lambda>t. of_nat t) [Allocated 1 60, Freed 1 4096 72] (Profiler_new 4096 (Some 1))) = Some [1, - 1]"
  by code_simp

end
