(* ===== verification/Http_Profiler.thy ===== *)
theory Http_Profiler
  imports Profiler "HOL-Library.Sublist"
begin

text \<open>
  \<open>include/utilities/http_cpr_reactor.h\<close> and the class \<open>HTTPLiveProfiler\<close> of \<open>include/profiler.h\<close>: requests are
  parsed from the bytes of a connection, and the counters of the profiler are sent as comma separated
  values.

  The socket layer below (\<open>tcp_reactor.h\<close>, \<open>socket.h\<close>, \<open>epoll.h\<close>) is a parameter: \<open>on_data_ready\<close> is given the
  result of \<open>receive\<close> and the bytes that it stored, and answers the texts that the handlers send.  A store
  beyond an array or a buffer is undefined behaviour, which is \<open>None\<close>.
\<close>

subsection \<open>Requests and responses\<close>

datatype HTTPVerb = NONE | POST | GET | PUT | DEL

record HttpRequest =
  m_verb :: HTTPVerb
  m_request_body :: string

record HttpResponse =
  m_response_code_with_text :: string
  m_connection_alive :: bool
  m_http_version :: string
  m_content_type :: string
  m_response_body :: string

definition HttpResponse_new :: HttpResponse where
  "HttpResponse_new = \<lparr>m_response_code_with_text = '''', m_connection_alive = True, m_http_version = ''1.1'',
     m_content_type = ''text/html'', m_response_body = ''''\<rparr>"

definition newline :: string where
  "newline = [CHR 0x0A]"

definition crlf :: string where
  "crlf = [CHR 0x0D, CHR 0x0A]"

text \<open>Decimal numbers, as \<open>std::to_string\<close> and \<open>%zd\<close> print them.\<close>

definition digit_char :: "nat \<Rightarrow> char" where
  "digit_char d = char_of (48 + d)"

fun decimal :: "nat \<Rightarrow> string" where
  "decimal n = (if n < 10 then [digit_char n] else decimal (n div 10) @ [digit_char (n mod 10)])"

declare decimal.simps [simp del]

definition signed_decimal :: "int \<Rightarrow> string" where
  "signed_decimal i = (if i < 0 then ''-'' @ decimal (nat (- i)) else decimal (nat i))"

definition get_as_text :: "HttpResponse \<Rightarrow> string" where
  "get_as_text r =
     (let ret = [];
          ret = ret @ ''HTTP/'' @ m_http_version r @ '' '';
          ret = ret @ m_response_code_with_text r;
          ret = ret @ newline @ ''Connection: '' @ (if m_connection_alive r then ''keep-alive'' else ''Closed'');
          ret = ret @ newline @ ''Content-Type: '' @ m_content_type r;
          ret = ret @ newline @ ''Content length: '' @ decimal (length (m_response_body r));
          ret = ret @ newline @ newline;
          ret = ret @ m_response_body r
      in ret)"

subsection \<open>Parsing\<close>

text \<open>\<open>std::string_view::find\<close>: the first position of a pattern.\<close>

fun find_string :: "string \<Rightarrow> string \<Rightarrow> nat option" where
  "find_string pat [] = (if pat = [] then Some 0 else None)"
| "find_string pat (c # cs) = (if prefix pat (c # cs) then Some 0 else map_option Suc (find_string pat cs))"

definition verb_of :: "string \<Rightarrow> HTTPVerb" where
  "verb_of verb = (if verb = ''GET'' then GET else if verb = ''POST'' then POST else if verb = ''PUT'' then PUT
     else if verb = ''DEL'' then DEL else NONE)"

text \<open>The verb of the first line; a line without a space has none.\<close>

definition request_verb :: "string \<Rightarrow> HTTPVerb" where
  "request_verb verb_line =
     (case find_string '' '' verb_line of None \<Rightarrow> NONE | Some n \<Rightarrow> verb_of (take n verb_line))"

text \<open>How many characters a request takes: up to the empty line; without one, \<open>npos + 4\<close> is 3.\<close>

definition request_length :: "string \<Rightarrow> nat" where
  "request_length buffer = (case find_string (crlf @ crlf) buffer of None \<Rightarrow> 3 | Some n \<Rightarrow> n + 4)"

definition MAX_INCOMING_HTTP_REQUEST_COUNT :: nat where
  "MAX_INCOMING_HTTP_REQUEST_COUNT = 32"

function parse_loop :: "string \<Rightarrow> HttpRequest list \<Rightarrow> (bool \<times> HttpRequest list) option" where
  "parse_loop buffer http_requests =
     (if find_string ''Host: '' buffer = None then Some (True, http_requests)
      else case find_string crlf buffer of
             None \<Rightarrow> Some (False, http_requests)
           | Some n \<Rightarrow>
               let request = \<lparr>m_verb = request_verb (take n buffer), m_request_body = drop (request_length buffer) buffer\<rparr>
               in if length http_requests < MAX_INCOMING_HTTP_REQUEST_COUNT
                  then parse_loop (drop (request_length buffer) buffer) (http_requests @ [request])
                  else None)"
  by pat_completeness auto

termination
proof (relation "measure (length \<circ> fst)")
  fix buffer :: string
  assume "find_string ''Host: '' buffer \<noteq> None"
  then have "buffer \<noteq> []" by auto
  then show "((drop (request_length buffer) buffer, r'), (buffer, r)) \<in> measure (length \<circ> fst)" for r r' :: "HttpRequest list"
    by (auto simp: request_length_def split: option.splits)
qed simp

declare parse_loop.simps [simp del]

record reactor =
  m_cache :: string
  m_cache_index :: nat

definition parse_http_request :: "reactor \<Rightarrow> (bool \<times> HttpRequest list \<times> reactor) option" where
  "parse_http_request s = do {
     (ok, http_requests) \<leftarrow> parse_loop (drop (m_cache_index s) (m_cache s)) [];
     if ok then Some (True, http_requests, s\<lparr>m_cache_index := m_cache_index s + (length (m_cache s) - m_cache_index s)\<rparr>)
     else Some (False, http_requests, s) }"

subsection \<open>The profiler's answers\<close>

definition MAX_POST_RESPONSE_BUFFER_SIZE :: nat where
  "MAX_POST_RESPONSE_BUFFER_SIZE = 4096"

definition MAX_POST_RESPONSE_DIGITS :: nat where
  "MAX_POST_RESPONSE_DIGITS = 16"

text \<open>\<open>snprintf(buffer + strlen(buffer), MAX_POST_RESPONSE_DIGITS, "%zd,", v)\<close>: at most 15 characters and the
  terminating zero are stored, at the end of the string, whatever room the buffer has left.\<close>

definition append_field :: "u64 \<Rightarrow> string \<Rightarrow> string option" where
  "append_field v buffer =
     (let buffer = buffer @ take (MAX_POST_RESPONSE_DIGITS - 1) (signed_decimal (sint v) @ '','')
      in if length buffer < MAX_POST_RESPONSE_BUFFER_SIZE then Some buffer else None)"

fun append_classes :: "SizeClassStats list \<Rightarrow> string \<Rightarrow> string option" where
  "append_classes [] buffer = Some buffer"
| "append_classes (c # cs) buffer = do {
     buffer \<leftarrow> append_field (m_alloc_count c) buffer;
     buffer \<leftarrow> append_field (m_free_count c) buffer;
     buffer \<leftarrow> append_field (m_peak_usage_count c) buffer;
     append_classes cs buffer }"

text \<open>The tables in order, without the table of the reactor's own thread.\<close>

fun append_threads :: "u64 \<Rightarrow> ThreadStats list \<Rightarrow> string \<Rightarrow> string option" where
  "append_threads own_id [] buffer = Some buffer"
| "append_threads own_id (s # stats) buffer =
     (if m_tls_id s \<noteq> own_id
      then do { buffer \<leftarrow> append_classes (m_size_class_stats s) buffer; append_threads own_id stats buffer }
      else append_threads own_id stats buffer)"

definition observed_stats :: "Profiler \<Rightarrow> ThreadStats list" where
  "observed_stats p = map (\<lambda>i. m_stats p (stats_address (of_nat i) p)) [0..<unat (m_observed_thread_count p)]"

definition update_post_response :: "u64 \<Rightarrow> Profiler \<Rightarrow> string option" where
  "update_post_response own_id p =
     append_threads own_id (observed_stats p)
       (take (MAX_POST_RESPONSE_BUFFER_SIZE - 1)
         (signed_decimal (sint (m_observed_thread_count p - 1)) @ '','' @ signed_decimal (int MEMLIVE_MAX_SIZE_CLASS_COUNT) @ '',''))"

text \<open>\<open>page\<close> is the constant \<open>HTTPLiveProfilerHtmlSource\<close>.\<close>

definition on_http_get_request :: "string \<Rightarrow> string" where
  "on_http_get_request page =
     get_as_text (HttpResponse_new\<lparr>m_response_code_with_text := ''200 OK'', m_connection_alive := False, m_response_body := page\<rparr>)"

definition on_http_post_request :: "u64 \<Rightarrow> Profiler \<Rightarrow> string option" where
  "on_http_post_request own_id p = do {
     buffer \<leftarrow> update_post_response own_id p;
     Some (get_as_text (HttpResponse_new\<lparr>m_response_code_with_text := ''201 Created'', m_connection_alive := False,
       m_response_body := buffer\<rparr>)) }"

text \<open>The handlers of the requests of one connection, in order: the texts they send.  The assertion for
  \<open>NONE\<close> does nothing in a release build.\<close>

fun handle_requests :: "string \<Rightarrow> u64 \<Rightarrow> Profiler \<Rightarrow> HttpRequest list \<Rightarrow> string list option" where
  "handle_requests page own_id p [] = Some []"
| "handle_requests page own_id p (r # rs) = do {
     sent \<leftarrow> (case m_verb r of
        GET \<Rightarrow> Some [on_http_get_request page]
      | POST \<Rightarrow> do { text \<leftarrow> on_http_post_request own_id p; Some [text] }
      | PUT \<Rightarrow> Some [] | DEL \<Rightarrow> Some [] | NONE \<Rightarrow> Some []);
     rest \<leftarrow> handle_requests page own_id p rs;
     Some (sent @ rest) }"

definition RECEIVE_SIZE :: nat where
  "RECEIVE_SIZE = 4096"

text \<open>\<open>on_data_ready\<close>: \<open>read\<close> is the result of \<open>receive\<close> and \<open>bytes\<close> what it stored; the terminating zero goes to
  \<open>read_buffer[read]\<close>.  In the error branches, and at the end in any case, the peer is disconnected.\<close>

definition on_data_ready :: "string \<Rightarrow> u64 \<Rightarrow> Profiler \<Rightarrow> int \<Rightarrow> string \<Rightarrow> reactor \<Rightarrow> (string list \<times> reactor) option" where
  "on_data_ready page own_id p read bytes s =
     (if 0 < read \<and> read \<le> int RECEIVE_SIZE
      then if read < int RECEIVE_SIZE
           then do {
             let s = s\<lparr>m_cache := m_cache s @ takeWhile (\<lambda>c. c \<noteq> CHR 0x00) (take (nat read) bytes)\<rparr>;
             (ok, http_requests, s) \<leftarrow> parse_http_request s;
             if ok then do { sent \<leftarrow> handle_requests page own_id p http_requests; Some (sent, s) } else Some ([], s) }
           else None
      else Some ([], s))"

subsection \<open>One request\<close>

lemma prefix_append_same: "prefix pat xs \<Longrightarrow> prefix pat (xs @ ys)"
  by auto

lemma find_string_append: "find_string pat xs = Some n \<Longrightarrow> find_string pat (xs @ ys) = Some n"
proof (induction xs arbitrary: n)
  case Nil
  then show ?case by (cases ys) (auto split: if_splits)
next
  case (Cons x xs)
  show ?case
  proof (cases "prefix pat (x # xs)")
    case True
    then have "prefix pat (x # xs @ ys)" using prefix_append_same [of pat "x # xs" ys] by simp
    then show ?thesis using Cons.prems True by simp
  next
    case False
    then obtain k where k: "find_string pat xs = Some k" "n = Suc k" using Cons.prems by auto
    moreover have "\<not> prefix pat (x # xs @ ys)"
    proof
      assume "prefix pat (x # xs @ ys)"
      moreover have "length pat \<le> length (x # xs)"
        using k(1) by (induction xs arbitrary: k) (auto split: if_splits dest: prefix_length_le)
      ultimately show False using False by (metis append_Cons prefix_length_prefix prefixI)
    qed
    ultimately show ?thesis using Cons.IH by simp
  qed
qed

lemma find_string_line: "c \<notin> set xs \<Longrightarrow> find_string (c # pat) (xs @ c # pat @ ys) = Some (length xs)"
proof (induction xs)
  case Nil
  then show ?case by (simp add: prefix_def)
qed (auto simp: prefix_Cons)

text \<open>A request: the verb, the rest of the first line, the header lines and the body.\<close>

definition request_text :: "string \<Rightarrow> string \<Rightarrow> string \<Rightarrow> string \<Rightarrow> string" where
  "request_text verb target headers body = verb @ '' '' @ target @ crlf @ headers @ crlf @ crlf @ body"

text \<open>Well-formed: no line break or space where the parser looks for the first one, a \<open>Host\<close> line, and the
  first empty line is the one before the body, in which no further request is announced.\<close>

definition well_formed_request :: "string \<Rightarrow> string \<Rightarrow> string \<Rightarrow> string \<Rightarrow> bool" where
  "well_formed_request verb target headers body \<longleftrightarrow>
     CHR '' '' \<notin> set verb \<and> CHR 0x0D \<notin> set verb \<and> CHR 0x0D \<notin> set target
     \<and> find_string ''Host: '' headers \<noteq> None
     \<and> find_string (crlf @ crlf) (verb @ '' '' @ target @ crlf @ headers @ crlf @ crlf) =
         Some (length (verb @ '' '' @ target @ crlf @ headers))
     \<and> find_string ''Host: '' body = None"

lemma find_string_prepend: "find_string pat xs \<noteq> None \<Longrightarrow> find_string pat (ys @ xs) \<noteq> None"
  by (induction ys) auto

text \<open>C27: A well-formed request is parsed into exactly one request, with its verb and its body, and the whole
  of it is consumed.\<close>
theorem parse_request_text:
  assumes "well_formed_request verb target headers body"
  shows "parse_http_request \<lparr>m_cache = request_text verb target headers body, m_cache_index = 0\<rparr> =
    Some (True, [\<lparr>m_verb = verb_of verb, m_request_body = body\<rparr>],
      \<lparr>m_cache = request_text verb target headers body, m_cache_index = length (request_text verb target headers body)\<rparr>)"
proof -
  let ?t = "request_text verb target headers body"
  have parts: "?t = (verb @ '' '' @ target @ crlf @ headers @ crlf @ crlf) @ body" by (simp add: request_text_def)
  have "find_string ''Host: '' ((verb @ '' '' @ target @ crlf) @ headers @ crlf @ crlf @ body) \<noteq> None"
  proof (rule find_string_prepend)
    obtain n where "find_string ''Host: '' headers = Some n" using assms by (auto simp: well_formed_request_def)
    then show "find_string ''Host: '' (headers @ crlf @ crlf @ body) \<noteq> None" using find_string_append by simp
  qed
  then have host: "find_string ''Host: '' ?t \<noteq> None" by (simp add: request_text_def)
  have "CHR 0x0D \<notin> set (verb @ '' '' @ target)" using assms by (auto simp: well_formed_request_def)
  from find_string_line [OF this, of "newline" "headers @ crlf @ crlf @ body"]
  have line: "find_string crlf ?t = Some (length (verb @ '' '' @ target))" by (simp add: request_text_def crlf_def newline_def)
  have verb: "request_verb (take (length (verb @ '' '' @ target)) ?t) = verb_of verb"
    using find_string_line [of "CHR '' ''" verb "[]" target] assms
    by (simp add: request_verb_def request_text_def well_formed_request_def)
  have "find_string (crlf @ crlf) ?t = Some (length (verb @ '' '' @ target @ crlf @ headers))"
    unfolding parts by (rule find_string_append) (use assms in \<open>simp add: well_formed_request_def\<close>)
  then have len: "request_length ?t = length (verb @ '' '' @ target @ crlf @ headers) + 4" by (simp add: request_length_def)
  have body: "drop (request_length ?t) ?t = body"
  proof -
    let ?a = "verb @ '' '' @ target @ crlf @ headers @ crlf @ crlf"
    have "request_length ?t = length ?a" unfolding len by (simp add: crlf_def)
    then have "drop (request_length ?t) ?t = drop (length ?a) (?a @ body)" using parts by simp
    then show ?thesis by (metis append_eq_conv_conj)
  qed
  have "parse_loop body rs = Some (True, rs)" for rs
    using assms by (subst parse_loop.simps) (simp add: well_formed_request_def)
  then have "parse_loop ?t [] = Some (True, [\<lparr>m_verb = verb_of verb, m_request_body = body\<rparr>])"
    using host line verb body by (subst parse_loop.simps) (simp add: MAX_INCOMING_HTTP_REQUEST_COUNT_def)
  then show ?thesis by (simp add: parse_http_request_def)
qed

theorem parse_request_text_witness:
  "parse_http_request \<lparr>m_cache = request_text ''POST'' ''/ HTTP/1.1'' ''Host: localhost'' ''memlive-request'', m_cache_index = 0\<rparr> =
    Some (True, [\<lparr>m_verb = POST, m_request_body = ''memlive-request''\<rparr>],
      \<lparr>m_cache = request_text ''POST'' ''/ HTTP/1.1'' ''Host: localhost'' ''memlive-request'', m_cache_index = 51\<rparr>)"
proof -
  have "well_formed_request ''POST'' ''/ HTTP/1.1'' ''Host: localhost'' ''memlive-request''" by code_simp
  from parse_request_text [OF this] show ?thesis by (simp add: verb_of_def request_text_def crlf_def)
qed

text \<open>Without an empty line the parser advances by three characters only and sees the same \<open>Host\<close> again.\<close>

definition unterminated_request :: string where
  "unterminated_request = ''GET /'' @ replicate 100 CHR ''a'' @ crlf @ ''Host: h'' @ crlf"


subsection \<open>The length of an answer\<close>

lemma decimal_length: "0 < length (decimal n)"
  by (subst decimal.simps) auto

lemma decimal_length_le: "n < 10 ^ Suc k \<Longrightarrow> length (decimal n) \<le> Suc k"
proof (induction k arbitrary: n)
  case (Suc k)
  then have "n div 10 < 10 ^ Suc k" by (simp add: less_mult_imp_div_less)
  then show ?case using Suc.IH by (subst decimal.simps) simp
qed (simp add: decimal.simps)

lemma signed_decimal_length: "length (signed_decimal (sint (v :: u64))) \<le> 20"
proof -
  have "- (2 ^ 63) \<le> sint v" "sint v < 2 ^ 63" using sint_ge [of v] sint_lt [of v] by simp_all
  then have "nat (- sint v) < 10 ^ Suc 18" "nat (sint v) < 10 ^ Suc 18" by (simp_all add: nat_less_iff)
  then show ?thesis using decimal_length_le [of "nat (- sint v)" 18] decimal_length_le [of "nat (sint v)" 18] by (simp add: signed_decimal_def)
qed

lemma append_field_length:
  assumes "append_field v buffer = Some buffer'"
  shows "length buffer + 2 \<le> length buffer'" "length buffer' \<le> length buffer + 15" "length buffer' < 4096"
proof -
  have "Suc 0 \<le> length (signed_decimal (sint v))"
    using decimal_length [of "nat (sint v)"] by (auto simp: signed_decimal_def Suc_le_eq)
  then have "2 \<le> length (take 15 (signed_decimal (sint v) @ '',''))" by simp
  then show "length buffer + 2 \<le> length buffer'" "length buffer' \<le> length buffer + 15" "length buffer' < 4096"
    using assms by (auto simp: append_field_def Let_def MAX_POST_RESPONSE_DIGITS_def MAX_POST_RESPONSE_BUFFER_SIZE_def split: if_splits)
qed

lemma append_field_fits: "length buffer + 15 < 4096 \<Longrightarrow> \<exists>buffer'. append_field v buffer = Some buffer'"
  by (auto simp: append_field_def Let_def MAX_POST_RESPONSE_DIGITS_def MAX_POST_RESPONSE_BUFFER_SIZE_def)

lemma append_classes_length:
  "append_classes cs buffer = Some buffer' \<Longrightarrow>
    length buffer + 6 * length cs \<le> length buffer' \<and> length buffer' \<le> length buffer + 45 * length cs"
proof (induction cs arbitrary: buffer)
  case (Cons c cs)
  then obtain a b d where s: "append_field (m_alloc_count c) buffer = Some a" "append_field (m_free_count c) a = Some b"
    "append_field (m_peak_usage_count c) b = Some d" "append_classes cs d = Some buffer'"
    by (auto split: bind_splits)
  show ?case using append_field_length(1,2) [OF s(1)] append_field_length(1,2) [OF s(2)] append_field_length(1,2) [OF s(3)]
      Cons.IH [OF s(4)] by simp
qed simp

lemma append_classes_fits: "length buffer + 45 * length cs < 4096 \<Longrightarrow> \<exists>buffer'. append_classes cs buffer = Some buffer'"
proof (induction cs arbitrary: buffer)
  case (Cons c cs)
  then obtain a where a: "append_field (m_alloc_count c) buffer = Some a" using append_field_fits [of buffer] by fastforce
  then obtain b where b: "append_field (m_free_count c) a = Some b"
    using Cons.prems append_field_length(2) append_field_fits [of a] by fastforce
  then obtain d where d: "append_field (m_peak_usage_count c) b = Some d"
    using Cons.prems append_field_length(2) [OF a] append_field_length(2) append_field_fits [of b] by fastforce
  have "length d \<le> length buffer + 45"
    using append_field_length(2) [OF a] append_field_length(2) [OF b] append_field_length(2) [OF d] by linarith
  then show ?case using Cons.IH [of d] Cons.prems a b d by simp
qed simp

definition reported :: "u64 \<Rightarrow> ThreadStats list \<Rightarrow> ThreadStats list" where
  "reported own_id stats = filter (\<lambda>s. m_tls_id s \<noteq> own_id) stats"

lemma append_threads_length:
  "append_threads own_id stats buffer = Some buffer' \<Longrightarrow> list_all (\<lambda>s. length (m_size_class_stats s) = 21) stats \<Longrightarrow>
    length buffer + 126 * length (reported own_id stats) \<le> length buffer'"
proof (induction stats arbitrary: buffer)
  case (Cons s stats)
  show ?case
  proof (cases "m_tls_id s = own_id")
    case True
    then show ?thesis using Cons by (simp add: reported_def)
  next
    case False
    then obtain a where a: "append_classes (m_size_class_stats s) buffer = Some a" "append_threads own_id stats a = Some buffer'"
      using Cons.prems by (auto split: bind_splits)
    then show ?thesis using append_classes_length [OF a(1)] Cons.IH [OF a(2)] Cons.prems(2) False by (simp add: reported_def)
  qed
qed (simp add: reported_def)

lemma append_threads_fits:
  "length buffer + 945 * length (reported own_id stats) < 4096 \<Longrightarrow> list_all (\<lambda>s. length (m_size_class_stats s) = 21) stats \<Longrightarrow>
    \<exists>buffer'. append_threads own_id stats buffer = Some buffer'"
proof (induction stats arbitrary: buffer)
  case (Cons s stats)
  show ?case
  proof (cases "m_tls_id s = own_id")
    case True
    then show ?thesis using Cons by (simp add: reported_def)
  next
    case False
    then obtain a where a: "append_classes (m_size_class_stats s) buffer = Some a"
      using append_classes_fits [of buffer "m_size_class_stats s"] Cons.prems by (auto simp: reported_def)
    have "length a \<le> length buffer + 945" using append_classes_length [OF a] Cons.prems(2) by simp
    then have "\<exists>buffer'. append_threads own_id stats a = Some buffer'"
      using False Cons.prems by (intro Cons.IH) (auto simp: reported_def)
    then show ?thesis using a False by simp
  qed
qed (simp add: reported_def)

lemma append_classes_inside: "append_classes cs buffer = Some buffer' \<Longrightarrow> length buffer < 4096 \<Longrightarrow> length buffer' < 4096"
proof (induction cs arbitrary: buffer)
  case (Cons c cs)
  then obtain a b d where s: "append_field (m_alloc_count c) buffer = Some a" "append_field (m_free_count c) a = Some b"
    "append_field (m_peak_usage_count c) b = Some d" "append_classes cs d = Some buffer'"
    by (auto split: bind_splits)
  then show ?case using Cons.IH [OF s(4)] append_field_length(3) [OF s(3)] by simp
qed simp

lemma append_threads_inside: "append_threads own_id stats buffer = Some buffer' \<Longrightarrow> length buffer < 4096 \<Longrightarrow> length buffer' < 4096"
proof (induction stats arbitrary: buffer)
  case (Cons s stats)
  then show ?case using append_classes_inside by (auto split: if_splits bind_splits)
qed simp

lemma observed_classes:
  "profiler_inv ts p \<Longrightarrow> list_all (\<lambda>s. length (m_size_class_stats s) = 21) (observed_stats p)"
  using unat_of_nat_nowrap [of "length ts"]
  by (auto simp: profiler_inv_def observed_stats_def MEMLIVE_MAX_SIZE_CLASS_COUNT_def list_all_iff)

text \<open>C37: The answer to a POST request fits its buffer of 4096 bytes when at most four threads other than the
  reactor's are reported, and is stored beyond the buffer as soon as 33 are: every number takes up to 15
  characters, and at least two.\<close>
theorem post_response_length:
  assumes "profiler_inv ts p"
  shows "(length (reported own_id (observed_stats p)) \<le> 4 \<longrightarrow> (\<exists>buffer. update_post_response own_id p = Some buffer \<and> length buffer < 4096)) \<and>
    (33 \<le> length (reported own_id (observed_stats p)) \<longrightarrow> update_post_response own_id p = None)"
proof -
  let ?n = "sint (m_observed_thread_count p - 1)"
  let ?start = "take (MAX_POST_RESPONSE_BUFFER_SIZE - 1) (signed_decimal ?n @ '','' @ signed_decimal (int MEMLIVE_MAX_SIZE_CLASS_COUNT) @ '','')"
  note stats = observed_classes [OF assms]
  have start: "length ?start < 4096" by (simp add: MAX_POST_RESPONSE_BUFFER_SIZE_def)
  have "update_post_response own_id p = None" if "33 \<le> length (reported own_id (observed_stats p))"
  proof (rule ccontr)
    assume "update_post_response own_id p \<noteq> None"
    then obtain b where b: "append_threads own_id (observed_stats p) ?start = Some b" by (auto simp: update_post_response_def)
    show False using append_threads_length [OF b stats] append_threads_inside [OF b start] that by simp
  qed
  moreover have "\<exists>buffer. update_post_response own_id p = Some buffer \<and> length buffer < 4096"
    if "length (reported own_id (observed_stats p)) \<le> 4"
  proof -
    have "length (signed_decimal (int MEMLIVE_MAX_SIZE_CLASS_COUNT)) = 2"
      by (simp add: signed_decimal_def MEMLIVE_MAX_SIZE_CLASS_COUNT_def decimal.simps)
    then have "length ?start \<le> 24" using signed_decimal_length [of "m_observed_thread_count p - 1"] by simp
    then have "length ?start + 945 * length (reported own_id (observed_stats p)) < 4096" using that by linarith
    then obtain b where "append_threads own_id (observed_stats p) ?start = Some b" using append_threads_fits [OF _ stats] by blast
    then show ?thesis using append_threads_inside start by (auto simp: update_post_response_def)
  qed
  ultimately show ?thesis by blast
qed

theorem post_response_length_witness:
  "\<exists>buffer. update_post_response 0 (Profiler_new 4096 (Some 1)) = Some buffer \<and> length buffer < 4096"
proof -
  have "profiler_inv [] (Profiler_new 4096 (Some 1))"
    using profiled_start [of 4096 "Some 1"] by (simp add: profiled_def profiler_place_def)
  moreover have "length (reported 0 (observed_stats (Profiler_new 4096 (Some 1)))) \<le> 4"
    by (simp add: reported_def observed_stats_def Profiler_new_def)
  ultimately show ?thesis using post_response_length by blast
qed

end
