(* ===== verification/Tcp_Reactor.thy ===== *)
theory Tcp_Reactor
  imports Socket Http_Profiler Lockable
begin

text \<open>
  \<open>include/utilities/tcp_reactor.h\<close> with the handler of \<open>include/utilities/http_cpr_reactor.h\<close>, the Linux build: the
  table of connections, the reactor that serves them, and the start and the stop of its thread.

  The answers of the kernel (the ready descriptors, what \<open>select\<close>, \<open>accept\<close> and \<open>recv\<close> return, \<open>errno\<close>) are arguments.
  An index beyond a vector is undefined behaviour, which is \<open>None\<close>.
\<close>

subsection \<open>The table of connections\<close>

record Connectors =
  m_connector_sockets :: "Socket list"
  m_connector_sockets_connection_flags :: "bool list"
  m_connector_socket_index_table :: "int \<rightharpoonup> nat"

definition Connectors_new :: Connectors where
  "Connectors_new = \<lparr>m_connector_sockets = [], m_connector_sockets_connection_flags = [], m_connector_socket_index_table = Map.empty\<rparr>"

definition Connectors_get_capacity :: "Connectors \<Rightarrow> nat" where
  "Connectors_get_capacity c = length (m_connector_sockets c)"

definition get_connector_socket :: "nat \<Rightarrow> Connectors \<Rightarrow> Socket option" where
  "get_connector_socket i c = (if i < length (m_connector_sockets c) then Some (m_connector_sockets c ! i) else None)"

definition get_socket_descriptor :: "nat \<Rightarrow> Connectors \<Rightarrow> int option" where
  "get_socket_descriptor i c = map_option m_socket_descriptor (get_connector_socket i c)"

text \<open>The first slot that is not in use, else a new one.  A socket that is replaced is destroyed, and so closed.\<close>

definition non_used_connector_index :: "Connectors \<Rightarrow> nat option" where
  "non_used_connector_index c =
     List.find (\<lambda>i. m_connector_sockets_connection_flags c ! i = False) [0..<length (m_connector_sockets c)]"

definition add_connector :: "Socket \<Rightarrow> Connectors \<times> net \<Rightarrow> nat \<times> Connectors \<times> net" where
  "add_connector connector = (\<lambda>(c, n).
     let (ret, c, n) =
       (case non_used_connector_index c of
          None \<Rightarrow>
            let c = c\<lparr>m_connector_sockets_connection_flags := m_connector_sockets_connection_flags c @ [True],
                      m_connector_sockets := m_connector_sockets c @ [connector]\<rparr>
            in (length (m_connector_sockets c) - 1, c, n)
        | Some i \<Rightarrow>
            let (_, n) = Socket_close (m_connector_sockets c ! i, n)
            in (i, c\<lparr>m_connector_sockets := (m_connector_sockets c)[i := connector],
                     m_connector_sockets_connection_flags := (m_connector_sockets_connection_flags c)[i := True]\<rparr>, n));
         desc = m_socket_descriptor connector
     in (ret, c\<lparr>m_connector_socket_index_table := (m_connector_socket_index_table c)(desc \<mapsto> ret)\<rparr>, n))"

definition remove_connector :: "nat \<Rightarrow> Connectors \<times> net \<Rightarrow> (Connectors \<times> net) option" where
  "remove_connector i = (\<lambda>(c, n). do {
     connector_socket \<leftarrow> get_connector_socket i c;
     let c = c\<lparr>m_connector_sockets_connection_flags := (m_connector_sockets_connection_flags c)[i := False]\<rparr>;
     let (connector_socket, n) = Socket_close (connector_socket, n);
     Some (c\<lparr>m_connector_sockets := (m_connector_sockets c)[i := connector_socket]\<rparr>, n) })"

text \<open>\<open>operator[]\<close> of the table: a missing key is entered with the value 0.\<close>

definition get_connector_index_from_descriptor :: "int \<Rightarrow> Connectors \<Rightarrow> nat \<times> Connectors" where
  "get_connector_index_from_descriptor fd c =
     (case m_connector_socket_index_table c fd of
        Some i \<Rightarrow> (i, c)
      | None \<Rightarrow> (0, c\<lparr>m_connector_socket_index_table := (m_connector_socket_index_table c)(fd \<mapsto> 0)\<rparr>))"

fun close_sockets :: "Socket list \<Rightarrow> net \<Rightarrow> Socket list \<times> net" where
  "close_sockets [] n = ([], n)"
| "close_sockets (s # ss) n = (let (s, n) = Socket_close (s, n); (ss, n) = close_sockets ss n in (s # ss, n))"

definition close_all_sockets :: "Connectors \<times> net \<Rightarrow> Connectors \<times> net" where
  "close_all_sockets = (\<lambda>(c, n).
     let (ss, n) = close_sockets (m_connector_sockets c) n in (c\<lparr>m_connector_sockets := ss\<rparr>, n))"

subsection \<open>The reactor\<close>

record TcpReactor =
  m_reactor_thread :: bool
  m_accept_timeout_seconds :: int
  m_poll_timeout :: int
  m_acceptor_socket :: Socket
  m_is_stopping :: bool
  m_connectors :: Connectors

text \<open>The object (the base class and the derived one) and the descriptors of the process.\<close>

record world =
  tcp :: TcpReactor
  http :: reactor
  net_of :: net

definition TcpReactor_new :: TcpReactor where
  "TcpReactor_new = \<lparr>m_reactor_thread = False, m_accept_timeout_seconds = - 1, m_poll_timeout = 0,
     m_acceptor_socket = Socket_new, m_is_stopping = False, m_connectors = Connectors_new\<rparr>"

definition world_new :: "net \<Rightarrow> world" where
  "world_new n = \<lparr>tcp = TcpReactor_new, http = \<lparr>m_cache = [], m_cache_index = 0\<rparr>, net_of = n\<rparr>"

text \<open>\<open>start\<close>, given the answers of \<open>socket\<close>, \<open>setsockopt\<close>, \<open>bind\<close> and \<open>listen\<close>; a failure of \<open>create\<close> is not looked at.\<close>

record start_answers =
  socket_answer :: int
  setsockopt_answer :: int
  bind_answer :: int
  listen_answer :: int

definition TcpReactor_start ::
  "resolver \<Rightarrow> start_answers \<Rightarrow> string \<Rightarrow> int \<Rightarrow> int \<Rightarrow> int \<Rightarrow> int \<Rightarrow> world \<Rightarrow> bool \<times> world" where
  "TcpReactor_start R k address port poll_timeout_nanoseconds accept_timeout_seconds pending_connection_queue_size w =
     (let t = (tcp w)\<lparr>m_is_stopping := False, m_accept_timeout_seconds := accept_timeout_seconds\<rparr>;
          (_, a, n) = Socket_create (socket_answer k) (m_acceptor_socket t, net_of w);
          a = set_pending_connections_queue_size pending_connection_queue_size a;
          _ = set_socket_option (setsockopt_answer k) SOCKET REUSE_ADDRESS;
          (ok, a) = Socket_bind R (bind_answer k) address port a
      in if \<not> ok then (False, w\<lparr>tcp := t\<lparr>m_acceptor_socket := a\<rparr>, net_of := n\<rparr>)
         else let (ok, a) = Socket_listen (listen_answer k) a
              in if \<not> ok then (False, w\<lparr>tcp := t\<lparr>m_acceptor_socket := a\<rparr>, net_of := n\<rparr>)
                 else let (a, n) = set_blocking_mode False (a, n);
                          t = t\<lparr>m_poll_timeout := Epoll_set_timeout poll_timeout_nanoseconds\<rparr>;
                          n = Epoll_add_descriptor (m_socket_descriptor a) n
                      in (True, w\<lparr>tcp := t\<lparr>m_acceptor_socket := a, m_reactor_thread := True\<rparr>, net_of := n\<rparr>))"

text \<open>\<open>stop\<close>, once the lock is taken and \<open>join\<close> has returned; how it gets there is the last part of this theory.\<close>

definition TcpReactor_stop :: "world \<Rightarrow> world" where
  "TcpReactor_stop w =
     (if m_is_stopping (tcp w) = False
      then let t = (tcp w)\<lparr>m_is_stopping := True\<rparr>;
               n = Epoll_clear_descriptors (net_of w);
               (c, n) = close_all_sockets (m_connectors t, n)
           in w\<lparr>tcp := t\<lparr>m_connectors := c\<rparr>, net_of := n\<rparr>
      else w)"

text \<open>One ready descriptor, with what the kernel answers to the calls that its handler makes.\<close>

record event =
  descriptor :: int
  is_valid_event :: bool
  select_answer :: int
  accept_answer :: int
  peer_address :: SocketAddress
  recv_answer :: int
  received :: string
  errno :: int

definition accept_new_connection :: "event \<Rightarrow> world \<Rightarrow> nat \<times> world" where
  "accept_new_connection e w =
     (let (connector_socket, a, n) = Socket_accept (select_answer e) (accept_answer e) (peer_address e) (m_acceptor_socket (tcp w), net_of w);
          t = (tcp w)\<lparr>m_acceptor_socket := a\<rparr>
      in case connector_socket of
           None \<Rightarrow> (0, w\<lparr>tcp := t, net_of := n\<rparr>)
         | Some connector_socket \<Rightarrow>
             let (connector_index, c, n) = add_connector connector_socket (m_connectors t, n);
                 n = Epoll_add_descriptor (m_socket_descriptor connector_socket) n
             in (connector_index, w\<lparr>tcp := t\<lparr>m_connectors := c\<rparr>, net_of := n\<rparr>))"

definition on_client_disconnected :: "nat \<Rightarrow> world \<Rightarrow> world option" where
  "on_client_disconnected i w = do {
     fd \<leftarrow> get_socket_descriptor i (m_connectors (tcp w));
     let n = Epoll_remove_descriptor fd (net_of w);
     (c, n) \<leftarrow> remove_connector i (m_connectors (tcp w), n);
     Some (w\<lparr>tcp := (tcp w)\<lparr>m_connectors := c\<rparr>, net_of := n\<rparr>) }"

text \<open>An operation on the socket of a slot.\<close>

definition on_peer :: "nat \<Rightarrow> (Socket \<times> net \<Rightarrow> Socket \<times> net) \<Rightarrow> world \<Rightarrow> world option" where
  "on_peer i f w = do {
     peer_socket \<leftarrow> get_connector_socket i (m_connectors (tcp w));
     let (peer_socket, n) = f (peer_socket, net_of w);
     let c = m_connectors (tcp w);
     Some (w\<lparr>tcp := (tcp w)\<lparr>m_connectors := c\<lparr>m_connector_sockets := (m_connector_sockets c)[i := peer_socket]\<rparr>\<rparr>, net_of := n\<rparr>) }"

text \<open>The branches of the handler for a \<open>receive\<close> without data.\<close>

definition on_receive_failure :: "nat \<Rightarrow> event \<Rightarrow> world \<Rightarrow> world option" where
  "on_receive_failure i e w =
     (if recv_answer e = 0 then on_client_disconnected i w
      else do {
        peer_socket \<leftarrow> get_connector_socket i (m_connectors (tcp w));
        w \<leftarrow> on_peer i (\<lambda>(s, n). (snd (is_connection_lost_during_receive (errno e) s), n)) w;
        if fst (is_connection_lost_during_receive (errno e) peer_socket) then on_client_disconnected i w else Some w })"

text \<open>The whole of \<open>on_data_ready\<close>: the answers to the requests, each with the descriptor it is sent to, and the end
  of the connection.  The two branches of the first \<open>if\<close> exclude each other, so the requests may come first.\<close>

definition on_peer_data_ready :: "string \<Rightarrow> u64 \<Rightarrow> Profiler \<Rightarrow> nat \<Rightarrow> event \<Rightarrow> world \<Rightarrow> ((int \<times> string) list \<times> world) option" where
  "on_peer_data_ready page own_id p i e w = do {
     peer_socket \<leftarrow> get_connector_socket i (m_connectors (tcp w));
     (sent, h) \<leftarrow> on_data_ready page own_id p (recv_answer e) (received e) (http w);
     let w = w\<lparr>http := h\<rparr>;
     w \<leftarrow> (if 0 < recv_answer e \<and> recv_answer e \<le> int RECEIVE_SIZE then Some w else on_receive_failure i e w);
     w \<leftarrow> on_peer i Socket_close w;
     w \<leftarrow> on_client_disconnected i w;
     Some (map (Pair (m_socket_descriptor peer_socket)) sent, w) }"

definition handle_event :: "string \<Rightarrow> u64 \<Rightarrow> Profiler \<Rightarrow> event \<Rightarrow> world \<Rightarrow> ((int \<times> string) list \<times> world) option" where
  "handle_event page own_id p e w =
     (let (peer_index, c) = get_connector_index_from_descriptor (descriptor e) (m_connectors (tcp w));
          w = w\<lparr>tcp := (tcp w)\<lparr>m_connectors := c\<rparr>\<rparr>
      in if is_valid_event e
         then if descriptor e = m_socket_descriptor (m_acceptor_socket (tcp w)) then Some ([], snd (accept_new_connection e w))
              else on_peer_data_ready page own_id p peer_index e w
         else Some ([], w))"

fun handle_events :: "string \<Rightarrow> u64 \<Rightarrow> Profiler \<Rightarrow> event list \<Rightarrow> world \<Rightarrow> ((int \<times> string) list \<times> world) option" where
  "handle_events page own_id p [] w = Some ([], w)"
| "handle_events page own_id p (e # es) w = do {
     (sent, w) \<leftarrow> handle_event page own_id p e w;
     (rest, w) \<leftarrow> handle_events page own_id p es w;
     Some (sent @ rest, w) }"

text \<open>One turn of the loop: the answer of \<open>epoll_wait\<close> is an error, or the ready descriptors (none after a timeout).
  The error handler does nothing.\<close>

definition reactor_turn :: "string \<Rightarrow> u64 \<Rightarrow> Profiler \<Rightarrow> event list option \<Rightarrow> world \<Rightarrow> ((int \<times> string) list \<times> world) option" where
  "reactor_turn page own_id p ready w = (case ready of None \<Rightarrow> Some ([], w) | Some es \<Rightarrow> handle_events page own_id p es w)"

subsection \<open>The invariant of the table\<close>

text \<open>A slot in use holds an open, watched descriptor of its own that the table maps to the slot; a slot that is free
  holds a closed socket; what is watched is the acceptor or the descriptor of a slot in use.\<close>

definition slot_connected :: "world \<Rightarrow> nat \<Rightarrow> int \<Rightarrow> bool" where
  "slot_connected w i fd \<longleftrightarrow>
     (let c = m_connectors (tcp w)
      in i < length (m_connector_sockets c) \<and> m_connector_sockets_connection_flags c ! i
         \<and> m_socket_descriptor (m_connector_sockets c ! i) = fd)"

definition descriptor_served :: "world \<Rightarrow> nat \<Rightarrow> int \<Rightarrow> bool" where
  "descriptor_served w i fd \<longleftrightarrow>
     m_state (m_connector_sockets (m_connectors (tcp w)) ! i) = CONNECTED \<and> fd > 0
     \<and> fd \<in> set (open_descriptors (net_of w)) \<and> fd \<in> set (watched (net_of w))
     \<and> m_connector_socket_index_table (m_connectors (tcp w)) fd = Some i
     \<and> fd \<noteq> m_socket_descriptor (m_acceptor_socket (tcp w))"

definition serving_inv :: "world \<Rightarrow> bool" where
  "serving_inv w \<longleftrightarrow>
     (let c = m_connectors (tcp w); a = m_acceptor_socket (tcp w)
      in length (m_connector_sockets_connection_flags c) = length (m_connector_sockets c)
         \<and> (m_state a = LISTENING \<or> m_state a = ACCEPTED) \<and> m_socket_descriptor a \<in> set (open_descriptors (net_of w))
         \<and> (\<forall>i fd. slot_connected w i fd \<longrightarrow> descriptor_served w i fd)
         \<and> (\<forall>i < length (m_connector_sockets c). \<not> m_connector_sockets_connection_flags c ! i
              \<longrightarrow> m_state (m_connector_sockets c ! i) = DISCONNECTED)
         \<and> (\<forall>fd \<in> set (watched (net_of w)). fd = m_socket_descriptor a \<or> (\<exists>i. slot_connected w i fd)))"

lemmas serving_defs = serving_inv_def slot_connected_def descriptor_served_def Let_def

lemma serving_invD:
  assumes "serving_inv w"
  shows "length (m_connector_sockets_connection_flags (m_connectors (tcp w))) = length (m_connector_sockets (m_connectors (tcp w)))"
    "slot_connected w i fd \<Longrightarrow> descriptor_served w i fd"
    "fd \<in> set (watched (net_of w)) \<Longrightarrow> fd = m_socket_descriptor (m_acceptor_socket (tcp w)) \<or> (\<exists>i. slot_connected w i fd)"
  using assms by (auto simp: serving_inv_def Let_def)

lemma slot_unique:
  assumes "serving_inv w" "slot_connected w i fd" "slot_connected w j fd"
  shows "i = j"
  using serving_invD(2) [OF assms(1,2)] serving_invD(2) [OF assms(1,3)] by (simp add: descriptor_served_def)

lemma lookup_connected:
  assumes "serving_inv w" "slot_connected w i fd"
  shows "get_connector_index_from_descriptor fd (m_connectors (tcp w)) = (i, m_connectors (tcp w))"
  using serving_invD(2) [OF assms] by (simp add: descriptor_served_def get_connector_index_from_descriptor_def)

text \<open>A lookup does no harm.\<close>

lemma lookup_keeps:
  assumes "serving_inv w" "get_connector_index_from_descriptor fd (m_connectors (tcp w)) = (i, c)"
  shows "serving_inv (w\<lparr>tcp := (tcp w)\<lparr>m_connectors := c\<rparr>\<rparr>)"
proof (cases "m_connector_socket_index_table (m_connectors (tcp w)) fd")
  case None
  then have c: "c = (m_connectors (tcp w))\<lparr>m_connector_socket_index_table := (m_connector_socket_index_table (m_connectors (tcp w)))(fd \<mapsto> 0)\<rparr>"
    using assms(2) by (simp add: get_connector_index_from_descriptor_def)
  show ?thesis using assms(1) None by (auto simp: serving_defs c)
next
  case (Some j)
  then have "c = m_connectors (tcp w)" using assms(2) by (simp add: get_connector_index_from_descriptor_def)
  then show ?thesis using assms(1) by simp
qed

subsection \<open>A new connection\<close>

lemma set_blocking_mode_keeps:
  assumes "set_blocking_mode b (s, n) = (s', n')"
  shows "m_state s' = m_state s" "m_socket_descriptor s' = m_socket_descriptor s" "open_descriptors n' = open_descriptors n"
    "watched n' = watched n"
  using assms by (auto simp: set_blocking_mode_def Let_def)

text \<open>Either no connection is taken, or the kernel has opened its descriptor.\<close>

lemma Socket_accept_result:
  assumes "m_state s = LISTENING \<or> m_state s = ACCEPTED" "Socket_accept sel r peer (s, n) = (res, s', n')"
  shows "m_socket_descriptor s' = m_socket_descriptor s \<and> (m_state s' = LISTENING \<or> m_state s' = ACCEPTED) \<and> watched n' = watched n
    \<and> (res = None \<and> open_descriptors n' = open_descriptors n
       \<or> r \<ge> 0 \<and> open_descriptors n' = r # open_descriptors n
         \<and> (\<exists>cs. res = Some cs \<and> m_socket_descriptor cs = r \<and> m_state cs = CONNECTED))"
  using assms by (auto simp: Socket_accept_def set_blocking_mode_def opened_def Let_def split: if_splits)

lemma non_used_Some:
  assumes "non_used_connector_index c = Some i"
  shows "i < length (m_connector_sockets c)" "\<not> m_connector_sockets_connection_flags c ! i"
  using assms by (auto simp: non_used_connector_index_def find_Some_iff)

lemma non_used_None:
  assumes "non_used_connector_index c = None" "i < length (m_connector_sockets c)"
  shows "m_connector_sockets_connection_flags c ! i"
  using assms by (auto simp: non_used_connector_index_def find_None_iff)

lemma add_connector_result:
  assumes "add_connector cs (c, n) = (i, c', n')"
    and len: "length (m_connector_sockets_connection_flags c) = length (m_connector_sockets c)"
    and free: "\<forall>j < length (m_connector_sockets c). \<not> m_connector_sockets_connection_flags c ! j
      \<longrightarrow> m_state (m_connector_sockets c ! j) = DISCONNECTED"
  shows "n' = n \<and> i < length (m_connector_sockets c')
    \<and> length (m_connector_sockets_connection_flags c') = length (m_connector_sockets c')
    \<and> m_connector_sockets c' ! i = cs \<and> m_connector_sockets_connection_flags c' ! i
    \<and> m_connector_socket_index_table c' = (m_connector_socket_index_table c)(m_socket_descriptor cs \<mapsto> i)
    \<and> (i < length (m_connector_sockets c) \<longrightarrow> \<not> m_connector_sockets_connection_flags c ! i)
    \<and> (\<forall>j. j \<noteq> i \<longrightarrow> (j < length (m_connector_sockets c') \<longleftrightarrow> j < length (m_connector_sockets c))
        \<and> (j < length (m_connector_sockets c) \<longrightarrow> m_connector_sockets c' ! j = m_connector_sockets c ! j
           \<and> m_connector_sockets_connection_flags c' ! j = m_connector_sockets_connection_flags c ! j))"
proof (cases "non_used_connector_index c")
  case None
  have "(\<exists>j < length (m_connector_sockets c). \<not> m_connector_sockets_connection_flags c ! j) = False"
    using non_used_None [OF None] by blast
  then show ?thesis using assms(1) len None by (auto simp: add_connector_def Let_def nth_append)
next
  case (Some k)
  note k = non_used_Some [OF Some]
  then have "Socket_close (m_connector_sockets c ! k, n) = (m_connector_sockets c ! k, n)"
    using free by (simp add: Socket_close_def)
  then show ?thesis using assms(1) len k Some by (auto simp: add_connector_def Let_def)
qed

text \<open>A descriptor that \<open>accept\<close> answers is new.\<close>

definition accepts_new :: "event \<Rightarrow> world \<Rightarrow> bool" where
  "accepts_new e w \<longleftrightarrow>
     (accept_answer e \<ge> 0 \<longrightarrow> accept_answer e > 0 \<and> accept_answer e \<notin> set (open_descriptors (net_of w)))"

text \<open>The world with one more connection.\<close>

lemma serving_inv_add:
  assumes inv: "serving_inv w" and i: "(i, c', n') = add_connector cs (m_connectors (tcp w), n)"
    and a: "m_socket_descriptor a = m_socket_descriptor (m_acceptor_socket (tcp w))" "m_state a = LISTENING \<or> m_state a = ACCEPTED"
    and fd: "fd = m_socket_descriptor cs" "fd > 0" "fd \<notin> set (open_descriptors (net_of w))" "m_state cs = CONNECTED"
    and n: "open_descriptors n = fd # open_descriptors (net_of w)" "watched n = watched (net_of w)"
  shows "serving_inv (w\<lparr>tcp := (tcp w)\<lparr>m_acceptor_socket := a, m_connectors := c'\<rparr>, net_of := Epoll_add_descriptor fd n'\<rparr>)"
    (is "serving_inv ?w")
proof -
  let ?c = "m_connectors (tcp w)"
  note r = add_connector_result [OF i [symmetric]]
  have res: "n' = n" "i < length (m_connector_sockets c')"
    "length (m_connector_sockets_connection_flags c') = length (m_connector_sockets c')"
    "m_connector_sockets c' ! i = cs" "m_connector_sockets_connection_flags c' ! i"
    "m_connector_socket_index_table c' = (m_connector_socket_index_table ?c)(fd \<mapsto> i)"
    "i < length (m_connector_sockets ?c) \<longrightarrow> \<not> m_connector_sockets_connection_flags ?c ! i"
    "\<And>j. j \<noteq> i \<Longrightarrow> j < length (m_connector_sockets c') \<longleftrightarrow> j < length (m_connector_sockets ?c)"
    "\<And>j. j \<noteq> i \<Longrightarrow> j < length (m_connector_sockets ?c) \<Longrightarrow> m_connector_sockets c' ! j = m_connector_sockets ?c ! j
       \<and> m_connector_sockets_connection_flags c' ! j = m_connector_sockets_connection_flags ?c ! j"
    using r inv fd(1) by (auto simp: serving_inv_def Let_def)
  have unwatched: "fd \<notin> set (watched (net_of w))"
    using fd(3) inv by (auto simp: serving_inv_def descriptor_served_def Let_def)
  have k: "open_descriptors (net_of ?w) = fd # open_descriptors (net_of w)" "watched (net_of ?w) = fd # watched (net_of w)"
    using n unwatched by (simp_all add: Epoll_add_descriptor_def res(1))
  have old: "slot_connected ?w j x \<longleftrightarrow> (if j = i then x = fd else slot_connected w j x)" for j x
    using res fd(1) by (auto simp: slot_connected_def Let_def)
  have kept: "slot_connected w j x \<Longrightarrow> j \<noteq> i" for j x using res(7) by (auto simp: slot_connected_def Let_def)
  have open': "slot_connected w j x \<Longrightarrow> x \<noteq> fd" for j x
    using serving_invD(2) [OF inv, of j x] fd(3) by (auto simp: descriptor_served_def)
  have "descriptor_served ?w i fd"
    using res fd k a inv by (auto simp: descriptor_served_def serving_inv_def Let_def)
  moreover have "descriptor_served ?w j x" if "j \<noteq> i" "slot_connected w j x" for j x
  proof -
    have "j < length (m_connector_sockets ?c)" using that(2) by (simp add: slot_connected_def Let_def)
    then show ?thesis using serving_invD(2) [OF inv that(2)] res(9) [OF that(1)] open' [OF that(2)] k a
      by (simp add: descriptor_served_def res(6))
  qed
  ultimately have served: "\<forall>j x. slot_connected ?w j x \<longrightarrow> descriptor_served ?w j x" by (simp add: old)
  have watch: "\<forall>x \<in> set (watched (net_of ?w)). x = m_socket_descriptor a \<or> (\<exists>j. slot_connected ?w j x)"
    unfolding k(2) using serving_invD(3) [OF inv] kept a(1) by (auto simp: old)
  have free: "\<forall>j < length (m_connector_sockets c'). \<not> m_connector_sockets_connection_flags c' ! j
      \<longrightarrow> m_state (m_connector_sockets c' ! j) = DISCONNECTED"
  proof (intro allI impI)
    fix j assume "j < length (m_connector_sockets c')" "\<not> m_connector_sockets_connection_flags c' ! j"
    then show "m_state (m_connector_sockets c' ! j) = DISCONNECTED"
      using res(5) res(8,9) [of j] inv by (cases "j = i") (auto simp: serving_inv_def Let_def)
  qed
  show ?thesis
    unfolding serving_inv_def Let_def using served watch free res(3) a k(1) inv
    by (simp add: serving_inv_def Let_def)
qed

lemma accept_keeps:
  assumes inv: "serving_inv w" and new: "accepts_new e w"
  shows "serving_inv (snd (accept_new_connection e w))"
proof -
  let ?a = "m_acceptor_socket (tcp w)"
  obtain res a n where acc: "Socket_accept (select_answer e) (accept_answer e) (peer_address e) (?a, net_of w) = (res, a, n)"
    by (metis prod_cases3)
  have st: "m_state ?a = LISTENING \<or> m_state ?a = ACCEPTED" using inv by (simp add: serving_inv_def Let_def)
  note r = Socket_accept_result [OF st acc]
  show ?thesis
  proof (cases res)
    case None
    then have "snd (accept_new_connection e w) = w\<lparr>tcp := (tcp w)\<lparr>m_acceptor_socket := a\<rparr>, net_of := n\<rparr>"
      by (simp add: accept_new_connection_def acc Let_def)
    then show ?thesis using inv r None by (auto simp: serving_defs)
  next
    case (Some cs)
    obtain i c' n' where add: "add_connector cs (m_connectors (tcp w), n) = (i, c', n')" by (metis prod_cases3)
    have "snd (accept_new_connection e w) =
      w\<lparr>tcp := (tcp w)\<lparr>m_acceptor_socket := a, m_connectors := c'\<rparr>, net_of := Epoll_add_descriptor (m_socket_descriptor cs) n'\<rparr>"
      using Some by (simp add: accept_new_connection_def acc add Let_def)
    moreover have "serving_inv \<dots>"
      by (rule serving_inv_add [OF inv add [symmetric]]) (use r Some new in \<open>auto simp: accepts_new_def\<close>)
    ultimately show ?thesis by simp
  qed
qed

subsection \<open>The end of a connection\<close>

definition connection_lost :: "event \<Rightarrow> bool" where
  "connection_lost e \<longleftrightarrow> (recv_answer e < 0 \<or> recv_answer e > int RECEIVE_SIZE) \<and> fst (is_connection_lost_during_receive (errno e) Socket_new)"

definition without_connection :: "bool \<Rightarrow> nat \<Rightarrow> world \<Rightarrow> world" where
  "without_connection lost i w =
     (let c = m_connectors (tcp w); s = m_connector_sockets c ! i; fd = m_socket_descriptor s; n = net_of w
      in w\<lparr>tcp := (tcp w)\<lparr>m_connectors := c\<lparr>m_connector_sockets := (m_connector_sockets c)[i := s\<lparr>m_state := DISCONNECTED\<rparr>],
             m_connector_sockets_connection_flags := (m_connector_sockets_connection_flags c)[i := False]\<rparr>\<rparr>,
           net_of := if lost then Epoll_remove_descriptor fd n else sys_close fd n\<rparr>)"

lemma get_connector_socket_eq [simp]:
  "i < length (m_connector_sockets c) \<Longrightarrow> get_connector_socket i c = Some (m_connector_sockets c ! i)"
  by (simp add: get_connector_socket_def)

lemma get_socket_descriptor_eq [simp]:
  "i < length (m_connector_sockets c) \<Longrightarrow> get_socket_descriptor i c = Some (m_socket_descriptor (m_connector_sockets c ! i))"
  by (simp add: get_socket_descriptor_def)

lemmas disconnect_defs = on_client_disconnected_def remove_connector_def on_peer_def Socket_close_def without_connection_def
  Epoll_remove_descriptor_def sys_close_def Let_def

lemma lost_eq:
  "fst (is_connection_lost_during_receive e s) = fst (is_connection_lost_during_receive e s')"
  "fst (is_connection_lost_during_receive e s) \<Longrightarrow> snd (is_connection_lost_during_receive e s) = s\<lparr>m_state := DISCONNECTED\<rparr>"
  "\<not> fst (is_connection_lost_during_receive e s) \<Longrightarrow> snd (is_connection_lost_during_receive e s) = s"
  by (auto simp: is_connection_lost_during_receive_def)

text \<open>The disconnection of a connected slot, and of one whose socket counts as closed.\<close>

lemma disconnect_connected:
  assumes "i < length (m_connector_sockets (m_connectors (tcp w)))" "m_state (m_connector_sockets (m_connectors (tcp w)) ! i) = CONNECTED"
    "m_socket_descriptor (m_connector_sockets (m_connectors (tcp w)) ! i) > 0"
  shows "on_client_disconnected i w = Some (without_connection False i w)"
  using assms by (simp add: disconnect_defs)

lemma state_update_same: "m_state s = x \<Longrightarrow> s\<lparr>m_state := x\<rparr> = s"
  by (cases s) simp

lemma disconnect_closed:
  assumes "i < length (m_connector_sockets (m_connectors (tcp w)))" "m_state (m_connector_sockets (m_connectors (tcp w)) ! i) = DISCONNECTED"
  shows "on_client_disconnected i w = Some (without_connection True i w)"
  using assms by (simp add: disconnect_defs state_update_same [OF assms(2)])

text \<open>The whole handler on a connected slot: the answers go to the descriptor the request came from, the slot is free,
  nothing watches the descriptor, and it is closed unless the connection was lost.\<close>

lemma on_receive_failure_eq:
  assumes "slot_connected w i fd" "descriptor_served w i fd" "\<not> (0 < recv_answer e \<and> recv_answer e \<le> int RECEIVE_SIZE)"
  shows "on_receive_failure i e w =
    Some (if recv_answer e = 0 then without_connection False i w
          else if connection_lost e then without_connection True i w else w)"
proof (cases "recv_answer e = 0")
  case True
  then show ?thesis using assms disconnect_connected [of i w]
    by (simp add: on_receive_failure_def slot_connected_def descriptor_served_def Let_def)
next
  case False
  let ?s = "m_connector_sockets (m_connectors (tcp w)) ! i"
  have i: "i < length (m_connector_sockets (m_connectors (tcp w)))" using assms(1) by (simp add: slot_connected_def Let_def)
  have lost: "connection_lost e \<longleftrightarrow> fst (is_connection_lost_during_receive (errno e) ?s)"
    using assms(3) False lost_eq(1) [of "errno e" ?s Socket_new] by (auto simp: connection_lost_def)
  show ?thesis
  proof (cases "connection_lost e")
    case True
    let ?w = "w\<lparr>tcp := (tcp w)\<lparr>m_connectors := (m_connectors (tcp w))\<lparr>m_connector_sockets :=
      (m_connector_sockets (m_connectors (tcp w)))[i := ?s\<lparr>m_state := DISCONNECTED\<rparr>]\<rparr>\<rparr>\<rparr>"
    have "on_client_disconnected i ?w = Some (without_connection True i ?w)" by (rule disconnect_closed) (use i in simp_all)
    moreover have "without_connection True i ?w = without_connection True i w" using i by (simp add: without_connection_def Let_def)
    ultimately show ?thesis using True False lost i lost_eq(2) [of "errno e" ?s]
      by (simp add: on_receive_failure_def on_peer_def Let_def)
  next
    case nl: False
    then show ?thesis using False lost i lost_eq(3) [of "errno e" ?s]
      by (simp add: on_receive_failure_def on_peer_def Let_def)
  qed
qed

lemma without_connection_twice:
  assumes "i < length (m_connector_sockets (m_connectors (tcp w)))"
  shows "without_connection True i (without_connection lost i w) = without_connection lost i w"
  using assms by (simp add: without_connection_def Epoll_remove_descriptor_def sys_close_def Let_def)

lemma close_then_disconnect:
  assumes "i < length (m_connector_sockets (m_connectors (tcp w)))" "m_state (m_connector_sockets (m_connectors (tcp w)) ! i) = CONNECTED"
    "m_socket_descriptor (m_connector_sockets (m_connectors (tcp w)) ! i) > 0"
  shows "Option.bind (on_peer i Socket_close w) (on_client_disconnected i) = Some (without_connection False i w)"
  using assms by (simp add: disconnect_defs)

lemma closed_then_disconnect:
  assumes "i < length (m_connector_sockets (m_connectors (tcp w)))" "m_state (m_connector_sockets (m_connectors (tcp w)) ! i) = DISCONNECTED"
  shows "Option.bind (on_peer i Socket_close w) (on_client_disconnected i) = Some (without_connection True i w)"
proof -
  have "on_peer i Socket_close w = Some w" using assms by (simp add: on_peer_def Socket_close_def Let_def)
  then show ?thesis using disconnect_closed [OF assms] by simp
qed

lemma on_peer_data_ready_eq:
  assumes "slot_connected w i fd" "descriptor_served w i fd"
  shows "on_peer_data_ready page own_id p i e w =
    (case on_data_ready page own_id p (recv_answer e) (received e) (http w) of
       None \<Rightarrow> None
     | Some (sent, h) \<Rightarrow> Some (map (Pair fd) sent, without_connection (connection_lost e) i (w\<lparr>http := h\<rparr>)))"
proof (cases "on_data_ready page own_id p (recv_answer e) (received e) (http w)")
  case None
  then show ?thesis by (cases "get_connector_socket i (m_connectors (tcp w))") (simp_all add: on_peer_data_ready_def)
next
  case (Some r)
  obtain sent h where r: "r = (sent, h)" by (cases r)
  let ?w = "w\<lparr>http := h\<rparr>" and ?lost = "connection_lost e"
  let ?read = "0 < recv_answer e \<and> recv_answer e \<le> int RECEIVE_SIZE"
  let ?w1 = "if ?read then ?w else if recv_answer e = 0 then without_connection False i ?w
     else if ?lost then without_connection True i ?w else ?w"
  have i: "i < length (m_connector_sockets (m_connectors (tcp w)))" "m_socket_descriptor (m_connector_sockets (m_connectors (tcp w)) ! i) = fd"
    "fd > 0" "m_state (m_connector_sockets (m_connectors (tcp w)) ! i) = CONNECTED"
    using assms by (simp_all add: slot_connected_def descriptor_served_def Let_def)
  have conn: "slot_connected ?w i fd" "descriptor_served ?w i fd"
    using assms by (simp_all add: slot_connected_def descriptor_served_def Let_def)
  have w1: "(if ?read then Some ?w else on_receive_failure i e ?w) = Some ?w1"
    using on_receive_failure_eq [OF conn, of e] by auto
  have lost: "?lost \<Longrightarrow> \<not> ?read \<and> recv_answer e \<noteq> 0" by (auto simp: connection_lost_def)
  have closed: "i < length (m_connector_sockets (m_connectors (tcp (without_connection b i ?w))))"
    "m_state (m_connector_sockets (m_connectors (tcp (without_connection b i ?w))) ! i) = DISCONNECTED" for b
    using i by (simp_all add: without_connection_def Let_def)
  have open_end: "Option.bind (on_peer i Socket_close ?w) (on_client_disconnected i) = Some (without_connection False i ?w)"
    by (rule close_then_disconnect) (use i in simp_all)
  have closed_end: "Option.bind (on_peer i Socket_close (without_connection b i ?w)) (on_client_disconnected i) = Some (without_connection b i ?w)" for b
    using closed_then_disconnect [OF closed] without_connection_twice [of i ?w b] i(1) by simp
  have "Option.bind (on_peer i Socket_close ?w1) (on_client_disconnected i) = Some (without_connection ?lost i ?w)"
    using open_end closed_end lost by (cases ?lost) (simp, blast, simp)
  then obtain w2 where w2: "on_peer i Socket_close ?w1 = Some w2" "on_client_disconnected i w2 = Some (without_connection ?lost i ?w)"
    by (cases "on_peer i Socket_close ?w1") simp_all
  show ?thesis
    by (simp only: on_peer_data_ready_def get_connector_socket_eq [OF i(1)] Some r bind.bind_lunit Let_def prod.case w1 w2 option.case i(2))
qed

lemma without_connection_slots:
  assumes "serving_inv w" "slot_connected w i fd"
  shows "slot_connected (without_connection lost i w) j x \<longleftrightarrow> j \<noteq> i \<and> slot_connected w j x"
proof -
  have "i < length (m_connector_sockets_connection_flags (m_connectors (tcp w)))"
    using assms(2) serving_invD(1) [OF assms(1)] by (simp add: slot_connected_def Let_def)
  then show ?thesis by (cases "j = i") (simp_all add: slot_connected_def without_connection_def Let_def)
qed

lemma without_connection_net:
  assumes "slot_connected w i fd"
  shows "set (open_descriptors (net_of (without_connection lost i w))) = set (open_descriptors (net_of w)) - (if lost then {} else {fd})"
    "set (watched (net_of (without_connection lost i w))) = set (watched (net_of w)) - {fd}"
  using assms by (auto simp: slot_connected_def without_connection_def Epoll_remove_descriptor_def sys_close_def Let_def)

lemma without_connection_keeps:
  assumes inv: "serving_inv w" and i: "slot_connected w i fd"
  shows "serving_inv (without_connection lost i w)" (is "serving_inv ?w")
proof -
  note slots = without_connection_slots [OF inv i, of lost] and n = without_connection_net [OF i, of lost]
  have same: "m_acceptor_socket (tcp ?w) = m_acceptor_socket (tcp w)"
    "length (m_connector_sockets (m_connectors (tcp ?w))) = length (m_connector_sockets (m_connectors (tcp w)))"
    "length (m_connector_sockets_connection_flags (m_connectors (tcp ?w))) = length (m_connector_sockets_connection_flags (m_connectors (tcp w)))"
    "m_connector_socket_index_table (m_connectors (tcp ?w)) = m_connector_socket_index_table (m_connectors (tcp w))"
    by (simp_all add: without_connection_def Let_def)
  have others: "j \<noteq> i \<Longrightarrow> m_connector_sockets (m_connectors (tcp ?w)) ! j = m_connector_sockets (m_connectors (tcp w)) ! j" for j
    by (simp add: without_connection_def Let_def)
  have a: "m_socket_descriptor (m_acceptor_socket (tcp w)) \<noteq> fd"
    using serving_invD(2) [OF inv i] by (simp add: descriptor_served_def)
  have "descriptor_served ?w j x" if "slot_connected ?w j x" for j x
  proof -
    have j: "j \<noteq> i" "slot_connected w j x" using that slots by auto
    then have "x \<noteq> fd" using slot_unique [OF inv i] by blast
    then show ?thesis using serving_invD(2) [OF inv j(2)] j(1) n same others by (auto simp: descriptor_served_def)
  qed
  moreover have "\<exists>j. slot_connected ?w j x" if x: "x \<in> set (watched (net_of ?w))" "x \<noteq> m_socket_descriptor (m_acceptor_socket (tcp w))" for x
  proof -
    obtain j where "slot_connected w j x" "x \<noteq> fd" using serving_invD(3) [OF inv, of x] x n by auto
    moreover then have "j \<noteq> i" using i by (auto simp: slot_connected_def Let_def)
    ultimately show ?thesis using slots by blast
  qed
  moreover have "m_state (m_connector_sockets (m_connectors (tcp ?w)) ! j) = DISCONNECTED"
    if "j < length (m_connector_sockets (m_connectors (tcp w)))" "\<not> m_connector_sockets_connection_flags (m_connectors (tcp ?w)) ! j" for j
    using that inv by (cases "j = i") (auto simp: without_connection_def serving_inv_def Let_def)
  moreover have "m_socket_descriptor (m_acceptor_socket (tcp w)) \<in> set (open_descriptors (net_of ?w))"
    using inv n(1) a by (simp add: serving_inv_def Let_def)
  ultimately show ?thesis
    unfolding serving_inv_def Let_def same using inv serving_invD(1) [OF inv] by (simp add: serving_inv_def Let_def) blast
qed

subsection \<open>Turns of the loop\<close>

lemma serving_inv_http [simp]: "serving_inv (w\<lparr>http := h\<rparr>) = serving_inv w"
  by (simp add: serving_defs)

lemma slot_connected_http [simp]: "slot_connected (w\<lparr>http := h\<rparr>) i fd = slot_connected w i fd"
  by (simp add: slot_connected_def)

text \<open>A ready descriptor of a connection: the event goes to its slot.\<close>

lemma handle_event_connected:
  assumes inv: "serving_inv w" and i: "slot_connected w i (descriptor e)" and e: "is_valid_event e"
  shows "handle_event page own_id p e w =
    (case on_data_ready page own_id p (recv_answer e) (received e) (http w) of
       None \<Rightarrow> None
     | Some (sent, h) \<Rightarrow> Some (map (Pair (descriptor e)) sent, without_connection (connection_lost e) i (w\<lparr>http := h\<rparr>)))"
proof -
  have s: "descriptor_served w i (descriptor e)" by (rule serving_invD(2) [OF inv i])
  have "w\<lparr>tcp := (tcp w)\<lparr>m_connectors := m_connectors (tcp w)\<rparr>\<rparr> = w" by simp
  then show ?thesis using s on_peer_data_ready_eq [OF i s] e
    by (simp add: handle_event_def lookup_connected [OF inv i] descriptor_served_def)
qed

lemma accept_watched:
  assumes inv: "serving_inv w"
  shows "set (watched (net_of w)) \<subseteq> set (watched (net_of (snd (accept_new_connection e w))))"
proof -
  obtain res a n where acc: "Socket_accept (select_answer e) (accept_answer e) (peer_address e) (m_acceptor_socket (tcp w), net_of w) = (res, a, n)"
    by (metis prod_cases3)
  have n: "watched n = watched (net_of w)"
    using Socket_accept_result [OF _ acc] inv by (simp add: serving_inv_def Let_def)
  show ?thesis
  proof (cases res)
    case (Some cs)
    obtain i c' n' where add: "add_connector cs (m_connectors (tcp w), n) = (i, c', n')" by (metis prod_cases3)
    then have "n' = n" using add_connector_result [OF add] inv by (simp add: serving_inv_def Let_def)
    then show ?thesis using n Some add by (auto simp: accept_new_connection_def acc Epoll_add_descriptor_def Let_def)
  qed (use n in \<open>simp add: accept_new_connection_def acc Let_def\<close>)
qed

lemma handle_event_keeps:
  assumes inv: "serving_inv w" and new: "accepts_new e w" and watched: "descriptor e \<in> set (watched (net_of w))"
    and run: "handle_event page own_id p e w = Some (sent, w')"
  shows "serving_inv w'" "set (watched (net_of w)) - {descriptor e} \<subseteq> set (watched (net_of w'))"
proof -
  obtain i c where look: "get_connector_index_from_descriptor (descriptor e) (m_connectors (tcp w)) = (i, c)" by (cases "get_connector_index_from_descriptor (descriptor e) (m_connectors (tcp w))")
  let ?w = "w\<lparr>tcp := (tcp w)\<lparr>m_connectors := c\<rparr>\<rparr>"
  have inv': "serving_inv ?w" by (rule lookup_keeps [OF inv look])
  have "serving_inv w' \<and> set (watched (net_of w)) - {descriptor e} \<subseteq> set (watched (net_of w'))"
  proof (cases "is_valid_event e \<and> descriptor e \<noteq> m_socket_descriptor (m_acceptor_socket (tcp w))")
    case True
    then obtain j where j: "slot_connected w j (descriptor e)" using serving_invD(3) [OF inv watched] by auto
    from run handle_event_connected [OF inv j, of page own_id p] True obtain h where
      w': "w' = without_connection (connection_lost e) j (w\<lparr>http := h\<rparr>)" by (auto split: option.splits)
    show ?thesis unfolding w'
      using without_connection_keeps [of "w\<lparr>http := h\<rparr>" j "descriptor e"] without_connection_net [of "w\<lparr>http := h\<rparr>" j "descriptor e"] inv j
      by simp
  next
    case False
    then have "w' = ?w \<or> w' = snd (accept_new_connection e ?w)"
      using run by (auto simp: handle_event_def look Let_def split: if_splits)
    moreover have "accepts_new e ?w" using new by (simp add: accepts_new_def)
    ultimately show ?thesis using inv' accept_keeps [OF inv'] accept_watched [OF inv', of e] by auto
  qed
  then show "serving_inv w'" "set (watched (net_of w)) - {descriptor e} \<subseteq> set (watched (net_of w'))" by simp_all
qed

text \<open>The kernel reports each watched descriptor at most once, and accepts under new descriptors.\<close>

fun all_accepts_new :: "string \<Rightarrow> u64 \<Rightarrow> Profiler \<Rightarrow> event list \<Rightarrow> world \<Rightarrow> bool" where
  "all_accepts_new page own_id p [] w \<longleftrightarrow> True"
| "all_accepts_new page own_id p (e # es) w \<longleftrightarrow>
     accepts_new e w \<and> (case handle_event page own_id p e w of None \<Rightarrow> True | Some (_, w') \<Rightarrow> all_accepts_new page own_id p es w')"

definition poll_answer :: "string \<Rightarrow> u64 \<Rightarrow> Profiler \<Rightarrow> event list option \<Rightarrow> world \<Rightarrow> bool" where
  "poll_answer page own_id p ready w \<longleftrightarrow>
     (case ready of None \<Rightarrow> True | Some es \<Rightarrow>
        distinct (map descriptor es) \<and> set (map descriptor es) \<subseteq> set (watched (net_of w)) \<and> all_accepts_new page own_id p es w)"

lemma handle_events_keeps:
  assumes "serving_inv w" "distinct (map descriptor es)" "set (map descriptor es) \<subseteq> set (watched (net_of w))"
    "all_accepts_new page own_id p es w" "handle_events page own_id p es w = Some (sent, w')"
  shows "serving_inv w'"
  using assms
proof (induction es arbitrary: w sent)
  case (Cons e es)
  from Cons.prems(5) obtain s1 w1 s2 where one: "handle_event page own_id p e w = Some (s1, w1)"
    and rest: "handle_events page own_id p es w1 = Some (s2, w')" by (auto split: Option.bind_splits)
  note k = handle_event_keeps [OF Cons.prems(1) _ _ one]
  show ?case
  proof (rule Cons.IH [OF _ _ _ _ rest])
    show "serving_inv w1" using k(1) Cons.prems by simp
    have "set (map descriptor es) \<subseteq> set (watched (net_of w)) - {descriptor e}"
      using Cons.prems(2,3) by (simp add: subset_Diff_insert)
    also have "\<dots> \<subseteq> set (watched (net_of w1))" using k(2) Cons.prems(3,4) by simp
    finally show "set (map descriptor es) \<subseteq> set (watched (net_of w1))" .
  qed (use Cons.prems one in auto)
qed simp

text \<open>The states of a reactor that serves: it was started on a new socket, and then the loop made turns.  The counters of
  the profiler change between the turns.\<close>

inductive serving :: "world \<Rightarrow> bool" where
  started: "socket_answer k \<ge> 0 \<Longrightarrow> socket_answer k \<notin> set (open_descriptors n) \<Longrightarrow> watched n = []
    \<Longrightarrow> TcpReactor_start R k address port poll_timeout accept_timeout queue_size (world_new n) = (True, w) \<Longrightarrow> serving w"
| turn: "serving w \<Longrightarrow> poll_answer page own_id p ready w \<Longrightarrow> reactor_turn page own_id p ready w = Some (sent, w') \<Longrightarrow> serving w'"

lemma start_establishes:
  assumes "socket_answer k \<ge> 0" "socket_answer k \<notin> set (open_descriptors n)" "watched n = []"
    "TcpReactor_start R k address port pt t q (world_new n) = (True, w)"
  shows "serving_inv w"
  using assms
  by (auto simp: TcpReactor_start_def world_new_def TcpReactor_new_def Connectors_new_def Socket_create_def Socket_bind_def Socket_listen_def
      set_pending_connections_queue_size_def set_blocking_mode_def Epoll_add_descriptor_def opened_def serving_defs split: if_splits)

lemma serving_serving_inv: "serving w \<Longrightarrow> serving_inv w"
proof (induction rule: serving.induct)
  case started
  then show ?case using start_establishes by blast
next
  case turn
  then show ?case using handle_events_keeps by (auto simp: reactor_turn_def poll_answer_def split: option.splits)
qed

lemma close_sockets_open:
  "set (open_descriptors (snd (close_sockets ss n))) =
     set (open_descriptors n) - {m_socket_descriptor s | s. s \<in> set ss \<and> m_state s \<noteq> DISCONNECTED \<and> m_socket_descriptor s > 0}
   \<and> set (watched (snd (close_sockets ss n))) \<subseteq> set (watched n)"
proof (induction ss arbitrary: n)
  case (Cons s ss)
  obtain s1 n1 where one: "Socket_close (s, n) = (s1, n1)" by (cases "Socket_close (s, n)")
  obtain s2 n2 where rest: "close_sockets ss n1 = (s2, n2)" by (cases "close_sockets ss n1")
  have "set (open_descriptors n1) = set (open_descriptors n) - (if m_state s \<noteq> DISCONNECTED \<and> m_socket_descriptor s > 0 then {m_socket_descriptor s} else {})"
    "set (watched n1) \<subseteq> set (watched n)"
    using one by (auto simp: Socket_close_def sys_close_def Let_def split: if_splits)
  then show ?case using Cons.IH [of n1] by (auto simp: one rest split: if_splits)
qed simp

subsection \<open>The stop\<close>

text \<open>The thread of the reactor and one call of \<open>stop\<close>, step by step: where each of them is, the flag of \<open>m_lock\<close> and the state.
  Both spin with \<open>try_lock\<close>; \<open>join\<close> waits for the end of the thread; the lock guards release at the end of their scope.\<close>

datatype reactor_position = Checking | Locking | Turning | Ended

datatype stop_position = Loading | Storing | Acquiring | Clearing | Joining | Closing | Returned

record run =
  m_lock_flag :: u32
  reactor_at :: reactor_position
  stop_at :: stop_position
  state :: world

definition run_initial :: "world \<Rightarrow> run" where
  "run_initial w = \<lparr>m_lock_flag = spin_initialise 0, reactor_at = Checking, stop_at = Loading, state = w\<rparr>"

definition set_stopping :: "world \<Rightarrow> world" where
  "set_stopping w = w\<lparr>tcp := (tcp w)\<lparr>m_is_stopping := True\<rparr>\<rparr>"

definition clear_poller :: "world \<Rightarrow> world" where
  "clear_poller w = w\<lparr>net_of := Epoll_clear_descriptors (net_of w)\<rparr>"

definition close_connections :: "world \<Rightarrow> world" where
  "close_connections w = (let (c, n) = close_all_sockets (m_connectors (tcp w), net_of w)
     in w\<lparr>tcp := (tcp w)\<lparr>m_connectors := c\<rparr>, net_of := n\<rparr>)"

inductive run_step :: "run \<Rightarrow> run \<Rightarrow> bool" where
  go_on: "reactor_at r = Checking \<Longrightarrow> \<not> m_is_stopping (tcp (state r)) \<Longrightarrow> run_step r (r\<lparr>reactor_at := Locking\<rparr>)"
| break: "reactor_at r = Checking \<Longrightarrow> m_is_stopping (tcp (state r)) \<Longrightarrow> run_step r (r\<lparr>reactor_at := Ended\<rparr>)"
| reactor_locks: "reactor_at r = Locking \<Longrightarrow> try_lock (m_lock_flag r) = (True, f) \<Longrightarrow> run_step r (r\<lparr>m_lock_flag := f, reactor_at := Turning\<rparr>)"
| reactor_spins: "reactor_at r = Locking \<Longrightarrow> try_lock (m_lock_flag r) = (False, f) \<Longrightarrow> run_step r (r\<lparr>m_lock_flag := f\<rparr>)"
| reactor_turns: "reactor_at r = Turning \<Longrightarrow> reactor_turn page own_id p ready (state r) = Some (sent, w)
    \<Longrightarrow> run_step r (r\<lparr>m_lock_flag := spin_unlock (m_lock_flag r), reactor_at := Checking, state := w\<rparr>)"
| stop_loads: "stop_at r = Loading
    \<Longrightarrow> run_step r (r\<lparr>stop_at := (if m_is_stopping (tcp (state r)) then Returned else Storing)\<rparr>)"
| stop_stores: "stop_at r = Storing \<Longrightarrow> run_step r (r\<lparr>stop_at := Acquiring, state := set_stopping (state r)\<rparr>)"
| stop_locks: "stop_at r = Acquiring \<Longrightarrow> try_lock (m_lock_flag r) = (True, f) \<Longrightarrow> run_step r (r\<lparr>m_lock_flag := f, stop_at := Clearing\<rparr>)"
| stop_spins: "stop_at r = Acquiring \<Longrightarrow> try_lock (m_lock_flag r) = (False, f) \<Longrightarrow> run_step r (r\<lparr>m_lock_flag := f\<rparr>)"
| stop_clears: "stop_at r = Clearing \<Longrightarrow> run_step r (r\<lparr>stop_at := Joining, state := clear_poller (state r)\<rparr>)"
| stop_joins: "stop_at r = Joining \<Longrightarrow> reactor_at r = Ended \<or> \<not> m_reactor_thread (tcp (state r)) \<Longrightarrow> run_step r (r\<lparr>stop_at := Closing\<rparr>)"
| stop_closes: "stop_at r = Closing
    \<Longrightarrow> run_step r (r\<lparr>m_lock_flag := spin_unlock (m_lock_flag r), stop_at := Returned, state := close_connections (state r)\<rparr>)"

inductive_cases run_stepE: "run_step r r'"

text \<open>The work of \<open>stop\<close> is what its steps do.\<close>

lemma stop_steps: "\<not> m_is_stopping (tcp w) \<Longrightarrow> TcpReactor_stop w = close_connections (clear_poller (set_stopping w))"
  by (simp add: TcpReactor_stop_def close_connections_def clear_poller_def set_stopping_def Let_def split: prod.splits)

definition stop_holds :: "stop_position \<Rightarrow> bool" where
  "stop_holds s \<longleftrightarrow> s = Clearing \<or> s = Joining \<or> s = Closing"

text \<open>Who holds the lock, and that the thread has ended when the sockets are closed.\<close>

definition run_inv :: "run \<Rightarrow> bool" where
  "run_inv r \<longleftrightarrow>
     m_lock_flag r = (if reactor_at r = Turning \<or> stop_holds (stop_at r) then 1 else 0)
     \<and> \<not> (reactor_at r = Turning \<and> stop_holds (stop_at r))
     \<and> (stop_at r = Closing \<longrightarrow> reactor_at r = Ended)
     \<and> (stop_at r = Returned \<longrightarrow> reactor_at r = Ended)
     \<and> (reactor_at r = Ended \<or> m_is_stopping (tcp (state r)) \<longrightarrow> stop_at r \<noteq> Loading \<and> stop_at r \<noteq> Storing)
     \<and> m_reactor_thread (tcp (state r))"

text \<open>No turn changes what \<open>start\<close> and \<open>stop\<close> have set.\<close>

definition control :: "world \<Rightarrow> bool \<times> bool" where
  "control w = (m_is_stopping (tcp w), m_reactor_thread (tcp w))"

lemma disconnect_control: "on_client_disconnected i w = Some w' \<Longrightarrow> control w' = control w"
  by (auto simp: on_client_disconnected_def control_def Let_def split: Option.bind_splits)

lemma on_peer_control: "on_peer i f w = Some w' \<Longrightarrow> control w' = control w"
  by (auto simp: on_peer_def control_def Let_def split: Option.bind_splits prod.splits)

lemma receive_failure_control:
  assumes "on_receive_failure i e w = Some w'"
  shows "control w' = control w"
proof (cases "recv_answer e = 0")
  case True
  then show ?thesis using assms disconnect_control by (simp add: on_receive_failure_def)
next
  case False
  then obtain w1 where "on_peer i (\<lambda>(s, n). (snd (is_connection_lost_during_receive (errno e) s), n)) w = Some w1"
    "w' = w1 \<or> on_client_disconnected i w1 = Some w'"
    using assms by (auto simp: on_receive_failure_def split: Option.bind_splits if_splits)
  then show ?thesis using on_peer_control disconnect_control by metis
qed

lemma peer_data_control:
  assumes "on_peer_data_ready page own_id p i e w = Some (sent, w')"
  shows "control w' = control w"
proof -
  from assms obtain h w1 w2 where
    w1: "(if 0 < recv_answer e \<and> recv_answer e \<le> int RECEIVE_SIZE then Some (w\<lparr>http := h\<rparr>) else on_receive_failure i e (w\<lparr>http := h\<rparr>)) = Some w1"
    and w2: "on_peer i Socket_close w1 = Some w2" "on_client_disconnected i w2 = Some w'"
    unfolding on_peer_data_ready_def Let_def by (auto split: Option.bind_splits)
  have "control w1 = control (w\<lparr>http := h\<rparr>)" using w1 receive_failure_control by (auto split: if_splits)
  then show ?thesis using on_peer_control [OF w2(1)] disconnect_control [OF w2(2)] by (simp add: control_def)
qed

lemma accept_control: "control (snd (accept_new_connection e w)) = control w"
  by (auto simp: accept_new_connection_def control_def Let_def split: prod.splits option.splits)

lemma handle_event_control:
  assumes "handle_event page own_id p e w = Some (sent, w')"
  shows "control w' = control w"
proof -
  obtain i c where look: "get_connector_index_from_descriptor (descriptor e) (m_connectors (tcp w)) = (i, c)"
    by (cases "get_connector_index_from_descriptor (descriptor e) (m_connectors (tcp w))")
  let ?w = "w\<lparr>tcp := (tcp w)\<lparr>m_connectors := c\<rparr>\<rparr>"
  have "control w' = control ?w"
    using assms peer_data_control accept_control by (auto simp: handle_event_def look Let_def split: if_splits)
  then show ?thesis by (simp add: control_def)
qed

lemma handle_events_control: "handle_events page own_id p es w = Some (sent, w') \<Longrightarrow> control w' = control w"
proof (induction es arbitrary: w sent)
  case (Cons e es)
  then obtain s1 w1 s2 where "handle_event page own_id p e w = Some (s1, w1)" "handle_events page own_id p es w1 = Some (s2, w')"
    by (auto split: Option.bind_splits)
  then show ?case using Cons.IH handle_event_control by metis
qed simp

lemma turn_control: "reactor_turn page own_id p ready w = Some (sent, w') \<Longrightarrow> control w' = control w"
  using handle_events_control by (auto simp: reactor_turn_def split: option.splits)

lemma stop_control [simp]: "control (set_stopping w) = (True, snd (control w))" "control (clear_poller w) = control w"
  "control (close_connections w) = control w"
  by (simp_all add: control_def set_stopping_def clear_poller_def close_connections_def Let_def split: prod.splits)

lemma run_inv_alt:
  "run_inv r \<longleftrightarrow>
     m_lock_flag r = (if reactor_at r = Turning \<or> stop_holds (stop_at r) then 1 else 0)
     \<and> \<not> (reactor_at r = Turning \<and> stop_holds (stop_at r))
     \<and> (stop_at r = Closing \<longrightarrow> reactor_at r = Ended)
     \<and> (stop_at r = Returned \<longrightarrow> reactor_at r = Ended)
     \<and> (reactor_at r = Ended \<or> fst (control (state r)) \<longrightarrow> stop_at r \<noteq> Loading \<and> stop_at r \<noteq> Storing)
     \<and> snd (control (state r))"
  by (simp add: run_inv_def control_def)

lemma run_inv_step:
  assumes "run_step r r'" "run_inv r"
  shows "run_inv r'"
  using assms(1)
proof cases
  case (reactor_turns page own_id p ready sent w)
  then show ?thesis using assms(2) turn_control [OF reactor_turns(3)] by (auto simp: run_inv_alt stop_holds_def)
next
  case (stop_stores)
  then show ?thesis using assms(2) by (auto simp: run_inv_alt stop_holds_def)
next
  case (stop_clears)
  then show ?thesis using assms(2) by (auto simp: run_inv_alt stop_holds_def)
next
  case (stop_closes)
  then show ?thesis using assms(2) by (auto simp: run_inv_alt stop_holds_def)
qed (use assms(2) in \<open>auto simp: run_inv_def stop_holds_def split: if_splits\<close>)

lemma run_inv_reachable:
  assumes "run_step\<^sup>*\<^sup>* (run_initial w) r" "\<not> m_is_stopping (tcp w)" "m_reactor_thread (tcp w)"
  shows "run_inv r"
  using assms(1)
proof (induction rule: rtranclp_induct)
  case base
  then show ?case using assms(2,3) by (simp add: run_inv_def run_initial_def spin_initialise_def stop_holds_def)
next
  case step
  then show ?case using run_inv_step by blast
qed

text \<open>The state in which \<open>stop\<close> joins a thread that spins on the lock which \<open>stop\<close> holds.\<close>

definition deadlocked :: "run \<Rightarrow> bool" where
  "deadlocked r \<longleftrightarrow> m_lock_flag r = 1 \<and> reactor_at r = Locking \<and> stop_at r = Joining \<and> m_reactor_thread (tcp (state r))"

lemma deadlocked_forever: "run_step\<^sup>*\<^sup>* r r' \<Longrightarrow> deadlocked r \<Longrightarrow> deadlocked r'"
proof (induction rule: rtranclp_induct)
  case (step y z)
  from step.hyps(2) show ?case by cases (use step in \<open>auto simp: deadlocked_def\<close>)
qed

lemma deadlock_path:
  assumes "\<not> m_is_stopping (tcp w)" "m_reactor_thread (tcp w)"
  shows "\<exists>r. run_step\<^sup>*\<^sup>* (run_initial w) r \<and> deadlocked r"
proof -
  let ?r0 = "run_initial w"
  let ?r1 = "?r0\<lparr>reactor_at := Locking\<rparr>"
  let ?r2 = "?r1\<lparr>stop_at := Storing\<rparr>"
  let ?r3 = "?r2\<lparr>stop_at := Acquiring, state := set_stopping w\<rparr>"
  let ?r4 = "?r3\<lparr>m_lock_flag := 1, stop_at := Clearing\<rparr>"
  let ?r5 = "?r4\<lparr>stop_at := Joining, state := clear_poller (set_stopping w)\<rparr>"
  have "run_step ?r0 ?r1" using run_step.go_on [of ?r0] assms by (simp add: run_initial_def)
  moreover have "run_step ?r1 ?r2" using run_step.stop_loads [of ?r1] assms by (simp add: run_initial_def)
  moreover have "run_step ?r2 ?r3" using run_step.stop_stores [of ?r2] by (simp add: run_initial_def)
  moreover have "run_step ?r3 ?r4" using run_step.stop_locks [of ?r3 1] by (simp add: run_initial_def spin_initialise_def)
  moreover have "run_step ?r4 ?r5" using run_step.stop_clears [of ?r4] by (simp add: run_initial_def)
  ultimately have "run_step\<^sup>*\<^sup>* ?r0 ?r5" by (meson converse_rtranclp_into_rtranclp rtranclp.rtrancl_refl)
  moreover have "deadlocked ?r5" using assms(2) by (simp add: deadlocked_def clear_poller_def set_stopping_def)
  ultimately show ?thesis by blast
qed

text \<open>The other end: a thread that sees \<open>m_is_stopping\<close> in time lets \<open>stop\<close> return, with its work done.\<close>

lemma stop_can_return:
  assumes "\<not> m_is_stopping (tcp w)" "m_reactor_thread (tcp w)"
  shows "\<exists>r. run_step\<^sup>*\<^sup>* (run_initial w) r \<and> stop_at r = Returned \<and> state r = TcpReactor_stop w"
proof -
  let ?r0 = "run_initial w"
  let ?r1 = "?r0\<lparr>stop_at := Storing\<rparr>"
  let ?r2 = "?r1\<lparr>stop_at := Acquiring, state := set_stopping w\<rparr>"
  let ?r3 = "?r2\<lparr>reactor_at := Ended\<rparr>"
  let ?r4 = "?r3\<lparr>m_lock_flag := 1, stop_at := Clearing\<rparr>"
  let ?r5 = "?r4\<lparr>stop_at := Joining, state := clear_poller (set_stopping w)\<rparr>"
  let ?r6 = "?r5\<lparr>stop_at := Closing\<rparr>"
  let ?r7 = "?r6\<lparr>m_lock_flag := 0, stop_at := Returned, state := close_connections (clear_poller (set_stopping w))\<rparr>"
  have "run_step ?r0 ?r1" using run_step.stop_loads [of ?r0] assms by (simp add: run_initial_def)
  moreover have "run_step ?r1 ?r2" using run_step.stop_stores [of ?r1] by (simp add: run_initial_def)
  moreover have "run_step ?r2 ?r3" using run_step.break [of ?r2] by (simp add: run_initial_def set_stopping_def)
  moreover have "run_step ?r3 ?r4" using run_step.stop_locks [of ?r3 1] by (simp add: run_initial_def spin_initialise_def)
  moreover have "run_step ?r4 ?r5" using run_step.stop_clears [of ?r4] by (simp add: run_initial_def)
  moreover have "run_step ?r5 ?r6" using run_step.stop_joins [of ?r5] by (simp add: run_initial_def)
  moreover have "run_step ?r6 ?r7" using run_step.stop_closes [of ?r6] by (simp add: run_initial_def)
  ultimately have "run_step\<^sup>*\<^sup>* ?r0 ?r7" by (meson converse_rtranclp_into_rtranclp rtranclp.rtrancl_refl)
  then show ?thesis using stop_steps [OF assms(1)] by (intro exI [of _ ?r7]) simp
qed

text \<open>\<open>stop\<close> closes every connection; the acceptor stays open.\<close>

lemma stop_closes_connections:
  assumes inv: "serving_inv w" and "\<not> m_is_stopping (tcp w)"
  shows "slot_connected w i fd \<Longrightarrow> fd \<notin> set (open_descriptors (net_of (TcpReactor_stop w)))"
    "m_socket_descriptor (m_acceptor_socket (tcp w)) \<in> set (open_descriptors (net_of (TcpReactor_stop w)))"
proof -
  let ?ss = "m_connector_sockets (m_connectors (tcp w))" and ?n = "Epoll_clear_descriptors (net_of w)"
  have net: "net_of (TcpReactor_stop w) = snd (close_sockets ?ss ?n)"
    using assms(2) by (simp add: TcpReactor_stop_def close_all_sockets_def Let_def split: prod.splits)
  have o: "set (open_descriptors (net_of (TcpReactor_stop w))) = set (open_descriptors (net_of w))
      - {m_socket_descriptor s | s. s \<in> set ?ss \<and> m_state s \<noteq> DISCONNECTED \<and> m_socket_descriptor s > 0}"
    unfolding net using close_sockets_open [of ?ss ?n] by (simp add: Epoll_clear_descriptors_def)
  show "fd \<notin> set (open_descriptors (net_of (TcpReactor_stop w)))" if i: "slot_connected w i fd"
  proof -
    have s: "?ss ! i \<in> set ?ss" "m_socket_descriptor (?ss ! i) = fd" using i by (simp_all add: slot_connected_def Let_def)
    have "m_state (?ss ! i) \<noteq> DISCONNECTED" "fd > 0" using serving_invD(2) [OF inv i] by (simp_all add: descriptor_served_def)
    then show ?thesis unfolding o using s by blast
  qed
  have "m_socket_descriptor s \<noteq> m_socket_descriptor (m_acceptor_socket (tcp w))" if s: "s \<in> set ?ss" "m_state s \<noteq> DISCONNECTED" for s
  proof -
    obtain j where j: "j < length ?ss" "s = ?ss ! j" using s(1) by (metis in_set_conv_nth)
    then have "slot_connected w j (m_socket_descriptor s)"
      using s(2) inv by (auto simp: slot_connected_def serving_inv_def Let_def)
    then show ?thesis using serving_invD(2) [OF inv] by (auto simp: descriptor_served_def)
  qed
  moreover have "m_socket_descriptor (m_acceptor_socket (tcp w)) \<in> set (open_descriptors (net_of w))"
    using inv by (simp add: serving_inv_def Let_def)
  ultimately show "m_socket_descriptor (m_acceptor_socket (tcp w)) \<in> set (open_descriptors (net_of (TcpReactor_stop w)))"
    unfolding o Diff_iff mem_Collect_eq by metis
qed

text \<open>An example: a reactor on descriptor 3 with one connection, on descriptor 5.\<close>

definition example_resolver :: resolver where
  "example_resolver = \<lparr>getaddrinfo = \<lambda>_. None, inet_pton = \<lambda>_. Some 0x7F000001\<rparr>"

definition example_listening :: world where
  "example_listening = snd (TcpReactor_start example_resolver \<lparr>socket_answer = 3, setsockopt_answer = 0, bind_answer = 0, listen_answer = 0\<rparr>
     ''127.0.0.1'' 555 5 5 32 (world_new \<lparr>open_descriptors = [0, 1, 2], nonblocking = [], watched = []\<rparr>))"

definition example_event :: "int \<Rightarrow> int \<Rightarrow> int \<Rightarrow> event" where
  "example_event fd a e = \<lparr>descriptor = fd, is_valid_event = True, select_answer = 1, accept_answer = a, peer_address = SocketAddress_new,
     recv_answer = - 1, received = [], errno = e\<rparr>"

definition example_connected :: world where
  "example_connected = snd (accept_new_connection (example_event 3 5 0) (example_listening\<lparr>tcp := (tcp example_listening)\<lparr>m_connectors :=
     snd (get_connector_index_from_descriptor 3 (m_connectors (tcp example_listening)))\<rparr>\<rparr>))"

lemmas example_run = TcpReactor_start_def world_new_def TcpReactor_new_def Connectors_new_def Socket_create_def Socket_bind_def
  Socket_listen_def set_pending_connections_queue_size_def set_blocking_mode_def Epoll_add_descriptor_def opened_def
  Socket_new_def SocketAddress_new_def accept_new_connection_def get_connector_index_from_descriptor_def Socket_accept_def
  add_connector_def non_used_connector_index_def example_event_def

lemma example_listening_eq:
  "watched (net_of example_listening) = [3]" "open_descriptors (net_of example_listening) = [3, 0, 1, 2]"
  "m_socket_descriptor (m_acceptor_socket (tcp example_listening)) = 3" "m_state (m_acceptor_socket (tcp example_listening)) = LISTENING"
  "m_connectors (tcp example_listening) = Connectors_new"
  "\<not> m_is_stopping (tcp example_listening)" "m_reactor_thread (tcp example_listening)"
  by (simp_all add: example_listening_def example_run)

lemma example_listening_serving: "serving example_listening"
  by (rule serving.started [of "\<lparr>socket_answer = 3, setsockopt_answer = 0, bind_answer = 0, listen_answer = 0\<rparr>"
        "\<lparr>open_descriptors = [0, 1, 2], nonblocking = [], watched = []\<rparr>" example_resolver "''127.0.0.1''" 555 5 5 32])
     (simp_all add: example_listening_def TcpReactor_start_def Socket_create_def Socket_bind_def Socket_listen_def split: prod.splits)

lemma example_connected_eq:
  "watched (net_of example_connected) = [5, 3]" "m_socket_descriptor (m_acceptor_socket (tcp example_connected)) = 3"
  "http example_connected = \<lparr>m_cache = [], m_cache_index = 0\<rparr>" "slot_connected example_connected 0 5"
  by (simp_all add: example_connected_def example_listening_def slot_connected_def example_run)

lemma example_accept: "handle_event page own_id p (example_event 3 5 0) example_listening = Some ([], example_connected)"
  by (simp add: handle_event_def example_listening_eq example_connected_def Let_def split: prod.splits) (simp add: example_event_def)

lemma example_connected_serving: "serving example_connected"
proof (rule serving.turn [OF example_listening_serving])
  show "reactor_turn [] 0 (Profiler_new 0 None) (Some [example_event 3 5 0]) example_listening = Some ([], example_connected)"
    by (simp add: reactor_turn_def example_accept)
  show "poll_answer [] 0 (Profiler_new 0 None) (Some [example_event 3 5 0]) example_listening"
    using example_accept by (simp add: poll_answer_def example_listening_eq accepts_new_def) (simp add: example_event_def)
qed

subsection \<open>Properties\<close>

text \<open>C22: Events reach the connection they belong to: in every state of a serving reactor, each watched descriptor
  other than the acceptor's is looked up at exactly one slot in use; that slot holds this descriptor, in the state
  \<open>CONNECTED\<close>, and the descriptor is open.  So a slot that is reused never gets the data of another connection.\<close>

theorem connection_events_routed:
  assumes "serving w" "fd \<in> set (watched (net_of w))" "fd \<noteq> m_socket_descriptor (m_acceptor_socket (tcp w))"
  shows "\<exists>i. get_connector_index_from_descriptor fd (m_connectors (tcp w)) = (i, m_connectors (tcp w))
    \<and> (\<forall>j. slot_connected w j fd \<longleftrightarrow> j = i)
    \<and> m_state (m_connector_sockets (m_connectors (tcp w)) ! i) = CONNECTED \<and> fd \<in> set (open_descriptors (net_of w))"
proof -
  note inv = serving_serving_inv [OF assms(1)]
  obtain i where i: "slot_connected w i fd" using serving_invD(3) [OF inv assms(2)] assms(3) by blast
  have "\<forall>j. slot_connected w j fd \<longleftrightarrow> j = i" using slot_unique [OF inv i] i by blast
  then show ?thesis using lookup_connected [OF inv i] serving_invD(2) [OF inv i]
    by (intro exI [of _ i]) (simp add: descriptor_served_def)
qed

theorem connection_events_routed_witness:
  "\<exists>i. get_connector_index_from_descriptor 5 (m_connectors (tcp example_connected)) = (i, m_connectors (tcp example_connected))
    \<and> (\<forall>j. slot_connected example_connected j 5 \<longleftrightarrow> j = i)"
  using connection_events_routed [OF example_connected_serving, of 5] by (auto simp: example_connected_eq)



text \<open>C26: The sockets are closed only when the reactor is done: in every interleaving of the reactor's thread with \<open>stop\<close>,
  the two are never both in the section that \<open>m_lock\<close> protects, and when \<open>stop\<close> closes the connections, and after it
  has returned, the thread has ended.\<close>

theorem stop_after_reactor:
  assumes "\<not> m_is_stopping (tcp w)" "m_reactor_thread (tcp w)" "run_step\<^sup>*\<^sup>* (run_initial w) r"
  shows "\<not> (reactor_at r = Turning \<and> stop_at r \<in> {Clearing, Joining, Closing})
    \<and> (stop_at r \<in> {Closing, Returned} \<longrightarrow> reactor_at r = Ended)"
  using run_inv_reachable [OF assms(3,1,2)] by (auto simp: run_inv_def stop_holds_def)

theorem stop_after_reactor_witness:
  "\<exists>r. run_step\<^sup>*\<^sup>* (run_initial example_listening) r \<and> stop_at r = Returned \<and> reactor_at r = Ended"
proof -
  obtain r where r: "run_step\<^sup>*\<^sup>* (run_initial example_listening) r" "stop_at r = Returned"
    using stop_can_return [of example_listening] by (auto simp: example_listening_eq)
  then show ?thesis using stop_after_reactor [OF _ _ r(1)] by (auto simp: example_listening_eq)
qed

text \<open>C40: \<open>stop\<close> may never return: for every started reactor there is an interleaving (the thread has read \<open>m_is_stopping\<close>
  just before it is set, and then waits for the lock that \<open>stop\<close> keeps while it joins the thread) after which \<open>stop\<close>
  has not returned in any continuation.\<close>

theorem stop_can_deadlock:
  assumes "\<not> m_is_stopping (tcp w)" "m_reactor_thread (tcp w)"
  shows "\<exists>r. run_step\<^sup>*\<^sup>* (run_initial w) r \<and> (\<forall>r'. run_step\<^sup>*\<^sup>* r r' \<longrightarrow> stop_at r' = Joining \<and> reactor_at r' = Locking)"
proof -
  obtain r where r: "run_step\<^sup>*\<^sup>* (run_initial w) r" "deadlocked r" using deadlock_path [OF assms] by blast
  have "stop_at r' = Joining \<and> reactor_at r' = Locking" if "run_step\<^sup>*\<^sup>* r r'" for r'
    using deadlocked_forever [OF that r(2)] by (simp add: deadlocked_def)
  then show ?thesis using r(1) by blast
qed

theorem stop_can_deadlock_witness:
  "\<exists>r. run_step\<^sup>*\<^sup>* (run_initial example_listening) r \<and> (\<forall>r'. run_step\<^sup>*\<^sup>* r r' \<longrightarrow> stop_at r' = Joining \<and> reactor_at r' = Locking)"
  by (rule stop_can_deadlock) (simp_all add: example_listening_eq)

end
