(* ===== verification/Environment_Variable.thy ===== *)
theory Environment_Variable
  imports Machine
begin

text \<open>
  \<open>include/os/environment_variable.h\<close>: the parameters of the integration examples.

  The environment is a function from names to values.  \<open>strtold\<close> is a parameter: it answers the number
  at the start of a string and the rest of the string.  \<open>atoi\<close> is written out; on the tokens of at most
  seven characters that it is given here, no conversion overflows.

  The array and the token buffer of \<open>set_numeric_array_from_comma_separated_value_string\<close> have a fixed
  size: a store beyond either of them is undefined behaviour, which is \<open>None\<close>.
\<close>

type_synonym environment = "string \<Rightarrow> string option"
type_synonym strtold = "string \<Rightarrow> rat \<times> string"

text \<open>\<open>get_variable<T>\<close> for an arithmetic type, whose conversion from \<open>long double\<close> is \<open>cast\<close>, and for
  strings.\<close>

definition get_variable :: "strtold \<Rightarrow> (rat \<Rightarrow> 'a) \<Rightarrow> environment \<Rightarrow> string \<Rightarrow> 'a \<Rightarrow> 'a" where
  "get_variable strtold cast env environment_variable_name default_value =
     (case env environment_variable_name of
        None \<Rightarrow> default_value
      | Some str_value \<Rightarrow>
          let (current_val, end_ptr) = strtold str_value
          in if end_ptr = '''' then cast current_val else default_value)"

definition get_string_variable :: "environment \<Rightarrow> string \<Rightarrow> string \<Rightarrow> string" where
  "get_string_variable env environment_variable_name default_value =
     (case env environment_variable_name of None \<Rightarrow> default_value | Some str_value \<Rightarrow> str_value)"

text \<open>The conversion of a \<open>long double\<close> to an integer type, and on to \<open>std::size_t\<close>: towards zero, then
  modulo \<open>2 ^ 64\<close>.\<close>

definition truncate :: "rat \<Rightarrow> int" where
  "truncate x = (if 0 \<le> x then \<lfloor>x\<rfloor> else \<lceil>x\<rceil>)"

definition to_size_t :: "rat \<Rightarrow> u64" where
  "to_size_t x = of_int (truncate x)"

subsection \<open>Comma separated numbers\<close>

definition is_digit :: "char \<Rightarrow> bool" where
  "is_digit c \<longleftrightarrow> 48 \<le> (of_char c :: nat) \<and> (of_char c :: nat) \<le> 57"

definition digit_value :: "char \<Rightarrow> int" where
  "digit_value c = int (of_char c) - 48"

definition is_space :: "char \<Rightarrow> bool" where
  "is_space c \<longleftrightarrow> c = CHR '' '' \<or> (9 \<le> (of_char c :: nat) \<and> (of_char c :: nat) \<le> 13)"

definition digits_value :: "string \<Rightarrow> int" where
  "digits_value s = foldl (\<lambda>n c. 10 * n + digit_value c) 0 (takeWhile is_digit s)"

definition atoi :: "string \<Rightarrow> int" where
  "atoi s = (case dropWhile is_space s of
       CHR ''-'' # r \<Rightarrow> - digits_value r
     | CHR ''+'' # r \<Rightarrow> digits_value r
     | r \<Rightarrow> digits_value r)"

definition MAX_STRING_LEN :: nat where
  "MAX_STRING_LEN = 64"

definition MAX_TOKEN_LEN :: nat where
  "MAX_TOKEN_LEN = 8"

text \<open>One token: copied into the buffer, terminated, converted and stored.\<close>

definition store_token :: "string \<Rightarrow> nat \<Rightarrow> u64 list \<Rightarrow> u64 list option" where
  "store_token token counter target_array =
     (if length token < MAX_TOKEN_LEN \<and> counter < length target_array
      then Some (target_array[counter := of_int (atoi token)]) else None)"

function tokens_loop :: "string \<Rightarrow> nat \<Rightarrow> nat \<Rightarrow> nat \<Rightarrow> u64 list \<Rightarrow> u64 list option" where
  "tokens_loop str start pos counter target_array =
     (if pos \<le> length str \<and> pos < MAX_STRING_LEN - 1
      then if pos < length str \<and> str ! pos = CHR '','' \<or> (pos > start \<and> pos = length str)
           then do {
             target_array \<leftarrow> store_token (take (pos - start) (drop start str)) counter target_array;
             tokens_loop str (pos + 1) (pos + 1) (counter + 1) target_array }
           else tokens_loop str start (pos + 1) counter target_array
      else Some target_array)"
  by pat_completeness auto

termination
  by (relation "measure (\<lambda>(str, start, e, counter, target). MAX_STRING_LEN - e)") (auto simp: MAX_STRING_LEN_def)

declare tokens_loop.simps [simp del]

definition set_numeric_array_from_comma_separated_value_string :: "u64 list \<Rightarrow> string \<Rightarrow> u64 list option" where
  "set_numeric_array_from_comma_separated_value_string target_array str = tokens_loop str 0 0 0 target_array"

subsection \<open>Reading back a printed list\<close>

text \<open>A list of numbers as such a string.\<close>

fun comma_separated :: "string list \<Rightarrow> string" where
  "comma_separated [] = ''''"
| "comma_separated [t] = t"
| "comma_separated (t # ts) = t @ '','' @ comma_separated ts"

definition is_token :: "string \<Rightarrow> bool" where
  "is_token t \<longleftrightarrow> 0 < length t \<and> length t < MAX_TOKEN_LEN \<and> CHR '','' \<notin> set t"

text \<open>The loop moves to the end of a token, and stores it.\<close>

lemma tokens_loop_scan:
  assumes "start \<le> e" "e + length t < MAX_STRING_LEN - 1" "e + length t \<le> length str"
    "\<And>i. i < length t \<Longrightarrow> str ! (e + i) \<noteq> CHR '',''"
  shows "tokens_loop str start e counter a = tokens_loop str start (e + length t) counter a"
  using assms
proof (induction t arbitrary: e)
  case (Cons c t)
  have "str ! e \<noteq> CHR '',''" using Cons.prems(4) [of 0] by simp
  then have "tokens_loop str start e counter a = tokens_loop str start (e + 1) counter a"
    using Cons.prems by (subst tokens_loop.simps) auto
  also have "\<dots> = tokens_loop str start (e + 1 + length t) counter a"
    using Cons.prems(4) [of "Suc i" for i] Cons.prems(1-3) by (intro Cons.IH) auto
  finally show ?case by simp
qed simp

lemma tokens_loop_token:
  assumes str: "str = pre @ t @ rest" and t: "is_token t" and len: "length (pre @ t) < MAX_STRING_LEN - 1"
    and rest: "rest = '''' \<or> hd rest = CHR '',''" and counter: "counter < length a"
  shows "tokens_loop str (length pre) (length pre) counter a =
    tokens_loop str (length (pre @ t) + 1) (length (pre @ t) + 1) (counter + 1) (a[counter := of_int (atoi t)])"
proof -
  have "str ! (length pre + i) \<noteq> CHR '',''" if "i < length t" for i
    using that t by (simp add: str nth_append is_token_def) (metis nth_mem)
  then have "tokens_loop str (length pre) (length pre) counter a = tokens_loop str (length pre) (length pre + length t) counter a"
    using len by (intro tokens_loop_scan) (auto simp: str)
  moreover have "length pre + length t < length str \<and> str ! (length pre + length t) = CHR '','' \<or>
      length pre + length t > length pre \<and> length pre + length t = length str"
    using rest t by (cases rest) (auto simp: str nth_append is_token_def)
  moreover have "take (length pre + length t - length pre) (drop (length pre) str) = t" by (simp add: str)
  moreover have "store_token t counter a = Some (a[counter := of_int (atoi t)])"
    using t counter by (simp add: store_token_def is_token_def)
  ultimately show ?thesis using len by (subst (asm) (2) tokens_loop.simps) (auto simp: str)
qed

lemma tokens_loop_tokens:
  assumes "str = pre @ comma_separated ts" "list_all is_token ts" "length str < MAX_STRING_LEN - 1"
    "counter + length ts \<le> length a"
  shows "tokens_loop str (length pre) (length pre) counter a =
    Some (take counter a @ map (of_int \<circ> atoi) ts @ drop (counter + length ts) a)"
  using assms
proof (induction ts arbitrary: pre counter a rule: comma_separated.induct)
  case 1
  then show ?case by (subst tokens_loop.simps) (auto simp: tokens_loop.simps [of _ "length pre" "Suc (length pre)"])
next
  case (2 t)
  have "tokens_loop str (length pre) (length pre) counter a =
    tokens_loop str (length (pre @ t) + 1) (length (pre @ t) + 1) (counter + 1) (a[counter := of_int (atoi t)])"
    using 2 by (intro tokens_loop_token [of _ _ _ "[]"]) auto
  also have "\<dots> = Some (a[counter := of_int (atoi t)])" using 2 by (subst tokens_loop.simps) simp
  finally show ?case using 2 by (simp add: upd_conv_take_nth_drop)
next
  case (3 t u ts)
  let ?a = "a[counter := of_int (atoi t)]"
  have "tokens_loop str (length pre) (length pre) counter a =
    tokens_loop str (length (pre @ t) + 1) (length (pre @ t) + 1) (counter + 1) ?a"
    using 3 by (intro tokens_loop_token [of _ _ _ "'','' @ comma_separated (u # ts)"]) auto
  also have "\<dots> = tokens_loop str (length (pre @ t @ '','')) (length (pre @ t @ '','')) (counter + 1) ?a" by simp
  also have "\<dots> = Some (take (counter + 1) ?a @ map (of_int \<circ> atoi) (u # ts) @ drop (counter + 1 + length (u # ts)) ?a)"
    using 3 by (intro 3) auto
  finally show ?case using 3 by (simp add: upd_conv_take_nth_drop take_Suc_conv_app_nth)
qed



text \<open>A ninth number, or a number of eight digits, makes the function store beyond its buffers.\<close>
theorem csv_overflows:
  "set_numeric_array_from_comma_separated_value_string (replicate 8 1) ''1,1,1,1,1,1,1,1,1'' = None \<and>
   set_numeric_array_from_comma_separated_value_string (replicate 8 1) ''12345678'' = None"
  by code_simp

end
