(* ===== verification/System_Info.thy ===== *)
theory System_Info
  imports Environment_Variable Http_Profiler
begin

text \<open>
  What the library asks of the system beside memory: the reader of \<open>/proc/meminfo\<close> with the huge page queries, and address
  space randomisation (\<open>include/os/virtual_memory.h\<close>), the processors and the priority and name of a thread
  (\<open>include/os/thread_utilities.h\<close>).  The Linux build; what the system calls answer is an argument.

  A read beyond an array is undefined behaviour, which is \<open>None\<close>.
\<close>

subsection \<open>The C library on an array without an end mark\<close>

text \<open>\<open>strstr\<close> on the bytes of an array: the position of the pattern, or that there is none before the first zero; the end
  of the array must not be reached.\<close>

fun strstr :: "string \<Rightarrow> string \<Rightarrow> nat option option" where
  "strstr pat [] = (if pat = [] then Some (Some 0) else None)"
| "strstr pat (c # cs) =
     (if prefix pat (c # cs) then Some (Some 0) else if c = CHR 0x00 then Some None else map_option (map_option Suc) (strstr pat cs))"

text \<open>\<open>strtoul\<close> in base 10: white space, a sign, digits; a value that is too large becomes \<open>ULONG_MAX\<close>.\<close>

definition strtoul :: "string \<Rightarrow> u64 option" where
  "strtoul str =
     (case dropWhile is_space str of
        [] \<Rightarrow> None
      | c # cs \<Rightarrow>
          let (negative, ds) = (if c = CHR ''-'' then (True, cs) else if c = CHR ''+'' then (False, cs) else (False, c # cs));
              v = digits_value ds
          in if dropWhile is_digit ds = [] then None
             else Some (if v \<ge> 2 ^ 64 then - 1 else if negative then - of_int v else of_int v))"

subsection \<open>\<open>/proc/meminfo\<close>\<close>

text \<open>The file is what the successive calls of \<open>read\<close> answer: some bytes, none at the end, or \<open>None\<close> for an error, whose \<open>-1\<close>
  counts as positive in a \<open>size_t\<close>.  The buffer starts with whatever the stack holds.\<close>

definition MEM_INFO_BUFFER_SIZE :: nat where
  "MEM_INFO_BUFFER_SIZE = 256"

fun mem_info_loop :: "string \<Rightarrow> nat \<Rightarrow> string \<Rightarrow> string option list \<Rightarrow> u64 option" where
  "mem_info_loop attribute attribute_len buffer [] = Some 0"
| "mem_info_loop attribute attribute_len buffer (answer # answers) =
     (if answer = Some [] then Some 0
      else let buffer = (case answer of None \<Rightarrow> buffer | Some bytes \<Rightarrow> bytes @ drop (length bytes) buffer)
           in case strstr attribute buffer of
                None \<Rightarrow> None
              | Some (Some pos) \<Rightarrow> strtoul (drop (pos + attribute_len) buffer)
              | Some None \<Rightarrow> mem_info_loop attribute attribute_len buffer answers)"

definition get_proc_mem_info :: "string \<Rightarrow> string option list option \<Rightarrow> string \<Rightarrow> nat \<Rightarrow> u64 option" where
  "get_proc_mem_info stack mem_info_file attribute attribute_len =
     (case mem_info_file of None \<Rightarrow> Some 0 | Some answers \<Rightarrow> mem_info_loop attribute attribute_len stack answers)"

definition get_huge_page_size :: "string \<Rightarrow> string option list option \<Rightarrow> u64 option" where
  "get_huge_page_size stack mem_info_file = map_option (\<lambda>n. n * 1024) (get_proc_mem_info stack mem_info_file ''Hugepagesize'' 13)"

definition get_huge_page_total_count :: "string \<Rightarrow> string option list option \<Rightarrow> u64 option" where
  "get_huge_page_total_count stack mem_info_file = do {
     ret \<leftarrow> get_proc_mem_info stack mem_info_file ''HugePages_Total'' 16;
     if ret = 0 then get_proc_mem_info stack mem_info_file ''HugePages_Free'' 15 else Some ret }"

definition is_huge_page_available :: "string \<Rightarrow> string option list option \<Rightarrow> bool option" where
  "is_huge_page_available stack mem_info_file = do {
     huge_page_size \<leftarrow> get_huge_page_size stack mem_info_file;
     if huge_page_size \<le> 0 then Some False
     else do { total \<leftarrow> get_huge_page_total_count stack mem_info_file; Some (total > 0) } }"

subsection \<open>Address space randomisation\<close>

definition ADDR_NO_RANDOMIZE :: u32 where
  "ADDR_NO_RANDOMIZE = 0x0040000"

text \<open>The system call sets the flags of the process and answers the old ones.\<close>

definition personality :: "u32 \<Rightarrow> u32 \<Rightarrow> u32 \<times> u32" where
  "personality persona old = (old, persona)"

definition is_aslr_disabled :: "u32 \<Rightarrow> bool \<times> u32" where
  "is_aslr_disabled p = (let (old, p) = personality ADDR_NO_RANDOMIZE p in (old AND ADDR_NO_RANDOMIZE \<noteq> 0, p))"

definition disable_aslr :: "u32 \<Rightarrow> bool \<times> u32" where
  "disable_aslr p =
     (let (old_personality, p) = personality ADDR_NO_RANDOMIZE p
      in if old_personality AND ADDR_NO_RANDOMIZE = 0
         then let (new_personality, p) = personality ADDR_NO_RANDOMIZE p
              in if new_personality AND ADDR_NO_RANDOMIZE = 0 then (False, p) else (True, p)
         else (True, p))"

subsection \<open>Threads\<close>

datatype ThreadPriority = IDLE | BELOW_NORMAL | NORMAL | ABOVE_NORMAL | CRITICAL

text \<open>The table in the order of the enumeration.\<close>

definition NATIVE_THREAD_PRIORITIES :: "(ThreadPriority \<times> int) list" where
  "NATIVE_THREAD_PRIORITIES = [(IDLE, 19), (BELOW_NORMAL, 1), (NORMAL, 0), (ABOVE_NORMAL, - 1), (CRITICAL, - 20)]"

definition priority_index :: "ThreadPriority \<Rightarrow> nat" where
  "priority_index p = (case p of IDLE \<Rightarrow> 0 | BELOW_NORMAL \<Rightarrow> 1 | NORMAL \<Rightarrow> 2 | ABOVE_NORMAL \<Rightarrow> 3 | CRITICAL \<Rightarrow> 4)"

text \<open>The priority that \<open>pthread_setschedparam\<close> is given, and the result, which does not depend on its answer.\<close>

definition set_priority :: "ThreadPriority \<Rightarrow> int \<times> bool" where
  "set_priority priority =
     (let success = False; native_priority_value = snd (NATIVE_THREAD_PRIORITIES ! priority_index priority)
      in (native_priority_value, success))"

definition MAX_THREAD_NAME_LENGTH :: nat where
  "MAX_THREAD_NAME_LENGTH = 16"

text \<open>The name that \<open>pthread_setname_np\<close> is given, if it is called.\<close>

definition set_thread_name :: "string \<Rightarrow> string option" where
  "set_thread_name name = (if length name > 0 \<and> length name \<le> MAX_THREAD_NAME_LENGTH then Some name else None)"

text \<open>The character that \<open>/sys/devices/system/cpu/smt/active\<close> holds, if it can be read.\<close>

definition is_hyper_threading :: "char option \<Rightarrow> bool" where
  "is_hyper_threading smt =
     (case smt of
        None \<Rightarrow> False
      | Some value \<Rightarrow> let smt_active = sint (of_nat (of_char value) :: u8) - 48 in smt_active > 0)"

definition get_number_of_physical_cores :: "u32 \<Rightarrow> char option \<Rightarrow> u32" where
  "get_number_of_physical_cores num_logical_cores smt = (if is_hyper_threading smt then num_logical_cores div 2 else num_logical_cores)"

subsection \<open>Facts\<close>

text \<open>A search without success in an array without a zero leaves the array.\<close>

lemma strstr_leaves:
  assumes "CHR 0x00 \<notin> set buf" "\<not> sublist pat buf"
  shows "strstr pat buf = None"
  using assms by (induction buf) (auto simp: sublist_Cons_right)

lemma strstr_first:
  assumes "CHR 0x00 \<notin> set pre" "\<forall>k < length pre. \<not> prefix pat (drop k (pre @ pat @ post))" "pat \<noteq> []"
  shows "strstr pat (pre @ pat @ post) = Some (Some (length pre))"
  using assms(1,2)
proof (induction pre)
  case Nil
  obtain c cs where "pat @ post = c # cs" using assms(3) by (cases pat) auto
  then show ?case using prefixI [of "c # cs" pat post] by simp
next
  case (Cons c pre)
  have "\<forall>k < length pre. \<not> prefix pat (drop k (pre @ pat @ post))"
  proof (intro allI impI)
    fix k assume "k < length pre"
    then show "\<not> prefix pat (drop k (pre @ pat @ post))" using Cons.prems(2) [rule_format, of "Suc k"] by simp
  qed
  then have "strstr pat (pre @ pat @ post) = Some (Some (length pre))" using Cons by simp
  moreover have "\<not> prefix pat (c # pre @ pat @ post)" using Cons.prems(2) [rule_format, of 0] by simp
  ultimately show ?case using Cons.prems(1) by auto
qed

text \<open>\<open>strtoul\<close> reads back a printed number.\<close>

lemma digit_char_digit: "d < 10 \<Longrightarrow> is_digit (digit_char d)" "d < 10 \<Longrightarrow> digit_value (digit_char d) = int d"
  by (simp_all add: is_digit_def digit_value_def digit_char_def of_char_of)

lemma decimal_digits: "\<forall>c \<in> set (decimal n). is_digit c"
proof (induction n rule: decimal.induct)
  case (1 n)
  then show ?case by (subst decimal.simps) (simp add: digit_char_digit)
qed

lemma decimal_value: "foldl (\<lambda>n c. 10 * n + digit_value c) 0 (decimal n) = int n"
proof (induction n rule: decimal.induct)
  case (1 n)
  have "int (10 * (n div 10) + n mod 10) = int n" by simp
  then have "10 * int (n div 10) + int (n mod 10) = int n" by (simp only: of_nat_add of_nat_mult of_nat_numeral)
  then show ?case using 1 by (subst decimal.simps) (simp add: digit_char_digit)
qed

lemma digits_value_decimal:
  assumes "\<not> is_digit c"
  shows "digits_value (decimal n @ c # cs) = int n" "dropWhile is_digit (decimal n @ c # cs) = c # cs"
proof -
  show "digits_value (decimal n @ c # cs) = int n"
    using assms decimal_digits [of n] decimal_value [of n] by (simp add: digits_value_def takeWhile_append2)
  show "dropWhile is_digit (decimal n @ c # cs) = c # cs"
    using assms decimal_digits [of n] by (simp add: dropWhile_append2)
qed

lemma is_digit_not: "is_digit c \<Longrightarrow> \<not> is_space c \<and> c \<noteq> CHR ''-'' \<and> c \<noteq> CHR ''+''"
  by (auto simp: is_digit_def is_space_def)

lemma strtoul_decimal:
  assumes "\<forall>c \<in> set spaces. is_space c" "\<not> is_digit e" "n < 2 ^ 64"
  shows "strtoul (spaces @ decimal n @ e # rest) = Some (of_nat n)"
proof -
  obtain d ds where d: "decimal n = d # ds" using decimal_length [of n] by (cases "decimal n") auto
  then have "is_digit d" using decimal_digits [of n] by simp
  note nd = is_digit_not [OF this]
  have skip: "dropWhile is_space (spaces @ decimal n @ e # rest) = decimal n @ e # rest"
    using assms(1) d nd by (simp add: dropWhile_append2)
  show ?thesis
    unfolding strtoul_def skip using nd digits_value_decimal [OF assms(2), of n rest] assms(3)
    using assms(2) by (simp add: d Let_def del: dropWhile.simps)
qed

text \<open>An attribute in the first block of the file, with its number and a character behind the number, is read.\<close>

theorem mem_info_read_back:
  assumes "bytes = pre @ attribute @ '':'' @ spaces @ decimal n @ e # rest" "attribute \<noteq> []"
    "CHR 0x00 \<notin> set pre" "\<forall>k < length pre. \<not> prefix attribute (drop k bytes)"
    "\<forall>c \<in> set spaces. is_space c" "\<not> is_digit e" "n < 2 ^ 64"
  shows "get_proc_mem_info stack (Some (Some bytes # answers)) attribute (Suc (length attribute)) = Some (of_nat n)"
proof -
  let ?post = "'':'' @ spaces @ decimal n @ e # rest @ drop (length bytes) stack"
  have buf: "bytes @ drop (length bytes) stack = pre @ attribute @ ?post" using assms(1) by simp
  have "\<forall>k < length pre. \<not> prefix attribute (drop k (pre @ attribute @ ?post))"
  proof (intro allI impI)
    fix k assume k: "k < length pre"
    have "drop k (pre @ attribute @ ?post) = drop k bytes @ drop (length bytes) stack" using k assms(1) by simp
    moreover have "length attribute \<le> length (drop k bytes)" using k assms(1) by simp
    ultimately show "\<not> prefix attribute (drop k (pre @ attribute @ ?post))"
      using assms(4) k by (metis prefix_length_prefix prefixI)
  qed
  from strstr_first [OF assms(3) this assms(2)]
  have "strstr attribute (bytes @ drop (length bytes) stack) = Some (Some (length pre))" by (simp only: buf)
  moreover have "bytes \<noteq> []" using assms(1,2) by simp
  moreover have "drop (length pre + Suc (length attribute)) (bytes @ drop (length bytes) stack) = spaces @ decimal n @ e # rest @ drop (length bytes) stack"
    unfolding buf by simp
  ultimately show ?thesis using strtoul_decimal [OF assms(5,6,7)] by (simp add: get_proc_mem_info_def)
qed

theorem mem_info_read_back_witness:
  "get_proc_mem_info [] (Some [Some (''Hugepagesize:    '' @ decimal 2048 @ '' kB'')]) ''Hugepagesize'' 13 = Some 2048"
proof -
  have len: "13 = Suc (length ''Hugepagesize'')" by simp
  have "get_proc_mem_info [] (Some [Some (''Hugepagesize:    '' @ decimal 2048 @ '' kB'')]) ''Hugepagesize'' (Suc (length ''Hugepagesize'')) =
      Some (of_nat 2048)"
    by (rule mem_info_read_back [of _ "[]" _ "''    ''" 2048 "CHR '' ''" "''kB''"]) (simp_all add: is_space_def is_digit_def)
  then show ?thesis unfolding len by simp
qed

text \<open>The size of a huge page, on a system where it is not in the first 256 bytes of the file: the search runs beyond the
  buffer, which has no zero at its end.\<close>

theorem huge_page_size_leaves_buffer:
  assumes "length stack = MEM_INFO_BUFFER_SIZE" "length bytes = MEM_INFO_BUFFER_SIZE"
    "CHR 0x00 \<notin> set bytes" "\<not> sublist ''Hugepagesize'' bytes"
  shows "get_huge_page_size stack (Some (Some bytes # answers)) = None"
proof -
  have "bytes \<noteq> []" "drop (length bytes) stack = []" using assms(1,2) by (auto simp: MEM_INFO_BUFFER_SIZE_def)
  then show ?thesis using strstr_leaves [OF assms(3,4)] by (simp add: get_huge_page_size_def get_proc_mem_info_def)
qed

theorem huge_page_size_leaves_buffer_witness:
  "get_huge_page_size (replicate 256 CHR 0x00) (Some [Some (replicate 256 CHR '' '')]) = None"
  by (rule huge_page_size_leaves_buffer) (auto simp: MEM_INFO_BUFFER_SIZE_def dest: set_mono_sublist)

text \<open>The query disables the randomisation that it asks about, and forgets the other flags of the process.\<close>

lemma is_aslr_disabled_disables: "fst (is_aslr_disabled (snd (is_aslr_disabled p)))" "snd (is_aslr_disabled p) = snd (disable_aslr p)"
  by (simp_all add: is_aslr_disabled_def disable_aslr_def personality_def ADDR_NO_RANDOMIZE_def)

lemma disable_aslr_succeeds: "disable_aslr p = (True, ADDR_NO_RANDOMIZE)"
  by (simp add: disable_aslr_def personality_def ADDR_NO_RANDOMIZE_def)

text \<open>The table is in the order of the enumeration, and more urgent means smaller.\<close>

lemma native_priorities:
  "fst (NATIVE_THREAD_PRIORITIES ! priority_index p) = p"
  "priority_index p < priority_index q \<longleftrightarrow> snd (NATIVE_THREAD_PRIORITIES ! priority_index q) < snd (NATIVE_THREAD_PRIORITIES ! priority_index p)"
  by (cases p; cases q; simp add: NATIVE_THREAD_PRIORITIES_def priority_index_def)+

end
