(* ===== verification/Trampoline.thy ===== *)
theory Trampoline
  imports Machine
begin

text \<open>
  \<open>include/cpu/trampoline.h\<close> and the patches of \<open>examples/integration-windows_statically_linked_dll\<close>: the functions of the C
  library are redirected by writing a jump over their first 14 bytes, and restored when the library is unloaded.

  The state is the code in memory and the protection of each region, by its base address.  The system is the record
  \<open>windows\<close>: the base of the region of an address, and the exports of the C library, if it is loaded.
\<close>

subsection \<open>Patching a function\<close>

record windows =
  region_base :: "u64 \<Rightarrow> u64"
  crt_library :: "(string \<Rightarrow> u64) option"

record code_state =
  code :: mem
  protection :: "u64 \<Rightarrow> u32"

definition PAGE_EXECUTE_READWRITE :: u32 where
  "PAGE_EXECUTE_READWRITE = 0x40"

text \<open>\<open>ScopedReadWriteAccess\<close>: the protection of the region is changed around the access.\<close>

definition scoped_read_write :: "windows \<Rightarrow> u64 \<Rightarrow> (code_state \<Rightarrow> 'a \<times> code_state) \<Rightarrow> code_state \<Rightarrow> 'a \<times> code_state" where
  "scoped_read_write win address access s =
     (let base = region_base win address;
          protect = protection s base;
          s = s\<lparr>protection := (protection s)(base := PAGE_EXECUTE_READWRITE)\<rparr>;
          (r, s) = access s
      in (r, s\<lparr>protection := (protection s)(base := protect)\<rparr>))"

definition INSTRUCTION_SIZE :: nat where
  "INSTRUCTION_SIZE = 14"

definition bytes_at :: "mem \<Rightarrow> u64 \<Rightarrow> nat \<Rightarrow> u8 list" where
  "bytes_at m a n = map (\<lambda>i. m (a + of_nat i)) [0..<n]"

definition memcpy_bytes :: "mem \<Rightarrow> u64 \<Rightarrow> u8 list \<Rightarrow> mem" where
  "memcpy_bytes m a bs x = (if unat (x - a) < length bs then bs ! unat (x - a) else m x)"

definition is_address_64_bit :: "windows \<Rightarrow> u64 \<Rightarrow> bool" where
  "is_address_64_bit win address \<longleftrightarrow> region_base win address < 0x8000000000000000"

text \<open>The jump: opcode \<open>0x25ff\<close>, offset 0, then the address.\<close>

definition write_jump :: "mem \<Rightarrow> u64 \<Rightarrow> u64 \<Rightarrow> mem" where
  "write_jump m target replacement_function_address =
     (let m = memcpy_bytes m target [0xFF, 0x25];
          m = memcpy_bytes m (target + 2) [0, 0, 0, 0]
      in store64 m (target + 6) replacement_function_address)"

definition Trampoline_install :: "windows \<Rightarrow> u64 \<Rightarrow> u64 \<Rightarrow> code_state \<Rightarrow> (u8 list) option \<times> code_state" where
  "Trampoline_install win original_function_address replacement_function_address s =
     (if is_address_64_bit win original_function_address = False \<or> is_address_64_bit win replacement_function_address = False
      then (None, s)
      else scoped_read_write win original_function_address (\<lambda>s.
             let original_bytes = bytes_at (code s) original_function_address INSTRUCTION_SIZE
             in (Some original_bytes, s\<lparr>code := write_jump (code s) original_function_address replacement_function_address\<rparr>)) s)"

definition Trampoline_uninstall :: "windows \<Rightarrow> u64 \<Rightarrow> u8 list \<Rightarrow> code_state \<Rightarrow> code_state" where
  "Trampoline_uninstall win original_function_address original_bytes s =
     snd (scoped_read_write win original_function_address (\<lambda>s.
       ((), s\<lparr>code := memcpy_bytes (code s) original_function_address original_bytes\<rparr>)) s)"

subsection \<open>The patches of the C library\<close>

record TrampolinePatch =
  patch_name :: string
  original_address :: u64
  replacement_addres :: u64
  original_bytes :: "u8 list"

text \<open>The table, with the addresses of the replacements.\<close>

definition trampoline_patches :: "(string \<Rightarrow> u64) \<Rightarrow> TrampolinePatch list" where
  "trampoline_patches replacement =
     map (\<lambda>(n, r). \<lparr>patch_name = n, original_address = 0, replacement_addres = replacement r, original_bytes = replicate 14 0\<rparr>)
       [(''malloc'', ''metamalloc_malloc''), (''free'', ''metamalloc_free''), (''calloc'', ''metamalloc_calloc''),
        (''realloc'', ''metamalloc_realloc''), (''_aligned_malloc'', ''metamalloc_aligned_malloc''),
        (''_aligned_free'', ''metamalloc_aligned_free''), (''_msize'', ''metamalloc_usable_size'')]"

fun install_loop :: "windows \<Rightarrow> (string \<Rightarrow> u64) \<Rightarrow> TrampolinePatch list \<Rightarrow> code_state \<Rightarrow> bool \<times> TrampolinePatch list \<times> code_state" where
  "install_loop win exports [] s = (True, [], s)"
| "install_loop win exports (p # ps) s =
     (let p = p\<lparr>original_address := exports (patch_name p)\<rparr>
      in if original_address p = 0 then (False, p # ps, s)
         else case Trampoline_install win (original_address p) (replacement_addres p) s of
                (None, s) \<Rightarrow> (False, p # ps, s)
              | (Some bs, s) \<Rightarrow>
                  let (ok, ps, s) = install_loop win exports ps s in (ok, p\<lparr>original_bytes := bs\<rparr> # ps, s))"

definition install_trampolines :: "windows \<Rightarrow> TrampolinePatch list \<Rightarrow> code_state \<Rightarrow> bool \<times> TrampolinePatch list \<times> code_state" where
  "install_trampolines win ps s =
     (case crt_library win of None \<Rightarrow> (False, ps, s) | Some exports \<Rightarrow> install_loop win exports ps s)"

fun uninstall_trampolines :: "windows \<Rightarrow> TrampolinePatch list \<Rightarrow> code_state \<Rightarrow> code_state" where
  "uninstall_trampolines win [] s = s"
| "uninstall_trampolines win (p # ps) s =
     uninstall_trampolines win ps (Trampoline_uninstall win (original_address p) (original_bytes p) s)"

subsection \<open>One patch\<close>

text \<open>The bytes of a function that the jump covers.\<close>

definition window :: "u64 \<Rightarrow> u64 set" where
  "window a = {x. unat (x - a) < INSTRUCTION_SIZE}"

text \<open>The target of a jump through the word behind it, as the processor takes it.\<close>

definition jump_target :: "mem \<Rightarrow> u64 \<Rightarrow> u64 option" where
  "jump_target m a = (if bytes_at m a 6 = [0xFF, 0x25, 0, 0, 0, 0] then Some (load64 m (a + 6)) else None)"

lemma write_jump_outside: "x \<notin> window a \<Longrightarrow> write_jump m a r x = m x"
proof -
  assume "x \<notin> window a"
  then have d: "14 \<le> unat (x - a)" by (simp add: window_def INSTRUCTION_SIZE_def)
  have "unat (x - (a + 2)) = unat (x - a) - 2" "unat (x - (a + 6)) = unat (x - a) - 6"
    unfolding diff_diff_eq [symmetric] using unat_sub_nowrap [of 2 "x - a"] unat_sub_nowrap [of 6 "x - a"] d by simp_all
  then have "\<not> unat (x - a) < 2" "\<not> unat (x - (a + 2)) < 4" "\<not> x - (a + 6) < 8" using d by (simp_all add: word_less_nat_alt)
  then show ?thesis by (simp add: write_jump_def memcpy_bytes_def store64_def numeral_eq_Suc Let_def)
qed

lemma bytes_at_nth: "x \<in> window a \<Longrightarrow> bytes_at m a INSTRUCTION_SIZE ! unat (x - a) = m x"
  by (simp add: bytes_at_def window_def)

lemma bytes_at_cong: "(\<And>x. x \<in> window a \<Longrightarrow> m x = m' x) \<Longrightarrow> bytes_at m a INSTRUCTION_SIZE = bytes_at m' a INSTRUCTION_SIZE"
  by (auto simp: bytes_at_def window_def INSTRUCTION_SIZE_def unat_of_nat take_bit_nat_def)

lemma memcpy_restores:
  "memcpy_bytes m a (bytes_at m0 a INSTRUCTION_SIZE) = (\<lambda>x. if x \<in> window a then m0 x else m x)"
proof
  fix x
  show "memcpy_bytes m a (bytes_at m0 a INSTRUCTION_SIZE) x = (if x \<in> window a then m0 x else m x)"
    using bytes_at_nth [of x a m0] by (auto simp: memcpy_bytes_def window_def bytes_at_def)
qed

lemma scoped_protection: "protection (snd (scoped_read_write win a f s)) = protection s"
  if "\<And>s. protection (snd (f s)) = protection s"
  using that [of "s\<lparr>protection := (protection s)(region_base win a := PAGE_EXECUTE_READWRITE)\<rparr>"]
  by (auto simp: scoped_read_write_def Let_def split: prod.splits)

lemma install_result:
  assumes "Trampoline_install win a r s = (Some bs, s')"
  shows "bs = bytes_at (code s) a INSTRUCTION_SIZE" "code s' = write_jump (code s) a r" "protection s' = protection s"
proof -
  have run: "scoped_read_write win a (\<lambda>s. (Some (bytes_at (code s) a INSTRUCTION_SIZE), s\<lparr>code := write_jump (code s) a r\<rparr>)) s = (Some bs, s')"
    using assms by (auto simp: Trampoline_install_def split: if_splits)
  then show "bs = bytes_at (code s) a INSTRUCTION_SIZE" "code s' = write_jump (code s) a r"
    by (auto simp: scoped_read_write_def Let_def)
  show "protection s' = protection s"
    using scoped_protection [of "\<lambda>s. (Some (bytes_at (code s) a INSTRUCTION_SIZE), s\<lparr>code := write_jump (code s) a r\<rparr>)" win a s] run by simp
qed

lemma uninstall_result:
  "code (Trampoline_uninstall win a (bytes_at m0 a INSTRUCTION_SIZE) s) = (\<lambda>x. if x \<in> window a then m0 x else code s x)"
  "protection (Trampoline_uninstall win a bs s) = protection s"
  unfolding Trampoline_uninstall_def
  by (auto simp: scoped_read_write_def Let_def memcpy_restores)

lemma jump_target_written: "jump_target (write_jump m a r) a = Some r"
proof -
  have upt: "[0..<6] = [0, 1, 2, 3, 4, 5 :: nat]" by (simp add: upt_rec)
  have "unat (- 1 :: u64) = 2 ^ 64 - 1" by (simp add: unsigned_minus_1_eq_mask mask_eq_exp_minus_1)
  then show ?thesis
    by (simp add: jump_target_def write_jump_def bytes_at_def upt memcpy_bytes_def store64_def Let_def)
qed

lemma jump_target_cong:
  assumes "\<And>x. x \<in> window a \<Longrightarrow> m x = m' x"
  shows "jump_target m a = jump_target m' a"
proof -
  have near: "m (a + of_nat i) = m' (a + of_nat i)" if "i < 14" for i
    by (rule assms) (use that in \<open>simp add: window_def INSTRUCTION_SIZE_def unat_of_nat take_bit_nat_def\<close>)
  have "load64 m (a + 6) = load64 m' (a + 6)"
  proof (rule load64_cong)
    fix i :: nat assume "i < 8"
    then show "m (a + 6 + of_nat i) = m' (a + 6 + of_nat i)" using near [of "i + 6"] by (simp add: algebra_simps)
  qed
  moreover have "bytes_at m a 6 = bytes_at m' a 6" using near by (simp add: bytes_at_def)
  ultimately show ?thesis by (simp add: jump_target_def)
qed

subsection \<open>All patches\<close>

fun windows_disjoint :: "u64 list \<Rightarrow> bool" where
  "windows_disjoint [] \<longleftrightarrow> True"
| "windows_disjoint (a # as) \<longleftrightarrow>
     (\<forall>b \<in> set as. unat (b - a) \<ge> INSTRUCTION_SIZE \<and> unat (a - b) \<ge> INSTRUCTION_SIZE) \<and> windows_disjoint as"

lemma window_disjoint:
  assumes "unat (b - a) \<ge> INSTRUCTION_SIZE" "unat (a - b) \<ge> INSTRUCTION_SIZE"
  shows "window a \<inter> window b = {}"
proof -
  have False if x: "unat (x - a) < INSTRUCTION_SIZE" "unat (x - b) < INSTRUCTION_SIZE" for x
  proof (cases "unat (x - b) \<le> unat (x - a)")
    case True
    have "b - a = (x - a) - (x - b)" by simp
    then show False using True unat_sub_nowrap [OF True] assms(1) x by simp
  next
    case False
    then have le: "unat (x - a) \<le> unat (x - b)" by simp
    have "a - b = (x - b) - (x - a)" by simp
    then show False using unat_sub_nowrap [OF le] assms(2) x by simp
  qed
  then show ?thesis by (auto simp: window_def)
qed

text \<open>What an installation leaves: the saved bytes are the ones of the original code, each function jumps to its replacement,
  and nothing else has changed.\<close>

lemma install_loop_result:
  assumes "install_loop win exports ps s = (True, ps', s')" "windows_disjoint (map (exports \<circ> patch_name) ps)"
  shows "map original_address ps' = map (exports \<circ> patch_name) ps
    \<and> (\<forall>p \<in> set ps'. original_bytes p = bytes_at (code s) (original_address p) INSTRUCTION_SIZE
         \<and> jump_target (code s') (original_address p) = Some (replacement_addres p))
    \<and> (\<forall>x. x \<notin> (\<Union>p \<in> set ps'. window (original_address p)) \<longrightarrow> code s' x = code s x)
    \<and> protection s' = protection s \<and> map replacement_addres ps' = map replacement_addres ps"
  using assms
proof (induction ps arbitrary: s ps')
  case (Cons p ps)
  let ?a = "exports (patch_name p)"
  obtain bs s1 where one: "Trampoline_install win ?a (replacement_addres p) s = (Some bs, s1)"
    using Cons.prems(1) by (auto simp: Let_def split: if_splits prod.splits option.splits)
  then obtain qs where rest: "install_loop win exports ps s1 = (True, qs, s')"
    and ps': "ps' = p\<lparr>original_address := ?a, original_bytes := bs\<rparr> # qs"
    using Cons.prems(1) by (auto simp: Let_def split: if_splits prod.splits)
  note inst = install_result [OF one]
  have disj: "windows_disjoint (map (exports \<circ> patch_name) ps)" "\<forall>q \<in> set ps. window ?a \<inter> window (exports (patch_name q)) = {}"
    using Cons.prems(2) window_disjoint [of _ ?a] by (simp_all add: o_def)
  note IH = Cons.IH [OF rest disj(1)]
  have qs: "original_address ` set qs = (exports \<circ> patch_name) ` set ps" using IH by (metis list.set_map)
  have away: "window ?a \<inter> window (original_address q) = {}" if "q \<in> set qs" for q
  proof -
    have "original_address q \<in> (exports \<circ> patch_name) ` set ps" using that qs by blast
    then obtain x where "x \<in> set ps" "original_address q = exports (patch_name x)" by auto
    then show ?thesis using disj(2) by simp
  qed
  have code1: "x \<notin> window ?a \<Longrightarrow> code s1 x = code s x" for x using inst(2) write_jump_outside by simp
  have saved: "bytes_at (code s1) (original_address q) INSTRUCTION_SIZE = bytes_at (code s) (original_address q) INSTRUCTION_SIZE"
    if "q \<in> set qs" for q
    by (rule bytes_at_cong) (use away [OF that] code1 in blast)
  have kept: "code s' x = write_jump (code s) ?a (replacement_addres p) x" if "x \<in> window ?a" for x
  proof -
    have "x \<notin> (\<Union>q \<in> set qs. window (original_address q))" using away that by blast
    then show ?thesis using IH inst(2) by simp
  qed
  have "jump_target (code s') ?a = jump_target (write_jump (code s) ?a (replacement_addres p)) ?a"
    by (rule jump_target_cong) (rule kept)
  then have "jump_target (code s') ?a = Some (replacement_addres p)" by (simp add: jump_target_written)
  then show ?case using IH saved inst code1 by (auto simp: ps')
qed simp

lemma uninstall_trampolines_result:
  assumes "\<forall>p \<in> set ps. original_bytes p = bytes_at m0 (original_address p) INSTRUCTION_SIZE"
  shows "code (uninstall_trampolines win ps s) = (\<lambda>x. if x \<in> (\<Union>p \<in> set ps. window (original_address p)) then m0 x else code s x)
    \<and> protection (uninstall_trampolines win ps s) = protection s"
  using assms
proof (induction ps arbitrary: s)
  case (Cons p ps)
  then show ?case by (auto simp: uninstall_result)
qed simp

subsection \<open>Properties\<close>

text \<open>C28: The redirection is complete and leaves no trace: when the installation succeeds on functions whose first 14 bytes
  do not overlap, every function of the table jumps to its replacement, and uninstalling the patches restores the code
  and the protection of memory exactly.\<close>

theorem trampolines_restored:
  assumes "crt_library win = Some exports" "windows_disjoint (map (exports \<circ> patch_name) ps)"
    "install_trampolines win ps s = (True, ps', s')"
  shows "map original_address ps' = map (exports \<circ> patch_name) ps \<and> map replacement_addres ps' = map replacement_addres ps
    \<and> (\<forall>p \<in> set ps'. jump_target (code s') (original_address p) = Some (replacement_addres p))
    \<and> uninstall_trampolines win ps' s' = s"
proof -
  have run: "install_loop win exports ps s = (True, ps', s')" using assms(1,3) by (simp add: install_trampolines_def)
  note r = install_loop_result [OF run assms(2)]
  then have saved: "\<forall>p \<in> set ps'. original_bytes p = bytes_at (code s) (original_address p) INSTRUCTION_SIZE" by blast
  have "code (uninstall_trampolines win ps' s') = code s"
    using uninstall_trampolines_result [OF saved, of win s'] r by auto
  moreover have "protection (uninstall_trampolines win ps' s') = protection s"
    using uninstall_trampolines_result [OF saved, of win s'] r by simp
  ultimately show ?thesis using r by simp
qed

text \<open>Two functions of a library, 64 bytes apart.\<close>

definition example_windows :: windows where
  "example_windows = \<lparr>region_base = \<lambda>a. 0x1000 * (a div 0x1000), crt_library = Some (\<lambda>n. if n = ''malloc'' then 0x7000 else 0x7040)\<rparr>"

definition example_patches :: "TrampolinePatch list" where
  "example_patches = take (Suc (Suc 0)) (trampoline_patches (\<lambda>n. if n = ''metamalloc_malloc'' then 0x9000 else 0x9100))"

definition example_code :: code_state where
  "example_code = \<lparr>code = \<lambda>x. ucast x, protection = \<lambda>_. 0x20\<rparr>"

theorem trampolines_restored_witness:
  "let (ok, ps, s) = install_trampolines example_windows example_patches example_code
   in ok \<and> map original_address ps = [0x7000, 0x7040] \<and> jump_target (code s) 0x7000 = Some 0x9000
      \<and> uninstall_trampolines example_windows ps s = example_code"
proof -
  obtain ok ps s where run: "install_trampolines example_windows example_patches example_code = (ok, ps, s)"
    by (metis prod_cases3)
  have installs: "\<exists>bs s'. Trampoline_install example_windows a r s = (Some bs, s')" if "a \<in> {0x7000, 0x7040}" "r \<in> {0x9000, 0x9100}" for a r s
    using that by (auto simp: Trampoline_install_def is_address_64_bit_def example_windows_def scoped_read_write_def)
  have crt: "crt_library example_windows = Some (\<lambda>n. if n = ''malloc'' then 0x7000 else 0x7040)" by (simp add: example_windows_def)
  obtain bs s1 where s1: "Trampoline_install example_windows 0x7000 0x9000 example_code = (Some bs, s1)"
    using installs by blast
  obtain cs s2 where s2: "Trampoline_install example_windows 0x7040 0x9100 s1 = (Some cs, s2)"
    using installs by blast
  have ok: "ok"
    using run by (simp add: install_trampolines_def example_patches_def trampoline_patches_def crt Let_def s1 s2)
  let ?e = "\<lambda>n. if n = ''malloc'' then 0x7000 else 0x7040 :: u64"
  have "crt_library example_windows = Some ?e" by (simp add: example_windows_def)
  moreover have d: "map (?e \<circ> patch_name) example_patches = [0x7000, 0x7040]" "map replacement_addres example_patches = [0x9000, 0x9100]"
    by (simp_all add: example_patches_def trampoline_patches_def)
  moreover have "windows_disjoint [0x7000, 0x7040]" by (simp add: INSTRUCTION_SIZE_def)
  ultimately have r: "map original_address ps = [0x7000, 0x7040] \<and> map replacement_addres ps = [0x9000, 0x9100]
      \<and> (\<forall>p \<in> set ps. jump_target (code s) (original_address p) = Some (replacement_addres p))
      \<and> uninstall_trampolines example_windows ps s = example_code"
    using trampolines_restored [of example_windows ?e example_patches example_code ps s] run ok by simp
  then obtain p q where "ps = [p, q]" by (cases ps; cases "tl ps") auto
  then show ?thesis using r ok by (auto simp: run simp del: uninstall_trampolines.simps)
qed

text \<open>The patches are undone in the order in which they were made: where a function starts inside the first 14 bytes of
  another, the bytes that are restored last are the ones of a jump.\<close>

definition overlapping_windows :: windows where
  "overlapping_windows = \<lparr>region_base = \<lambda>a. 0x7000, crt_library = Some (\<lambda>n. if n = ''malloc'' then 0x7000 else 0x7008)\<rparr>"

lemma overlapping_trampolines_not_restored:
  "let (ok, ps, s) = install_trampolines overlapping_windows example_patches example_code
   in ok \<and> code (uninstall_trampolines overlapping_windows ps s) 0x7008 = 0 \<and> code example_code 0x7008 = 8"
  by (simp add: install_trampolines_def example_patches_def trampoline_patches_def overlapping_windows_def example_code_def Let_def
      Trampoline_install_def is_address_64_bit_def scoped_read_write_def Trampoline_uninstall_def memcpy_bytes_def bytes_at_def
      write_jump_def INSTRUCTION_SIZE_def store64_code)

end
