(* ===== verification/Simple_Heap.thy ===== *)
theory Simple_Heap
  imports Segment
begin

text \<open>
  \<open>include/heap_base.h\<close>, \<open>examples/minimal_heap.h\<close> and \<open>examples/simple_heap_pow2.h\<close>: heaps are made of segments.
  \<open>MinimalHeap\<close> has one segment of any-size pages.  \<open>SimpleHeapPow2\<close> has eight segments for the sizes 16,
  32, ..., 2048 and one for everything larger; a small object's page, and with it its size class, is
  found by masking its address.

  The template parameters of a heap are the record \<open>heap_policy\<close>.  All segments of a heap live in the
  world of Segment.  \<open>None\<close> is a call that does not return.
\<close>

subsection \<open>\<open>HeapBase\<close>\<close>

record HeapBase =
  hb_buffer_address :: u64
  hb_buffer_length :: u64

definition MINIMUM_ALIGNMENT :: u64 where
  "MINIMUM_ALIGNMENT = 16"

text \<open>\<open>allocate\<close> is the allocation of the derived heap.\<close>

definition HeapBase_allocate_aligned :: "(u64 \<Rightarrow> 's \<Rightarrow> (u64 \<times> 's) option) \<Rightarrow> u64 \<Rightarrow> u64 \<Rightarrow> 's \<Rightarrow> (u64 \<times> 's) option" where
  "HeapBase_allocate_aligned alloc sz alignment s =
     (if alignment \<le> MINIMUM_ALIGNMENT then alloc sz s
      else do {
        let adjusted_size = sz + alignment;
        (ptr, s) \<leftarrow> alloc adjusted_size s;
        let offset = alignment - modulo_pow2 ptr alignment;
        let ret = ptr + offset;
        Some (ret, s) })"

text \<open>\<open>owns_pointer\<close> is meant for thread local heaps; its assertion does nothing in a release build.\<close>

definition HeapBase_owns_pointer :: "u64 \<Rightarrow> 'h HeapBase_scheme \<Rightarrow> bool" where
  "HeapBase_owns_pointer ptr h =
     (if ptr \<ge> hb_buffer_address h \<and> ptr < hb_buffer_address h + hb_buffer_length h then True else False)"

record heap_policy =
  heap_concurrency :: ConcurrencyPolicy
  heap_arena :: arena_policy
  small_page_type :: LogicalPageType
  big_page_type :: LogicalPageType
  heap_recycling :: PageRecyclingPolicy

subsection \<open>\<open>MinimalHeap\<close>\<close>

record MinimalHeap = HeapBase +
  mh_segment :: Segment

definition minimal_policy :: "ConcurrencyPolicy \<Rightarrow> segment_policy" where
  "minimal_policy cp = \<lparr>concurrency_policy = cp, page_type = LOGICAL_PAGE_ANY_SIZE COALESCE,
     arena_type = \<lparr>lock_policy = USERSPACE_LOCK, virtual_memory_policy = DEFAULT, zero_memory = False\<rparr>,
     page_recycling_policy = IMMEDIATE, buffer_aligned_to_logical_page_size = False\<rparr>"

definition MinimalHeap_new :: MinimalHeap where
  "MinimalHeap_new = \<lparr>hb_buffer_address = 0, hb_buffer_length = 0, mh_segment = Segment_new\<rparr>"

fun MinimalHeap_create :: "ConcurrencyPolicy \<Rightarrow> os \<Rightarrow> u64 \<Rightarrow> MinimalHeap \<times> world \<Rightarrow> (bool \<times> MinimalHeap \<times> world) option" where
  "MinimalHeap_create cp os total_size (h, w) = do {
     let h = h\<lparr>hb_buffer_length := total_size\<rparr>;
     (buffer, w) \<leftarrow> arena_allocate (minimal_policy cp) os (hb_buffer_length h) w;
     let h = h\<lparr>hb_buffer_address := buffer\<rparr>;
     let segment_params = \<lparr>p_logical_page_size = 65536, p_logical_page_count = 1, p_page_recycling_threshold = 1,
           p_deallocation_queue_initial_capacity = 65536, p_size_class = 0, p_grow_coefficient = 0\<rparr>;
     let (ret, (sg, w)) = Segment_create (minimal_policy cp) os (hb_buffer_address h) segment_params (mh_segment h, w);
     Some (ret, h\<lparr>mh_segment := sg\<rparr>, w) }"

fun MinimalHeap_allocate :: "ConcurrencyPolicy \<Rightarrow> os \<Rightarrow> u64 \<Rightarrow> MinimalHeap \<times> world \<Rightarrow> (u64 \<times> MinimalHeap \<times> world) option" where
  "MinimalHeap_allocate cp os sz (h, w) = do {
     (p, (sg, w)) \<leftarrow> Segment_allocate (minimal_policy cp) os sz (mh_segment h, w);
     Some (p, h\<lparr>mh_segment := sg\<rparr>, w) }"

fun MinimalHeap_deallocate :: "ConcurrencyPolicy \<Rightarrow> os \<Rightarrow> u64 \<Rightarrow> MinimalHeap \<times> world \<Rightarrow> (MinimalHeap \<times> world) option" where
  "MinimalHeap_deallocate cp os ptr (h, w) = do {
     (sg, w) \<leftarrow> Segment_deallocate (minimal_policy cp) os ptr (mh_segment h, w);
     Some (h\<lparr>mh_segment := sg\<rparr>, w) }"

fun MinimalHeap_transfer_logical_pages_from ::
  "MinimalHeap \<Rightarrow> MinimalHeap \<times> world \<Rightarrow> (MinimalHeap \<times> MinimalHeap \<times> world) option" where
  "MinimalHeap_transfer_logical_pages_from from (h, w) = do {
     (fsg, (sg, w)) \<leftarrow> transfer_logical_pages_from (mh_segment from) (mh_segment h, w);
     Some (from\<lparr>mh_segment := fsg\<rparr>, h\<lparr>mh_segment := sg\<rparr>, w) }"

fun MinimalHeap_recycle :: "os \<Rightarrow> MinimalHeap \<times> world \<Rightarrow> (MinimalHeap \<times> world) option" where
  "MinimalHeap_recycle os (h, w) = do {
     (sg, w) \<leftarrow> recycle_free_logical_pages os (mh_segment h, w);
     Some (h\<lparr>mh_segment := sg\<rparr>, w) }"

fun MinimalHeap_get_usable_size :: "ConcurrencyPolicy \<Rightarrow> u64 \<Rightarrow> MinimalHeap \<times> world \<Rightarrow> u64 option" where
  "MinimalHeap_get_usable_size cp ptr (h, w) = Segment_get_usable_size (minimal_policy cp) ptr (mh_segment h, w)"

text \<open>The destructor destroys the segment.\<close>

fun MinimalHeap_destroy :: "ConcurrencyPolicy \<Rightarrow> os \<Rightarrow> MinimalHeap \<times> world \<Rightarrow> (MinimalHeap \<times> world) option" where
  "MinimalHeap_destroy cp os (h, w) = do {
     (sg, w) \<leftarrow> Segment_destroy (minimal_policy cp) os (mh_segment h, w);
     Some (h\<lparr>mh_segment := sg\<rparr>, w) }"

subsection \<open>\<open>SimpleHeapPow2\<close>\<close>

definition SMALL_OBJECT_MIN_SIZE_CLASS :: u64 where
  "SMALL_OBJECT_MIN_SIZE_CLASS = 16"

definition SMALL_OBJECT_BIN_COUNT :: nat where
  "SMALL_OBJECT_BIN_COUNT = 8"

definition MAX_SMALL_OBJECT_BIN_INDEX :: u64 where
  "MAX_SMALL_OBJECT_BIN_INDEX = of_nat SMALL_OBJECT_BIN_COUNT - 1"

definition LARGEST_SMALL_OBJECT_SIZE_CLASS :: u64 where
  "LARGEST_SMALL_OBJECT_SIZE_CLASS = compile_time_pow2 (SMALL_OBJECT_BIN_COUNT + 3)"

record HeapCreationParams =
  hp_small_object_logical_page_size :: u64
  hp_small_object_bin_page_counts :: "u64 list"
  hp_small_object_page_recycling_threshold :: u64
  hp_big_object_logical_page_size :: u64
  hp_big_object_page_recycling_threshold :: u64
  hp_segment_grow_coefficient :: rat
  hp_segment_deallocation_queue_initial_capacity :: u64

definition default_params :: HeapCreationParams where
  "default_params = \<lparr>hp_small_object_logical_page_size = 65536, hp_small_object_bin_page_counts = replicate SMALL_OBJECT_BIN_COUNT 1,
     hp_small_object_page_recycling_threshold = 0, hp_big_object_logical_page_size = 196608,
     hp_big_object_page_recycling_threshold = 0, hp_segment_grow_coefficient = 1,
     hp_segment_deallocation_queue_initial_capacity = 65536\<rparr>"

record SimpleHeapPow2 = HeapBase +
  sh_small_object_logical_page_size :: u64
  sh_bins :: "Segment list"
  sh_big_object_logical_page_size :: u64
  sh_big_object_bin :: Segment

type_synonym heap_state = "SimpleHeapPow2 \<times> world"

definition SimpleHeapPow2_new :: SimpleHeapPow2 where
  "SimpleHeapPow2_new = \<lparr>hb_buffer_address = 0, hb_buffer_length = 0, sh_small_object_logical_page_size = 0,
     sh_bins = replicate SMALL_OBJECT_BIN_COUNT Segment_new, sh_big_object_logical_page_size = 0, sh_big_object_bin = Segment_new\<rparr>"

definition SegmentSmallObject :: "heap_policy \<Rightarrow> segment_policy" where
  "SegmentSmallObject hp = \<lparr>concurrency_policy = heap_concurrency hp, page_type = small_page_type hp, arena_type = heap_arena hp,
     page_recycling_policy = heap_recycling hp, buffer_aligned_to_logical_page_size = True\<rparr>"

definition SegmentBigObject :: "heap_policy \<Rightarrow> segment_policy" where
  "SegmentBigObject hp = \<lparr>concurrency_policy = heap_concurrency hp, page_type = big_page_type hp, arena_type = heap_arena hp,
     page_recycling_policy = heap_recycling hp, buffer_aligned_to_logical_page_size = False\<rparr>"

definition calculate_required_buffer_size :: "HeapCreationParams \<Rightarrow> u64 \<Rightarrow> u64" where
  "calculate_required_buffer_size params small_object_logical_page_size =
     fold (\<lambda>required_page_count ret. ret + required_page_count * small_object_logical_page_size)
       (take SMALL_OBJECT_BIN_COUNT (hp_small_object_bin_page_counts params)) 0
     + hp_big_object_logical_page_size params"

definition adjust_size_for_small_object_bin :: "u64 \<Rightarrow> u64" where
  "adjust_size_for_small_object_bin original_size =
     (let adjusted_size = get_first_pow2_of original_size
      in if adjusted_size < SMALL_OBJECT_MIN_SIZE_CLASS then SMALL_OBJECT_MIN_SIZE_CLASS else adjusted_size)"

definition bin_index :: "u64 \<Rightarrow> nat" where
  "bin_index sz = unat (get_pow2_bin_index_from_size SMALL_OBJECT_MIN_SIZE_CLASS MAX_SMALL_OBJECT_BIN_INDEX sz)"

text \<open>The parameters that \<open>create\<close> fills in for the segment of one bin.\<close>

definition small_segment_params :: "HeapCreationParams \<Rightarrow> u64 \<Rightarrow> u64 \<Rightarrow> SegmentCreationParameters" where
  "small_segment_params params sz_class required_page_count =
     \<lparr>p_logical_page_size = hp_small_object_logical_page_size params, p_logical_page_count = required_page_count,
      p_page_recycling_threshold = hp_small_object_page_recycling_threshold params,
      p_deallocation_queue_initial_capacity = hp_segment_deallocation_queue_initial_capacity params,
      p_size_class = ucast sz_class, p_grow_coefficient = hp_segment_grow_coefficient params\<rparr>"

definition big_segment_params :: "HeapCreationParams \<Rightarrow> SegmentCreationParameters" where
  "big_segment_params params =
     \<lparr>p_logical_page_size = hp_big_object_logical_page_size params, p_logical_page_count = 1,
      p_page_recycling_threshold = hp_big_object_page_recycling_threshold params,
      p_deallocation_queue_initial_capacity = 65536, p_size_class = 0, p_grow_coefficient = 0\<rparr>"

text \<open>The loop over the bins: \<open>create_bins\<close> handles the bins from index \<open>i\<close>, given their page counts.\<close>

fun create_bins ::
  "heap_policy \<Rightarrow> os \<Rightarrow> HeapCreationParams \<Rightarrow> u64 list \<Rightarrow> nat \<Rightarrow> u64 \<Rightarrow> u64 \<Rightarrow> heap_state \<Rightarrow> bool \<times> u64 \<times> heap_state" where
  "create_bins hp os params [] i buffer_index sz_class s = (True, buffer_index, s)"
| "create_bins hp os params (required_page_count # counts) i buffer_index sz_class (h, w) =
     (let bin_buffer_size = required_page_count * sh_small_object_logical_page_size h;
          (success, (sg, w)) = Segment_create (SegmentSmallObject hp) os (hb_buffer_address h + buffer_index)
             (small_segment_params params sz_class required_page_count) (sh_bins h ! i, w);
          h = h\<lparr>sh_bins := (sh_bins h)[i := sg]\<rparr>
      in if \<not> success then (False, buffer_index, (h, w))
         else create_bins hp os params counts (Suc i) (buffer_index + bin_buffer_size) (push_bit 1 sz_class) (h, w))"

fun SimpleHeapPow2_create :: "heap_policy \<Rightarrow> os \<Rightarrow> HeapCreationParams \<Rightarrow> heap_state \<Rightarrow> (bool \<times> heap_state) option" where
  "SimpleHeapPow2_create hp os params (h, w) =
     (if hp_small_object_logical_page_size params \<le> 0
         \<or> hp_small_object_logical_page_size params < PAGE_ALLOCATION_GRANULARITY
         \<or> page_alignment (arena w) \<noteq> hp_small_object_logical_page_size params
         \<or> hp_big_object_logical_page_size params \<le> 0
         \<or> modulo (hp_big_object_logical_page_size params) (hp_small_object_logical_page_size params) > 0
      then Some (False, (h, w))
      else if \<not> is_size_a_multiple_of_page_allocation_granularity (hp_small_object_logical_page_size params)
         \<or> \<not> is_size_a_multiple_of_page_allocation_granularity (hp_big_object_logical_page_size params)
      then Some (False, (h, w))
      else do {
        let h = h\<lparr>sh_small_object_logical_page_size := hp_small_object_logical_page_size params,
                  sh_big_object_logical_page_size := hp_big_object_logical_page_size params\<rparr>;
        let h = h\<lparr>hb_buffer_length := calculate_required_buffer_size params (sh_small_object_logical_page_size h)\<rparr>;
        (buffer, w) \<leftarrow> arena_allocate (SegmentSmallObject hp) os (hb_buffer_length h) w;
        let h = h\<lparr>hb_buffer_address := buffer\<rparr>;
        let (success, buffer_index, (h, w)) = create_bins hp os params
              (take SMALL_OBJECT_BIN_COUNT (hp_small_object_bin_page_counts params)) 0 0 SMALL_OBJECT_MIN_SIZE_CLASS (h, w);
        if \<not> success then Some (False, (h, w))
        else let (success, (sg, w)) = Segment_create (SegmentBigObject hp) os (hb_buffer_address h + buffer_index)
                    (big_segment_params params) (sh_big_object_bin h, w);
                 h = h\<lparr>sh_big_object_bin := sg\<rparr>
             in if \<not> success then Some (False, (h, w)) else Some (True, (h, w)) })"

text \<open>A call of a small bin's segment, or of the big bin's.\<close>

definition in_bin :: "nat \<Rightarrow> (segment_state \<Rightarrow> ('a \<times> segment_state) option) \<Rightarrow> heap_state \<Rightarrow> ('a \<times> heap_state) option" where
  "in_bin i f = (\<lambda>(h, w). do {
     (r, (sg, w)) \<leftarrow> f (sh_bins h ! i, w);
     Some (r, (h\<lparr>sh_bins := (sh_bins h)[i := sg]\<rparr>, w)) })"

definition in_big_bin :: "(segment_state \<Rightarrow> ('a \<times> segment_state) option) \<Rightarrow> heap_state \<Rightarrow> ('a \<times> heap_state) option" where
  "in_big_bin f = (\<lambda>(h, w). do {
     (r, (sg, w)) \<leftarrow> f (sh_big_object_bin h, w);
     Some (r, (h\<lparr>sh_big_object_bin := sg\<rparr>, w)) })"

definition returning_unit :: "('s \<Rightarrow> 's option) \<Rightarrow> 's \<Rightarrow> (unit \<times> 's) option" where
  "returning_unit f s = do { s \<leftarrow> f s; Some ((), s) }"

definition SimpleHeapPow2_allocate :: "heap_policy \<Rightarrow> os \<Rightarrow> u64 \<Rightarrow> heap_state \<Rightarrow> (u64 \<times> heap_state) option" where
  "SimpleHeapPow2_allocate hp os sz s =
     (if sz \<le> LARGEST_SMALL_OBJECT_SIZE_CLASS
      then let adjusted_size = adjust_size_for_small_object_bin sz
           in in_bin (bin_index adjusted_size) (Segment_allocate (SegmentSmallObject hp) os adjusted_size) s
      else in_big_bin (Segment_allocate (SegmentBigObject hp) os sz) s)"

definition SimpleHeapPow2_deallocate :: "heap_policy \<Rightarrow> os \<Rightarrow> u64 \<Rightarrow> heap_state \<Rightarrow> heap_state option" where
  "SimpleHeapPow2_deallocate hp os ptr s = do {
     (big, (h, w)) \<leftarrow> in_big_bin (Segment_owns_pointer (SegmentBigObject hp) ptr) s;
     (_, s) \<leftarrow> (if big = False
        then let sz_class = ucast (get_size_class_from_address ptr (sh_small_object_logical_page_size h) w)
             in in_bin (bin_index sz_class) (returning_unit (Segment_deallocate (SegmentSmallObject hp) os ptr)) (h, w)
        else in_big_bin (returning_unit (Segment_deallocate (SegmentBigObject hp) os ptr)) (h, w));
     Some s }"

definition SimpleHeapPow2_get_usable_size :: "heap_policy \<Rightarrow> u64 \<Rightarrow> heap_state \<Rightarrow> (u64 \<times> heap_state) option" where
  "SimpleHeapPow2_get_usable_size hp ptr s = do {
     (big, (h, w)) \<leftarrow> in_big_bin (Segment_owns_pointer (SegmentBigObject hp) ptr) s;
     if big = False
     then Some (ucast (get_size_class_from_address ptr (sh_small_object_logical_page_size h) w), (h, w))
     else do { n \<leftarrow> Segment_get_usable_size (SegmentBigObject hp) ptr (sh_big_object_bin h, w); Some (n, (h, w)) } }"

text \<open>The loops over the bins of \<open>transfer_logical_pages_from\<close> and \<open>recycle\<close>, from bin \<open>i\<close> with \<open>n\<close> bins left.\<close>

fun transfer_bins :: "nat \<Rightarrow> nat \<Rightarrow> SimpleHeapPow2 \<Rightarrow> heap_state \<Rightarrow> (SimpleHeapPow2 \<times> heap_state) option" where
  "transfer_bins 0 i from s = Some (from, s)"
| "transfer_bins (Suc n) i from s = do {
     (fsg, s) \<leftarrow> in_bin i (transfer_logical_pages_from (sh_bins from ! i)) s;
     transfer_bins n (Suc i) (from\<lparr>sh_bins := (sh_bins from)[i := fsg]\<rparr>) s }"

definition SimpleHeapPow2_transfer_logical_pages_from :: "SimpleHeapPow2 \<Rightarrow> heap_state \<Rightarrow> (SimpleHeapPow2 \<times> heap_state) option" where
  "SimpleHeapPow2_transfer_logical_pages_from from s = do {
     (fsg, s) \<leftarrow> in_big_bin (transfer_logical_pages_from (sh_big_object_bin from)) s;
     transfer_bins SMALL_OBJECT_BIN_COUNT 0 (from\<lparr>sh_big_object_bin := fsg\<rparr>) s }"

fun recycle_bins :: "os \<Rightarrow> nat \<Rightarrow> nat \<Rightarrow> heap_state \<Rightarrow> heap_state option" where
  "recycle_bins os 0 i s = Some s"
| "recycle_bins os (Suc n) i s = do {
     (_, s) \<leftarrow> in_bin i (returning_unit (recycle_free_logical_pages os)) s;
     recycle_bins os n (Suc i) s }"

definition SimpleHeapPow2_recycle :: "os \<Rightarrow> heap_state \<Rightarrow> heap_state option" where
  "SimpleHeapPow2_recycle os s = do {
     (_, s) \<leftarrow> in_big_bin (returning_unit (recycle_free_logical_pages os)) s;
     recycle_bins os SMALL_OBJECT_BIN_COUNT 0 s }"

text \<open>The destructor: the segments of a heap are destroyed in the reverse order of their declaration.\<close>

fun destroy_bins :: "heap_policy \<Rightarrow> os \<Rightarrow> nat \<Rightarrow> heap_state \<Rightarrow> heap_state option" where
  "destroy_bins hp os 0 s = Some s"
| "destroy_bins hp os (Suc i) s = do {
     (_, s) \<leftarrow> in_bin i (returning_unit (Segment_destroy (SegmentSmallObject hp) os)) s;
     destroy_bins hp os i s }"

definition SimpleHeapPow2_destroy :: "heap_policy \<Rightarrow> os \<Rightarrow> heap_state \<Rightarrow> heap_state option" where
  "SimpleHeapPow2_destroy hp os s = do {
     (_, s) \<leftarrow> in_big_bin (returning_unit (Segment_destroy (SegmentBigObject hp) os)) s;
     destroy_bins hp os SMALL_OBJECT_BIN_COUNT s }"

definition SimpleHeapPow2_allocate_aligned :: "heap_policy \<Rightarrow> os \<Rightarrow> u64 \<Rightarrow> u64 \<Rightarrow> heap_state \<Rightarrow> (u64 \<times> heap_state) option" where
  "SimpleHeapPow2_allocate_aligned hp os = HeapBase_allocate_aligned (SimpleHeapPow2_allocate hp os)"

end
