(* ===== verification/Scalable_Allocator.thy ===== *)
theory Scalable_Allocator
  imports Simple_Heap Thread_Local_Storage
begin

text \<open>
  \<open>include/scalable_allocator.h\<close>: one central heap, one local heap per thread in a metadata buffer, and the
  wrappers for the functions of the C library and the operators of C++.

  The heap types are template parameters; the record \<open>heap_class\<close> lists the members that the allocator
  calls.  Central and local heaps have one type of objects, because \<open>thread_specific_destructor\<close>
  reinterprets a local heap as a central one.  The local heaps live in a typed store, addressed by their
  place in the metadata buffer.  \<open>t\<close> is the calling thread.

  \<open>None\<close> is a call that does not return.  \<open>std::bad_alloc\<close> is a value of the sum type of the results.
  The build switches \<open>ENABLE_DEFAULT_MALLOC\<close>, \<open>ENABLE_STATS\<close> and \<open>ENABLE_PERF_TRACES\<close> are off.
\<close>

record ('h, 'p) heap_class =
  heap_new :: 'h
  heap_create :: "'p \<Rightarrow> 'h \<times> world \<Rightarrow> (bool \<times> 'h \<times> world) option"
  heap_allocate :: "u64 \<Rightarrow> 'h \<times> world \<Rightarrow> (u64 \<times> 'h \<times> world) option"
  heap_allocate_aligned :: "u64 \<Rightarrow> u64 \<Rightarrow> 'h \<times> world \<Rightarrow> (u64 \<times> 'h \<times> world) option"
  heap_deallocate :: "u64 \<Rightarrow> 'h \<times> world \<Rightarrow> ('h \<times> world) option"
  heap_get_usable_size :: "u64 \<Rightarrow> 'h \<times> world \<Rightarrow> (u64 \<times> 'h \<times> world) option"
  heap_owns_pointer :: "u64 \<Rightarrow> 'h \<Rightarrow> bool"
  heap_transfer_logical_pages_from :: "'h \<Rightarrow> 'h \<times> world \<Rightarrow> ('h \<times> 'h \<times> world) option"
  heap_destroy :: "'h \<times> world \<Rightarrow> ('h \<times> world) option"
  heap_sizeof :: u64

record ('h, 'p) allocator_policy =
  CentralHeapType :: "('h, 'p) heap_class"
  LocalHeapType :: "('h, 'p) heap_class"
  ArenaType :: arena_policy

record ('h, 'p) ScalableAllocator =
  m_central_heap :: 'h
  m_metadata_buffer :: u64
  m_metadata_buffer_size :: u64
  m_active_local_heap_count :: u64
  m_max_thread_local_heap_count :: u64
  m_cached_thread_local_heap_count :: u64
  m_fast_shutdown :: bool
  m_local_heap_creation_params :: 'p
  m_initialised_successfully :: bool
  m_shutdown_started :: bool
  m_allocator_lock :: u32
  local_heaps :: "u64 \<Rightarrow> 'h"
  thread_local_storage :: thread_keys

type_synonym ('h, 'p) allocator_state = "('h, 'p) ScalableAllocator \<times> world"

definition ScalableAllocator_new :: "('h, 'p) allocator_policy \<Rightarrow> 'p \<Rightarrow> ('h, 'p) ScalableAllocator" where
  "ScalableAllocator_new T params = \<lparr>m_central_heap = heap_new (CentralHeapType T), m_metadata_buffer = 0,
     m_metadata_buffer_size = 131072, m_active_local_heap_count = 0, m_max_thread_local_heap_count = 0,
     m_cached_thread_local_heap_count = 0, m_fast_shutdown = False, m_local_heap_creation_params = params,
     m_initialised_successfully = False, m_shutdown_started = False, m_allocator_lock = spin_initialise 0,
     local_heaps = \<lambda>_. heap_new (LocalHeapType T), thread_local_storage = ThreadLocalStorage_new\<rparr>"

text \<open>Calls of a member function of the central heap, and of the local heap at an address.\<close>

definition on_central_heap ::
  "('h \<times> world \<Rightarrow> ('a \<times> 'h \<times> world) option) \<Rightarrow> ('h, 'p) allocator_state \<Rightarrow> ('a \<times> ('h, 'p) allocator_state) option" where
  "on_central_heap f = (\<lambda>(a, w). do {
     (r, h, w) \<leftarrow> f (m_central_heap a, w);
     Some (r, (a\<lparr>m_central_heap := h\<rparr>, w)) })"

definition on_local_heap ::
  "u64 \<Rightarrow> ('h \<times> world \<Rightarrow> ('a \<times> 'h \<times> world) option) \<Rightarrow> ('h, 'p) allocator_state \<Rightarrow> ('a \<times> ('h, 'p) allocator_state) option" where
  "on_local_heap p f = (\<lambda>(a, w). do {
     (r, h, w) \<leftarrow> f (local_heaps a p, w);
     Some (r, (a\<lparr>local_heaps := (local_heaps a)(p := h)\<rparr>, w)) })"

subsection \<open>Local heaps\<close>

definition local_heap_address :: "('h, 'p) allocator_policy \<Rightarrow> u64 \<Rightarrow> ('h, 'p) ScalableAllocator \<Rightarrow> u64" where
  "local_heap_address T i a = m_metadata_buffer a + i * heap_sizeof (LocalHeapType T)"

definition create_local_heap ::
  "('h, 'p) allocator_policy \<Rightarrow> u64 \<Rightarrow> ('h, 'p) allocator_state \<Rightarrow> (u64 \<times> ('h, 'p) allocator_state) option" where
  "create_local_heap T metadata_buffer_index = (\<lambda>(a, w). do {
     let local_heap = local_heap_address T metadata_buffer_index a;
     let a = a\<lparr>local_heaps := (local_heaps a)(local_heap := heap_new (LocalHeapType T))\<rparr>;
     (ok, s) \<leftarrow> on_local_heap local_heap (heap_create (LocalHeapType T) (m_local_heap_creation_params a)) (a, w);
     if ok = False then Some (0, s) else Some (local_heap, s) })"

fun create_cached_heaps ::
  "('h, 'p) allocator_policy \<Rightarrow> nat \<Rightarrow> u64 \<Rightarrow> ('h, 'p) allocator_state \<Rightarrow> (bool \<times> ('h, 'p) allocator_state) option" where
  "create_cached_heaps T 0 i s = Some (True, s)"
| "create_cached_heaps T (Suc n) i s = do {
     (local_heap, s) \<leftarrow> create_local_heap T i s;
     if local_heap = 0 then Some (False, s) else create_cached_heaps T n (i + 1) s }"

definition create_heaps :: "('h, 'p) allocator_policy \<Rightarrow> ('h, 'p) allocator_state \<Rightarrow> (bool \<times> ('h, 'p) allocator_state) option" where
  "create_heaps T = (\<lambda>(a, w).
     let a = a\<lparr>m_max_thread_local_heap_count := m_metadata_buffer_size a div heap_sizeof (LocalHeapType T)\<rparr>
     in if m_max_thread_local_heap_count a = 0 then Some (False, (a, w))
        else let a = (if m_max_thread_local_heap_count a < m_cached_thread_local_heap_count a
                      then a\<lparr>m_cached_thread_local_heap_count := m_max_thread_local_heap_count a\<rparr> else a)
             in create_cached_heaps T (unat (m_cached_thread_local_heap_count a)) 0 (a, w))"

definition get_thread_local_heap ::
  "('h, 'p) allocator_policy \<Rightarrow> nat \<Rightarrow> ('h, 'p) allocator_state \<Rightarrow> (u64 \<times> ('h, 'p) allocator_state) option" where
  "get_thread_local_heap T t = (\<lambda>(a, w).
     let thread_local_heap = ThreadLocalStorage_get t (thread_local_storage a)
     in if thread_local_heap = 0
        then do {
          l \<leftarrow> enter_concurrent_context USERSPACE_LOCK (m_allocator_lock a);
          let a = a\<lparr>m_allocator_lock := l\<rparr>;
          if m_active_local_heap_count a + 1 \<ge> m_max_thread_local_heap_count a
          then Some (0, (a\<lparr>m_allocator_lock := leave_concurrent_context USERSPACE_LOCK (m_allocator_lock a)\<rparr>, w))
          else do {
            (thread_local_heap, (a, w)) \<leftarrow>
              (if m_active_local_heap_count a \<ge> m_cached_thread_local_heap_count a
               then create_local_heap T (m_active_local_heap_count a) (a, w)
               else Some (local_heap_address T (m_active_local_heap_count a) a, (a, w)));
            let a = a\<lparr>m_active_local_heap_count := m_active_local_heap_count a + 1\<rparr>;
            let a = a\<lparr>thread_local_storage := ThreadLocalStorage_set t thread_local_heap (thread_local_storage a)\<rparr>;
            let a = a\<lparr>m_allocator_lock := leave_concurrent_context USERSPACE_LOCK (m_allocator_lock a)\<rparr>;
            Some (thread_local_heap, (a, w)) } }
        else Some (thread_local_heap, (a, w)))"

text \<open>The search of \<open>deallocate\<close> and \<open>get_usable_size\<close>, with \<open>n\<close> heaps left from index \<open>i\<close>.\<close>

fun find_local_heap :: "('h, 'p) allocator_policy \<Rightarrow> u64 \<Rightarrow> nat \<Rightarrow> u64 \<Rightarrow> ('h, 'p) ScalableAllocator \<Rightarrow> u64 option" where
  "find_local_heap T ptr 0 i a = None"
| "find_local_heap T ptr (Suc n) i a =
     (let local_heap = local_heap_address T i a
      in if heap_owns_pointer (LocalHeapType T) ptr (local_heaps a local_heap) then Some local_heap
         else find_local_heap T ptr n (i + 1) a)"

subsection \<open>Creation and shutdown\<close>

definition ScalableAllocator_create ::
  "('h, 'p) allocator_policy \<Rightarrow> os \<Rightarrow> u32 option \<Rightarrow> 'p \<Rightarrow> 'p \<Rightarrow> u64 \<Rightarrow> u64 \<Rightarrow> u64 \<Rightarrow> ('h, 'p) allocator_state
   \<Rightarrow> (bool \<times> ('h, 'p) allocator_state) option" where
  "ScalableAllocator_create T os key params_central params_local arena_capacity arena_page_alignment metadata_buffer_size = (\<lambda>(a, w).
     if arena_capacity \<le> 0 \<or> arena_page_alignment \<le> 0 \<or> metadata_buffer_size \<le> 0
        \<or> \<not> is_size_a_multiple_of_page_allocation_granularity arena_page_alignment
        \<or> \<not> is_size_a_multiple_of_page_allocation_granularity metadata_buffer_size
     then Some (False, (a, w))
     else do {
       (ok, ar, w) \<leftarrow> Arena_create (ArenaType T) os arena_capacity arena_page_alignment (arena w, w);
       let w = w\<lparr>arena := ar\<rparr>;
       if ok = False then Some (False, (a, w))
       else do {
         let a = a\<lparr>m_metadata_buffer_size := metadata_buffer_size\<rparr>;
         let (buffer, w) = MetadataAllocator_allocate os (m_metadata_buffer_size a) w;
         let a = a\<lparr>m_metadata_buffer := buffer\<rparr>;
         if m_metadata_buffer a = 0 then Some (False, (a, w))
         else do {
           (ok, (a, w)) \<leftarrow> on_central_heap (heap_create (CentralHeapType T) params_central) (a, w);
           if ok = False then Some (False, (a, w))
           else let (ok, tls) = ThreadLocalStorage_create key (thread_local_storage a);
                    a = a\<lparr>thread_local_storage := tls\<rparr>
                in if ok = False then Some (False, (a, w))
                   else do {
                     let a = a\<lparr>m_local_heap_creation_params := params_local\<rparr>;
                     (ok, (a, w)) \<leftarrow> create_heaps T (a, w);
                     if \<not> ok then Some (False, (a, w))
                     else Some (True, (a\<lparr>m_initialised_successfully := True\<rparr>, w)) } } } })"

definition set_thread_local_heap_cache_count :: "u64 \<Rightarrow> ('h, 'p) ScalableAllocator \<Rightarrow> ('h, 'p) ScalableAllocator" where
  "set_thread_local_heap_cache_count heap_count a = a\<lparr>m_cached_thread_local_heap_count := heap_count\<rparr>"

definition enable_fast_shutdown :: "('h, 'p) ScalableAllocator \<Rightarrow> ('h, 'p) ScalableAllocator" where
  "enable_fast_shutdown a = a\<lparr>m_fast_shutdown := True\<rparr>"

definition get_created_heap_count :: "('h, 'p) ScalableAllocator \<Rightarrow> u64" where
  "get_created_heap_count a =
     (if m_cached_thread_local_heap_count a > m_active_local_heap_count a
      then m_cached_thread_local_heap_count a else m_active_local_heap_count a)"

fun destroy_heaps_loop ::
  "('h, 'p) allocator_policy \<Rightarrow> nat \<Rightarrow> u64 \<Rightarrow> ('h, 'p) allocator_state \<Rightarrow> ('h, 'p) allocator_state option" where
  "destroy_heaps_loop T 0 i s = Some s"
| "destroy_heaps_loop T (Suc n) i s = do {
     let local_heap = local_heap_address T i (fst s);
     (_, s) \<leftarrow> on_local_heap local_heap (returning_unit (heap_destroy (LocalHeapType T))) s;
     destroy_heaps_loop T n (i + 1) s }"

definition destroy_heaps :: "('h, 'p) allocator_policy \<Rightarrow> ('h, 'p) allocator_state \<Rightarrow> ('h, 'p) allocator_state option" where
  "destroy_heaps T s =
     (if m_metadata_buffer (fst s) \<noteq> 0 then destroy_heaps_loop T (unat (get_created_heap_count (fst s))) 0 s else Some s)"

text \<open>The body of the destructor; then the members are destroyed in the reverse order of their
  declaration: the arena before the central heap.\<close>

definition ScalableAllocator_shutdown :: "('h, 'p) allocator_policy \<Rightarrow> ('h, 'p) allocator_state \<Rightarrow> ('h, 'p) allocator_state option" where
  "ScalableAllocator_shutdown T = (\<lambda>(a, w).
     if m_fast_shutdown a then Some (a, w)
     else if m_initialised_successfully a = True
     then do {
       let a = a\<lparr>m_shutdown_started := True\<rparr>;
       (a, w) \<leftarrow> destroy_heaps T (a, w);
       Some (a\<lparr>thread_local_storage := ThreadLocalStorage_destroy (thread_local_storage a)\<rparr>, w) }
     else Some (a, w))"

definition ScalableAllocator_destroy ::
  "('h, 'p) allocator_policy \<Rightarrow> os \<Rightarrow> ('h, 'p) allocator_state \<Rightarrow> ('h, 'p) allocator_state option" where
  "ScalableAllocator_destroy T os s = do {
     (a, w) \<leftarrow> ScalableAllocator_shutdown T s;
     (ar, w) \<leftarrow> Arena_destroy os (arena w, w);
     let w = w\<lparr>arena := ar\<rparr>;
     (_, s) \<leftarrow> on_central_heap (returning_unit (heap_destroy (CentralHeapType T))) (a, w);
     Some s }"

definition thread_specific_destructor ::
  "('h, 'p) allocator_policy \<Rightarrow> u64 \<Rightarrow> ('h, 'p) allocator_state \<Rightarrow> ('h, 'p) allocator_state option" where
  "thread_specific_destructor T thread_local_heap = (\<lambda>(a, w).
     if m_initialised_successfully a = True \<and> m_shutdown_started a = False
     then if thread_local_heap \<noteq> 0
          then do {
            (from, (a, w)) \<leftarrow> on_central_heap (heap_transfer_logical_pages_from (CentralHeapType T) (local_heaps a thread_local_heap)) (a, w);
            Some (a\<lparr>local_heaps := (local_heaps a)(thread_local_heap := from)\<rparr>, w) }
          else Some (a, w)
     else Some (a, w))"

text \<open>The end of a thread, as documented for \<open>pthread\<close> keys with a destructor: a value that is not null is
  replaced by null and passed to the destructor.\<close>

definition thread_exit :: "('h, 'p) allocator_policy \<Rightarrow> nat \<Rightarrow> ('h, 'p) allocator_state \<Rightarrow> ('h, 'p) allocator_state option" where
  "thread_exit T t = (\<lambda>(a, w).
     let v = ThreadLocalStorage_get t (thread_local_storage a)
     in if v = 0 then Some (a, w)
        else thread_specific_destructor T v (a\<lparr>thread_local_storage := ThreadLocalStorage_set t 0 (thread_local_storage a)\<rparr>, w))"

subsection \<open>Allocation\<close>

definition ScalableAllocator_allocate ::
  "('h, 'p) allocator_policy \<Rightarrow> nat \<Rightarrow> u64 \<Rightarrow> ('h, 'p) allocator_state \<Rightarrow> (u64 \<times> ('h, 'p) allocator_state) option" where
  "ScalableAllocator_allocate T t sz s = do {
     (local_heap, s) \<leftarrow> get_thread_local_heap T t s;
     (ret, s) \<leftarrow> (if local_heap \<noteq> 0 then on_local_heap local_heap (heap_allocate (LocalHeapType T) sz) s else Some (0, s));
     if ret = 0 then on_central_heap (heap_allocate (CentralHeapType T) sz) s else Some (ret, s) }"

definition ScalableAllocator_allocate_aligned ::
  "('h, 'p) allocator_policy \<Rightarrow> nat \<Rightarrow> u64 \<Rightarrow> u64 \<Rightarrow> ('h, 'p) allocator_state \<Rightarrow> (u64 \<times> ('h, 'p) allocator_state) option" where
  "ScalableAllocator_allocate_aligned T t sz alignment s = do {
     (local_heap, s) \<leftarrow> get_thread_local_heap T t s;
     (ret, s) \<leftarrow> (if local_heap \<noteq> 0 then on_local_heap local_heap (heap_allocate_aligned (LocalHeapType T) sz alignment) s
                 else Some (0, s));
     if ret = 0 then on_central_heap (heap_allocate_aligned (CentralHeapType T) sz alignment) s else Some (ret, s) }"

definition ScalableAllocator_deallocate ::
  "('h, 'p) allocator_policy \<Rightarrow> u64 \<Rightarrow> ('h, 'p) allocator_state \<Rightarrow> ('h, 'p) allocator_state option" where
  "ScalableAllocator_deallocate T ptr s =
     (if ptr = 0 then Some s
      else do {
        (_, s) \<leftarrow> (case find_local_heap T ptr (unat (m_active_local_heap_count (fst s))) 0 (fst s) of
             Some local_heap \<Rightarrow> on_local_heap local_heap (returning_unit (heap_deallocate (LocalHeapType T) ptr)) s
           | None \<Rightarrow> on_central_heap (returning_unit (heap_deallocate (CentralHeapType T) ptr)) s);
        Some s })"

definition ScalableAllocator_get_usable_size ::
  "('h, 'p) allocator_policy \<Rightarrow> u64 \<Rightarrow> ('h, 'p) allocator_state \<Rightarrow> (u64 \<times> ('h, 'p) allocator_state) option" where
  "ScalableAllocator_get_usable_size T ptr s =
     (if ptr = 0 then Some (0, s)
      else case find_local_heap T ptr (unat (m_active_local_heap_count (fst s))) 0 (fst s) of
             Some local_heap \<Rightarrow> on_local_heap local_heap (heap_get_usable_size (LocalHeapType T) ptr) s
           | None \<Rightarrow> on_central_heap (heap_get_usable_size (CentralHeapType T) ptr) s)"

subsection \<open>The wrappers for the C and C++ library\<close>

datatype exn = bad_alloc | runtime_error

text \<open>The handler that \<open>std::get_new_handler\<close> answers is a parameter: none, or a function that returns,
  throws \<open>std::bad_alloc\<close>, or terminates the program (\<open>None\<close>).\<close>

type_synonym 's new_handler = "('s \<Rightarrow> ((exn + unit) \<times> 's) option) option"

definition handle_operator_new_failure ::
  "('h, 'p) allocator_state new_handler \<Rightarrow> ('h, 'p) allocator_state \<Rightarrow> ((exn + unit) \<times> ('h, 'p) allocator_state) option" where
  "handle_operator_new_failure new_handler = (\<lambda>(a, w). do {
     l \<leftarrow> enter_concurrent_context USERSPACE_LOCK (m_allocator_lock a);
     let a = a\<lparr>m_allocator_lock := l\<rparr>;
     let handler = new_handler;
     let a = a\<lparr>m_allocator_lock := leave_concurrent_context USERSPACE_LOCK (m_allocator_lock a)\<rparr>;
     case handler of Some h \<Rightarrow> h (a, w) | None \<Rightarrow> Some (Inl bad_alloc, (a, w)) })"

definition after_new ::
  "('h, 'p) allocator_state new_handler \<Rightarrow> u64 \<Rightarrow> ('h, 'p) allocator_state \<Rightarrow> ((exn + u64) \<times> ('h, 'p) allocator_state) option" where
  "after_new new_handler ret s =
     (if ret = 0
      then do { (r, s) \<leftarrow> handle_operator_new_failure new_handler s;
                case r of Inl e \<Rightarrow> Some (Inl e, s) | Inr _ \<Rightarrow> Some (Inr ret, s) }
      else Some (Inr ret, s))"

definition operator_new ::
  "('h, 'p) allocator_policy \<Rightarrow> ('h, 'p) allocator_state new_handler \<Rightarrow> nat \<Rightarrow> u64 \<Rightarrow> ('h, 'p) allocator_state
   \<Rightarrow> ((exn + u64) \<times> ('h, 'p) allocator_state) option" where
  "operator_new T new_handler t sz s = do {
     (ret, s) \<leftarrow> ScalableAllocator_allocate T t sz s;
     after_new new_handler ret s }"

definition operator_new_aligned ::
  "('h, 'p) allocator_policy \<Rightarrow> ('h, 'p) allocator_state new_handler \<Rightarrow> nat \<Rightarrow> u64 \<Rightarrow> u64 \<Rightarrow> ('h, 'p) allocator_state
   \<Rightarrow> ((exn + u64) \<times> ('h, 'p) allocator_state) option" where
  "operator_new_aligned T new_handler t sz alignment s = do {
     (ret, s) \<leftarrow> ScalableAllocator_allocate_aligned T t sz alignment s;
     after_new new_handler ret s }"

definition memcpy :: "mem \<Rightarrow> u64 \<Rightarrow> u64 \<Rightarrow> nat \<Rightarrow> mem" where
  "memcpy m dst src n x = (if unat (x - dst) < n then m (src + (x - dst)) else m x)"

definition clear_memory :: "u64 \<Rightarrow> u64 \<Rightarrow> ('h, 'p) allocator_state \<Rightarrow> ('h, 'p) allocator_state" where
  "clear_memory p n = (\<lambda>(a, w). (a, w\<lparr>ram := memset (ram w) p 0 (unat n)\<rparr>))"

definition copy_memory :: "u64 \<Rightarrow> u64 \<Rightarrow> u64 \<Rightarrow> ('h, 'p) allocator_state \<Rightarrow> ('h, 'p) allocator_state" where
  "copy_memory dst src n = (\<lambda>(a, w). (a, w\<lparr>ram := memcpy (ram w) dst src (unat n)\<rparr>))"

definition allocate_and_zero_memory ::
  "('h, 'p) allocator_policy \<Rightarrow> nat \<Rightarrow> u64 \<Rightarrow> u64 \<Rightarrow> ('h, 'p) allocator_state \<Rightarrow> (u64 \<times> ('h, 'p) allocator_state) option" where
  "allocate_and_zero_memory T t num sz s = do {
     let total_size = num * sz;
     (ret, s) \<leftarrow> ScalableAllocator_allocate T t total_size s;
     if ret \<noteq> 0 then Some (ret, clear_memory ret total_size s) else Some (ret, s) }"

text \<open>\<open>reallocate\<close> and \<open>aligned_reallocate\<close> differ in the allocation they call.\<close>

definition reallocate_with ::
  "(u64 \<Rightarrow> ('h, 'p) allocator_state \<Rightarrow> (u64 \<times> ('h, 'p) allocator_state) option) \<Rightarrow> ('h, 'p) allocator_policy \<Rightarrow> u64 \<Rightarrow> u64
   \<Rightarrow> ('h, 'p) allocator_state \<Rightarrow> (u64 \<times> ('h, 'p) allocator_state) option" where
  "reallocate_with alloc T ptr sz s =
     (if ptr = 0 then alloc sz s
      else if sz = 0 then do { s \<leftarrow> ScalableAllocator_deallocate T ptr s; Some (0, s) }
      else do {
        (old_size, s) \<leftarrow> ScalableAllocator_get_usable_size T ptr s;
        if sz \<le> old_size then Some (ptr, s)
        else do {
          (new_ptr, s) \<leftarrow> alloc sz s;
          if new_ptr \<noteq> 0
          then do {
            let s = copy_memory new_ptr ptr old_size s;
            s \<leftarrow> ScalableAllocator_deallocate T ptr s;
            Some (new_ptr, s) }
          else Some (new_ptr, s) } })"

definition reallocate ::
  "('h, 'p) allocator_policy \<Rightarrow> nat \<Rightarrow> u64 \<Rightarrow> u64 \<Rightarrow> ('h, 'p) allocator_state \<Rightarrow> (u64 \<times> ('h, 'p) allocator_state) option" where
  "reallocate T t ptr sz s = reallocate_with (ScalableAllocator_allocate T t) T ptr sz s"

definition aligned_reallocate ::
  "('h, 'p) allocator_policy \<Rightarrow> nat \<Rightarrow> u64 \<Rightarrow> u64 \<Rightarrow> u64 \<Rightarrow> ('h, 'p) allocator_state \<Rightarrow> (u64 \<times> ('h, 'p) allocator_state) option" where
  "aligned_reallocate T t ptr sz alignment s =
     reallocate_with (\<lambda>sz. ScalableAllocator_allocate_aligned T t sz alignment) T ptr sz s"

definition reallocate_and_zero_memory ::
  "('h, 'p) allocator_policy \<Rightarrow> nat \<Rightarrow> u64 \<Rightarrow> u64 \<Rightarrow> u64 \<Rightarrow> ('h, 'p) allocator_state \<Rightarrow> (u64 \<times> ('h, 'p) allocator_state) option" where
  "reallocate_and_zero_memory T t ptr num sz s = do {
     let total_size = num * sz;
     (ret, s) \<leftarrow> reallocate T t ptr total_size s;
     if ret \<noteq> 0 then Some (ret, clear_memory ret total_size s) else Some (ret, s) }"

subsection \<open>The heap classes of the examples\<close>

definition pow2_heap_class :: "heap_policy \<Rightarrow> os \<Rightarrow> u64 \<Rightarrow> (SimpleHeapPow2, HeapCreationParams) heap_class" where
  "pow2_heap_class hp os object_size = \<lparr>heap_new = SimpleHeapPow2_new, heap_create = SimpleHeapPow2_create hp os,
     heap_allocate = SimpleHeapPow2_allocate hp os, heap_allocate_aligned = SimpleHeapPow2_allocate_aligned hp os,
     heap_deallocate = SimpleHeapPow2_deallocate hp os, heap_get_usable_size = SimpleHeapPow2_get_usable_size hp,
     heap_owns_pointer = HeapBase_owns_pointer, heap_transfer_logical_pages_from = SimpleHeapPow2_transfer_logical_pages_from,
     heap_destroy = SimpleHeapPow2_destroy hp os, heap_sizeof = object_size\<rparr>"

definition minimal_heap_class :: "ConcurrencyPolicy \<Rightarrow> os \<Rightarrow> u64 \<Rightarrow> (MinimalHeap, u64) heap_class" where
  "minimal_heap_class cp os object_size = \<lparr>heap_new = MinimalHeap_new, heap_create = MinimalHeap_create cp os,
     heap_allocate = MinimalHeap_allocate cp os,
     heap_allocate_aligned = HeapBase_allocate_aligned (MinimalHeap_allocate cp os),
     heap_deallocate = MinimalHeap_deallocate cp os,
     heap_get_usable_size = (\<lambda>ptr s. do { n \<leftarrow> MinimalHeap_get_usable_size cp ptr s; Some (n, s) }),
     heap_owns_pointer = HeapBase_owns_pointer, heap_transfer_logical_pages_from = MinimalHeap_transfer_logical_pages_from,
     heap_destroy = MinimalHeap_destroy cp os, heap_sizeof = object_size\<rparr>"

definition default_heap_policy :: "ConcurrencyPolicy \<Rightarrow> heap_policy" where
  "default_heap_policy cp = \<lparr>heap_concurrency = cp,
     heap_arena = \<lparr>lock_policy = USERSPACE_LOCK, virtual_memory_policy = DEFAULT, zero_memory = False\<rparr>,
     small_page_type = LOGICAL_PAGE, big_page_type = LOGICAL_PAGE_ANY_SIZE COALESCE, heap_recycling = IMMEDIATE\<rparr>"

text \<open>\<open>ScalableAllocator<SimpleHeapPow2<CENTRAL>, SimpleHeapPow2<THREAD_LOCAL>>\<close>, the allocator of the
  integration examples; \<open>object_size\<close> is \<open>sizeof\<close> of the local heap.\<close>

definition pow2_allocator :: "os \<Rightarrow> u64 \<Rightarrow> (SimpleHeapPow2, HeapCreationParams) allocator_policy" where
  "pow2_allocator os object_size = \<lparr>CentralHeapType = pow2_heap_class (default_heap_policy CENTRAL) os object_size,
     LocalHeapType = pow2_heap_class (default_heap_policy THREAD_LOCAL) os object_size,
     ArenaType = \<lparr>lock_policy = USERSPACE_LOCK, virtual_memory_policy = DEFAULT, zero_memory = False\<rparr>\<rparr>"

end
