(* ===== verification/Tenancy.thy ===== *)
theory Tenancy
  imports Segment_Client
begin

text \<open>
  Several owners of memory in one world.  A tenant (a segment, a heap) owns a set of addresses: the pages, the payloads and
  the pointer pages on them are its own, and an operation of one tenant leaves the addresses of the others alone.  The
  contract of a tenant is the locale \<open>tenants\<close>; inside it, that a family of tenants with disjoint addresses is a tenant
  again: heaps are families of segments, and an allocator is a family of heaps.
\<close>

definition untouched :: "nat set \<Rightarrow> world \<Rightarrow> world \<Rightarrow> bool" where
  "untouched Y w w' \<longleftrightarrow> keeps_others Y w w' \<and> (\<forall>r. unat r \<in> Y \<longrightarrow> pointer_pages w' r = pointer_pages w r)"

lemma untouched_mono: "untouched Y w w' \<Longrightarrow> Z \<subseteq> Y \<Longrightarrow> untouched Z w w'"
  by (auto simp: untouched_def keeps_others_def)

lemma untouched_refl [simp]: "untouched Y w w"
  by (simp add: untouched_def keeps_others_def)

lemma untouched_trans: "untouched Y w w' \<Longrightarrow> untouched Y w' w'' \<Longrightarrow> untouched Y w w''"
  by (auto simp: untouched_def intro: keeps_others_trans)

text \<open>The effect of an operation of the tenant of \<open>Y\<close>, who has \<open>Y'\<close> afterwards, where \<open>H\<close> has been handed out; the arena
  stays aligned to \<open>S\<close>.\<close>

definition moves :: "u64 \<Rightarrow> nat set \<Rightarrow> nat set \<Rightarrow> nat set \<Rightarrow> world \<Rightarrow> world \<Rightarrow> bool" where
  "moves S H Y Y' w w' \<longleftrightarrow> arena_inv (arena w', w') (H - Y \<union> Y') \<and> Y' \<inter> (H - Y) = {} \<and> untouched (H - Y) w w'
     \<and> (arena_aligned S (arena w) \<longrightarrow> arena_aligned S (arena w'))"

lemma moves_refl: "arena_inv (arena w, w) H \<Longrightarrow> Y \<subseteq> H \<Longrightarrow> moves S H Y Y w w"
  by (simp add: moves_def Un_absorb2)

lemma moves_trans:
  assumes a: "moves S H Y Y1 w w1" and b: "moves S (H - Y \<union> Y1) Y1 Y2 w1 w2"
  shows "moves S H Y Y2 w w2"
proof -
  have e: "H - Y \<union> Y1 - Y1 = H - Y" using a by (auto simp: moves_def)
  show ?thesis using a b untouched_trans [of "H - Y" w w1 w2] unfolding moves_def e by blast
qed

text \<open>A part \<open>E\<close> of what the tenant has moves on.\<close>

lemma moves_part:
  assumes a: "moves S H B (A \<union> E \<union> D) w0 w" and b: "moves S (H - B \<union> (A \<union> E \<union> D)) E Y w w1" and d: "E \<inter> (A \<union> D) = {}"
  shows "moves S H B (A \<union> Y \<union> D) w0 w1" "Y \<inter> (A \<union> D) = {}" "untouched (A \<union> D) w w1" "\<And>x. x \<in> A \<union> D \<Longrightarrow> is_mapped (vm w1) x"
proof -
  have e: "H - B \<union> (A \<union> E \<union> D) - E = H - B \<union> (A \<union> D)" using a d by (auto simp: moves_def)
  note b' = b [unfolded moves_def e]
  have f: "H - B \<union> (A \<union> D) \<union> Y = H - B \<union> (A \<union> Y \<union> D)" by blast
  have y: "Y \<inter> (H - B \<union> (A \<union> D)) = {}" "untouched (H - B \<union> (A \<union> D)) w w1" using b' by blast+
  show "Y \<inter> (A \<union> D) = {}" using y(1) by blast
  show "untouched (A \<union> D) w w1" by (rule untouched_mono [OF y(2)]) blast
  have "untouched (H - B) w w1" by (rule untouched_mono [OF y(2)]) blast
  then have "untouched (H - B) w0 w1" using a untouched_trans by (auto simp: moves_def)
  moreover have "(A \<union> Y \<union> D) \<inter> (H - B) = {}" using a y(1) unfolding moves_def by blast
  moreover have ar: "arena_inv (arena w1, w1) (H - B \<union> (A \<union> Y \<union> D))" using b' unfolding f by blast
  ultimately show "moves S H B (A \<union> Y \<union> D) w0 w1" using a b' unfolding moves_def by blast
  show "is_mapped (vm w1) x" if "x \<in> A \<union> D" for x using ar that by (auto simp: arena_inv_def)
qed

definition joined_over :: "'i set \<Rightarrow> ('i \<Rightarrow> u64 \<rightharpoonup> nat) \<Rightarrow> (u64 \<rightharpoonup> nat) \<Rightarrow> bool" where
  "joined_over I Ls L \<longleftrightarrow> (\<forall>p k. L p = Some k \<longleftrightarrow> (\<exists>i\<in>I. Ls i p = Some k))"

lemma joined_over_upd:
  assumes j: "joined_over I Ls L" and i: "i \<in> I" and o: "\<And>j. j \<in> I \<Longrightarrow> j \<noteq> i \<Longrightarrow> Ls j p = None"
  shows "joined_over I (Ls(i := (Ls i)(p := v))) (L(p := v))"
  unfolding joined_over_def
proof (intro allI)
  fix q k
  show "(L(p := v)) q = Some k \<longleftrightarrow> (\<exists>j\<in>I. (Ls(i := (Ls i)(p := v))) j q = Some k)"
  proof (cases "q = p")
    case True
    then show ?thesis using i o by auto
  next
    case False
    then show ?thesis using j by (auto simp: joined_over_def)
  qed
qed

locale tenants =
  fixes owns :: "'i \<Rightarrow> 'h \<times> world \<Rightarrow> nat set \<Rightarrow> (u64 \<rightharpoonup> nat) \<Rightarrow> bool"
    and alloc :: "'i \<Rightarrow> u64 \<Rightarrow> 'h \<times> world \<Rightarrow> (u64 \<times> 'h \<times> world) option"
    and dealloc :: "'i \<Rightarrow> u64 \<Rightarrow> 'h \<times> world \<Rightarrow> ('h \<times> world) option"
    and serves :: "'i \<Rightarrow> u64 \<Rightarrow> 'h \<times> world \<Rightarrow> bool"
    and S :: u64
  assumes owns_frame: "owns i (h, w) Y L \<Longrightarrow> untouched Y w w' \<Longrightarrow> (\<And>x. x \<in> Y \<Longrightarrow> is_mapped (vm w) x \<Longrightarrow> is_mapped (vm w') x)
      \<Longrightarrow> owns i (h, w') Y L"
    and owns_live: "owns i (h, w) Y L \<Longrightarrow> L p = Some k \<Longrightarrow> p \<noteq> 0 \<and> 0 < k \<and> region p k \<subseteq> Y"
    and owns_disjoint: "owns i (h, w) Y L \<Longrightarrow> L p = Some k \<Longrightarrow> L q = Some j \<Longrightarrow> p \<noteq> q \<Longrightarrow> region p k \<inter> region q j = {}"
    and owns_alloc: "owns i (h, w) Y L \<Longrightarrow> arena_inv (arena w, w) H \<Longrightarrow> Y \<subseteq> H \<Longrightarrow> arena_aligned S (arena w) \<Longrightarrow> serves i sz (h, w)
      \<Longrightarrow> \<exists>r h' w' Y'. alloc i sz (h, w) = Some (r, h', w') \<and> moves S H Y Y' w w' \<and> keeps_live L w w'
        \<and> (r = 0 \<longrightarrow> owns i (h', w') Y' L) \<and> (r \<noteq> 0 \<longrightarrow> L r = None \<and> (\<exists>k \<ge> unat sz. owns i (h', w') Y' (L(r \<mapsto> k))))"
    and owns_dealloc: "owns i (h, w) Y L \<Longrightarrow> arena_inv (arena w, w) H \<Longrightarrow> Y \<subseteq> H \<Longrightarrow> L p = Some k \<Longrightarrow> dealloc i p (h, w) = Some (h', w')
      \<Longrightarrow> \<exists>Y'. moves S H Y Y' w w' \<and> keeps_live (L(p := None)) w w' \<and> owns i (h', w') Y' (L(p := None))"
    and owns_poke: "owns i (h, w) Y L \<Longrightarrow> L p = Some k \<Longrightarrow> unat x \<in> region p k \<Longrightarrow> owns i (h, world_poke x v w) Y L"
begin

definition family :: "'i set \<Rightarrow> ('i \<Rightarrow> 'h) \<Rightarrow> world \<Rightarrow> ('i \<Rightarrow> nat set) \<Rightarrow> ('i \<Rightarrow> u64 \<rightharpoonup> nat) \<Rightarrow> bool" where
  "family I st w Ys Ls \<longleftrightarrow> (\<forall>i\<in>I. owns i (st i, w) (Ys i) (Ls i)) \<and> (\<forall>i\<in>I. \<forall>j\<in>I. i \<noteq> j \<longrightarrow> Ys i \<inter> Ys j = {})"

definition collective :: "'i set \<Rightarrow> ('i \<Rightarrow> 'h) \<Rightarrow> world \<Rightarrow> nat set \<Rightarrow> (u64 \<rightharpoonup> nat) \<Rightarrow> bool" where
  "collective I st w Y L \<longleftrightarrow> (\<exists>Ys Ls. family I st w Ys Ls \<and> Y = (\<Union>i\<in>I. Ys i) \<and> joined_over I Ls L)"

lemma family_cong: "(\<And>i. i \<in> I \<Longrightarrow> st i = st' i) \<Longrightarrow> family I st w Ys Ls = family I st' w Ys Ls"
  by (simp add: family_def)

lemma collective_cong: "(\<And>i. i \<in> I \<Longrightarrow> st i = st' i) \<Longrightarrow> collective I st w Y L = collective I st' w Y L"
  unfolding collective_def using family_cong by metis

lemma family_frame:
  assumes "family I st w Ys Ls" "untouched (\<Union>i\<in>I. Ys i) w w'" "\<And>x. x \<in> (\<Union>i\<in>I. Ys i) \<Longrightarrow> is_mapped (vm w) x \<Longrightarrow> is_mapped (vm w') x"
  shows "family I st w' Ys Ls"
proof -
  have "owns i (st i, w') (Ys i) (Ls i)" if i: "i \<in> I" for i
    by (rule owns_frame [of i "st i" w]) (use assms i untouched_mono [OF assms(2), of "Ys i"] in \<open>auto simp: family_def\<close>)
  then show ?thesis using assms(1) by (simp add: family_def)
qed

text \<open>A live payload has one owner.\<close>

lemma family_owner:
  assumes f: "family I st w Ys Ls" and i: "i \<in> I" "Ls i p = Some k"
  shows "unat p \<in> Ys i" "region p k \<subseteq> Ys i" "j \<in> I \<Longrightarrow> j \<noteq> i \<Longrightarrow> Ls j p = None" "j \<in> I \<Longrightarrow> j \<noteq> i \<Longrightarrow> unat p \<notin> Ys j"
proof -
  have u: "unat p \<in> Ys j" "region p k' \<subseteq> Ys j" if "j \<in> I" "Ls j p = Some k'" for j k'
    using owns_live [of j "st j" w "Ys j" "Ls j" p k'] f that by (auto simp: family_def)
  show "unat p \<in> Ys i" "region p k \<subseteq> Ys i" using u [OF i] by auto
  have d: "j \<in> I \<Longrightarrow> j \<noteq> i \<Longrightarrow> Ys j \<inter> Ys i = {}" for j using f i(1) by (auto simp: family_def)
  show n: "j \<in> I \<Longrightarrow> j \<noteq> i \<Longrightarrow> unat p \<notin> Ys j" using d [of j] u(1) [OF i] by blast
  show "j \<in> I \<Longrightarrow> j \<noteq> i \<Longrightarrow> Ls j p = None" using n u(1) [of j] by (cases "Ls j p") auto
qed

lemma collective_live:
  assumes "collective I st w Y L" "L p = Some k"
  shows "p \<noteq> 0 \<and> 0 < k \<and> region p k \<subseteq> Y"
proof -
  obtain Ys Ls where c: "family I st w Ys Ls" "Y = (\<Union>i\<in>I. Ys i)" "joined_over I Ls L" using assms(1) by (auto simp: collective_def)
  obtain i where i: "i \<in> I" "Ls i p = Some k" using c(3) assms(2) by (auto simp: joined_over_def)
  then show ?thesis using owns_live [of i "st i" w "Ys i" "Ls i" p k] c(1,2) by (auto simp: family_def simp del: in_region_iff)
qed

lemma collective_disjoint:
  assumes "collective I st w Y L" "L p = Some k" "L q = Some j" "p \<noteq> q"
  shows "region p k \<inter> region q j = {}"
proof -
  obtain Ys Ls where c: "family I st w Ys Ls" "joined_over I Ls L" using assms(1) by (auto simp: collective_def)
  obtain i where i: "i \<in> I" "Ls i p = Some k" using c(2) assms(2) by (auto simp: joined_over_def)
  obtain i' where i': "i' \<in> I" "Ls i' q = Some j" using c(2) assms(3) by (auto simp: joined_over_def)
  show ?thesis
  proof (cases "i' = i")
    case True
    then show ?thesis using owns_disjoint [of i "st i" w "Ys i" "Ls i" p k q j] c(1) i i'(2) assms(4) by (auto simp: family_def)
  next
    case False
    then have "Ys i \<inter> Ys i' = {}" using c(1) i(1) i'(1) by (auto simp: family_def)
    then show ?thesis using family_owner(2) [OF c(1) i] family_owner(2) [OF c(1) i'] by blast
  qed
qed

text \<open>One tenant moves on, the others keep what they have.\<close>

lemma family_step:
  assumes f: "family I st w Ys Ls" and i: "i \<in> I" and H: "(\<Union>i\<in>I. Ys i) \<subseteq> H"
    and m: "moves S H (Ys i) Y' w w'" and o: "owns i (h', w') Y' L'"
  shows "family I (st(i := h')) w' (Ys(i := Y')) (Ls(i := L'))"
    "moves S H (\<Union>j\<in>I. Ys j) (\<Union>j\<in>I. (Ys(i := Y')) j) w w'"
proof -
  have mv: "arena_inv (arena w', w') (H - Ys i \<union> Y')" "Y' \<inter> (H - Ys i) = {}" "untouched (H - Ys i) w w'"
    using m by (auto simp: moves_def)
  have other: "Ys j \<subseteq> H - Ys i" "Y' \<inter> Ys j = {}" if j: "j \<in> I" "j \<noteq> i" for j
  proof -
    have "Ys j \<inter> Ys i = {}" "Ys j \<subseteq> H" using f i j H by (auto simp: family_def)
    then show sub: "Ys j \<subseteq> H - Ys i" by blast
    show "Y' \<inter> Ys j = {}" using sub mv(2) by blast
  qed
  have "owns j (st j, w') (Ys j) (Ls j)" if j: "j \<in> I" "j \<noteq> i" for j
  proof (rule owns_frame)
    show "owns j (st j, w) (Ys j) (Ls j)" using f j(1) by (simp add: family_def)
    show "untouched (Ys j) w w'" by (rule untouched_mono [OF mv(3) other(1) [OF j]])
    show "is_mapped (vm w') x" if "x \<in> Ys j" for x using other(1) [OF j] that mv(1) by (auto simp: arena_inv_def)
  qed
  then show "family I (st(i := h')) w' (Ys(i := Y')) (Ls(i := L'))"
    using f o other(2) by (auto simp: family_def)
  have U: "(\<Union>j\<in>I. (Ys(i := Y')) j) = (\<Union>j\<in>I - {i}. Ys j) \<union> Y'" using i by auto
  have V: "(\<Union>j\<in>I. Ys j) = (\<Union>j\<in>I - {i}. Ys j) \<union> Ys i" using i by auto
  have R: "(\<Union>j\<in>I - {i}. Ys j) \<subseteq> H - Ys i" using other(1) by blast
  have "H - (\<Union>j\<in>I. Ys j) \<union> (\<Union>j\<in>I. (Ys(i := Y')) j) = H - Ys i \<union> Y'" unfolding U V using R by blast
  moreover have "(\<Union>j\<in>I. (Ys(i := Y')) j) \<inter> (H - (\<Union>j\<in>I. Ys j)) = {}" unfolding U V using mv(2) by blast
  moreover have "untouched (H - (\<Union>j\<in>I. Ys j)) w w'" by (rule untouched_mono [OF mv(3)]) (use i in blast)
  ultimately show "moves S H (\<Union>j\<in>I. Ys j) (\<Union>j\<in>I. (Ys(i := Y')) j) w w'" using m by (auto simp only: moves_def)
qed

lemma family_keeps_live:
  assumes f: "family I st w Ys Ls" and i: "i \<in> I" and H: "(\<Union>i\<in>I. Ys i) \<subseteq> H" and u: "untouched (H - Ys i) w w'"
    and kl: "keeps_live L' w w'" and K: "\<And>q k. K q = Some k \<Longrightarrow> (\<exists>j\<in>I. j \<noteq> i \<and> Ls j q = Some k) \<or> L' q = Some k"
  shows "keeps_live K w w'"
  unfolding keeps_live_def
proof (intro allI impI)
  fix q k and x :: u64 assume q: "K q = Some k" and x: "unat x \<in> region q k"
  show "ram w' x = ram w x"
  proof (cases "L' q = Some k")
    case True
    then show ?thesis using kl x unfolding keeps_live_def by blast
  next
    case False
    then obtain j where j: "j \<in> I" "j \<noteq> i" "Ls j q = Some k" using K [OF q] by blast
    have "unat x \<in> Ys j" using family_owner(2) [OF f j(1,3)] x by blast
    moreover have "Ys j \<inter> Ys i = {}" "Ys j \<subseteq> H" using f i j(1,2) H by (auto simp: family_def)
    ultimately have "unat x \<in> H - Ys i" by blast
    then show ?thesis using u by (simp add: untouched_def keeps_others_def)
  qed
qed

lemma family_alloc:
  assumes f: "family I st w Ys Ls" and j: "joined_over I Ls L" and i: "i \<in> I" and ar: "arena_inv (arena w, w) H"
    and H: "(\<Union>i\<in>I. Ys i) \<subseteq> H" and al: "arena_aligned S (arena w)" and sv: "serves i sz (st i, w)"
  shows "\<exists>r h' w' Y'. alloc i sz (st i, w) = Some (r, h', w') \<and> moves S H (\<Union>i\<in>I. Ys i) Y' w w' \<and> keeps_live L w w'
    \<and> (r = 0 \<longrightarrow> collective I (st(i := h')) w' Y' L)
    \<and> (r \<noteq> 0 \<longrightarrow> L r = None \<and> (\<exists>k \<ge> unat sz. collective I (st(i := h')) w' Y' (L(r \<mapsto> k))))"
proof -
  have o: "owns i (st i, w) (Ys i) (Ls i)" using f i by (simp add: family_def)
  have Yi: "Ys i \<subseteq> H" using H i by blast
  obtain r h' w' Y' where a: "alloc i sz (st i, w) = Some (r, h', w')" "moves S H (Ys i) Y' w w'" "keeps_live (Ls i) w w'"
    "r = 0 \<longrightarrow> owns i (h', w') Y' (Ls i)" "r \<noteq> 0 \<longrightarrow> Ls i r = None \<and> (\<exists>k \<ge> unat sz. owns i (h', w') Y' ((Ls i)(r \<mapsto> k)))"
    using owns_alloc [OF o ar Yi al sv] by blast
  let ?U = "\<Union>i\<in>I. Ys i" and ?V = "\<Union>j\<in>I. (Ys(i := Y')) j"
  have ex: "\<exists>L'. owns i (h', w') Y' L'" using a(4,5) by blast
  have mv: "moves S H ?U ?V w w'" using family_step(2) [OF f i H a(2)] ex by blast
  have u: "untouched (H - Ys i) w w'" using a(2) by (simp add: moves_def)
  have kl: "keeps_live L w w'"
    by (rule family_keeps_live [OF f i H u a(3)]) (use j in \<open>auto simp: joined_over_def\<close>)
  have c0: "collective I (st(i := h')) w' ?V L" if "r = 0"
  proof -
    have "owns i (h', w') Y' (Ls i)" using a(4) that by blast
    from family_step(1) [OF f i H a(2) this] show ?thesis using j unfolding collective_def fun_upd_triv by blast
  qed
  have c1: "L r = None \<and> (\<exists>k \<ge> unat sz. collective I (st(i := h')) w' ?V (L(r \<mapsto> k)))" if "r \<noteq> 0"
  proof -
    obtain k where k: "Ls i r = None" "k \<ge> unat sz" "owns i (h', w') Y' ((Ls i)(r \<mapsto> k))" using a(5) \<open>r \<noteq> 0\<close> by blast
    note f' = family_step(1) [OF f i H a(2) k(3)]
    have n: "Ls j' r = None" if "j' \<in> I" "j' \<noteq> i" for j'
      using family_owner(3) [OF f' i, of r k j'] that by simp
    have "L r = None" using j k(1) n unfolding joined_over_def by (metis option.exhaust option.distinct(1))
    moreover have "joined_over I (Ls(i := (Ls i)(r \<mapsto> k))) (L(r \<mapsto> k))" by (rule joined_over_upd [OF j i n])
    then have "collective I (st(i := h')) w' ?V (L(r \<mapsto> k))" using f' unfolding collective_def by blast
    ultimately show ?thesis using k(2) by blast
  qed
  show ?thesis using a(1) mv kl c0 c1 by blast
qed

lemma family_dealloc:
  assumes f: "family I st w Ys Ls" and j: "joined_over I Ls L" and i: "i \<in> I" "Ls i p = Some k" and ar: "arena_inv (arena w, w) H"
    and H: "(\<Union>i\<in>I. Ys i) \<subseteq> H" and d: "dealloc i p (st i, w) = Some (h', w')"
  shows "\<exists>Y'. moves S H (\<Union>i\<in>I. Ys i) Y' w w' \<and> keeps_live (L(p := None)) w w' \<and> collective I (st(i := h')) w' Y' (L(p := None))"
proof -
  have o: "owns i (st i, w) (Ys i) (Ls i)" using f i by (simp add: family_def)
  have Yi: "Ys i \<subseteq> H" using H i by blast
  obtain Y' where m: "moves S H (Ys i) Y' w w'" "keeps_live ((Ls i)(p := None)) w w'" "owns i (h', w') Y' ((Ls i)(p := None))"
    using owns_dealloc [OF o ar Yi i(2) d] by blast
  note f' = family_step [OF f i(1) H m(1,3)]
  have u: "untouched (H - Ys i) w w'" using m(1) by (simp add: moves_def)
  have "joined_over I (Ls(i := (Ls i)(p := None))) (L(p := None))" using joined_over_upd [OF j i(1)] family_owner(3) [OF f i] by blast
  then have "collective I (st(i := h')) w' (\<Union>j\<in>I. (Ys(i := Y')) j) (L(p := None))" using f'(1) unfolding collective_def by blast
  moreover have "keeps_live (L(p := None)) w w'"
    by (rule family_keeps_live [OF f i(1) H u m(2)]) (use j in \<open>auto simp: joined_over_def split: if_splits\<close>)
  ultimately show ?thesis using f'(2) by blast
qed

lemma collective_poke:
  assumes c: "collective I st w Y L" and p: "L p = Some k" "unat x \<in> region p k"
  shows "collective I st (world_poke x v w) Y L"
proof -
  obtain Ys Ls where f: "family I st w Ys Ls" "Y = (\<Union>i\<in>I. Ys i)" "joined_over I Ls L" using c by (auto simp: collective_def)
  obtain i where i: "i \<in> I" "Ls i p = Some k" using f(3) p(1) by (auto simp: joined_over_def)
  have x: "unat x \<in> Ys i" using family_owner(2) [OF f(1) i] p(2) by blast
  have "owns j (st j, world_poke x v w) (Ys j) (Ls j)" if j: "j \<in> I" for j
  proof (cases "j = i")
    case True
    then show ?thesis using owns_poke [of i "st i" w "Ys i" "Ls i" p k x v] i p(2) f(1) by (auto simp: family_def)
  next
    case False
    then have "unat x \<notin> Ys j" using f(1) i(1) j x by (auto simp: family_def)
    then have "untouched (Ys j) w (world_poke x v w)" by (auto simp: untouched_def keeps_others_def)
    then show ?thesis using owns_frame [of j "st j" w "Ys j" "Ls j"] f(1) j by (auto simp: family_def)
  qed
  then have "family I st (world_poke x v w) Ys Ls" using f(1) by (simp add: family_def)
  then show ?thesis using f(2,3) unfolding collective_def by blast
qed

text \<open>The same for a collective; the owner of a pointer is known by its index.\<close>

lemma collective_frame:
  assumes "collective I st w Y L" "untouched Y w w'" "\<And>x. x \<in> Y \<Longrightarrow> is_mapped (vm w) x \<Longrightarrow> is_mapped (vm w') x"
  shows "collective I st w' Y L"
proof -
  obtain Ys Ls where f: "family I st w Ys Ls" "Y = (\<Union>i\<in>I. Ys i)" "joined_over I Ls L" using assms(1) by (auto simp: collective_def)
  have "family I st w' Ys Ls" by (rule family_frame [OF f(1), folded f(2), OF assms(2,3)])
  then show ?thesis using f(2,3) unfolding collective_def by blast
qed

lemma collective_untouched:
  assumes "collective I st w Y L" "untouched Y w w'"
  shows "keeps_live L w w'"
  unfolding keeps_live_def
proof (intro allI impI)
  fix q k and x :: u64 assume "L q = Some k" "unat x \<in> region q k"
  then have "unat x \<in> Y" using collective_live [OF assms(1)] by blast
  then show "ram w' x = ram w x" using assms(2) by (simp add: untouched_def keeps_others_def)
qed

lemma collective_alloc:
  assumes c: "collective I st w Y L" and i: "i \<in> I" and ar: "arena_inv (arena w, w) H" and H: "Y \<subseteq> H" and al: "arena_aligned S (arena w)"
    and sv: "serves i sz (st i, w)"
  shows "\<exists>r h' w' Y'. alloc i sz (st i, w) = Some (r, h', w') \<and> moves S H Y Y' w w' \<and> keeps_live L w w'
    \<and> (r = 0 \<longrightarrow> collective I (st(i := h')) w' Y' L)
    \<and> (r \<noteq> 0 \<longrightarrow> L r = None \<and> (\<exists>k \<ge> unat sz. collective I (st(i := h')) w' Y' (L(r \<mapsto> k))))"
proof -
  obtain Ys Ls where f: "family I st w Ys Ls" "Y = (\<Union>i\<in>I. Ys i)" "joined_over I Ls L" using c by (auto simp: collective_def)
  show ?thesis using family_alloc [OF f(1,3) i ar _ al sv] H unfolding f(2) by blast
qed

lemma collective_owner:
  assumes "collective I st w Y L" "L p = Some k"
  obtains i Ys Ls where "i \<in> I" "family I st w Ys Ls" "Y = (\<Union>i\<in>I. Ys i)" "joined_over I Ls L" "Ls i p = Some k"
  using assms unfolding collective_def joined_over_def by blast

text \<open>A newcomer, in memory that was not handed out before.\<close>

lemma collective_insert:
  assumes c: "collective I st w U L" and H: "U \<subseteq> H" and i: "i \<notin> I" and m: "moves S H {} Y w w'" and o: "owns i (h, w') Y Map.empty"
  shows "collective (insert i I) (st(i := h)) w' (U \<union> Y) L" "moves S H U (U \<union> Y) w w'"
proof -
  have mv: "arena_inv (arena w', w') (H \<union> Y)" "Y \<inter> H = {}" "untouched H w w'" using m by (auto simp: moves_def)
  obtain Ys Ls where f: "family I st w Ys Ls" "U = (\<Union>i\<in>I. Ys i)" "joined_over I Ls L" using c by (auto simp: collective_def)
  have f': "family I st w' Ys Ls"
  proof (rule family_frame [OF f(1)], fold f(2))
    show "untouched U w w'" by (rule untouched_mono [OF mv(3) H])
    show "is_mapped (vm w') x" if "x \<in> U" for x using that H mv(1) by (auto simp: arena_inv_def)
  qed
  have d: "Ys j \<inter> Y = {}" "Y \<inter> Ys j = {}" if "j \<in> I" for j using that f(2) H mv(2) by blast+
  have n: "j \<noteq> i" if "j \<in> I" for j using that i by blast
  have "family (insert i I) (st(i := h)) w' (Ys(i := Y)) (Ls(i := Map.empty))"
    using f' o d n unfolding family_def by (auto simp del: in_region_iff)
  moreover have "U \<union> Y = (\<Union>j\<in>insert i I. (Ys(i := Y)) j)" using i f(2) by auto
  moreover have "joined_over (insert i I) (Ls(i := Map.empty)) L" using f(3) n unfolding joined_over_def by auto
  ultimately show "collective (insert i I) (st(i := h)) w' (U \<union> Y) L" unfolding collective_def by blast
  have "H - U \<union> (U \<union> Y) = H \<union> Y" "(U \<union> Y) \<inter> (H - U) = {}" using H mv(2) by blast+
  moreover have "untouched (H - U) w w'" by (rule untouched_mono [OF mv(3)]) blast
  ultimately show "moves S H U (U \<union> Y) w w'" using m mv(1) unfolding moves_def by auto
qed

text \<open>A tenant changes its index.\<close>

lemma collective_rename:
  assumes c: "collective I st w U L" and i: "i \<in> I" "j \<notin> I" and o: "\<And>Y L. owns i (st i, w) Y L \<Longrightarrow> owns j (st i, w) Y L"
  shows "collective (insert j (I - {i})) (st(j := st i)) w U L"
proof -
  obtain Ys Ls where f: "family I st w Ys Ls" "U = (\<Union>i\<in>I. Ys i)" "joined_over I Ls L" using c by (auto simp: collective_def)
  have n: "k \<noteq> j" if "k \<in> I" for k using that i(2) by blast
  have "family (insert j (I - {i})) (st(j := st i)) w (Ys(j := Ys i)) (Ls(j := Ls i))"
    unfolding family_def
  proof (intro conjI ballI impI)
    fix k assume "k \<in> insert j (I - {i})"
    then show "owns k ((st(j := st i)) k, w) ((Ys(j := Ys i)) k) ((Ls(j := Ls i)) k)" using f(1) i(1) n o by (auto simp: family_def)
  next
    fix k l assume "k \<in> insert j (I - {i})" "l \<in> insert j (I - {i})" "k \<noteq> l"
    moreover have "Ys k' \<inter> Ys l' = {}" if "k' \<in> I" "l' \<in> I" "k' \<noteq> l'" for k' l' using f(1) that by (simp add: family_def)
    ultimately show "(Ys(j := Ys i)) k \<inter> (Ys(j := Ys i)) l = {}" using i(1) by (cases "k = j"; cases "l = j") (simp_all, metis+)
  qed
  moreover have "U = (\<Union>k\<in>insert j (I - {i}). (Ys(j := Ys i)) k)" using i n unfolding f(2) by auto
  moreover have "joined_over (insert j (I - {i})) (Ls(j := Ls i)) L" using f(3) i(1) n unfolding joined_over_def by auto
  ultimately show ?thesis unfolding collective_def by blast
qed

text \<open>A tenant together with the arena is a partial allocator.\<close>

definition rented :: "'i \<Rightarrow> 'h \<times> world \<Rightarrow> (u64 \<rightharpoonup> nat) \<Rightarrow> bool" where
  "rented i = (\<lambda>(h, w) L. arena_aligned S (arena w) \<and> (\<exists>H Y. arena_inv (arena w, w) H \<and> Y \<subseteq> H \<and> owns i (h, w) Y L))"

definition tenant_poke :: "u64 \<Rightarrow> u8 \<Rightarrow> 'h \<times> world \<Rightarrow> 'h \<times> world" where
  "tenant_poke x v = (\<lambda>(h, w). (h, world_poke x v w))"

lemma moved_in:
  assumes "moves S H Y Y' w w'" "arena_aligned S (arena w)" "owns i (h', w') Y' L"
  shows "rented i (h', w') L"
proof -
  have "arena_inv (arena w', w') (H - Y \<union> Y')" "arena_aligned S (arena w')" using assms(1,2) by (auto simp: moves_def)
  moreover have "Y' \<subseteq> H - Y \<union> Y'" by blast
  ultimately show ?thesis using assms(3) unfolding rented_def prod.case by blast
qed

lemma rentedE:
  assumes "rented i (h, w) L"
  obtains H Y where "arena_aligned S (arena w)" "arena_inv (arena w, w) H" "Y \<subseteq> H" "owns i (h, w) Y L"
  using assms unfolding rented_def prod.case by blast

lemma rented_alloc:
  assumes r: "rented i (h, w) L" and sv: "serves i sz (h, w)"
  obtains p h' w' where "alloc i sz (h, w) = Some (p, (h', w'))" "keeps_live L w w'" "p = 0 \<longrightarrow> rented i (h', w') L"
    "p \<noteq> 0 \<longrightarrow> L p = None \<and> (\<exists>k \<ge> unat sz. rented i (h', w') (L(p \<mapsto> k)))"
proof -
  obtain H Y where o: "arena_aligned S (arena w)" "arena_inv (arena w, w) H" "Y \<subseteq> H" "owns i (h, w) Y L" by (rule rentedE [OF r])
  obtain p h' w' Y' where a: "alloc i sz (h, w) = Some (p, h', w')" "moves S H Y Y' w w'" "keeps_live L w w'"
    "p = 0 \<longrightarrow> owns i (h', w') Y' L" "p \<noteq> 0 \<longrightarrow> L p = None \<and> (\<exists>k \<ge> unat sz. owns i (h', w') Y' (L(p \<mapsto> k)))"
    using owns_alloc [OF o(4,2,3,1) sv] by blast
  show ?thesis by (rule that [OF a(1,3)]) (use moved_in [OF a(2) o(1)] a(4,5) in blast)+
qed

lemma rented_alloc_result:
  assumes "rented i (h, w) L" "serves i sz (h, w)" "alloc i sz (h, w) = Some (p, (h', w'))"
  shows "keeps_live L w w'" "p = 0 \<Longrightarrow> rented i (h', w') L"
    "p \<noteq> 0 \<Longrightarrow> L p = None \<and> (\<exists>k \<ge> unat sz. rented i (h', w') (L(p \<mapsto> k)))"
proof -
  obtain q g v where "alloc i sz (h, w) = Some (q, (g, v))" "keeps_live L w v" "q = 0 \<longrightarrow> rented i (g, v) L"
    "q \<noteq> 0 \<longrightarrow> L q = None \<and> (\<exists>k \<ge> unat sz. rented i (g, v) (L(q \<mapsto> k)))" by (rule rented_alloc [OF assms(1,2)])
  then show "keeps_live L w w'" "p = 0 \<Longrightarrow> rented i (h', w') L"
    "p \<noteq> 0 \<Longrightarrow> L p = None \<and> (\<exists>k \<ge> unat sz. rented i (h', w') (L(p \<mapsto> k)))" using assms(3) by simp_all
qed

lemma rented_dealloc:
  assumes "rented i (h, w) L" "L p = Some k" "dealloc i p (h, w) = Some (h', w')"
  shows "rented i (h', w') (L(p := None))" "keeps_live (L(p := None)) w w'"
proof -
  obtain H Y where o: "arena_aligned S (arena w)" "arena_inv (arena w, w) H" "Y \<subseteq> H" "owns i (h, w) Y L" by (rule rentedE [OF assms(1)])
  obtain Y' where d: "moves S H Y Y' w w'" "keeps_live (L(p := None)) w w'" "owns i (h', w') Y' (L(p := None))"
    using owns_dealloc [OF o(4,2,3) assms(2,3)] by blast
  show "rented i (h', w') (L(p := None))" by (rule moved_in [OF d(1) o(1) d(3)])
  show "keeps_live (L(p := None)) w w'" by (rule d(2))
qed

end

sublocale tenants \<subseteq> tenant: partial_allocator "rented i" "alloc i" "dealloc i" "serves i" tenant_poke "\<lambda>s. ram (snd s)"
  "\<lambda>s. {x. is_mapped (vm (snd s)) x}" for i
proof (unfold_locales, goal_cases)
  case (1 s A)
  obtain h w where s: "s = (h, w)" by (cases s)
  obtain Y where "owns i (h, w) Y A" by (rule rentedE [OF 1 [unfolded s]])
  then show ?case using owns_live [of i h w Y A 0] by (cases "A 0") auto
next
  case (2 s A p k)
  obtain h w where s: "s = (h, w)" by (cases s)
  obtain H Y where o: "arena_inv (arena w, w) H" "Y \<subseteq> H" "owns i (h, w) Y A" by (rule rentedE [OF 2(1) [unfolded s]])
  have "region p k \<subseteq> H" using owns_live [OF o(3) 2(2)] o(2) by blast
  then show ?case using o(1) by (auto simp: s arena_inv_def simp del: in_region_iff)
next
  case (3 s A p k q j)
  obtain h w where s: "s = (h, w)" by (cases s)
  obtain Y where "owns i (h, w) Y A" by (rule rentedE [OF 3(1) [unfolded s]])
  then show ?case using owns_disjoint 3(2-4) by blast
next
  case (4 s A sz)
  then show ?case by (cases s) (metis rented_alloc)
next
  case (5 s A sz s')
  then show ?case using rented_alloc_result(2) by (cases s; cases s') blast
next
  case (6 s A sz p s')
  then show ?case using rented_alloc_result(3) by (cases s; cases s') blast
next
  case (7 s A sz p s' q k x)
  then show ?case using rented_alloc_result(1) by (cases s; cases s') (fastforce simp: keeps_live_def simp del: in_region_iff)
next
  case (8 s A p k s')
  then show ?case using rented_dealloc(1) by (cases s; cases s') blast
next
  case (9 s A p j s' q k x)
  obtain h w h' w' where s: "s = (h, w)" "s' = (h', w')" by (cases s; cases s')
  have "keeps_live (A(p := None)) w w'" using rented_dealloc(2) 9(1-3) unfolding s by blast
  moreover have "(A(p := None)) q = Some k" using 9(4,5) by simp
  ultimately show ?case using 9(6) unfolding keeps_live_def s snd_conv by blast
next
  case (10 s A p k x v)
  obtain h w where s: "s = (h, w)" by (cases s)
  obtain H Y where o: "arena_aligned S (arena w)" "arena_inv (arena w, w) H" "Y \<subseteq> H" "owns i (h, w) Y A"
    by (rule rentedE [OF 10(1) [unfolded s]])
  have "arena_inv (arena w, world_poke x v w) H" using o(2) by (simp add: arena_inv_def)
  then show ?case using o(1,3) owns_poke [OF o(4) 10(2,3), of v] unfolding s tenant_poke_def rented_def by auto
next
  case (11 x v s)
  then show ?case by (cases s) (simp add: tenant_poke_def)
qed

end
