(* ===== verification/Segment_Tenant.thy ===== *)
theory Segment_Tenant
  imports Tenancy Thread_Local_Segment
begin

text \<open>
  Segments as owners of addresses, for every concurrency policy.  A \<open>THREAD_LOCAL\<close> segment owns its pages and the pages of
  its queue; it is assumed not to recycle pages (\<open>settled\<close>), so the set of its pages never changes.
\<close>

subsection \<open>Segments that keep their pages\<close>

definition settled :: "segment_policy \<Rightarrow> Segment \<Rightarrow> bool" where
  "settled P sg \<longleftrightarrow> page_recycling_policy P \<noteq> IMMEDIATE \<or> seg_logical_page_count sg \<le> seg_page_recycling_threshold sg"

text \<open>The fields that only growth and recycling change.\<close>

definition same_pages :: "Segment \<Rightarrow> Segment \<Rightarrow> bool" where
  "same_pages sg sg' \<longleftrightarrow> seg_logical_page_count sg' = seg_logical_page_count sg \<and> seg_head sg' = seg_head sg
     \<and> seg_page_recycling_threshold sg' = seg_page_recycling_threshold sg"

lemma settled_same: "same_pages sg sg' \<Longrightarrow> settled P sg' = settled P sg"
  by (simp add: settled_def same_pages_def)

lemma same_pages_simps [simp]:
  "same_pages sg sg" "same_pages sg (sg'\<lparr>seg_deallocation_queue := q\<rparr>) = same_pages sg sg'"
  "same_pages (sg\<lparr>seg_deallocation_queue := q\<rparr>) sg' = same_pages sg sg'"
  "same_pages sg (sg'\<lparr>seg_last_used := p\<rparr>) = same_pages sg sg'"
  by (simp_all add: same_pages_def)

lemma same_pages_trans: "same_pages sg sg' \<Longrightarrow> same_pages sg' sg'' \<Longrightarrow> same_pages sg sg''"
  by (simp add: same_pages_def)

lemma deallocate_from_page_settled:
  "settled P sg \<Longrightarrow> deallocate_from_page P os a ptr (sg, w) = Some (sg', w') \<Longrightarrow> sg' = sg"
  by (auto simp: deallocate_from_page_def Let_def settled_def not_less [symmetric] split: bind_splits if_splits)

lemma deallocate_internal_settled:
  "settled P sg \<Longrightarrow> deallocate_internal P os ptr (sg, w) = Some (sg', w') \<Longrightarrow> sg' = sg"
  using deallocate_from_page_settled
  by (auto simp: deallocate_internal_def deallocate_from_aligned_logical_page_def deallocate_by_search_def Let_def
      split: if_splits bind_splits)

lemmas process_queue_loop_pages = process_queue_loop.raw_induct
  [of "\<lambda>x y. settled (fst (fst (fst (fst x)))) (fst (snd x)) \<longrightarrow> same_pages (fst (snd x)) (fst (snd y))", unfolded fst_conv snd_conv]

lemma process_queue_loop_settled:
  assumes "process_queue_loop P os b ret s = Some y"
  shows "settled P (fst s) \<longrightarrow> same_pages (fst s) (fst (snd y))"
  using assms
proof (rule process_queue_loop_pages [rotated], intro impI)
  fix loop P os b ret s and y :: "u64 \<times> segment_state"
  assume IH: "\<And>P os b ret s y. loop P os b ret s = Some y \<Longrightarrow> settled P (fst s) \<longrightarrow> same_pages (fst s) (fst (snd y))"
    and body: "do {
       (pointer, q, w) \<leftarrow> DeallocationQueue_pop (seg_deallocation_queue (fst s), snd s);
       let sg = (fst s)\<lparr>seg_deallocation_queue := q\<rparr>;
       if pointer = 0 then Some (ret, (sg, w))
       else if b then if ret \<noteq> 0 then do { s \<leftarrow> deallocate_internal P os pointer (sg, w); loop P os b ret s }
            else loop P os b pointer (sg, w)
       else do { s \<leftarrow> deallocate_internal P os pointer (sg, w); loop P os b ret s } } = Some y"
    and st0: "settled P (fst s)"
  obtain sg w where s: "s = (sg, w)" by (cases s)
  obtain x q w1 where pop: "DeallocationQueue_pop (seg_deallocation_queue sg, w) = Some (x, q, w1)"
    using body by (auto simp: s split: bind_splits)
  let ?sg = "sg\<lparr>seg_deallocation_queue := q\<rparr>"
  have st: "settled P ?sg" using st0 s by (simp add: settled_def)
  have d: "same_pages sg (fst (snd y))" if "deallocate_internal P os x (?sg, w1) = Some t" "loop P os b c t = Some y" for t c
  proof -
    obtain sg2 w2 where t: "t = (sg2, w2)" by (cases t)
    have "sg2 = ?sg" using deallocate_internal_settled [OF st that(1) [unfolded t]] .
    then show ?thesis using IH [OF that(2)] st t by simp
  qed
  have p: "same_pages sg (fst (snd y))" if "loop P os b x (?sg, w1) = Some y" using IH [OF that] st by simp
  show "same_pages (fst s) (fst (snd y))"
    using body pop p d unfolding s by (auto simp: Let_def split: if_splits bind_splits)
qed

lemma allocate_internal_pages:
  "concurrency_policy P = THREAD_LOCAL \<Longrightarrow> allocate_internal P os sz (sg, w) = Some (r, (sg', w')) \<Longrightarrow> same_pages sg sg'"
  by (auto simp: allocate_internal_def split: if_splits bind_splits)

lemma Segment_allocate_settled:
  assumes cp: "concurrency_policy P = THREAD_LOCAL" and st: "settled P sg" and a: "Segment_allocate P os sz (sg, w) = Some (r, (sg', w'))"
  shows "same_pages sg sg'"
proof -
  obtain b x sg1 w1 where d: "process_deallocation_queue P os b (sg, w) = Some (x, (sg1, w1))"
    and r: "(sg1, w1) = (sg', w') \<or> allocate_internal P os sz (sg1, w1) = Some (r, (sg', w'))"
    using a cp by (auto simp: Segment_allocate_def split: if_splits bind_splits)
  have "same_pages sg sg1" using process_queue_loop_settled [OF d [unfolded process_deallocation_queue_def]] st by simp
  moreover have "same_pages sg1 sg'" using r allocate_internal_pages [OF cp, of os sz sg1 w1 r sg' w'] by auto
  ultimately show ?thesis by (rule same_pages_trans)
qed

text \<open>A segment that has as many pages as before has lost none.\<close>

lemma seg_live_card:
  assumes "seg_live P (sg, w) X L"
  shows "finite X" "card X = unat (seg_logical_page_count sg) * unat (seg_logical_page_size sg)"
proof -
  obtain ps A where s: "seg_inv P sg w ps A" "X = extents sg ps" using assms by (auto simp: seg_live_def)
  have d: "distinct ps" "unat (seg_logical_page_count sg) = length ps"
    using seg_inv_distinct [OF s(1)] s(1) by (auto simp: seg_inv_def seg_pages_def)
  have f: "finite (extent sg p)" "card (extent sg p) = unat (seg_logical_page_size sg)" for p
    by (simp_all add: region_def)
  show "finite X" using f(1) by (simp add: s(2) extents_def)
  have "card X = (\<Sum>p\<in>set ps. card (extent sg p))"
    unfolding s(2) extents_def using s(1) f(1) by (intro card_UN_disjoint) (auto simp: seg_inv_def)
  then show "card X = unat (seg_logical_page_count sg) * unat (seg_logical_page_size sg)"
    using d by (simp only: f(2) sum_constant distinct_card) (simp add: distinct_card)
qed

lemma seg_live_same_pages:
  assumes "seg_live P (sg, w) X L" "seg_live P (sg', w') X' L'" "X' \<subseteq> X" "same_pages sg sg'" "same_segment sg sg'"
  shows "X' = X"
  using assms seg_live_card [OF assms(1)] seg_live_card [OF assms(2)] same_segment_fields [OF assms(5)]
  by (intro card_subset_eq) (simp_all add: same_pages_def)

subsection \<open>Ownership\<close>

definition seg_owned :: "segment_policy \<Rightarrow> os \<Rightarrow> nat set \<Rightarrow> segment_state \<Rightarrow> nat set \<Rightarrow> (u64 \<rightharpoonup> nat) \<Rightarrow> bool" where
  "seg_owned P os R = (\<lambda>(sg, w) Y L. os_ok os \<and> seg_lock sg = 0 \<and>
     (if concurrency_policy P = THREAD_LOCAL
      then settled P sg \<and> (\<exists>Q xs K. tl_live P os (sg, w) R Q xs K \<and> Y = R \<union> queue_space Q \<and> L = K |` (- set xs))
      else seg_live P (sg, w) Y L))"

lemma seg_owned_local:
  "concurrency_policy P = THREAD_LOCAL \<Longrightarrow> seg_owned P os R (sg, w) Y L \<longleftrightarrow> os_ok os \<and> seg_lock sg = 0 \<and> settled P sg
     \<and> (\<exists>Q xs K. tl_live P os (sg, w) R Q xs K \<and> Y = R \<union> queue_space Q \<and> L = K |` (- set xs))"
  by (simp add: seg_owned_def)

lemma seg_owned_unbounded:
  "concurrency_policy P \<noteq> THREAD_LOCAL \<Longrightarrow> seg_owned P os R (sg, w) Y L \<longleftrightarrow> os_ok os \<and> seg_lock sg = 0 \<and> seg_live P (sg, w) Y L"
  by (simp add: seg_owned_def)

text \<open>What is known about the pages of a thread local segment.\<close>

lemma seg_owned_range:
  assumes "concurrency_policy P = THREAD_LOCAL" "seg_owned P os R (sg, w) Y L"
  obtains K where "seg_live P (sg, w) R K" "R \<subseteq> Y" "\<And>q k. L q = Some k \<Longrightarrow> K q = Some k"
proof -
  obtain Q xs K where "tl_live P os (sg, w) R Q xs K" "Y = R \<union> queue_space Q" "L = K |` (- set xs)"
    using assms by (auto simp: seg_owned_local)
  then show ?thesis by (intro that [of K]) (auto simp: tl_live_def restrict_map_def split: if_splits)
qed

text \<open>In both cases the live payloads of the pages are known.\<close>

lemma seg_owned_live:
  assumes "seg_owned P os R (sg, w) Y L"
  obtains X K where "seg_live P (sg, w) X K" "X \<subseteq> Y" "\<And>q k. L q = Some k \<Longrightarrow> K q = Some k"
proof (cases "concurrency_policy P = THREAD_LOCAL")
  case True
  then show ?thesis using that assms by (auto elim: seg_owned_range)
next
  case False
  then show ?thesis using assms by (intro that [of Y L]) (auto simp: seg_owned_unbounded)
qed

lemma seg_owned_frame:
  assumes o: "seg_owned P os R (sg, w) Y L" and u: "untouched Y w w'" and m: "\<And>x. x \<in> Y \<Longrightarrow> is_mapped (vm w) x \<Longrightarrow> is_mapped (vm w') x"
  shows "seg_owned P os R (sg, w') Y L"
proof (cases "concurrency_policy P = THREAD_LOCAL")
  case True
  then obtain Q xs K where t: "os_ok os" "settled P sg" "tl_live P os (sg, w) R Q xs K" "Y = R \<union> queue_space Q" "L = K |` (- set xs)" "seg_lock sg = 0"
    using o by (auto simp: seg_owned_local)
  have l: "seg_live P (sg, w) R K" "queue_in os (seg_deallocation_queue sg, w) Q xs" using t(3) by (auto simp: tl_live_def)
  have "seg_live P (sg, w') R K" by (rule seg_live_others [OF l(1), of Y]) (use u t(4) in \<open>auto simp: untouched_def\<close>)
  moreover have "queue_in os (seg_deallocation_queue sg, w') Q xs"
  proof (rule queue_in_frame [OF l(2)])
    fix r assume r: "r \<in> Q"
    have y: "unat r \<in> Y" using queue_space_page [OF r] t(4) by blast
    show "pointer_pages w' r = pointer_pages w r" using u y by (simp add: untouched_def)
    have "is_mapped (vm w) (unat r)" using l(2) r by (auto simp: queue_in_def dq_shape_def)
    then show "is_mapped (vm w') (unat r)" by (rule m [OF y])
  qed
  ultimately have "tl_live P os (sg, w') R Q xs K" using t(3) by (simp add: tl_live_def)
  then show ?thesis using True t by (auto simp: seg_owned_local)
next
  case False
  then have l: "os_ok os" "seg_lock sg = 0" "seg_live P (sg, w) Y L" using o by (auto simp: seg_owned_unbounded)
  then show ?thesis using False seg_live_others [OF l(3), of Y w'] u by (simp add: seg_owned_unbounded untouched_def)
qed

text \<open>What an operation keeps of the segment itself, and the requests that it serves.\<close>

definition seg_keeps :: "segment_policy \<Rightarrow> Segment \<Rightarrow> Segment \<Rightarrow> bool" where
  "seg_keeps P sg sg' \<longleftrightarrow> same_segment sg sg' \<and> (concurrency_policy P = THREAD_LOCAL \<longrightarrow> same_pages sg sg')"

definition seg_answers :: "segment_policy \<Rightarrow> os \<Rightarrow> u64 \<Rightarrow> segment_state \<Rightarrow> bool" where
  "seg_answers P os sz s = (if concurrency_policy P = THREAD_LOCAL then tl_serves P sz s else seg_serves P os sz s)"

lemma keeps_others_mono: "keeps_others Y w w' \<Longrightarrow> Z \<subseteq> Y \<Longrightarrow> keeps_others Z w w'"
  by (auto simp: keeps_others_def)

lemma unbounded_alloc:
  assumes cp: "concurrency_policy P \<noteq> THREAD_LOCAL" and o: "seg_owned P os R (sg, w) Y L" and ar: "arena_inv (arena w, w) H" and H: "Y \<subseteq> H"
    and am: "arena_matches P sg (arena w)" and S: "unat S dvd unat (seg_logical_page_size sg)" and sv: "seg_serves P os sz (sg, w)"
  shows "\<exists>r sg' w' Y'. Segment_allocate P os sz (sg, w) = Some (r, (sg', w')) \<and> moves S H Y Y' w w' \<and> keeps_live L w w' \<and> seg_keeps P sg sg'
    \<and> (r = 0 \<longrightarrow> seg_owned P os R (sg', w') Y' L)
    \<and> (r \<noteq> 0 \<longrightarrow> L r = None \<and> (\<exists>k \<ge> unat sz. seg_owned P os R (sg', w') Y' (L(r \<mapsto> k))))"
proof -
  have l: "os_ok os" "seg_lock sg = 0" "seg_live P (sg, w) Y L" using o cp by (auto simp: seg_owned_unbounded)
  obtain r s' B where a: "Segment_allocate P os sz (sg, w) = Some (r, s')" "takes H Y B L (sg, w) s'"
    "arena_matches P (fst s') (arena (snd s'))" "r = 0 \<longrightarrow> seg_live P s' (Y \<union> B) L"
    "r \<noteq> 0 \<longrightarrow> L r = None \<and> (\<exists>k \<ge> unat sz. seg_live P s' (Y \<union> B) (L(r \<mapsto> k)))"
    by (rule segment_allocate_takes [OF l(1) cp l(2) am ar H l(3) sv])
  obtain sg' w' where s': "s' = (sg', w')" by (cases s')
  have t: "B \<inter> H = {}" "arena_inv (arena w', w') (H \<union> B)" "keeps_live L w w'" "keeps_others (H - Y) w w'"
    "keeps_alignment sg (arena w) (arena w')" "pointer_pages w' = pointer_pages w" "same_segment sg sg'" "seg_lock sg' = 0"
    using a(2) l(2) by (auto simp: takes_def s')
  have "H - Y \<union> (Y \<union> B) = H \<union> B" using H by blast
  then have "moves S H Y (Y \<union> B) w w'"
    using t S unfolding moves_def untouched_def keeps_alignment_def by auto
  moreover have "seg_keeps P sg sg'" using t(7) cp by (simp add: seg_keeps_def)
  moreover have "seg_owned P os R (sg', w') (Y \<union> B) = seg_live P s' (Y \<union> B)" using cp t(8) l(1) by (simp add: seg_owned_def fun_eq_iff s')
  ultimately show ?thesis using a(1,4,5) t(3) s' by (intro exI [of _ r] exI [of _ sg'] exI [of _ w'] exI [of _ "Y \<union> B"]) simp
qed

lemma local_alloc:
  assumes cp: "concurrency_policy P = THREAD_LOCAL" and o: "seg_owned P os R (sg, w) Y L" and ar: "arena_inv (arena w, w) H" and H: "Y \<subseteq> H"
    and sv: "seg_fit P sg sz"
  shows "\<exists>r sg' w'. Segment_allocate P os sz (sg, w) = Some (r, (sg', w')) \<and> moves S H Y Y w w' \<and> keeps_live L w w' \<and> seg_keeps P sg sg'
    \<and> (r = 0 \<longrightarrow> seg_owned P os R (sg', w') Y L)
    \<and> (r \<noteq> 0 \<longrightarrow> L r = None \<and> (\<exists>k \<ge> unat sz. seg_owned P os R (sg', w') Y (L(r \<mapsto> k))))"
proof -
  obtain Q xs K where t: "os_ok os" "settled P sg" "tl_live P os (sg, w) R Q xs K" "Y = R \<union> queue_space Q" "L = K |` (- set xs)" "seg_lock sg = 0"
    using o cp by (auto simp: seg_owned_local)
  obtain r s' X' where a: "Segment_allocate P os sz (sg, w) = Some (r, s')" "drains H R X' L (sg, w) s'"
    "r = 0 \<longrightarrow> tl_live P os s' X' Q [] L" "r \<noteq> 0 \<longrightarrow> L r = None \<and> (\<exists>k \<ge> unat sz. tl_live P os s' X' Q [] (L(r \<mapsto> k)))"
    by (rule tl_allocate [OF cp t(3) ar H [unfolded t(4)] sv t(5)])
  obtain sg' w' where s': "s' = (sg', w')" by (cases s')
  have d: "X' \<subseteq> R" "arena w' = arena w" "arena_inv (arena w', w') (H - (R - X'))" "keeps_live L w w'" "keeps_others (H - R) w w'"
    "same_segment sg sg'" "pointer_pages w' = pointer_pages w" "seg_lock sg' = seg_lock sg"
    using a(2) unfolding drains_def s' fst_conv snd_conv by blast+
  have sp: "same_pages sg sg'" by (rule Segment_allocate_settled [OF cp t(2) a(1) [unfolded s']])
  have "\<exists>K'. seg_live P (sg', w') X' K'" using a(3,4) by (auto simp: tl_live_def s')
  then obtain K' where "seg_live P (sg', w') X' K'" by blast
  moreover have "seg_live P (sg, w) R K" using t(3) by (simp add: tl_live_def)
  ultimately have X': "X' = R" using seg_live_same_pages d(1,6) sp by blast
  have HY: "H - Y \<union> Y = H" using H by blast
  have "keeps_others (H - Y) w w'" by (rule keeps_others_mono [OF d(5)]) (use t(4) in blast)
  moreover have "arena_inv (arena w', w') H" using d(3) X' by simp
  ultimately have "moves S H Y Y w w'" using d(2,7) unfolding moves_def untouched_def HY by auto
  moreover have "seg_keeps P sg sg'" using d(6) sp by (simp add: seg_keeps_def)
  moreover have "seg_owned P os R (sg', w') Y M" if "tl_live P os s' X' Q [] M" for M
  proof -
    have "M = M |` (- set [])" "seg_lock sg' = 0" using t(6) d(8) by (simp_all add: restrict_map_def)
    then show ?thesis using that t(1,2,4) settled_same [OF sp, of P] X' unfolding seg_owned_local [OF cp] s' by blast
  qed
  ultimately show ?thesis using a(1,3,4) d(4) s' by (intro exI [of _ r] exI [of _ sg'] exI [of _ w']) blast
qed

lemma seg_owned_alloc:
  assumes o: "seg_owned P os R (sg, w) Y L" and ar: "arena_inv (arena w, w) H" and H: "Y \<subseteq> H"
    and am: "arena_matches P sg (arena w)" and S: "unat S dvd unat (seg_logical_page_size sg)" and sv: "seg_answers P os sz (sg, w)"
  shows "\<exists>r sg' w' Y'. Segment_allocate P os sz (sg, w) = Some (r, (sg', w')) \<and> moves S H Y Y' w w' \<and> keeps_live L w w' \<and> seg_keeps P sg sg'
    \<and> (r = 0 \<longrightarrow> seg_owned P os R (sg', w') Y' L)
    \<and> (r \<noteq> 0 \<longrightarrow> L r = None \<and> (\<exists>k \<ge> unat sz. seg_owned P os R (sg', w') Y' (L(r \<mapsto> k))))"
proof (cases "concurrency_policy P = THREAD_LOCAL")
  case True
  then have "seg_fit P sg sz" using sv by (simp add: seg_answers_def tl_serves_def)
  from local_alloc [OF True o ar H this] show ?thesis by blast
next
  case False
  then show ?thesis using unbounded_alloc [OF False o ar H am S] sv by (simp add: seg_answers_def)
qed

lemma Segment_deallocate_queue:
  assumes cp: "concurrency_policy P \<noteq> THREAD_LOCAL" and d: "Segment_deallocate P os p (sg, w) = Some (sg', w')"
  shows "pointer_pages w' = pointer_pages w"
proof (cases "concurrency_policy P")
  case CENTRAL
  then show ?thesis using d deallocate_internal_queue
    by (fastforce simp: Segment_deallocate_def locked_def split: if_splits bind_splits)
next
  case SINGLE_THREAD
  then show ?thesis using d deallocate_internal_queue by (fastforce simp: Segment_deallocate_def split: if_splits)
qed (use cp in simp)

lemma seg_owned_dealloc:
  assumes o: "seg_owned P os R (sg, w) Y L" and ar: "arena_inv (arena w, w) H" and H: "Y \<subseteq> H" and k: "L p = Some k"
    and d: "Segment_deallocate P os p (sg, w) = Some (sg', w')"
  shows "\<exists>Y'. moves S H Y Y' w w' \<and> keeps_live (L(p := None)) w w' \<and> seg_keeps P sg sg' \<and> seg_owned P os R (sg', w') Y' (L(p := None))"
proof (cases "concurrency_policy P = THREAD_LOCAL")
  case cp: True
  obtain Q xs K where t: "os_ok os" "settled P sg" "tl_live P os (sg, w) R Q xs K" "Y = R \<union> queue_space Q" "L = K |` (- set xs)" "seg_lock sg = 0"
    using o cp by (auto simp: seg_owned_local)
  have K: "K p = Some k" "p \<notin> set xs" using k t(5) by (auto simp: restrict_map_def split: if_splits)
  obtain Q' q' where r: "arena_inv (arena w', w') (H \<union> queue_space (Q' - Q))" "tl_live P os (sg', w') R Q' (p # xs) K" "keeps_others H w w'"
    "Q \<subseteq> Q'" "queue_only Q' w w'" "fresh_pages w w' (Q' - Q)" "sg' = sg\<lparr>seg_deallocation_queue := q'\<rparr>"
    using tl_push [OF cp ar H [unfolded t(4)] t(3) K d] unfolding fst_conv snd_conv by metis
  let ?Y = "R \<union> queue_space Q'"
  note fs = fresh_pages_space [OF r(6)]
  have m: "\<And>x. x \<in> H \<Longrightarrow> is_mapped (vm w) x" using ar by (auto simp: arena_inv_def)
  note sp = queue_space_grown [OF r(4)]
  have "H - Y \<union> ?Y = H \<union> queue_space (Q' - Q)" using H sp t(4) by blast
  moreover have "?Y \<inter> (H - Y) = {}" using fs(1) m sp t(4) by blast
  moreover have "pointer_pages w' x = pointer_pages w x" if x: "unat x \<in> H - Y" for x
  proof -
    have "x \<notin> Q" using x queue_space_page t(4) by blast
    moreover have "x \<notin> Q' - Q" using x queue_space_page [of x "Q' - Q"] fs(1) m by blast
    ultimately show ?thesis using r(5) by (simp add: queue_only_def)
  qed
  moreover have "keeps_others (H - Y) w w'" by (rule keeps_others_mono [OF r(3)]) blast
  moreover have "arena w' = arena w" using r(5) by (simp add: queue_only_def)
  ultimately have mv: "moves S H Y ?Y w w'" using r(1) unfolding moves_def untouched_def by auto
  have ok: "tl_ok P os (sg, w) L" using tl_okI [OF t(1) cp _ H [unfolded t(4)] t(3,5)] ar by simp
  have "keeps_live L w w'" using tl_deallocate_ok(2) [OF ok k d] by simp
  then have kl: "keeps_live (L(p := None)) w w'" unfolding keeps_live_def by (metis fun_upd_apply option.distinct(1))
  have "L(p := None) = K |` (- set (p # xs))" by (auto simp: t(5) restrict_map_def fun_eq_iff)
  moreover have "settled P sg'" "seg_lock sg' = 0" using t(2,6) by (simp_all add: r(7) settled_def)
  ultimately have "seg_owned P os R (sg', w') ?Y (L(p := None))" using t(1) r(2) unfolding seg_owned_local [OF cp] by blast
  moreover have "seg_keeps P sg sg'" using r(7) by (simp add: seg_keeps_def same_segment_def)
  ultimately show ?thesis using mv kl by blast
next
  case cp: False
  have l: "os_ok os" "seg_lock sg = 0" "seg_live P (sg, w) Y L" using o cp by (auto simp: seg_owned_unbounded)
  obtain Y' where g: "seg_live P (sg', w') Y' (L(p := None))" "gives_up H Y Y' (L(p := None)) (sg, w) (sg', w')"
    using segment_deallocate_gives [OF cp l(2) ar H l(3) k] d by (metis option.inject)
  have t: "Y' \<subseteq> Y" "arena w' = arena w" "arena_inv (arena w', w') (H - (Y - Y'))" "keeps_live (L(p := None)) w w'"
    "keeps_others (H - Y) w w'" "same_segment sg sg'" "seg_lock sg' = 0"
    using g(2) l(2) unfolding gives_up_def fst_conv snd_conv by auto
  have "H - Y \<union> Y' = H - (Y - Y')" using H t(1) by blast
  then have "moves S H Y Y' w w'"
    using t Segment_deallocate_queue [OF cp d] unfolding moves_def untouched_def by auto
  moreover have "seg_owned P os R (sg', w') Y' (L(p := None))" using cp l(1) t(7) g(1) by (simp add: seg_owned_unbounded)
  moreover have "seg_keeps P sg sg'" using t(6) cp by (simp add: seg_keeps_def)
  ultimately show ?thesis using t(4) by blast
qed

lemma seg_owned_poke:
  assumes o: "seg_owned P os R (sg, w) Y L" and p: "L p = Some k" "unat x \<in> region p k"
  shows "seg_owned P os R (sg, world_poke x v w) Y L"
proof (cases "concurrency_policy P = THREAD_LOCAL")
  case cp: True
  obtain Q xs K where t: "os_ok os" "settled P sg" "tl_live P os (sg, w) R Q xs K" "Y = R \<union> queue_space Q" "L = K |` (- set xs)" "seg_lock sg = 0"
    using o cp by (auto simp: seg_owned_local)
  have K: "K p = Some k" using p(1) t(5) by (auto simp: restrict_map_def split: if_splits)
  have l: "seg_live P (sg, w) R K" "queue_in os (seg_deallocation_queue sg, w) Q xs" using t(3) by (auto simp: tl_live_def)
  have "queue_in os (seg_deallocation_queue sg, world_poke x v w) Q xs"
    by (rule queue_in_frame [OF l(2)]) (use l(2) in \<open>auto simp: queue_in_def dq_shape_def\<close>)
  then have "tl_live P os (sg, world_poke x v w) R Q xs K" using t(3) seg_live_poke [OF l(1) K p(2)] by (simp add: tl_live_def)
  then show ?thesis using t cp by (auto simp: seg_owned_local)
next
  case False
  then show ?thesis using o seg_live_poke [of P sg w Y L p k x v] p by (simp add: seg_owned_unbounded)
qed

subsection \<open>Creation\<close>

lemma seg_live_page_count:
  assumes lv: "seg_live P (sg, w) (params_extent buf params) L" and S: "seg_logical_page_size sg = p_logical_page_size params"
    and vp: "valid_params P params"
  shows "seg_logical_page_count sg = p_logical_page_count params"
proof -
  have "0 < unat (p_logical_page_size params)" using vp by (simp add: valid_params_def word_less_nat_alt)
  then show ?thesis using seg_live_card(2) [OF lv] S by (simp add: params_extent_def region_def unat_eq_iff_u64)
qed

lemma Segment_create_owned:
  assumes os: "os_ok os" and vp: "valid_params P params" and vb: "valid_buffer P buf params"
    and st: "concurrency_policy P = THREAD_LOCAL \<Longrightarrow> page_recycling_policy P \<noteq> IMMEDIATE \<or> p_logical_page_count params \<le> p_page_recycling_threshold params"
    and ar: "arena_inv (arena w, w) H" and X: "params_extent buf params \<subseteq> H"
    and c: "Segment_create P os buf params (Segment_new, w) = (True, (sg, w'))"
  shows "\<exists>Y. seg_owned P os (params_extent buf params) (sg, w') Y Map.empty \<and> moves S H (params_extent buf params) Y w w'
    \<and> params_extent buf params \<subseteq> Y" "seg_logical_page_size sg = p_logical_page_size params" "seg_size_class sg = p_size_class params"
    "concurrency_policy P = THREAD_LOCAL \<Longrightarrow> seg_logical_page_count sg = p_logical_page_count params
       \<and> seg_buffer_length sg = p_logical_page_size params * p_logical_page_count params"
proof -
  let ?X = "params_extent buf params"
  have "(\<exists>Y. seg_owned P os ?X (sg, w') Y Map.empty \<and> moves S H ?X Y w w' \<and> ?X \<subseteq> Y)
    \<and> seg_logical_page_size sg = p_logical_page_size params \<and> seg_size_class sg = p_size_class params
    \<and> (concurrency_policy P = THREAD_LOCAL \<longrightarrow> seg_logical_page_count sg = p_logical_page_count params
       \<and> seg_buffer_length sg = p_logical_page_size params * p_logical_page_count params)"
  proof (cases "concurrency_policy P = THREAD_LOCAL")
    case True
    obtain b where b: "tl_live P os (sg, w') ?X {b} [] Map.empty" "arena_inv (arena w', w') (H \<union> queue_space {b})"
      "queue_space {b} \<inter> H = {}" "arena w' = arena w" "keeps_others (H - ?X) w w'"
      "\<forall>r. unat r \<in> H \<longrightarrow> pointer_pages w' r = pointer_pages w r" "seg_logical_page_size sg = p_logical_page_size params"
      "seg_size_class sg = p_size_class params" "seg_page_recycling_threshold sg = p_page_recycling_threshold params" "seg_lock sg = 0"
      "seg_buffer_length sg = p_logical_page_size params * p_logical_page_count params"
      by (rule local_segment_built [OF os True vp vb ar X c])
    have n: "seg_logical_page_count sg = p_logical_page_count params"
      using seg_live_page_count [OF _ b(7) vp] b(1) by (auto simp: tl_live_def)
    have "settled P sg" using st [OF True] n b(9) by (simp add: settled_def)
    moreover have "Map.empty = Map.empty |` (- set [])" by simp
    ultimately have "seg_owned P os ?X (sg, w') (?X \<union> queue_space {b}) Map.empty" using os b(1,10) unfolding seg_owned_local [OF True] by blast
    moreover have "H - ?X \<union> (?X \<union> queue_space {b}) = H \<union> queue_space {b}" "(?X \<union> queue_space {b}) \<inter> (H - ?X) = {}" using X b(3) by blast+
    then have "moves S H ?X (?X \<union> queue_space {b}) w w'" using b(2,4-6) unfolding moves_def untouched_def by auto
    ultimately show ?thesis using b(7,8,11) n by blast
  next
    case False
    obtain sg1 w1 where k: "Segment_create P os buf params (Segment_new, w) = (True, (sg1, w1))" "seg_live P (sg1, w1) ?X Map.empty"
      "seg_lock sg1 = 0" "seg_logical_page_size sg1 = p_logical_page_size params" "seg_size_class sg1 = p_size_class params"
      "vm w1 = vm w" "arena w1 = arena w" "pointer_pages w1 = pointer_pages w" "\<forall>Y. Y \<inter> ?X = {} \<longrightarrow> keeps_others Y w w1"
      by (rule Segment_create_ok [OF False vp vb, of os w])
    have e: "sg1 = sg" "w1 = w'" using k(1) c by simp_all
    have "seg_owned P os ?X (sg, w') ?X Map.empty" using os k(2,3) False by (simp add: seg_owned_unbounded e)
    moreover have "H - ?X \<union> ?X = H" using X by blast
    then have "moves S H ?X ?X w w'" using ar k(6-9) e unfolding moves_def untouched_def by (auto simp: arena_inv_def)
    ultimately show ?thesis using k(4,5) e False by blast
  qed
  then show "\<exists>Y. seg_owned P os ?X (sg, w') Y Map.empty \<and> moves S H ?X Y w w' \<and> ?X \<subseteq> Y" "seg_logical_page_size sg = p_logical_page_size params"
    "seg_size_class sg = p_size_class params" "concurrency_policy P = THREAD_LOCAL \<Longrightarrow> seg_logical_page_count sg = p_logical_page_count params
       \<and> seg_buffer_length sg = p_logical_page_size params * p_logical_page_count params" by blast+
qed

end
