(* ===== verification/Heap_Contract.thy ===== *)
theory Heap_Contract
  imports Simple_Heap Segment_Tenant
begin

text \<open>
  A \<open>SimpleHeapPow2\<close> is a family of nine tenants (Tenancy): the segments of bins 0 to 7 and of the big bin, number 8.  They
  share the arena and the memory; each keeps its own invariant on its own addresses.  A freed pointer finds its segment: the
  big bin by ownership, a small one by the size class in the header of the page that masking the address gives.  So a heap
  is a tenant itself, for every concurrency policy, and a partial allocator for its user.
\<close>

subsection \<open>The segments of a heap\<close>

definition heap_segment :: "SimpleHeapPow2 \<Rightarrow> nat \<Rightarrow> Segment" where
  "heap_segment h i = (if i < 8 then sh_bins h ! i else sh_big_object_bin h)"

definition put_segment :: "nat \<Rightarrow> Segment \<Rightarrow> SimpleHeapPow2 \<Rightarrow> SimpleHeapPow2" where
  "put_segment i sg h = (if i < 8 then h\<lparr>sh_bins := (sh_bins h)[i := sg]\<rparr> else h\<lparr>sh_big_object_bin := sg\<rparr>)"

definition bin_policy :: "heap_policy \<Rightarrow> nat \<Rightarrow> segment_policy" where
  "bin_policy hp i = (if i < 8 then SegmentSmallObject hp else SegmentBigObject hp)"

definition in_segment :: "nat \<Rightarrow> (segment_state \<Rightarrow> ('a \<times> segment_state) option) \<Rightarrow> heap_state \<Rightarrow> ('a \<times> heap_state) option" where
  "in_segment i f = (if i < 8 then in_bin i f else in_big_bin f)"

lemma in_segment_eq:
  "in_segment i f (h, w) = (case f (heap_segment h i, w) of None \<Rightarrow> None | Some (r, (sg, w)) \<Rightarrow> Some (r, (put_segment i sg h, w)))"
  by (auto simp: in_segment_def in_bin_def in_big_bin_def heap_segment_def put_segment_def split: option.splits bind_splits)

lemma heap_segment_put [simp]:
  "length (sh_bins h) = 8 \<Longrightarrow> i \<le> 8 \<Longrightarrow> j \<le> 8 \<Longrightarrow> heap_segment (put_segment i sg h) j = (if j = i then sg else heap_segment h j)"
  by (auto simp: heap_segment_def put_segment_def)

lemma put_segment_fields [simp]:
  "length (sh_bins (put_segment i sg h)) = length (sh_bins h)"
  "sh_small_object_logical_page_size (put_segment i sg h) = sh_small_object_logical_page_size h"
  by (simp_all add: put_segment_def)

lemma put_segment_same: "length (sh_bins h) = 8 \<Longrightarrow> i \<le> 8 \<Longrightarrow> put_segment i (heap_segment h i) h = h"
  by (cases h) (auto simp: heap_segment_def put_segment_def)

lemma bin_policy_fields [simp]:
  "concurrency_policy (bin_policy hp i) = heap_concurrency hp" "arena_type (bin_policy hp i) = heap_arena hp"
  "buffer_aligned_to_logical_page_size (bin_policy hp i) \<longleftrightarrow> i < 8"
  "page_type (bin_policy hp i) = (if i < 8 then small_page_type hp else big_page_type hp)"
  by (simp_all add: bin_policy_def SegmentSmallObject_def SegmentBigObject_def)

subsection \<open>Size classes\<close>

definition bin_size :: "nat \<Rightarrow> u64" where
  "bin_size i = 16 * 2 ^ i"

lemma below_8: "(i :: nat) < 8 \<longleftrightarrow> i = 0 \<or> i = 1 \<or> i = 2 \<or> i = 3 \<or> i = 4 \<or> i = 5 \<or> i = 6 \<or> i = 7"
  by linarith

lemma unat_bin_size: "i < 8 \<Longrightarrow> unat (bin_size i) = 16 * 2 ^ i"
  unfolding below_8 by (elim disjE) (simp_all add: bin_size_def)

lemma bin_index_bin_size: "i < 8 \<Longrightarrow> bin_index (bin_size i) = i"
proof -
  assume i: "i < 8"
  have c: "compile_time_log2 16 = 4" by (simp add: compile_time_log2.simps word_le_nat_alt)
  have "log2_power_of_two (bin_size i) = of_nat (4 + i)" by (rule log2_power_of_two_eq) (use i in \<open>simp_all add: unat_bin_size power_add\<close>)
  then have "get_pow2_bin_index_from_size 16 7 (bin_size i) = (if (of_nat i :: u64) > 7 then 7 else of_nat i)"
    by (simp add: get_pow2_bin_index_from_size_def c)
  moreover have "unat (of_nat i :: u64) = i" using i by (intro unat_of_nat_nowrap) simp
  ultimately show "bin_index (bin_size i) = i"
    using i by (simp add: bin_index_def SMALL_OBJECT_MIN_SIZE_CLASS_def MAX_SMALL_OBJECT_BIN_INDEX_def SMALL_OBJECT_BIN_COUNT_def word_less_nat_alt)
qed

text \<open>A small request goes to the bin of the least power of two that holds it.\<close>

lemma adjust_size_ok:
  assumes "sz \<le> LARGEST_SMALL_OBJECT_SIZE_CLASS"
  obtains i where "i < 8" "adjust_size_for_small_object_bin sz = bin_size i" "unat sz \<le> 16 * 2 ^ i" "0 < i \<longrightarrow> 8 * 2 ^ i < unat sz"
proof -
  have largest: "LARGEST_SMALL_OBJECT_SIZE_CLASS = 2048"
    by (simp add: LARGEST_SMALL_OBJECT_SIZE_CLASS_def SMALL_OBJECT_BIN_COUNT_def compile_time_pow2_def)
  have sz: "unat sz \<le> 2048" using assms unfolding largest word_le_nat_alt by simp
  show ?thesis
  proof (cases "sz \<le> 1")
    case True
    then have "sz = 0 \<or> sz = 1" by (auto simp: word_le_nat_alt unat_eq_iff_u64)
    moreover have "adjust_size_for_small_object_bin 0 = bin_size 0" "adjust_size_for_small_object_bin 1 = bin_size 0"
      by (simp_all add: adjust_size_for_small_object_bin_def get_first_pow2_of_def SMALL_OBJECT_MIN_SIZE_CLASS_def bin_size_def)
    ultimately show ?thesis using that [of 0] by auto
  next
    case False
    then have x1: "unat (sz - 1) = unat sz - 1" by (intro unat_minus_one) auto
    have "sz - 1 \<noteq> 0" using False by auto
    then obtain k where k: "k < 64" "2 ^ k \<le> unat (sz - 1)" "unat (sz - 1) < 2 ^ Suc k" by (rule top_bit_exists)
    have "(2 :: nat) ^ k < 2 ^ 11" using k(2) x1 sz by simp
    then have k11: "k < 11" by (rule power_less_imp_less_exp [rotated]) simp
    have "1 < sz" using False by simp
    then have p: "get_first_pow2_of sz = 2 ^ Suc k" using get_first_pow2_of_eq [OF k(2,3)] k11 by simp
    have le: "unat sz \<le> 2 ^ Suc k" using k(3) x1 by simp
    have "k = 0 \<or> k = 1 \<or> k = 2 \<or> (\<exists>i < 8. k = i + 3)" using k11 by presburger
    then show ?thesis
    proof (elim disjE exE conjE)
      fix i assume i: "i < 8" "k = i + 3"
      then have b: "get_first_pow2_of sz = bin_size i" using p by (simp add: bin_size_def power_add)
      have "16 \<le> bin_size i" using unat_bin_size [OF i(1)] by (simp add: word_le_nat_alt)
      then have "adjust_size_for_small_object_bin sz = bin_size i"
        using b by (simp add: adjust_size_for_small_object_bin_def SMALL_OBJECT_MIN_SIZE_CLASS_def not_less [symmetric])
      moreover have "8 * 2 ^ i < unat sz" using k(2) i(2) x1 False by (simp add: power_add word_le_nat_alt)
      ultimately show ?thesis using that [OF i(1)] le i(2) by (simp add: power_add)
    qed (use that [of 0] p le in \<open>simp_all add: adjust_size_for_small_object_bin_def SMALL_OBJECT_MIN_SIZE_CLASS_def bin_size_def\<close>)
  qed
qed

text \<open>The segment and the size that a request is served with.\<close>

definition bin_of :: "u64 \<Rightarrow> nat" where
  "bin_of sz = (if sz \<le> LARGEST_SMALL_OBJECT_SIZE_CLASS then bin_index (adjust_size_for_small_object_bin sz) else 8)"

definition bin_request :: "u64 \<Rightarrow> u64" where
  "bin_request sz = (if sz \<le> LARGEST_SMALL_OBJECT_SIZE_CLASS then adjust_size_for_small_object_bin sz else sz)"

lemma bin_of_small:
  assumes "sz \<le> LARGEST_SMALL_OBJECT_SIZE_CLASS"
  shows "bin_of sz < 8" "bin_request sz = bin_size (bin_of sz)" "unat sz \<le> unat (bin_request sz)"
proof -
  obtain i where "i < 8" "adjust_size_for_small_object_bin sz = bin_size i" "unat sz \<le> 16 * 2 ^ i" by (rule adjust_size_ok [OF assms])
  then show "bin_of sz < 8" "bin_request sz = bin_size (bin_of sz)" "unat sz \<le> unat (bin_request sz)"
    using assms by (simp_all add: bin_of_def bin_request_def bin_index_bin_size unat_bin_size)
qed

lemma bin_of_le [simp]: "bin_of sz \<le> 8"
  using bin_of_small(1) [of sz] by (cases "sz \<le> LARGEST_SMALL_OBJECT_SIZE_CLASS") (auto simp: bin_of_def)

lemma bin_request_ge: "unat sz \<le> unat (bin_request sz)"
  using bin_of_small(3) [of sz] by (cases "sz \<le> LARGEST_SMALL_OBJECT_SIZE_CLASS") (auto simp: bin_request_def)

lemma SimpleHeapPow2_allocate_eq:
  "SimpleHeapPow2_allocate hp os sz = in_segment (bin_of sz) (Segment_allocate (bin_policy hp (bin_of sz)) os (bin_request sz))"
  using bin_of_small(1) [of sz]
  by (auto simp: fun_eq_iff SimpleHeapPow2_allocate_def in_segment_def bin_of_def bin_request_def bin_policy_def Let_def)

subsection \<open>The bins as tenants\<close>

text \<open>What never changes in the segment of bin \<open>i\<close>, where \<open>S\<close> is the size of the small pages.  The big bin of a thread
  local heap has one page.\<close>

definition bin_static :: "heap_policy \<Rightarrow> u64 \<Rightarrow> nat \<Rightarrow> Segment \<Rightarrow> bool" where
  "bin_static hp S i sg \<longleftrightarrow> unat S dvd unat (seg_logical_page_size sg)
     \<and> (i < 8 \<longrightarrow> seg_logical_page_size sg = S \<and> ucast (seg_size_class sg) = bin_size i)
     \<and> (i = 8 \<longrightarrow> heap_concurrency hp = THREAD_LOCAL \<longrightarrow> seg_logical_page_count sg = 1 \<and> seg_buffer_length sg = seg_logical_page_size sg)"

definition bin_owned :: "heap_policy \<Rightarrow> os \<Rightarrow> u64 \<Rightarrow> (nat \<Rightarrow> nat set) \<Rightarrow> nat \<Rightarrow> segment_state \<Rightarrow> nat set \<Rightarrow> (u64 \<rightharpoonup> nat) \<Rightarrow> bool" where
  "bin_owned hp os S R i = (\<lambda>(sg, w) Y L. seg_owned (bin_policy hp i) os (R i) (sg, w) Y L \<and> bin_static hp S i sg)"

lemma bin_static_keeps:
  assumes "bin_static hp S i sg" "seg_keeps (bin_policy hp i) sg sg'"
  shows "bin_static hp S i sg'"
proof -
  have "same_segment sg sg'" "heap_concurrency hp = THREAD_LOCAL \<longrightarrow> same_pages sg sg'" using assms(2) by (simp_all add: seg_keeps_def)
  then show ?thesis using assms(1) same_segment_fields(1,2,5) by (simp add: bin_static_def same_pages_def)
qed

lemma bin_static_matches: "bin_static hp S i sg \<Longrightarrow> arena_aligned S a \<Longrightarrow> arena_matches (bin_policy hp i) sg a"
  by (auto simp: bin_static_def arena_matches_def)

interpretation bins: tenants "bin_owned hp os S R" "\<lambda>i. Segment_allocate (bin_policy hp i) os"
  "\<lambda>i. Segment_deallocate (bin_policy hp i) os" "\<lambda>i. seg_answers (bin_policy hp i) os" S
  for hp os S R
proof (unfold_locales, goal_cases)
  case (1 i sg w Y L w')
  then show ?case using seg_owned_frame [of "bin_policy hp i" os "R i" sg w Y L w'] by (simp add: bin_owned_def)
next
  case (2 i sg w Y L p k)
  obtain X K where l: "seg_live (bin_policy hp i) (sg, w) X K" "X \<subseteq> Y" "K p = Some k"
    using 2 seg_owned_live [of "bin_policy hp i" os "R i" sg w Y L] unfolding bin_owned_def prod.case by metis
  note f = seg_live_facts(1-3) [OF l(1,3)]
  show ?case using f subset_trans [OF f(1) l(2)] by simp
next
  case (3 i sg w Y L p k q j)
  obtain X K where l: "seg_live (bin_policy hp i) (sg, w) X K" "K p = Some k" "K q = Some j"
    using 3(1-3) seg_owned_live [of "bin_policy hp i" os "R i" sg w Y L] unfolding bin_owned_def prod.case by metis
  show ?case by (rule seg_live_facts(4) [OF l 3(4)])
next
  case (4 i sg w Y L H sz)
  have o: "seg_owned (bin_policy hp i) os (R i) (sg, w) Y L" and b: "bin_static hp S i sg" using 4(1) by (simp_all add: bin_owned_def)
  have d: "unat S dvd unat (seg_logical_page_size sg)" using b by (simp add: bin_static_def)
  obtain r sg' w' Y' where a: "Segment_allocate (bin_policy hp i) os sz (sg, w) = Some (r, (sg', w'))" "moves S H Y Y' w w'" "keeps_live L w w'"
    "seg_keeps (bin_policy hp i) sg sg'" "r = 0 \<longrightarrow> seg_owned (bin_policy hp i) os (R i) (sg', w') Y' L"
    "r \<noteq> 0 \<longrightarrow> L r = None \<and> (\<exists>k \<ge> unat sz. seg_owned (bin_policy hp i) os (R i) (sg', w') Y' (L(r \<mapsto> k)))"
    using seg_owned_alloc [OF o 4(2,3) bin_static_matches [OF b 4(4)] d 4(5)] by blast
  have "bin_static hp S i sg'" by (rule bin_static_keeps [OF b a(4)])
  then show ?case using a by (intro exI [of _ r] exI [of _ sg'] exI [of _ w'] exI [of _ Y']) (simp add: bin_owned_def)
next
  case (5 i sg w Y L H p k sg' w')
  have o: "seg_owned (bin_policy hp i) os (R i) (sg, w) Y L" and b: "bin_static hp S i sg" using 5(1) by (simp_all add: bin_owned_def)
  from seg_owned_dealloc [OF o 5(2-5), of S] show ?case using bin_static_keeps [OF b] by (auto simp: bin_owned_def)
next
  case (6 i sg w Y L p k x v)
  then show ?case using seg_owned_poke [of "bin_policy hp i" os "R i" sg w Y L p k x v] by (simp add: bin_owned_def)
qed

subsection \<open>The heap as a tenant\<close>

text \<open>A thread local heap keeps its pages; they fill the buffer of \<open>HeapBase\<close>.\<close>

definition heap_owned :: "os \<Rightarrow> u64 \<Rightarrow> heap_policy \<Rightarrow> heap_state \<Rightarrow> nat set \<Rightarrow> (u64 \<rightharpoonup> nat) \<Rightarrow> bool" where
  "heap_owned os S hp = (\<lambda>(h, w) Y L. supports_any_size (big_page_type hp) \<and> length (sh_bins h) = 8
     \<and> sh_small_object_logical_page_size h = S
     \<and> (\<exists>R. bins.collective hp os S R {..8} (heap_segment h) w Y L
          \<and> (heap_concurrency hp = THREAD_LOCAL \<longrightarrow> (\<Union>i\<le>8. R i) = region (hb_buffer_address h) (unat (hb_buffer_length h))
                \<and> unat (hb_buffer_address h) + unat (hb_buffer_length h) < 2 ^ 64)))"

text \<open>The requests that are served: the arena has memory if an unbounded segment must grow.\<close>

definition heap_serves :: "heap_policy \<Rightarrow> os \<Rightarrow> u64 \<Rightarrow> heap_state \<Rightarrow> bool" where
  "heap_serves hp os sz = (\<lambda>(h, w). unat sz + 32 < 2 ^ 64 \<and>
     (heap_concurrency hp \<noteq> THREAD_LOCAL \<longrightarrow> bin_request sz \<le> seg_max_object_size (heap_segment h (bin_of sz)) \<longrightarrow>
        can_grow (bin_policy hp (bin_of sz)) os (bin_request sz) (heap_segment h (bin_of sz), w)))"

definition heap_poke :: "u64 \<Rightarrow> u8 \<Rightarrow> heap_state \<Rightarrow> heap_state" where
  "heap_poke x v = (\<lambda>(h, w). (h, world_poke x v w))"

lemma heap_ownedE:
  assumes "heap_owned os S hp (h, w) Y L"
  obtains R Ys Ls where "supports_any_size (big_page_type hp)" "length (sh_bins h) = 8" "sh_small_object_logical_page_size h = S"
    "bins.family hp os S R {..8} (heap_segment h) w Ys Ls" "Y = (\<Union>i\<le>8. Ys i)" "joined_over {..8} Ls L"
    "heap_concurrency hp = THREAD_LOCAL \<longrightarrow> (\<Union>i\<le>8. R i) = region (hb_buffer_address h) (unat (hb_buffer_length h))
       \<and> unat (hb_buffer_address h) + unat (hb_buffer_length h) < 2 ^ 64"
  using assms unfolding heap_owned_def prod.case bins.collective_def by blast

lemma bins_put:
  assumes "length (sh_bins h) = 8" "i \<le> 8"
  shows "bins.collective hp os S R {..8} ((heap_segment h)(i := sg)) w Y L = bins.collective hp os S R {..8} (heap_segment (put_segment i sg h)) w Y L"
  by (rule bins.collective_cong) (use assms in auto)

lemma put_segment_base [simp]:
  "hb_buffer_address (put_segment i sg h) = hb_buffer_address h" "hb_buffer_length (put_segment i sg h) = hb_buffer_length h"
  by (simp_all add: put_segment_def)

lemma bin_of_fits:
  assumes "bin_static hp S (bin_of sz) sg" "unat sz + 32 < 2 ^ 64" "supports_any_size (big_page_type hp)"
  shows "seg_fit (bin_policy hp (bin_of sz)) sg (bin_request sz)"
proof (cases "sz \<le> LARGEST_SMALL_OBJECT_SIZE_CLASS")
  case True
  note b = bin_of_small [OF True]
  have "unat (bin_request sz) + 32 < 2 ^ 64" "unat (bin_request sz) = unat (seg_size_class sg)"
    using b(1,2) unat_bin_size [OF b(1)] assms(1) unat_ucast_u32 [of "seg_size_class sg"] less_imp_le [OF b(1)]
      power_increasing [of "bin_of sz" 8 "2 :: nat"]
    by (auto simp: bin_static_def)
  then show ?thesis by (simp add: seg_fit_def)
next
  case False
  then show ?thesis using assms(2,3) by (auto simp: seg_fit_def bin_of_def bin_request_def)
qed

lemma heap_serves_bin:
  assumes "bin_static hp S (bin_of sz) (heap_segment h (bin_of sz))" "heap_serves hp os sz (h, w)" "supports_any_size (big_page_type hp)"
  shows "seg_answers (bin_policy hp (bin_of sz)) os (bin_request sz) (heap_segment h (bin_of sz), w)"
proof -
  have "seg_fit (bin_policy hp (bin_of sz)) (heap_segment h (bin_of sz)) (bin_request sz)"
    using bin_of_fits [OF assms(1) _ assms(3)] assms(2) by (simp add: heap_serves_def)
  then show ?thesis using assms(2) by (simp add: seg_answers_def tl_serves_def seg_serves_def heap_serves_def)
qed

lemma heap_owned_alloc:
  assumes o: "heap_owned os S hp (h, w) Y L" and ar: "arena_inv (arena w, w) H" and H: "Y \<subseteq> H" and al: "arena_aligned S (arena w)"
    and sv: "heap_serves hp os sz (h, w)"
  shows "\<exists>r h' w' Y'. SimpleHeapPow2_allocate hp os sz (h, w) = Some (r, h', w') \<and> moves S H Y Y' w w' \<and> keeps_live L w w'
    \<and> (r = 0 \<longrightarrow> heap_owned os S hp (h', w') Y' L)
    \<and> (r \<noteq> 0 \<longrightarrow> L r = None \<and> (\<exists>k \<ge> unat sz. heap_owned os S hp (h', w') Y' (L(r \<mapsto> k))))"
proof -
  obtain R Ys Ls where h: "supports_any_size (big_page_type hp)" "length (sh_bins h) = 8" "sh_small_object_logical_page_size h = S"
    "bins.family hp os S R {..8} (heap_segment h) w Ys Ls" "Y = (\<Union>i\<le>8. Ys i)" "joined_over {..8} Ls L"
    "heap_concurrency hp = THREAD_LOCAL \<longrightarrow> (\<Union>i\<le>8. R i) = region (hb_buffer_address h) (unat (hb_buffer_length h))
       \<and> unat (hb_buffer_address h) + unat (hb_buffer_length h) < 2 ^ 64"
    by (rule heap_ownedE [OF o])
  define i where "i = bin_of sz"
  have i: "i \<in> {..8}" "i \<le> 8" by (simp_all add: i_def)
  have "bin_static hp S i (heap_segment h i)" using h(4) i by (auto simp: bins.family_def bin_owned_def)
  then have sv': "seg_answers (bin_policy hp i) os (bin_request sz) (heap_segment h i, w)"
    using heap_serves_bin [OF _ sv h(1)] unfolding i_def by blast
  obtain r sg' w' Y' where a: "Segment_allocate (bin_policy hp i) os (bin_request sz) (heap_segment h i, w) = Some (r, sg', w')"
    "moves S H (\<Union>i\<le>8. Ys i) Y' w w'" "keeps_live L w w'"
    "r = 0 \<longrightarrow> bins.collective hp os S R {..8} ((heap_segment h)(i := sg')) w' Y' L"
    "r \<noteq> 0 \<longrightarrow> L r = None \<and> (\<exists>k \<ge> unat (bin_request sz). bins.collective hp os S R {..8} ((heap_segment h)(i := sg')) w' Y' (L(r \<mapsto> k)))"
    using bins.family_alloc [OF h(4,6) i(1) ar H [unfolded h(5)] al sv'] by blast
  have "SimpleHeapPow2_allocate hp os sz (h, w) = Some (r, put_segment i sg' h, w')"
    using a(1) by (simp add: SimpleHeapPow2_allocate_eq in_segment_eq i_def)
  moreover have "heap_owned os S hp (put_segment i sg' h, w') Y' M"
    if "bins.collective hp os S R {..8} ((heap_segment h)(i := sg')) w' Y' M" for M
    using that h(1-3,7) unfolding bins_put [OF h(2) i(2)] heap_owned_def prod.case put_segment_fields put_segment_base by blast
  moreover have "unat sz \<le> k" if "unat (bin_request sz) \<le> k" for k using that bin_request_ge [of sz] by linarith
  ultimately show ?thesis using a(2-5) unfolding h(5) [symmetric] by blast
qed


subsection \<open>Deallocation\<close>

text \<open>The big bin knows its own pointers: an unbounded segment searches its pages, a thread local one compares with its
  single page.\<close>

lemma single_page_extent:
  assumes lv: "seg_live P (sg, w) X K" and n: "seg_logical_page_count sg = 1"
  shows "unat x \<in> X \<longleftrightarrow> seg_head sg \<le> x \<and> x < seg_head sg + seg_logical_page_size sg"
proof -
  obtain ps A where s: "seg_inv P sg w ps A" "X = extents sg ps" using lv by (auto simp: seg_live_def)
  have "length ps = 1" "dlist (next_page w) (prev_page w) (seg_head sg) ps" using s(1) n by (auto simp: seg_inv_def seg_pages_def)
  then have ps: "ps = [seg_head sg]" by (cases ps) auto
  then have "page_ok P sg w (seg_head sg) (A (seg_head sg))" using s(1) by (simp add: seg_inv_def)
  then show ?thesis using in_extent_iff unfolding s(2) ps extents_def by (simp del: in_region_iff)
qed

lemma big_bin_owns:
  assumes o: "bin_owned hp os S R 8 (sg, w) Y L"
  obtains X where "\<And>p. Segment_owns_pointer (bin_policy hp 8) p (sg, w) = Some (unat p \<in> X, (sg, w))" "X \<subseteq> Y"
    "\<And>q k. L q = Some k \<Longrightarrow> unat q \<in> X"
proof -
  let ?P = "bin_policy hp 8"
  have so: "seg_owned ?P os (R 8) (sg, w) Y L" and b: "bin_static hp S 8 sg" using o by (simp_all add: bin_owned_def)
  show ?thesis
  proof (cases "heap_concurrency hp = THREAD_LOCAL")
    case True
    then have cp: "concurrency_policy ?P = THREAD_LOCAL" by simp
    obtain K where K: "seg_live ?P (sg, w) (R 8) K" "R 8 \<subseteq> Y" "\<And>q k. L q = Some k \<Longrightarrow> K q = Some k"
      using seg_owned_range [OF cp so] by metis
    have n: "seg_logical_page_count sg = 1" "seg_buffer_length sg = seg_logical_page_size sg" using b True by (simp_all add: bin_static_def)
    have l: "seg_lock sg = 0" using so by (simp add: seg_owned_def)
    have u: "owns_pointer_unlocked ?P p (sg\<lparr>seg_lock := 1\<rparr>, w) = Some (unat p \<in> R 8, (sg\<lparr>seg_lock := 1\<rparr>, w))" for p
      using cp single_page_extent [OF K(1) n(1)] n(2) by (simp add: owns_pointer_unlocked_def)
    have "Segment_owns_pointer ?P p (sg, w) = Some (unat p \<in> R 8, (sg, w))" for p
      using locked_returns [of sg "owns_pointer_unlocked ?P p" w, OF l u] lock_same [OF l] cp by (simp add: Segment_owns_pointer_def)
    moreover have "unat q \<in> R 8" if "L q = Some k" for q k
      using seg_live_facts(1,3) [OF K(1) K(3) [OF that]] by auto
    ultimately show ?thesis using that K(2) by blast
  next
    case False
    then have cp: "concurrency_policy ?P \<noteq> THREAD_LOCAL" by simp
    have l: "seg_lock sg = 0" "seg_live ?P (sg, w) Y L" using so cp by (auto simp: seg_owned_unbounded)
    have "unat q \<in> Y" if "L q = Some k" for q k using seg_live_facts(1,3) [OF l(2) that] by auto
    then show ?thesis using that [of Y] segment_owns [OF l(2) cp l(1)] by blast
  qed
qed

text \<open>Masking a live small object's address leads to a page of its bin, whose header has the size class.\<close>

lemma live_size_class:
  assumes o: "bin_owned hp os S R i (sg, w) Y L" and i: "i < 8" and p: "L p = Some k"
  shows "bin_index (ucast (get_size_class_from_address p S w)) = i"
proof -
  let ?P = "bin_policy hp i"
  have n: "seg_logical_page_size sg = S" "ucast (seg_size_class sg) = bin_size i" using o i by (auto simp: bin_owned_def bin_static_def)
  obtain X K where "seg_live ?P (sg, w) X K" "K p = Some k"
    using o p seg_owned_live [of ?P os "R i" sg w Y L] unfolding bin_owned_def prod.case by metis
  then obtain ps A where s: "seg_inv ?P sg w ps A" "live_in ps A K" "K p = Some k" by (auto simp: seg_live_def)
  obtain q where q: "q \<in> set ps" "A q p = Some k" using s(2,3) by (auto simp: live_in_def)
  note pi = seg_inv_pages [OF s(1) q(1)]
  have e: "unat p \<in> extent sg q" by (rule live_page(3) [OF s(1) q])
  have "get_logical_page_from_address p (seg_logical_page_size sg) = q"
    using pi(1,2) e i by (intro mask_page) (auto simp: page_ok_def page_aligned_def seg_static_def)
  moreover have "m_size_class (pages w q) = seg_size_class sg" using pi(1) by (simp add: page_ok_def)
  ultimately show ?thesis
    using n bin_index_bin_size [OF i] by (simp add: get_size_class_from_address_def get_size_class_def)
qed

text \<open>A live pointer is freed in the segment that holds it.\<close>

lemma SimpleHeapPow2_deallocate_eq:
  assumes f: "bins.family hp os S R {..8} (heap_segment h) w Ys Ls" and S: "sh_small_object_logical_page_size h = S"
    and i: "i \<le> 8" and p: "Ls i p = Some k"
  shows "SimpleHeapPow2_deallocate hp os p (h, w) =
    map_option (\<lambda>(sg, w'). (put_segment i sg h, w')) (Segment_deallocate (bin_policy hp i) os p (heap_segment h i, w))"
proof -
  have own: "bin_owned hp os S R j (heap_segment h j, w) (Ys j) (Ls j)" if "j \<le> 8" for j using f that by (simp add: bins.family_def)
  obtain X where X: "\<And>p. Segment_owns_pointer (bin_policy hp 8) p (heap_segment h 8, w) = Some (unat p \<in> X, (heap_segment h 8, w))"
    "X \<subseteq> Ys 8" "\<And>q k. Ls 8 q = Some k \<Longrightarrow> unat q \<in> X"
    using big_bin_owns [OF own [OF order_refl]] by metis
  have h': "h\<lparr>sh_big_object_bin := sh_big_object_bin h\<rparr> = h" by (cases h) simp
  have ob: "Segment_owns_pointer (SegmentBigObject hp) p (sh_big_object_bin h, w) = Some (unat p \<in> X, (sh_big_object_bin h, w))"
    using X(1) by (simp add: bin_policy_def heap_segment_def)
  have ip: "i \<in> {..8}" using i by simp
  have o: "unat p \<in> X \<longleftrightarrow> i = 8"
    using X(2,3) p bins.family_owner(4) [OF f ip p, of 8] by auto
  show ?thesis
  proof (cases "i = 8")
    case True
    then show ?thesis using ob h' o
      by (auto simp: SimpleHeapPow2_deallocate_def in_big_bin_def bin_policy_def heap_segment_def put_segment_def returning_unit_def
          split: bind_splits option.splits)
  next
    case False
    then have i8: "i < 8" using i by simp
    have c: "bin_index (ucast (get_size_class_from_address p S w)) = i" by (rule live_size_class [OF own [OF i] i8 p])
    show ?thesis using ob h' o False i8 c S
      by (auto simp: SimpleHeapPow2_deallocate_def in_big_bin_def in_bin_def bin_policy_def heap_segment_def put_segment_def returning_unit_def
          split: bind_splits option.splits)
  qed
qed

lemma heap_owned_dealloc:
  assumes o: "heap_owned os S hp (h, w) Y L" and ar: "arena_inv (arena w, w) H" and H: "Y \<subseteq> H" and k: "L p = Some k"
    and d: "SimpleHeapPow2_deallocate hp os p (h, w) = Some (h', w')"
  shows "\<exists>Y'. moves S H Y Y' w w' \<and> keeps_live (L(p := None)) w w' \<and> heap_owned os S hp (h', w') Y' (L(p := None))"
proof -
  obtain R Ys Ls where h: "supports_any_size (big_page_type hp)" "length (sh_bins h) = 8" "sh_small_object_logical_page_size h = S"
    "bins.family hp os S R {..8} (heap_segment h) w Ys Ls" "Y = (\<Union>i\<le>8. Ys i)" "joined_over {..8} Ls L"
    "heap_concurrency hp = THREAD_LOCAL \<longrightarrow> (\<Union>i\<le>8. R i) = region (hb_buffer_address h) (unat (hb_buffer_length h))
       \<and> unat (hb_buffer_address h) + unat (hb_buffer_length h) < 2 ^ 64"
    by (rule heap_ownedE [OF o])
  obtain i where i: "i \<in> {..8}" "Ls i p = Some k" using k h(6) by (auto simp: joined_over_def)
  then have i8: "i \<le> 8" by simp
  obtain sg' where sg': "Segment_deallocate (bin_policy hp i) os p (heap_segment h i, w) = Some (sg', w')" "h' = put_segment i sg' h"
    using d unfolding SimpleHeapPow2_deallocate_eq [OF h(4,3) i8 i(2)] by auto
  obtain Y' where y: "moves S H (\<Union>i\<le>8. Ys i) Y' w w'" "keeps_live (L(p := None)) w w'"
    "bins.collective hp os S R {..8} ((heap_segment h)(i := sg')) w' Y' (L(p := None))"
    using bins.family_dealloc [OF h(4,6) i ar H [unfolded h(5)] sg'(1)] by blast
  have "heap_owned os S hp (h', w') Y' (L(p := None))"
    using y(3) h(1-3,7) unfolding bins_put [OF h(2) i8] heap_owned_def prod.case put_segment_fields put_segment_base sg'(2) by blast
  then show ?thesis using y(1,2) unfolding h(5) [symmetric] by blast
qed

lemma heap_dealloc_returns:
  assumes o: "heap_owned os S hp (h, w) Y L" and ar: "arena_inv (arena w, w) H" and H: "Y \<subseteq> H" and k: "L p = Some k"
    and cp: "heap_concurrency hp \<noteq> THREAD_LOCAL"
  shows "\<exists>s'. SimpleHeapPow2_deallocate hp os p (h, w) = Some s'"
proof -
  obtain R Ys Ls where h: "supports_any_size (big_page_type hp)" "length (sh_bins h) = 8" "sh_small_object_logical_page_size h = S"
    "bins.family hp os S R {..8} (heap_segment h) w Ys Ls" "Y = (\<Union>i\<le>8. Ys i)" "joined_over {..8} Ls L" by (rule heap_ownedE [OF o])
  obtain i where i: "i \<le> 8" "Ls i p = Some k" using k h(6) by (auto simp: joined_over_def)
  have c: "concurrency_policy (bin_policy hp i) \<noteq> THREAD_LOCAL" using cp by simp
  have l: "seg_lock (heap_segment h i) = 0" "seg_live (bin_policy hp i) (heap_segment h i, w) (Ys i) (Ls i)" "Ys i \<subseteq> H"
    using h(4,5) i(1) H c by (auto simp: bins.family_def bin_owned_def seg_owned_unbounded)
  obtain s' where "Segment_deallocate (bin_policy hp i) os p (heap_segment h i, w) = Some s'"
    by (rule segment_deallocate_gives [OF c l(1) ar l(3,2) i(2)])
  then show ?thesis unfolding SimpleHeapPow2_deallocate_eq [OF h(4,3) i] by auto
qed

interpretation heaps: tenants "heap_owned os S" "\<lambda>hp. SimpleHeapPow2_allocate hp os" "\<lambda>hp. SimpleHeapPow2_deallocate hp os"
  "\<lambda>hp. heap_serves hp os" S
  for os S
proof (unfold_locales, goal_cases)
  case (1 hp h w Y L w')
  obtain R Ys Ls where h: "supports_any_size (big_page_type hp)" "length (sh_bins h) = 8" "sh_small_object_logical_page_size h = S"
    "bins.family hp os S R {..8} (heap_segment h) w Ys Ls" "Y = (\<Union>i\<le>8. Ys i)" "joined_over {..8} Ls L"
    "heap_concurrency hp = THREAD_LOCAL \<longrightarrow> (\<Union>i\<le>8. R i) = region (hb_buffer_address h) (unat (hb_buffer_length h))
       \<and> unat (hb_buffer_address h) + unat (hb_buffer_length h) < 2 ^ 64"
    by (rule heap_ownedE [OF 1(1)])
  have "bins.family hp os S R {..8} (heap_segment h) w' Ys Ls"
    by (rule bins.family_frame [OF h(4)]) (use 1(2,3) h(5) in auto)
  then show ?case using h unfolding heap_owned_def prod.case bins.collective_def by blast
next
  case (2 hp h w Y L p k)
  then obtain R where "bins.collective hp os S R {..8} (heap_segment h) w Y L" by (auto simp: heap_owned_def)
  from bins.collective_live [OF this 2(2)] show ?case .
next
  case (3 hp h w Y L p k q j)
  then obtain R where "bins.collective hp os S R {..8} (heap_segment h) w Y L" by (auto simp: heap_owned_def)
  from bins.collective_disjoint [OF this 3(2-4)] show ?case .
next
  case (4 hp h w Y L H sz)
  then show ?case by (rule heap_owned_alloc)
next
  case (5 hp h w Y L H p k h' w')
  then show ?case by (rule heap_owned_dealloc)
next
  case (6 hp h w Y L p k x v)
  then obtain R where r: "bins.collective hp os S R {..8} (heap_segment h) w Y L"
    "heap_concurrency hp = THREAD_LOCAL \<longrightarrow> (\<Union>i\<le>8. R i) = region (hb_buffer_address h) (unat (hb_buffer_length h))
       \<and> unat (hb_buffer_address h) + unat (hb_buffer_length h) < 2 ^ 64" unfolding heap_owned_def prod.case by blast
  from bins.collective_poke [OF r(1) 6(2,3), of v] show ?case using 6(1) r(2) unfolding heap_owned_def prod.case by blast
qed

lemma heap_poke_tenant: "heap_poke = heaps.tenant_poke"
  by (simp add: heap_poke_def heaps.tenant_poke_def fun_eq_iff)

text \<open>A heap with the arena from which it has its memory, and its live payloads.\<close>

definition heap_ok :: "heap_policy \<Rightarrow> os \<Rightarrow> u64 \<Rightarrow> heap_state \<Rightarrow> (u64 \<rightharpoonup> nat) \<Rightarrow> bool" where
  "heap_ok hp os S = heaps.rented os S hp"

lemmas heap_okI = heaps.moved_in [folded heap_ok_def]
lemmas heap_okE = heaps.rentedE [folded heap_ok_def]

interpretation heap: partial_allocator "heap_ok hp os S" "SimpleHeapPow2_allocate hp os" "SimpleHeapPow2_deallocate hp os"
  "heap_serves hp os" heap_poke "\<lambda>s. ram (snd s)" "\<lambda>s. {x. is_mapped (vm (snd s)) x}"
  for hp os S
  unfolding heap_ok_def heap_poke_tenant by (rule heaps.tenant.partial_allocator_axioms)

lemma heap_deallocate_returns:
  "heap_concurrency hp \<noteq> THREAD_LOCAL \<Longrightarrow> heap_ok hp os S s L \<Longrightarrow> L p = Some k \<Longrightarrow> \<exists>s'. SimpleHeapPow2_deallocate hp os p s = Some s'"
  using heap_dealloc_returns by (cases s) (metis heap_okE)

end
