(* ===== verification/Heap_Creation.thy ===== *)
theory Heap_Creation
  imports Heap_Contract
begin

text \<open>
  \<open>SimpleHeapPow2::create\<close> establishes the invariant of Heap_Contract: the buffer that the arena hands out is
  cut into consecutive parts, one for each of the eight bins and one for the big bin; the segments of a thread local heap
  have queues as well, in memory that was not mapped before.  \<open>MinimalHeap\<close> is its one segment, so its contract follows
  from the segment's.
\<close>

subsection \<open>The parameters\<close>

definition total_size :: "u64 list \<Rightarrow> u64 \<Rightarrow> nat" where
  "total_size counts S = sum_list (map unat counts) * unat S"

lemma total_size_simps [simp]: "total_size [] S = 0" "total_size (c # cs) S = unat c * unat S + total_size cs S"
  by (simp_all add: total_size_def algebra_simps)

definition heap_params_ok :: "heap_policy \<Rightarrow> HeapCreationParams \<Rightarrow> bool" where
  "heap_params_ok hp params \<longleftrightarrow>
     (let S = hp_small_object_logical_page_size params; big = hp_big_object_logical_page_size params;
          counts = hp_small_object_bin_page_counts params
      in is_power_of_two S \<and> 4096 dvd unat S \<and> (supports_any_size (small_page_type hp) \<longrightarrow> S - 64 \<le> MAX_BLOCK_SIZE)
         \<and> length counts = 8 \<and> (\<forall>c\<in>set counts. 0 < c)
         \<and> 0 < big \<and> unat S dvd unat big \<and> big - 64 \<le> MAX_BLOCK_SIZE
         \<and> total_size counts S + unat big + unat S < 2 ^ 64)"

lemma fold_required_size:
  assumes "unat r + total_size counts S < 2 ^ 64"
  shows "unat (fold (\<lambda>c ret. ret + c * S) counts r) = unat r + total_size counts S"
  using assms
proof (induction counts arbitrary: r)
  case (Cons c cs)
  have "unat (r + c * S) = unat r + unat c * unat S" using Cons.prems by (simp add: nowrap)
  then show ?case using Cons by simp
qed simp

lemma required_buffer_size:
  assumes "length (hp_small_object_bin_page_counts params) = 8"
    and "total_size (hp_small_object_bin_page_counts params) S + unat (hp_big_object_logical_page_size params) < 2 ^ 64"
  shows "unat (calculate_required_buffer_size params S)
    = total_size (hp_small_object_bin_page_counts params) S + unat (hp_big_object_logical_page_size params)"
  using assms fold_required_size [of 0 "hp_small_object_bin_page_counts params" S]
  by (simp add: calculate_required_buffer_size_def SMALL_OBJECT_BIN_COUNT_def unat_add_nowrap)

lemma bin_size_Suc: "push_bit 1 (bin_size i) = bin_size (Suc i)"
  by (simp add: bin_size_def push_bit_eq_mult)

lemma bin_size_ucast: "i < 8 \<Longrightarrow> unat (ucast (bin_size i) :: u32) = 16 * 2 ^ i"
  unfolding below_8 by (elim disjE) (simp_all add: bin_size_def)

lemma bin_size_ucast_back: "i < 8 \<Longrightarrow> ucast (ucast (bin_size i) :: u32) = bin_size i"
  by (simp add: unat_eq_iff_u64 bin_size_ucast unat_bin_size)

lemma small_params_valid:
  assumes "heap_params_ok hp params" "i < 8" "0 < c"
  shows "valid_params (bin_policy hp i) (small_segment_params params (bin_size i) c)"
proof -
  let ?S = "hp_small_object_logical_page_size params"
  have S: "is_power_of_two ?S" "4096 dvd unat ?S" "supports_any_size (small_page_type hp) \<longrightarrow> ?S - 64 \<le> MAX_BLOCK_SIZE"
    using assms(1) by (simp_all add: heap_params_ok_def Let_def)
  then have "?S \<noteq> 0" by (auto simp: is_power_of_two_def)
  then have "0 < unat ?S" by (simp add: unat_gt_0)
  moreover then have "4096 \<le> unat ?S" using S(2) by (auto dest: dvd_imp_le)
  moreover have "(2 :: nat) ^ i \<le> 128" using assms(2) power_increasing [of i 7 "2 :: nat"] by simp
  ultimately have "0 < unat ?S" "16 * 2 ^ i \<le> unat ?S - 64" by linarith+
  then show ?thesis
    using assms(2,3) S by (simp add: valid_params_def small_segment_params_def bin_size_ucast word_less_nat_alt)
qed

lemma big_params_valid:
  assumes "heap_params_ok hp params" "supports_any_size (big_page_type hp)"
  shows "valid_params (bin_policy hp 8) (big_segment_params params)"
  using assms by (auto simp: heap_params_ok_def Let_def valid_params_def big_segment_params_def intro: dvd_trans)

text \<open>A thread local heap that does not recycle pages.\<close>

definition keeps_pages :: "heap_policy \<Rightarrow> HeapCreationParams \<Rightarrow> bool" where
  "keeps_pages hp params \<longleftrightarrow> heap_recycling hp \<noteq> IMMEDIATE
     \<or> (\<forall>c\<in>set (hp_small_object_bin_page_counts params). c \<le> hp_small_object_page_recycling_threshold params)
       \<and> 1 \<le> hp_big_object_page_recycling_threshold params"

lemma bin_policy_recycling [simp]: "page_recycling_policy (bin_policy hp i) = heap_recycling hp"
  by (simp add: bin_policy_def SegmentSmallObject_def SegmentBigObject_def)

subsection \<open>The loop over the bins\<close>

text \<open>The bins below \<open>i\<close> are built in the first \<open>n\<close> of the \<open>N\<close> bytes of the buffer; the others are as constructed.\<close>

definition building ::
  "heap_policy \<Rightarrow> os \<Rightarrow> u64 \<Rightarrow> nat set \<Rightarrow> nat set \<Rightarrow> world \<Rightarrow> nat \<Rightarrow> nat \<Rightarrow> nat \<Rightarrow> heap_state \<Rightarrow> (nat \<Rightarrow> nat set) \<Rightarrow> (nat \<Rightarrow> nat set) \<Rightarrow> bool" where
  "building hp os S H B w0 N i n = (\<lambda>(h, w) R Ys. length (sh_bins h) = 8 \<and> sh_small_object_logical_page_size h = S
     \<and> bins.family hp os S R {..<i} (heap_segment h) w Ys (\<lambda>_. Map.empty)
     \<and> (\<forall>j. i \<le> j \<longrightarrow> j \<le> 8 \<longrightarrow> heap_segment h j = Segment_new)
     \<and> moves S H B ((\<Union>j<i. Ys j) \<union> {unat (hb_buffer_address h) + n ..< unat (hb_buffer_address h) + N}) w0 w
     \<and> (\<Union>j<i. Ys j) \<inter> {unat (hb_buffer_address h) + n ..< unat (hb_buffer_address h) + N} = {}
     \<and> (\<Union>j<i. R j) = {unat (hb_buffer_address h) ..< unat (hb_buffer_address h) + n})"

lemma family_extend:
  assumes f: "bins.family hp os S R {..<i} st w Ys (\<lambda>_. Map.empty)" and o: "bin_owned hp os S R' i (sg, w) Y Map.empty"
    and R: "\<And>j. j < i \<Longrightarrow> R' j = R j" and st: "\<And>j. j < i \<Longrightarrow> st' j = st j" "st' i = sg" and d: "Y \<inter> (\<Union>j<i. Ys j) = {}"
  shows "bins.family hp os S R' {..<Suc i} st' w (Ys(i := Y)) (\<lambda>_. Map.empty)"
  unfolding bins.family_def
proof (intro conjI ballI impI)
  fix j assume "j \<in> {..<Suc i}"
  then consider "j < i" | "j = i" by fastforce
  then show "bin_owned hp os S R' j (st' j, w) ((Ys(i := Y)) j) Map.empty"
  proof cases
    case 1
    then have "bin_owned hp os S R j (st j, w) (Ys j) Map.empty" using f by (simp add: bins.family_def)
    then show ?thesis using 1 R st(1) by (simp add: bin_owned_def)
  qed (use o st(2) in simp)
next
  fix j k assume jk: "j \<in> {..<Suc i}" "k \<in> {..<Suc i}" "j \<noteq> k"
  have y: "Y \<inter> Ys l = {}" "Ys l \<inter> Y = {}" if "l < i" for l using d that by blast+
  consider "j < i" "k < i" | "j = i" "k < i" | "j < i" "k = i" using jk by fastforce
  then show "(Ys(i := Y)) j \<inter> (Ys(i := Y)) k = {}"
  proof cases
    case 1
    then show ?thesis using f jk(3) by (simp add: bins.family_def)
  qed (use y in simp_all)
qed

lemma building_step:
  assumes b: "building hp os S H B w0 N i n (h, w) R Ys" and i: "i \<le> 8" and nm: "n \<le> m" "m \<le> N"
    and E: "E = {unat (hb_buffer_address h) + n ..< unat (hb_buffer_address h) + m}"
    and new: "bin_owned hp os S (R(i := E)) i (sg, w') Y Map.empty"
    and mv: "moves S (H - B \<union> ((\<Union>j<i. Ys j) \<union> {unat (hb_buffer_address h) + n ..< unat (hb_buffer_address h) + N})) E Y w w'"
  shows "building hp os S H B w0 N (Suc i) m (put_segment i sg h, w') (R(i := E)) (Ys(i := Y))"
proof -
  let ?a = "unat (hb_buffer_address h)"
  define A D where "A = (\<Union>j<i. Ys j)" and "D = {?a + m ..< ?a + N}"
  have split: "{?a + n ..< ?a + N} = E \<union> D" using nm by (auto simp: E D_def)
  have ed: "E \<inter> D = {}" by (simp add: E D_def)
  have h: "length (sh_bins h) = 8" "sh_small_object_logical_page_size h = S" "bins.family hp os S R {..<i} (heap_segment h) w Ys (\<lambda>_. Map.empty)"
    "moves S H B (A \<union> E \<union> D) w0 w" "A \<inter> (E \<union> D) = {}" "(\<Union>j<i. R j) = {?a ..< ?a + n}"
    "\<forall>j. i \<le> j \<longrightarrow> j \<le> 8 \<longrightarrow> heap_segment h j = Segment_new"
    using b unfolding building_def prod.case A_def [symmetric] split Un_assoc by blast+
  have m: "moves S (H - B \<union> (A \<union> E \<union> D)) E Y w w'" using mv unfolding A_def [symmetric] split Un_assoc .
  have e: "E \<inter> (A \<union> D) = {}" using h(5) ed by blast
  note p = moves_part [OF h(4) m e]
  have fam: "bins.family hp os S R {..<i} (heap_segment h) w' Ys (\<lambda>_. Map.empty)"
  proof (rule bins.family_frame [OF h(3)])
    show "untouched (\<Union>j<i. Ys j) w w'" unfolding A_def [symmetric] by (rule untouched_mono [OF p(3)]) simp
    show "is_mapped (vm w') x" if "x \<in> (\<Union>j<i. Ys j)" for x using p(4) that unfolding A_def by blast
  qed
  have Y: "Y \<inter> (\<Union>j<i. Ys j) = {}" using p(2) unfolding A_def by blast
  have fam': "bins.family hp os S (R(i := E)) {..<Suc i} (heap_segment (put_segment i sg h)) w' (Ys(i := Y)) (\<lambda>_. Map.empty)"
    by (rule family_extend [OF fam new _ _ _ Y]) (use i h(1) in simp_all)
  have u: "(\<Union>j<Suc i. (Ys(i := Y)) j) = A \<union> Y" by (auto simp: A_def lessThan_Suc)
  have "(\<Union>j<Suc i. (R(i := E)) j) = (\<Union>j<i. R j) \<union> E" by (auto simp: lessThan_Suc)
  also have "\<dots> = {?a ..< ?a + m}" unfolding h(6) E using nm(1) by (simp add: ivl_disj_un)
  finally have r: "(\<Union>j<Suc i. (R(i := E)) j) = {?a ..< ?a + m}" .
  have new': "\<forall>j. Suc i \<le> j \<longrightarrow> j \<le> 8 \<longrightarrow> heap_segment (put_segment i sg h) j = Segment_new" using h(1,7) i by simp
  have "(A \<union> Y) \<inter> D = {}" using h(5) p(2) by blast
  then show ?thesis unfolding building_def prod.case put_segment_fields put_segment_base u r D_def [symmetric]
    using h(1,2) fam' new' p(1) by blast
qed

text \<open>Part \<open>n\<close> to \<open>m\<close> of the buffer becomes the segment of bin \<open>i\<close>.\<close>

lemma building_segment:
  assumes b: "building hp os S H B w0 N i n (h, w) R Ys" and i: "i \<le> 8" and os: "os_ok os" and nz: "hb_buffer_address h \<noteq> 0"
    and al: "unat S dvd unat (hb_buffer_address h)" "unat S dvd n" "4096 dvd unat S" and nw: "unat (hb_buffer_address h) + N < 2 ^ 64"
    and vp: "valid_params (bin_policy hp i) params" and S: "i < 8 \<longrightarrow> p_logical_page_size params = S" "unat S dvd unat (p_logical_page_size params)"
    and m: "m = n + unat (p_logical_page_count params) * unat (p_logical_page_size params)" "m \<le> N"
    and cls: "i < 8 \<longrightarrow> ucast (p_size_class params) = bin_size i" and big: "i = 8 \<longrightarrow> p_logical_page_count params = 1"
    and keep: "heap_concurrency hp = THREAD_LOCAL \<Longrightarrow> heap_recycling hp \<noteq> IMMEDIATE \<or> p_logical_page_count params \<le> p_page_recycling_threshold params"
    and c: "Segment_create (bin_policy hp i) os (hb_buffer_address h + of_nat n) params (Segment_new, w) = (ok, (sg, w'))"
  shows "heap_concurrency hp \<noteq> THREAD_LOCAL \<Longrightarrow> ok"
    "ok \<Longrightarrow> \<exists>R' Ys'. building hp os S H B w0 N (Suc i) m (put_segment i sg h, w') R' Ys'"
proof -
  let ?P = "bin_policy hp i" and ?a = "unat (hb_buffer_address h)" and ?buf = "hb_buffer_address h + of_nat n"
  have n: "n < 2 ^ 64" "?a + n < 2 ^ 64" using nw m by linarith+
  have buf: "unat ?buf = ?a + n" using n by (simp add: nowrap)
  have ex: "params_extent ?buf params = {?a + n ..< ?a + m}" by (simp add: params_extent_def region_def buf m add.assoc)
  have "?buf \<noteq> 0" using buf nz by (auto simp: unat_eq_iff_u64)
  moreover have "unat S dvd unat ?buf" using buf al by simp
  moreover then have "4096 dvd unat ?buf" by (rule dvd_trans [OF al(3)])
  moreover have "?a + n + unat (p_logical_page_count params) * unat (p_logical_page_size params) < 2 ^ 64" using nw m by linarith
  ultimately have vb: "valid_buffer ?P ?buf params" using S(1) unfolding valid_buffer_def buf bin_policy_fields by simp
  show "ok" if "heap_concurrency hp \<noteq> THREAD_LOCAL"
  proof -
    have "concurrency_policy ?P \<noteq> THREAD_LOCAL" using that by simp
    then obtain sg' v where "Segment_create ?P os ?buf params (Segment_new, w) = (True, (sg', v))" by (rule Segment_create_ok [OF _ vp vb])
    then show ?thesis using c by simp
  qed
  assume ok
  let ?Z = "(\<Union>j<i. Ys j) \<union> {?a + n ..< ?a + N}"
  have ar: "arena_inv (arena w, w) (H - B \<union> ?Z)" using b by (simp add: building_def moves_def)
  have X: "params_extent ?buf params \<subseteq> H - B \<union> ?Z" unfolding ex using m(2) by auto
  have keep': "concurrency_policy ?P = THREAD_LOCAL \<Longrightarrow> page_recycling_policy ?P \<noteq> IMMEDIATE \<or> p_logical_page_count params \<le> p_page_recycling_threshold params"
    using keep by simp
  have c': "Segment_create ?P os ?buf params (Segment_new, w) = (True, (sg, w'))" using c \<open>ok\<close> by simp
  note cr = Segment_create_owned [OF os vp vb keep' ar X c']
  obtain Y where Y: "seg_owned ?P os (params_extent ?buf params) (sg, w') Y Map.empty" "moves S (H - B \<union> ?Z) (params_extent ?buf params) Y w w'"
    using cr(1) by blast
  have "bin_static hp S i sg" using cr(2-4) S cls big by (auto simp: bin_static_def)
  then have "bin_owned hp os S (R(i := params_extent ?buf params)) i (sg, w') Y Map.empty" using Y(1) by (simp add: bin_owned_def)
  from building_step [OF b i _ m(2) ex this Y(2)] show "\<exists>R' Ys'. building hp os S H B w0 N (Suc i) m (put_segment i sg h, w') R' Ys'"
    unfolding m(1) using le_add1 by blast
qed

definition same_buffer :: "SimpleHeapPow2 \<Rightarrow> SimpleHeapPow2 \<Rightarrow> bool" where
  "same_buffer h h' \<longleftrightarrow> hb_buffer_address h' = hb_buffer_address h \<and> hb_buffer_length h' = hb_buffer_length h"

lemma small_bin_built:
  assumes pr: "heap_params_ok hp params" "os_ok os" "heap_concurrency hp = THREAD_LOCAL \<Longrightarrow> keeps_pages hp params" and i: "i < 8"
    and c: "c \<in> set (hp_small_object_bin_page_counts params)"
    and b: "building hp os (hp_small_object_logical_page_size params) H B w0 N i n (h, w) R Ys"
    and base: "hb_buffer_address h \<noteq> 0" "unat (hp_small_object_logical_page_size params) dvd unat (hb_buffer_address h)"
      "unat (hp_small_object_logical_page_size params) dvd n" "unat (hb_buffer_address h) + N < 2 ^ 64"
    and m: "m = n + unat c * unat (hp_small_object_logical_page_size params)" "m \<le> N"
    and cr: "Segment_create (bin_policy hp i) os (hb_buffer_address h + of_nat n) (small_segment_params params (bin_size i) c) (Segment_new, w)
      = (ok, (sg, w'))"
  shows "heap_concurrency hp \<noteq> THREAD_LOCAL \<Longrightarrow> ok"
    "ok \<Longrightarrow> \<exists>R' Ys'. building hp os (hp_small_object_logical_page_size params) H B w0 N (Suc i) m (put_segment i sg h, w') R' Ys'"
proof -
  let ?S = "hp_small_object_logical_page_size params" and ?p = "small_segment_params params (bin_size i) c"
  have "0 < c" and S: "4096 dvd unat ?S" using pr(1) c by (auto simp: heap_params_ok_def Let_def)
  then have vp: "valid_params (bin_policy hp i) ?p" using small_params_valid [OF pr(1) i] by simp
  have f: "i < 8 \<longrightarrow> p_logical_page_size ?p = ?S" "unat ?S dvd unat (p_logical_page_size ?p)"
    "m = n + unat (p_logical_page_count ?p) * unat (p_logical_page_size ?p)" "i < 8 \<longrightarrow> ucast (p_size_class ?p) = bin_size i"
    "i = 8 \<longrightarrow> p_logical_page_count ?p = 1"
    using m(1) i bin_size_ucast_back [OF i] by (simp_all add: small_segment_params_def)
  have k: "heap_recycling hp \<noteq> IMMEDIATE \<or> p_logical_page_count ?p \<le> p_page_recycling_threshold ?p" if "heap_concurrency hp = THREAD_LOCAL"
    using pr(3) [OF that] c by (auto simp: keeps_pages_def small_segment_params_def)
  note bs = building_segment [OF b less_imp_le [OF i] pr(2) base(1-3) S base(4) vp f(1-3) m(2) f(4,5) k cr]
  show "heap_concurrency hp \<noteq> THREAD_LOCAL \<Longrightarrow> ok" by (rule bs(1))
  show "ok \<Longrightarrow> \<exists>R' Ys'. building hp os ?S H B w0 N (Suc i) m (put_segment i sg h, w') R' Ys'" by (rule bs(2))
qed

lemma create_bins_ok:
  assumes pr: "heap_params_ok hp params" "os_ok os" "heap_concurrency hp = THREAD_LOCAL \<Longrightarrow> keeps_pages hp params"
    and "i + length counts = 8" "set counts \<subseteq> set (hp_small_object_bin_page_counts params)"
    and "building hp os (hp_small_object_logical_page_size params) H B w0 N i n (h, w) R Ys"
    and "hb_buffer_address h \<noteq> 0" "unat (hp_small_object_logical_page_size params) dvd unat (hb_buffer_address h)"
      "unat (hp_small_object_logical_page_size params) dvd n" "unat (hb_buffer_address h) + N < 2 ^ 64"
    and "n + total_size counts (hp_small_object_logical_page_size params) \<le> N"
    and "create_bins hp os params counts i (of_nat n) (bin_size i) (h, w) = (ok, n', (h', w'))"
  shows "(heap_concurrency hp \<noteq> THREAD_LOCAL \<longrightarrow> ok)
    \<and> (ok \<longrightarrow> n' = of_nat (n + total_size counts (hp_small_object_logical_page_size params)) \<and> same_buffer h h'
       \<and> (\<exists>R' Ys'. building hp os (hp_small_object_logical_page_size params) H B w0 N 8
            (n + total_size counts (hp_small_object_logical_page_size params)) (h', w') R' Ys'))"
  using assms(4-12)
proof (induction counts arbitrary: i n h w R Ys)
  case Nil
  then show ?case by (auto simp: same_buffer_def)
next
  case (Cons c cs)
  let ?S = "hp_small_object_logical_page_size params"
  define m where "m = n + unat c * unat ?S"
  have i: "i < 8" "Suc i + length cs = 8" "c \<in> set (hp_small_object_bin_page_counts params)" using Cons.prems(1,2) by auto
  have tot: "n + total_size (c # cs) ?S = m + total_size cs ?S" by (simp add: m_def)
  have mN: "m \<le> N" "m + total_size cs ?S \<le> N" using Cons.prems(8) by (simp_all add: m_def)
  have bi: "heap_segment h i = Segment_new" "sh_small_object_logical_page_size h = ?S" using Cons.prems(3) i(1) by (simp_all add: building_def)
  obtain ok1 sg w1 where c: "Segment_create (bin_policy hp i) os (hb_buffer_address h + of_nat n) (small_segment_params params (bin_size i) c)
      (Segment_new, w) = (ok1, (sg, w1))" by (metis surj_pair)
  note b = small_bin_built [OF pr i(1,3) Cons.prems(3-7) m_def mN(1) c]
  have off: "of_nat n + c * ?S = (of_nat m :: u64)" by (simp add: m_def)
  have eq: "create_bins hp os params (c # cs) i (of_nat n) (bin_size i) (h, w) =
      (if \<not> ok1 then (False, of_nat n, (put_segment i sg h, w1))
       else create_bins hp os params cs (Suc i) (of_nat m) (bin_size (Suc i)) (put_segment i sg h, w1))"
    using c i(1) bi by (simp add: bin_policy_def heap_segment_def put_segment_def off bin_size_Suc [symmetric])
  show ?case
  proof (cases ok1)
    case True
    then obtain R' Ys' where b': "building hp os ?S H B w0 N (Suc i) m (put_segment i sg h, w1) R' Ys'" using b(2) by blast
    have dm: "unat ?S dvd m" using Cons.prems(6) by (simp add: m_def)
    have cb: "create_bins hp os params cs (Suc i) (of_nat m) (bin_size (Suc i)) (put_segment i sg h, w1) = (ok, n', (h', w'))"
      using Cons.prems(9) True unfolding eq by simp
    have sub: "set cs \<subseteq> set (hp_small_object_bin_page_counts params)" using Cons.prems(2) by simp
    from Cons.IH [OF i(2) sub b', unfolded put_segment_base, OF Cons.prems(4,5) dm Cons.prems(7) mN(2) cb]
    show ?thesis unfolding tot by (simp add: same_buffer_def)
  next
    case False
    then show ?thesis using Cons.prems(9) b(1) unfolding eq by auto
  qed
qed

subsection \<open>Creating a heap\<close>

definition heap_start :: "heap_policy \<Rightarrow> os \<Rightarrow> HeapCreationParams \<Rightarrow> nat set \<Rightarrow> world \<Rightarrow> bool" where
  "heap_start hp os params H w \<longleftrightarrow> os_ok os \<and> (heap_concurrency hp = THREAD_LOCAL \<longrightarrow> keeps_pages hp params) \<and> supports_any_size (big_page_type hp)
     \<and> heap_params_ok hp params \<and> arena_inv (arena w, w) H
     \<and> arena_aligned (hp_small_object_logical_page_size params) (arena w)"

text \<open>The guards of \<open>create\<close> accept such parameters; what is left is the work.\<close>

lemma create_guards:
  assumes "heap_start hp os params H w"
  shows "SimpleHeapPow2_create hp os params (h, w) = do {
     let h = h\<lparr>sh_small_object_logical_page_size := hp_small_object_logical_page_size params,
               sh_big_object_logical_page_size := hp_big_object_logical_page_size params,
               hb_buffer_length := calculate_required_buffer_size params (hp_small_object_logical_page_size params)\<rparr>;
     (buffer, w) \<leftarrow> arena_allocate (SegmentSmallObject hp) os (hb_buffer_length h) w;
     let (success, buffer_index, (h, w)) = create_bins hp os params (hp_small_object_bin_page_counts params) 0 0 (bin_size 0)
           (h\<lparr>hb_buffer_address := buffer\<rparr>, w);
     if \<not> success then Some (False, (h, w))
     else let (success, (sg, w)) = Segment_create (bin_policy hp 8) os (hb_buffer_address h + buffer_index)
                 (big_segment_params params) (sh_big_object_bin h, w)
          in Some (success, (h\<lparr>sh_big_object_bin := sg\<rparr>, w)) }"
proof -
  let ?S = "hp_small_object_logical_page_size params" and ?b = "hp_big_object_logical_page_size params"
  have p: "is_power_of_two ?S" "4096 dvd unat ?S" "length (hp_small_object_bin_page_counts params) = 8" "?b \<noteq> 0"
    "unat ?S dvd unat ?b" "page_alignment (arena w) = ?S"
    using assms by (auto simp: heap_start_def heap_params_ok_def Let_def page_alignment_def arena_aligned_def)
  have S0: "?S \<noteq> 0" using p(1) by (auto simp: is_power_of_two_def)
  then have "0 < unat ?S" by (simp add: unat_gt_0)
  then have "\<not> ?S < PAGE_ALLOCATION_GRANULARITY" using p(2) by (auto simp: PAGE_ALLOCATION_GRANULARITY_def word_less_nat_alt dest: dvd_imp_le)
  moreover have "modulo ?b ?S = 0"
    using p(5) by (simp add: modulo_def minus_div_mult_eq_mod unat_eq_iff_u64 unat_mod dvd_eq_mod_eq_0)
  moreover have "4096 dvd unat ?b" using p(2,5) by (rule dvd_trans)
  ultimately show ?thesis using p S0
    by (simp add: granularity_multiple_iff SMALL_OBJECT_BIN_COUNT_def bin_size_def SMALL_OBJECT_MIN_SIZE_CLASS_def bin_policy_def
        Let_def cong: if_cong)
      (auto intro!: Option.bind_cong split: prod.splits)
qed

text \<open>Without memory the first bin refuses the null buffer.\<close>

lemma create_bins_null:
  assumes "hb_buffer_address h = 0"
  shows "\<exists>s. create_bins hp os params (c # cs) i 0 z (h, w) = (False, 0, s)"
  using assms by (simp add: Segment_create_def)

lemma buffer_moves:
  assumes os: "os_ok os" and ar: "arena_inv (arena w, w) H" and al: "arena_aligned S (arena w)" and d: "unat S dvd unat n" "4096 dvd unat S"
    and n: "unat n + unat S < 2 ^ 64" and a: "arena_allocate P os n w = Some (b, w')" "b \<noteq> 0"
  shows "moves S H {} (region b (unat n)) w w'" "unat S dvd unat b" "unat b + unat n < 2 ^ 64"
proof -
  have fit: "arena_fit n (arena w, w)" using al n dvd_trans [OF d(2,1)] by (simp add: arena_fit_def arena_aligned_def)
  note aa = arena_allocate_ok [OF os ar fit a] and ag = arena_allocate_aligned [OF os ar fit a al d(1)]
  have "untouched H w w'" using aa(5-7) by (simp add: untouched_def keeps_others_def)
  then show "moves S H {} (region b (unat n)) w w'" using aa(1,2) ag(2) unfolding moves_def Diff_empty by blast
  show "unat S dvd unat b" "unat b + unat n < 2 ^ 64" using ag(1) aa(3) .
qed

lemma building_start:
  assumes "moves S H {} (region b N) w w'" "length (sh_bins h) = 8" "\<And>j. heap_segment h j = Segment_new"
    "sh_small_object_logical_page_size h = S" "hb_buffer_address h = b"
  shows "building hp os S H {} w N 0 0 (h, w') (\<lambda>_. {}) (\<lambda>_. {})"
  using assms by (simp add: building_def bins.family_def region_def)

text \<open>The big bin completes the heap.\<close>

lemma building_done:
  assumes b: "building hp os S H B w0 N 9 N (h, w) R Ys" and big: "supports_any_size (big_page_type hp)"
    and N: "unat (hb_buffer_length h) = N" "unat (hb_buffer_address h) + N < 2 ^ 64"
  shows "\<exists>Y. moves S H B Y w0 w \<and> heap_owned os S hp (h, w) Y Map.empty"
proof -
  have i9: "{..<9} = {..8 :: nat}" by auto
  have u: "{unat (hb_buffer_address h) + N ..< unat (hb_buffer_address h) + N} = {}" by simp
  have f: "length (sh_bins h) = 8" "sh_small_object_logical_page_size h = S" "bins.family hp os S R {..8} (heap_segment h) w Ys (\<lambda>_. Map.empty)"
    "moves S H B (\<Union>j\<le>8. Ys j) w0 w" "(\<Union>j\<le>8. R j) = region (hb_buffer_address h) (unat (hb_buffer_length h))"
    using b unfolding building_def prod.case i9 u Un_empty_right N(1) region_def by blast+
  have "joined_over {..8} (\<lambda>_. Map.empty) Map.empty" by (simp add: joined_over_def)
  then have "bins.collective hp os S R {..8} (heap_segment h) w (\<Union>j\<le>8. Ys j) Map.empty" using f(3) unfolding bins.collective_def by blast
  then have "heap_owned os S hp (h, w) (\<Union>j\<le>8. Ys j) Map.empty"
    using big f(1,2,5) N unfolding heap_owned_def prod.case by blast
  then show ?thesis using f(4) by blast
qed

lemma big_bin_built:
  assumes pr: "heap_params_ok hp params" "os_ok os" "heap_concurrency hp = THREAD_LOCAL \<Longrightarrow> keeps_pages hp params" "supports_any_size (big_page_type hp)"
    and N: "N = total_size (hp_small_object_bin_page_counts params) (hp_small_object_logical_page_size params) + unat (hp_big_object_logical_page_size params)"
    and b: "building hp os (hp_small_object_logical_page_size params) H B w0 N 8
      (total_size (hp_small_object_bin_page_counts params) (hp_small_object_logical_page_size params)) (h, w) R Ys"
    and base: "hb_buffer_address h \<noteq> 0" "unat (hp_small_object_logical_page_size params) dvd unat (hb_buffer_address h)"
      "unat (hb_buffer_address h) + N < 2 ^ 64" "unat (hb_buffer_length h) = N"
    and cr: "Segment_create (bin_policy hp 8) os (hb_buffer_address h + of_nat (total_size (hp_small_object_bin_page_counts params)
        (hp_small_object_logical_page_size params))) (big_segment_params params) (sh_big_object_bin h, w) = (ok, (sg, w'))"
  shows "heap_concurrency hp \<noteq> THREAD_LOCAL \<Longrightarrow> ok"
    "ok \<Longrightarrow> \<exists>Y. moves (hp_small_object_logical_page_size params) H B Y w0 w'
       \<and> heap_owned os (hp_small_object_logical_page_size params) hp (put_segment 8 sg h, w') Y Map.empty"
proof -
  let ?S = "hp_small_object_logical_page_size params" and ?p = "big_segment_params params"
  define n where "n = total_size (hp_small_object_bin_page_counts params) ?S"
  have S: "4096 dvd unat ?S" "unat ?S dvd unat (hp_big_object_logical_page_size params)" "unat ?S dvd n"
    using pr(1) by (simp_all add: heap_params_ok_def Let_def n_def total_size_def)
  have "heap_segment h 8 = Segment_new" using b by (simp add: building_def)
  then have cr': "Segment_create (bin_policy hp 8) os (hb_buffer_address h + of_nat n) ?p (Segment_new, w) = (ok, (sg, w'))"
    using cr by (simp add: heap_segment_def n_def)
  have keep: "heap_recycling hp \<noteq> IMMEDIATE \<or> p_logical_page_count ?p \<le> p_page_recycling_threshold ?p" if "heap_concurrency hp = THREAD_LOCAL"
    using pr(3) [OF that] by (auto simp: keeps_pages_def big_segment_params_def)
  note bs = building_segment [OF b [folded n_def] order_refl pr(2) base(1,2) S(3,1) base(3) big_params_valid [OF pr(1,4)] _ _ _ _ _ _ keep cr', of N]
  show "heap_concurrency hp \<noteq> THREAD_LOCAL \<Longrightarrow> ok" using bs(1) S(2) by (simp add: big_segment_params_def N n_def)
  assume ok
  then obtain R' Ys' where "building hp os ?S H B w0 N 9 N (put_segment 8 sg h, w') R' Ys'"
    using bs(2) S(2) by (auto simp: big_segment_params_def N n_def)
  from building_done [OF this pr(4)] show "\<exists>Y. moves ?S H B Y w0 w' \<and> heap_owned os ?S hp (put_segment 8 sg h, w') Y Map.empty"
    unfolding put_segment_base using base(3,4) by blast
qed

lemma heap_create_owned:
  assumes st: "heap_start hp os params H w"
    and a: "arena_allocate (SegmentSmallObject hp) os (calculate_required_buffer_size params (hp_small_object_logical_page_size params)) w
      = Some (buffer, w1)"
  shows "\<exists>ok h' w'. SimpleHeapPow2_create hp os params (SimpleHeapPow2_new, w) = Some (ok, (h', w'))
    \<and> (buffer \<noteq> 0 \<longrightarrow> heap_concurrency hp \<noteq> THREAD_LOCAL \<longrightarrow> ok)
    \<and> (ok \<longrightarrow> (\<exists>Y. moves (hp_small_object_logical_page_size params) H {} Y w w'
         \<and> heap_owned os (hp_small_object_logical_page_size params) hp (h', w') Y Map.empty))"
proof -
  let ?S = "hp_small_object_logical_page_size params" and ?b = "hp_big_object_logical_page_size params"
  let ?counts = "hp_small_object_bin_page_counts params" and ?bp = "big_segment_params params"
  define h where "h = SimpleHeapPow2_new\<lparr>sh_small_object_logical_page_size := ?S, sh_big_object_logical_page_size := ?b,
    hb_buffer_length := calculate_required_buffer_size params ?S, hb_buffer_address := buffer\<rparr>"
  have s: "os_ok os" "heap_concurrency hp = THREAD_LOCAL \<Longrightarrow> keeps_pages hp params" "supports_any_size (big_page_type hp)" "heap_params_ok hp params"
    "arena_inv (arena w, w) H" "arena_aligned ?S (arena w)" using st by (auto simp: heap_start_def)
  have p: "4096 dvd unat ?S" "length ?counts = 8" "unat ?S dvd unat ?b" "total_size ?counts ?S + unat ?b + unat ?S < 2 ^ 64"
    using s(4) by (simp_all add: heap_params_ok_def Let_def)
  obtain ok1 n' h2 w2 where cb: "create_bins hp os params ?counts 0 0 (bin_size 0) (h, w1) = (ok1, n', (h2, w2))" by (metis surj_pair)
  obtain ok2 sg w3 where sc: "Segment_create (bin_policy hp 8) os (hb_buffer_address h2 + n') ?bp (sh_big_object_bin h2, w2) = (ok2, (sg, w3))"
    by (metis surj_pair)
  have eq: "SimpleHeapPow2_create hp os params (SimpleHeapPow2_new, w) =
    Some (if \<not> ok1 then (False, (h2, w2)) else (ok2, (put_segment 8 sg h2, w3)))"
    unfolding create_guards [OF st] using a cb sc by (simp add: h_def put_segment_def)
  show ?thesis
  proof (cases "buffer = 0")
    case True
    then have "hb_buffer_address h = 0" by (simp add: h_def)
    moreover obtain c cs where "?counts = c # cs" using p(2) by (cases ?counts) auto
    ultimately have "\<not> ok1" using create_bins_null cb by (metis Pair_inject)
    then show ?thesis using True unfolding eq by auto
  next
    case False
    define N where "N = total_size ?counts ?S + unat ?b"
    have size: "unat (calculate_required_buffer_size params ?S) = N" using p(2,4) by (simp add: required_buffer_size N_def)
    have dN: "unat ?S dvd unat (calculate_required_buffer_size params ?S)" "unat ?S dvd total_size ?counts ?S" "N + unat ?S < 2 ^ 64"
      using p(3,4) by (simp_all add: size N_def total_size_def)
    note bm = buffer_moves [OF s(1,5,6) dN(1) p(1) _ a False, unfolded size, OF dN(3)]
    have hf: "hb_buffer_address h = buffer" "unat (hb_buffer_length h) = N" "length (sh_bins h) = 8" "heap_segment h j = Segment_new"
      "sh_small_object_logical_page_size h = ?S" for j
      by (simp_all add: h_def size SimpleHeapPow2_new_def SMALL_OBJECT_BIN_COUNT_def heap_segment_def)
    note b0 = building_start [OF bm(1) hf(3,4,5,1), of hp os]
    have cb0: "create_bins hp os params ?counts 0 (of_nat 0) (bin_size 0) (h, w1) = (ok1, n', (h2, w2))" using cb by simp
    have bins: "(heap_concurrency hp \<noteq> THREAD_LOCAL \<longrightarrow> ok1) \<and> (ok1 \<longrightarrow> n' = of_nat (0 + total_size ?counts ?S) \<and> same_buffer h h2
       \<and> (\<exists>R Ys. building hp os ?S H {} w N 8 (0 + total_size ?counts ?S) (h2, w2) R Ys))"
      by (rule create_bins_ok [OF s(4,1,2) _ _ b0 _ _ _ _ _ cb0]) (use p(2) bm(2,3) hf(1) False in \<open>simp_all add: N_def\<close>)
    show ?thesis
    proof (cases ok1)
      case False
      then show ?thesis using bins unfolding eq by auto
    next
      case True
      then obtain R Ys where b: "n' = of_nat (total_size ?counts ?S)" "same_buffer h h2"
        "building hp os ?S H {} w N 8 (total_size ?counts ?S) (h2, w2) R Ys" using bins by auto
      have h2: "hb_buffer_address h2 = buffer" "unat (hb_buffer_length h2) = N" using b(2) hf(1,2) by (simp_all add: same_buffer_def)
      have base: "hb_buffer_address h2 \<noteq> 0" "unat ?S dvd unat (hb_buffer_address h2)" "unat (hb_buffer_address h2) + N < 2 ^ 64"
        using False bm(2,3) h2(1) by simp_all
      have k: "heap_concurrency hp = THREAD_LOCAL \<Longrightarrow> keeps_pages hp params" by (rule s(2))
      note bs = big_bin_built [OF s(4,1) k s(3) N_def b(3) base h2(2) sc [unfolded b(1)]]
      show ?thesis using True bs unfolding eq by auto
    qed
  qed
qed

lemma heap_created_owned:
  assumes st: "heap_start hp os params H w" and c: "SimpleHeapPow2_create hp os params (SimpleHeapPow2_new, w) = Some (True, (h', w'))"
  shows "\<exists>Y. moves (hp_small_object_logical_page_size params) H {} Y w w'
         \<and> heap_owned os (hp_small_object_logical_page_size params) hp (h', w') Y Map.empty"
proof -
  have "\<exists>x. arena_allocate (SegmentSmallObject hp) os (calculate_required_buffer_size params (hp_small_object_logical_page_size params)) w = Some x"
    using c unfolding create_guards [OF st] by (auto split: bind_splits)
  then obtain buffer w1 where "arena_allocate (SegmentSmallObject hp) os
      (calculate_required_buffer_size params (hp_small_object_logical_page_size params)) w = Some (buffer, w1)" by auto
  from heap_create_owned [OF st this] c show ?thesis by auto
qed

subsection \<open>\<open>MinimalHeap\<close>\<close>

definition minimal_ok :: "ConcurrencyPolicy \<Rightarrow> os \<Rightarrow> MinimalHeap \<times> world \<Rightarrow> (u64 \<rightharpoonup> nat) \<Rightarrow> bool" where
  "minimal_ok cp os = (\<lambda>(h, w). seg_ok (minimal_policy cp) os (mh_segment h, w))"

definition minimal_serves :: "ConcurrencyPolicy \<Rightarrow> os \<Rightarrow> u64 \<Rightarrow> MinimalHeap \<times> world \<Rightarrow> bool" where
  "minimal_serves cp os sz = (\<lambda>(h, w). seg_serves (minimal_policy cp) os sz (mh_segment h, w))"

definition minimal_poke :: "u64 \<Rightarrow> u8 \<Rightarrow> MinimalHeap \<times> world \<Rightarrow> MinimalHeap \<times> world" where
  "minimal_poke x v = (\<lambda>(h, w). (h, world_poke x v w))"

lemma minimal_allocate_segment:
  assumes "MinimalHeap_allocate cp os sz (h, w) = Some (p, h', w')"
  shows "Segment_allocate (minimal_policy cp) os sz (mh_segment h, w) = Some (p, (mh_segment h', w'))"
  using assms by (auto split: bind_splits)

lemma minimal_deallocate_segment:
  assumes "MinimalHeap_deallocate cp os p (h, w) = Some (h', w')"
  shows "Segment_deallocate (minimal_policy cp) os p (mh_segment h, w) = Some (mh_segment h', w')"
  using assms by (auto split: bind_splits)

interpretation minimal: allocator_contract "minimal_ok cp os" "MinimalHeap_allocate cp os" "MinimalHeap_deallocate cp os"
  "minimal_serves cp os" minimal_poke "\<lambda>s. ram (snd s)" "\<lambda>s. {x. is_mapped (vm (snd s)) x}"
  for cp os
proof (unfold_locales, goal_cases)
  case (1 s A)
  then show ?case using seg.live_nonnull by (cases s) (auto simp: minimal_ok_def)
next
  case (2 s A p k)
  then show ?case using seg.live_inside by (cases s) (fastforce simp: minimal_ok_def)
next
  case (3 s A p k q j)
  then show ?case using seg.live_disjoint by (cases s) (simp add: minimal_ok_def)
next
  case (4 s A sz)
  then show ?case using seg.alloc_total [of "minimal_policy cp" os] by (cases s) (fastforce simp: minimal_ok_def minimal_serves_def)
next
  case (5 s A sz s')
  then show ?case using seg.alloc_null minimal_allocate_segment by (cases s; cases s') (force simp: minimal_ok_def minimal_serves_def)
next
  case (6 s A sz p s')
  then show ?case using seg.alloc_new [of "minimal_policy cp" os] minimal_allocate_segment
    by (cases s; cases s') (simp add: minimal_ok_def minimal_serves_def del: MinimalHeap_allocate.simps)
next
  case (7 s A sz p s' q k x)
  then show ?case using seg.alloc_keeps [of "minimal_policy cp" os] minimal_allocate_segment
    by (cases s; cases s') (fastforce simp: minimal_ok_def minimal_serves_def simp del: MinimalHeap_allocate.simps in_region_iff)
next
  case (8 s A p k s')
  then show ?case using seg.dealloc_inv [of "minimal_policy cp" os] minimal_deallocate_segment
    by (cases s; cases s') (simp add: minimal_ok_def del: MinimalHeap_deallocate.simps)
next
  case (9 s A p j s' q k x)
  then show ?case using seg.dealloc_keeps [of "minimal_policy cp" os] minimal_deallocate_segment
    by (cases s; cases s') (fastforce simp: minimal_ok_def simp del: MinimalHeap_deallocate.simps in_region_iff)
next
  case (10 s A p k x v)
  then show ?case using seg.poke_live [of "minimal_policy cp" os] by (cases s) (fastforce simp: minimal_ok_def minimal_poke_def seg_poke_def)
next
  case (11 x v s)
  then show ?case by (cases s) (simp add: minimal_poke_def)
next
  case (12 s A p k)
  then show ?case using seg.dealloc_total [of "minimal_policy cp" os] by (cases s) (fastforce simp: minimal_ok_def)
qed

end
