(* ===== verification/Heap_Properties.thy ===== *)
theory Heap_Properties
  imports Heap_Creation Segment_Properties
begin

text \<open>
  The properties of \<open>SimpleHeapPow2\<close> and \<open>MinimalHeap\<close>, with a concrete heap on the bump operating system for the
  witnesses.
\<close>

subsection \<open>A concrete heap\<close>

definition example_heap_policy :: heap_policy where
  "example_heap_policy = \<lparr>heap_concurrency = SINGLE_THREAD, heap_arena = example_policy,
     small_page_type = LOGICAL_PAGE_ANY_SIZE COALESCE, big_page_type = LOGICAL_PAGE_ANY_SIZE COALESCE, heap_recycling = IMMEDIATE\<rparr>"

definition example_heap_params :: HeapCreationParams where
  "example_heap_params = \<lparr>hp_small_object_logical_page_size = 4096, hp_small_object_bin_page_counts = [1, 1, 1, 1, 1, 1, 1, 1],
     hp_small_object_page_recycling_threshold = 1, hp_big_object_logical_page_size = 8192,
     hp_big_object_page_recycling_threshold = 1, hp_segment_grow_coefficient = 0,
     hp_segment_deallocation_queue_initial_capacity = 65536\<rparr>"

definition example_heap :: heap_state where
  "example_heap = snd (the (SimpleHeapPow2_create example_heap_policy bump_os example_heap_params (SimpleHeapPow2_new, blank_world)))"

lemmas heap_run [run] = example_heap_policy_def example_heap_params_def SimpleHeapPow2_new_def SMALL_OBJECT_BIN_COUNT_def
  calculate_required_buffer_size_def small_segment_params_def big_segment_params_def SegmentSmallObject_def SegmentBigObject_def
  SMALL_OBJECT_MIN_SIZE_CLASS_def

lemma replicate_8 [run]: "replicate 8 x = [x, x, x, x, x, x, x, x]"
  by (simp add: numeral_eq_Suc)

lemma ceiling_fraction [run]: "0 < x \<Longrightarrow> x \<le> 1 \<Longrightarrow> \<lceil>x :: rat\<rceil> = 1"
  by (simp add: ceiling_eq_iff)

lemma example_heap_arena:
  "arena_allocate (SegmentSmallObject example_heap_policy) bump_os
     (calculate_required_buffer_size example_heap_params 4096) blank_world
   = Some (65536, snd (the (arena_allocate (SegmentSmallObject example_heap_policy) bump_os
     (calculate_required_buffer_size example_heap_params 4096) blank_world)))"
  by (simp add: run cong: run_cong)

lemma example_heap_start: "heap_start example_heap_policy bump_os example_heap_params {} blank_world"
proof -
  have "arena_inv (arena blank_world, blank_world) {}" using arena_new_inv [OF bump_os_ok] by (simp add: blank_world_def)
  moreover have "arena_aligned 4096 (arena blank_world)" by (simp add: arena_aligned_def run)
  moreover have "heap_params_ok example_heap_policy example_heap_params"
    by (simp add: heap_params_ok_def example_heap_params_def example_heap_policy_def is_power_of_two_def total_size_def MAX_BLOCK_SIZE_def)
  ultimately show ?thesis using bump_os_ok by (simp add: heap_start_def example_heap_policy_def example_heap_params_def)
qed

lemma example_heap_created:
  "SimpleHeapPow2_create example_heap_policy bump_os example_heap_params (SimpleHeapPow2_new, blank_world) = Some (True, example_heap)"
proof -
  have "hp_small_object_logical_page_size example_heap_params = 4096" by (simp add: example_heap_params_def)
  then obtain s where "SimpleHeapPow2_create example_heap_policy bump_os example_heap_params (SimpleHeapPow2_new, blank_world) = Some (True, s)"
    using heap_create_owned [OF example_heap_start, of 65536] example_heap_arena by (fastforce simp: example_heap_policy_def)
  then show ?thesis by (simp add: example_heap_def)
qed

lemma example_bins:
  "bin_of 100 = 3" "bin_request 100 = 128" "bin_of 3000 = 8" "bin_request 3000 = 3000"
proof -
  have l: "LARGEST_SMALL_OBJECT_SIZE_CLASS = 2048"
    by (simp add: LARGEST_SMALL_OBJECT_SIZE_CLASS_def SMALL_OBJECT_BIN_COUNT_def compile_time_pow2_def)
  have a: "adjust_size_for_small_object_bin 100 = 128"
    by (simp add: adjust_size_for_small_object_bin_def get_first_pow2_of_def SMALL_OBJECT_MIN_SIZE_CLASS_def Let_def word_le_nat_alt)
  have "bin_index 128 = 3" using bin_index_bin_size [of 3] by (simp add: bin_size_def)
  then show "bin_of 100 = 3" "bin_request 100 = 128" "bin_of 3000 = 8" "bin_request 3000 = 3000"
    by (simp_all add: bin_of_def bin_request_def l a)
qed

definition example_heap_1 :: heap_state where
  "example_heap_1 = snd (the (SimpleHeapPow2_allocate example_heap_policy bump_os 100 example_heap))"

definition example_heap_2 :: heap_state where
  "example_heap_2 = snd (the (SimpleHeapPow2_allocate example_heap_policy bump_os 3000 (heap_poke 77910 7 example_heap_1)))"

lemmas heap_run_2 [run] = SimpleHeapPow2_allocate_eq in_segment_eq heap_segment_def put_segment_def example_bins bin_policy_def
  example_heap_def example_heap_1_def example_heap_2_def heap_poke_def world_poke_def

lemma example_heap_results:
  "fst (the (SimpleHeapPow2_allocate example_heap_policy bump_os 100 example_heap)) = 77904"
  "fst (the (SimpleHeapPow2_allocate example_heap_policy bump_os 3000 (heap_poke 77910 7 example_heap_1))) = 98384"
  by (simp add: run cong: run_cong)+

lemma example_heap_serves:
  "heap_serves example_heap_policy bump_os 100 example_heap"
  "heap_serves example_heap_policy bump_os 3000 (heap_poke 77910 7 example_heap_1)"
  by (simp add: run heap_serves_def can_grow_def cong: run_cong)+

subsection \<open>Using a heap\<close>

abbreviation heap_user :: "heap_policy \<Rightarrow> os \<Rightarrow> heap_state user_state \<Rightarrow> heap_state user_state \<Rightarrow> bool" where
  "heap_user hp os \<equiv> user_step (SimpleHeapPow2_allocate hp os) (SimpleHeapPow2_deallocate hp os) (heap_serves hp os) heap_poke"

lemma heap_created_ok:
  assumes st: "heap_start hp os params H w" and c: "SimpleHeapPow2_create hp os params (SimpleHeapPow2_new, w) = Some (True, s)"
  shows "heap_ok hp os (hp_small_object_logical_page_size params) s Map.empty"
proof -
  obtain h' w' where s: "s = (h', w')" by (cases s)
  have al: "arena_aligned (hp_small_object_logical_page_size params) (arena w)" using st by (simp add: heap_start_def)
  obtain Y where "moves (hp_small_object_logical_page_size params) H {} Y w w'"
    "heap_owned os (hp_small_object_logical_page_size params) hp (h', w') Y Map.empty"
    using heap_created_owned [OF st c [unfolded s]] by blast
  then show ?thesis unfolding s by (rule heap_okI [OF _ al])
qed

lemma heap_run_honoured:
  assumes "heap_start hp os params H w" "SimpleHeapPow2_create hp os params (SimpleHeapPow2_new, w) = Some (True, s)"
    "(heap_user hp os)\<^sup>*\<^sup>* (s, Map.empty, Map.empty) c"
  shows "heap.honours hp os (hp_small_object_logical_page_size params) c"
  using heap.honours_run [OF assms(3)] heap.honours_start [OF heap_created_ok [OF assms(1,2)]] by blast

lemma honoured_heap:
  assumes "heap.honours hp os S ((h, w), held, M)"
  obtains L where "heap_ok hp os S (h, w) L" "\<And>p n. held p = Some n \<Longrightarrow> \<exists>k. L p = Some k"
  using assms unfolding heap.honours_def by blast

text \<open>The example run: a small object, a store into it, and a big object.\<close>

lemma example_heap_ok: "heap_ok example_heap_policy bump_os 4096 example_heap Map.empty"
  using heap_created_ok [OF example_heap_start example_heap_created] by (simp add: example_heap_params_def)

lemma example_heap_alloc_1:
  "SimpleHeapPow2_allocate example_heap_policy bump_os 100 example_heap = Some (77904, example_heap_1)"
  using heap.alloc_total [OF example_heap_ok example_heap_serves(1)] example_heap_results(1) by (auto simp: example_heap_1_def)

abbreviation example_heap_bytes :: "u64 \<rightharpoonup> u8" where
  "example_heap_bytes \<equiv> (forget (region 77904 100) Map.empty)(77910 \<mapsto> 7)"

lemma example_heap_run_1:
  "(heap_user example_heap_policy bump_os)\<^sup>*\<^sup>* (example_heap, Map.empty, Map.empty)
     (heap_poke 77910 7 example_heap_1, [77904 \<mapsto> 100], example_heap_bytes)"
proof -
  let ?P = "example_heap_policy"
  have "heap_user ?P bump_os (example_heap, Map.empty, Map.empty) (example_heap_1, [77904 \<mapsto> 100], forget (region 77904 100) Map.empty)"
    using user_step.grant [of "heap_serves ?P bump_os" 100 example_heap "SimpleHeapPow2_allocate ?P bump_os" 77904 example_heap_1]
      example_heap_serves(1) example_heap_alloc_1 by simp
  moreover have "heap_user ?P bump_os (example_heap_1, [77904 \<mapsto> 100], forget (region 77904 100) Map.empty)
      (heap_poke 77910 7 example_heap_1, [77904 \<mapsto> 100], example_heap_bytes)"
    by (rule user_step.store [of _ 77904 100]) simp_all
  ultimately show ?thesis by (meson converse_rtranclp_into_rtranclp rtranclp.rtrancl_refl)
qed

lemma example_heap_run:
  "(heap_user example_heap_policy bump_os)\<^sup>*\<^sup>* (example_heap, Map.empty, Map.empty)
     (example_heap_2, [77904 \<mapsto> 100, 98384 \<mapsto> 3000], forget (region 98384 3000) example_heap_bytes)"
proof -
  let ?P = "example_heap_policy" and ?s = "heap_poke 77910 7 example_heap_1"
  have "heap.honours ?P bump_os (hp_small_object_logical_page_size example_heap_params) (?s, [77904 \<mapsto> 100], example_heap_bytes)"
    by (rule heap_run_honoured [OF example_heap_start example_heap_created example_heap_run_1])
  then have "SimpleHeapPow2_allocate ?P bump_os 3000 ?s = Some (98384, example_heap_2)"
    using heap.user_requests_return [OF _ example_heap_serves(2)] example_heap_results(2) by (fastforce simp: example_heap_2_def)
  then have "heap_user ?P bump_os (?s, [77904 \<mapsto> 100], example_heap_bytes)
      (example_heap_2, [77904 \<mapsto> 100, 98384 \<mapsto> 3000], forget (region 98384 3000) example_heap_bytes)"
    using user_step.grant [of "heap_serves ?P bump_os" 3000 ?s "SimpleHeapPow2_allocate ?P bump_os" 98384 example_heap_2]
      example_heap_serves(2) by simp
  with example_heap_run_1 show ?thesis by (rule rtranclp.rtrancl_into_rtrancl)
qed

text \<open>Whatever sequence of allocations, frees and stores a user performs on a new \<open>SimpleHeapPow2\<close>, with any
  concurrency policy (a thread local heap is assumed to keep its pages), across the nine segments, their growth and their recycling: the payloads it
  holds are non-null, mapped and pairwise disjoint, whichever bins they come from.\<close>

theorem heap_payloads_safe:
  assumes "heap_start hp os params H w" "SimpleHeapPow2_create hp os params (SimpleHeapPow2_new, w) = Some (True, s)"
    and "(heap_user hp os)\<^sup>*\<^sup>* (s, Map.empty, Map.empty) ((h', w'), held, M)" and "held p = Some n"
  shows "p \<noteq> 0 \<and> (\<forall>x\<in>region p n. is_mapped (vm w') x)
    \<and> (\<forall>q j. held q = Some j \<longrightarrow> p \<noteq> q \<longrightarrow> region p n \<inter> region q j = {})"
  using heap.user_payloads [OF heap_run_honoured [OF assms(1-3)] assms(4)] by (auto simp del: in_region_iff)

theorem heap_payloads_safe_witness:
  "region 77904 100 \<inter> region 98384 3000 = {} \<and> region 77904 100 \<subseteq> {x. is_mapped (vm (snd example_heap_2)) x}"
proof -
  obtain h w where e: "example_heap_2 = (h, w)" by (cases example_heap_2)
  show ?thesis
    using heap_payloads_safe [OF example_heap_start example_heap_created example_heap_run [unfolded e], of 77904 100]
    unfolding e snd_conv by (auto simp del: in_region_iff dest: spec [of _ 98384])
qed

text \<open>C3: A \<open>SimpleHeapPow2\<close> refines the abstract allocator: every run of a user on a new heap is a run of
  the specification, in which a request is answered with any block disjoint from the held ones, and the
  memory of the machine holds at every address what the specification says was stored there last.\<close>

theorem heap_refines_allocator:
  assumes "heap_start hp os params H w" "SimpleHeapPow2_create hp os params (SimpleHeapPow2_new, w) = Some (True, s)"
    and "(heap_user hp os)\<^sup>*\<^sup>* (s, Map.empty, Map.empty) ((h', w'), held, M)"
  shows "spec_step\<^sup>*\<^sup>* (Map.empty, Map.empty) (held, M) \<and> (\<forall>x v. M x = Some v \<longrightarrow> ram w' x = v)"
proof -
  have "heap.honours hp os (hp_small_object_logical_page_size params) (s, Map.empty, Map.empty)" by (rule heap.honours_start [OF heap_created_ok [OF assms(1,2)]])
  from heap.user_run_refines [OF assms(3) this] heap.user_contents [OF heap_run_honoured [OF assms]] show ?thesis by simp
qed

theorem heap_refines_allocator_witness: "ram (snd example_heap_2) 77910 = 7"
proof -
  obtain h w where e: "example_heap_2 = (h, w)" by (cases example_heap_2)
  show ?thesis
    using heap_refines_allocator [OF example_heap_start example_heap_created example_heap_run [unfolded e]]
    unfolding e snd_conv by (auto simp: forget_def)
qed

text \<open>No operation of a \<open>SimpleHeapPow2\<close> gets stuck: in every state that such a run reaches, an allocation
  that the heap can serve returns, and so does freeing a held pointer of a heap that is not thread local.\<close>

theorem heap_operations_return:
  assumes "heap_start hp os params H w" "SimpleHeapPow2_create hp os params (SimpleHeapPow2_new, w) = Some (True, s)"
    and "(heap_user hp os)\<^sup>*\<^sup>* (s, Map.empty, Map.empty) (s', held, M)"
  shows "(heap_serves hp os sz s' \<longrightarrow> (\<exists>p t. SimpleHeapPow2_allocate hp os sz s' = Some (p, t)))
    \<and> (heap_concurrency hp \<noteq> THREAD_LOCAL \<longrightarrow> held p = Some n \<longrightarrow> (\<exists>t. SimpleHeapPow2_deallocate hp os p s' = Some t))"
proof -
  note h = heap_run_honoured [OF assms]
  obtain h' w' where s': "s' = (h', w')" by (cases s')
  obtain L where "heap_ok hp os (hp_small_object_logical_page_size params) s' L" "\<And>p n. held p = Some n \<Longrightarrow> \<exists>k. L p = Some k"
    using honoured_heap [OF h [unfolded s']] unfolding s' by metis
  then show ?thesis using heap.user_requests_return [OF h] heap_deallocate_returns by metis
qed

theorem heap_operations_return_witness:
  "\<exists>t. SimpleHeapPow2_deallocate example_heap_policy bump_os 77904 example_heap_2 = Some t"
  using heap_operations_return [OF example_heap_start example_heap_created example_heap_run, of 0 77904 100]
  by (simp add: example_heap_policy_def)

text \<open>C15: The shape of a heap is kept by every run: eight bins whose size classes are 16, 32, ..., 2048,
  all with the page size of the small objects, which divides the page size of the big bin.\<close>

theorem heap_shape:
  assumes "heap_start hp os params H w" "SimpleHeapPow2_create hp os params (SimpleHeapPow2_new, w) = Some (True, s)"
    and "(heap_user hp os)\<^sup>*\<^sup>* (s, Map.empty, Map.empty) ((h', w'), held, M)"
  shows "length (sh_bins h') = 8
    \<and> map (\<lambda>sg. unat (seg_size_class sg)) (sh_bins h') = [16, 32, 64, 128, 256, 512, 1024, 2048]
    \<and> (\<forall>i < 8. seg_logical_page_size (sh_bins h' ! i) = sh_small_object_logical_page_size h')
    \<and> unat (sh_small_object_logical_page_size h') dvd unat (seg_logical_page_size (sh_big_object_bin h'))"
proof -
  let ?S = "hp_small_object_logical_page_size params"
  obtain L where ok: "heap_ok hp os ?S (h', w') L" using honoured_heap [OF heap_run_honoured [OF assms]] by metis
  obtain Y where o: "heap_owned os ?S hp (h', w') Y L" by (rule heap_okE [OF ok])
  obtain R Ys Ls where h: "length (sh_bins h') = 8" "sh_small_object_logical_page_size h' = ?S"
    "bins.family hp os ?S R {..8} (heap_segment h') w' Ys Ls" by (rule heap_ownedE [OF o])
  have st: "bin_static hp ?S i (heap_segment h' i)" if "i \<le> 8" for i using h(3) that by (simp add: bins.family_def bin_owned_def)
  have "unat (seg_size_class (sh_bins h' ! i)) = 16 * 2 ^ i" if "i < 8" for i
  proof -
    have "unat (ucast (seg_size_class (sh_bins h' ! i)) :: u64) = 16 * 2 ^ i"
      using st [of i] that unat_bin_size [OF that] by (simp add: bin_static_def heap_segment_def)
    then show ?thesis by simp
  qed
  then have "map (\<lambda>sg. unat (seg_size_class sg)) (sh_bins h') = map (\<lambda>i. 16 * 2 ^ i) [0..<8]"
    using h(1) by (intro nth_equalityI) auto
  also have "\<dots> = [16, 32, 64, 128, 256, 512, 1024, 2048]" by (simp add: upt_rec)
  finally show ?thesis using h(1,2) st by (fastforce simp: bin_static_def heap_segment_def)
qed

theorem heap_shape_witness: "length (sh_bins (fst example_heap_2)) = 8"
proof -
  obtain h w where e: "example_heap_2 = (h, w)" by (cases example_heap_2)
  show ?thesis using heap_shape [OF example_heap_start example_heap_created example_heap_run [unfolded e]] by (simp add: e)
qed

text \<open>C14: A request of at most 2048 bytes is rounded to the least of the size classes 16, 32, ..., 2048 that
  holds it, and goes to the bin of that class.\<close>

theorem small_request_size_class:
  assumes "sz \<le> LARGEST_SMALL_OBJECT_SIZE_CLASS"
  shows "\<exists>i < 8. adjust_size_for_small_object_bin sz = 16 * 2 ^ i \<and> bin_index (adjust_size_for_small_object_bin sz) = i
    \<and> unat sz \<le> 16 * 2 ^ i \<and> (\<forall>j. unat sz \<le> 16 * 2 ^ j \<longrightarrow> i \<le> j)"
proof -
  obtain i where i: "i < 8" "adjust_size_for_small_object_bin sz = bin_size i" "unat sz \<le> 16 * 2 ^ i" "0 < i \<longrightarrow> 8 * 2 ^ i < unat sz"
    by (rule adjust_size_ok [OF assms])
  have "i \<le> j" if j: "unat sz \<le> 16 * 2 ^ j" for j
  proof (cases "i = 0")
    case False
    then have "8 * 2 ^ i < (16 * 2 ^ j :: nat)" using i(4) j by simp
    then have "(2 :: nat) ^ i < 2 ^ Suc j" by simp
    then have "i < Suc j" by (rule power_less_imp_less_exp [rotated]) simp
    then show ?thesis by simp
  qed simp
  then show ?thesis using i bin_index_bin_size [OF i(1)] by (auto simp: bin_size_def)
qed

theorem small_request_size_class_witness:
  "\<exists>i < 8. adjust_size_for_small_object_bin 100 = 16 * 2 ^ i \<and> bin_index (adjust_size_for_small_object_bin 100) = i"
proof -
  have "100 \<le> LARGEST_SMALL_OBJECT_SIZE_CLASS"
    by (simp add: LARGEST_SMALL_OBJECT_SIZE_CLASS_def SMALL_OBJECT_BIN_COUNT_def compile_time_pow2_def)
  from small_request_size_class [OF this] show ?thesis by blast
qed



end
