(* ===== verification/Allocator_Properties.thy ===== *)
theory Allocator_Properties
  imports Scalable_Allocator Heap_Properties
begin

text \<open>
  The properties of \<open>ScalableAllocator\<close>, for every pair of heap classes: which thread uses which local heap,
  and what the wrappers for the C library do.
\<close>

subsection \<open>The register of the local heaps\<close>

text \<open>What decides which heap a thread uses; the heaps themselves are not part of it.\<close>

definition same_register :: "('h, 'p) ScalableAllocator \<Rightarrow> ('h, 'p) ScalableAllocator \<Rightarrow> bool" where
  "same_register a a' \<longleftrightarrow> m_metadata_buffer a' = m_metadata_buffer a \<and> m_active_local_heap_count a' = m_active_local_heap_count a
     \<and> m_max_thread_local_heap_count a' = m_max_thread_local_heap_count a
     \<and> thread_local_storage a' = thread_local_storage a \<and> m_allocator_lock a' = m_allocator_lock a"

lemma same_register_refl [simp]: "same_register a a"
  by (simp add: same_register_def)

lemma same_register_trans: "same_register a b \<Longrightarrow> same_register b c \<Longrightarrow> same_register a c"
  by (simp add: same_register_def)

definition thread_heap :: "nat \<Rightarrow> ('h, 'p) ScalableAllocator \<Rightarrow> u64" where
  "thread_heap t a = ThreadLocalStorage_get t (thread_local_storage a)"

definition register_inv :: "('h, 'p) allocator_policy \<Rightarrow> ('h, 'p) ScalableAllocator \<Rightarrow> bool" where
  "register_inv T a \<longleftrightarrow> 0 < unat (heap_sizeof (LocalHeapType T)) \<and> m_metadata_buffer a \<noteq> 0
     \<and> unat (m_metadata_buffer a) + unat (m_max_thread_local_heap_count a) * unat (heap_sizeof (LocalHeapType T)) < 2 ^ 64
     \<and> m_allocator_lock a = 0 \<and> m_active_local_heap_count a < m_max_thread_local_heap_count a
     \<and> (\<forall>t. thread_heap t a \<noteq> 0 \<longrightarrow> (\<exists>i < unat (m_active_local_heap_count a). thread_heap t a = local_heap_address T (of_nat i) a))
     \<and> (\<forall>t u. t \<noteq> u \<longrightarrow> thread_heap t a \<noteq> 0 \<longrightarrow> thread_heap t a \<noteq> thread_heap u a)"

lemma register_inv_apart: "register_inv T a \<Longrightarrow> t \<noteq> u \<Longrightarrow> thread_heap t a \<noteq> 0 \<Longrightarrow> thread_heap t a \<noteq> thread_heap u a"
  by (auto simp: register_inv_def)

lemma register_inv_same: "same_register a a' \<Longrightarrow> register_inv T a' = register_inv T a"
  by (simp add: same_register_def register_inv_def thread_heap_def local_heap_address_def)

lemma thread_heap_same: "same_register a a' \<Longrightarrow> thread_heap t a' = thread_heap t a"
  by (simp add: same_register_def thread_heap_def)

text \<open>The slots of the metadata buffer do not overlap.\<close>

lemma unat_heap_address:
  assumes "register_inv T a" "i < unat (m_max_thread_local_heap_count a)"
  shows "unat (local_heap_address T (of_nat i) a) = unat (m_metadata_buffer a) + i * unat (heap_sizeof (LocalHeapType T))"
proof -
  let ?S = "unat (heap_sizeof (LocalHeapType T))"
  have i: "unat (of_nat i :: u64) = i" using assms(2) unat_lt_2_64 [of "m_max_thread_local_heap_count a"] by (intro unat_of_nat_nowrap) simp
  have "i * ?S \<le> unat (m_max_thread_local_heap_count a) * ?S" using assms(2) by (intro mult_le_mono1) simp
  moreover have "unat (m_metadata_buffer a) + unat (m_max_thread_local_heap_count a) * ?S < 2 ^ 64"
    using assms(1) by (simp add: register_inv_def)
  ultimately have "unat (m_metadata_buffer a) + i * ?S < 2 ^ 64" by linarith
  then show ?thesis by (simp add: local_heap_address_def nowrap i)
qed

lemma heap_address_inj:
  assumes "register_inv T a" "i < unat (m_max_thread_local_heap_count a)" "j < unat (m_max_thread_local_heap_count a)"
  shows "local_heap_address T (of_nat i) a = local_heap_address T (of_nat j) a \<longleftrightarrow> i = j"
  using unat_heap_address [OF assms(1,2)] unat_heap_address [OF assms(1,3)] assms(1)
  by (auto simp: unat_eq_iff_u64 register_inv_def)

lemma heap_address_nonnull:
  assumes "register_inv T a" "i < unat (m_max_thread_local_heap_count a)"
  shows "local_heap_address T (of_nat i) a \<noteq> 0"
  using unat_heap_address [OF assms] assms(1) by (auto simp: unat_eq_iff_u64 register_inv_def)

subsection \<open>The operations keep the register\<close>

lemma on_heap_register:
  "on_local_heap p f (a, w) = Some (r, (a', w')) \<Longrightarrow> same_register a a'"
  "on_central_heap g (a, w) = Some (r', (a', w')) \<Longrightarrow> same_register a a'"
  by (auto simp: on_local_heap_def on_central_heap_def same_register_def split: bind_splits)

lemma on_local_heap_frame:
  "on_local_heap p f (a, w) = Some (r, (a', w')) \<Longrightarrow> x \<noteq> p \<Longrightarrow> local_heaps a' x = local_heaps a x"
  by (auto simp: on_local_heap_def split: bind_splits)

lemma on_central_heap_frame:
  "on_central_heap f (a, w) = Some (r, (a', w')) \<Longrightarrow> local_heaps a' = local_heaps a"
  by (auto simp: on_central_heap_def split: bind_splits)

lemma create_local_heap_register:
  assumes "create_local_heap T i (a, w) = Some (r, (a', w'))"
  shows "same_register a a'" "r = 0 \<or> r = local_heap_address T i a" "x \<noteq> local_heap_address T i a \<Longrightarrow> local_heaps a' x = local_heaps a x"
proof -
  let ?p = "local_heap_address T i a" and ?b = "a\<lparr>local_heaps := (local_heaps a)(local_heap_address T i a := heap_new (LocalHeapType T))\<rparr>"
  obtain ok where c: "on_local_heap ?p (heap_create (LocalHeapType T) (m_local_heap_creation_params a)) (?b, w) = Some (ok, (a', w'))"
    "r = (if ok then ?p else 0)"
    using assms that unfolding create_local_heap_def Let_def prod.case
    by (cases "on_local_heap ?p (heap_create (LocalHeapType T) (m_local_heap_creation_params a)) (?b, w)") (simp_all split: prod.splits if_splits)
  have "same_register a ?b" by (simp add: same_register_def)
  then show "same_register a a'" using on_heap_register(1) [OF c(1)] same_register_trans by blast
  show "r = 0 \<or> r = ?p" using c(2) by simp
  show "local_heaps a' x = local_heaps a x" if "x \<noteq> ?p" using on_local_heap_frame [OF c(1) that] that by simp
qed

text \<open>A thread that has a heap keeps it; a new thread gets the next slot, or no heap at all.\<close>

lemma get_thread_local_heap_cases:
  assumes inv: "register_inv T a" and g: "get_thread_local_heap T t (a, w) = Some (r, (a', w'))"
  obtains (old) "r = thread_heap t a" "same_register a a'" "local_heaps a' = local_heaps a"
  | (new) "thread_heap t a = 0" "m_active_local_heap_count a + 1 < m_max_thread_local_heap_count a"
      "r = 0 \<or> r = local_heap_address T (m_active_local_heap_count a) a"
      "m_metadata_buffer a' = m_metadata_buffer a" "m_max_thread_local_heap_count a' = m_max_thread_local_heap_count a"
      "m_active_local_heap_count a' = m_active_local_heap_count a + 1" "m_allocator_lock a' = 0"
      "thread_local_storage a' = ThreadLocalStorage_set t r (thread_local_storage a)"
      "\<forall>x. x \<noteq> local_heap_address T (m_active_local_heap_count a) a \<longrightarrow> local_heaps a' x = local_heaps a x"
proof (cases "thread_heap t a = 0")
  case False
  then have "r = thread_heap t a" "a' = a" using g by (auto simp: get_thread_local_heap_def thread_heap_def Let_def)
  then show ?thesis using old by simp
next
  case True
  define i where "i = m_active_local_heap_count a"
  let ?lock = "a\<lparr>m_allocator_lock := 1\<rparr>"
  have l0: "m_allocator_lock a = 0" using inv by (simp add: register_inv_def)
  have tls: "ThreadLocalStorage_get t (thread_local_storage a) = 0" using True by (simp add: thread_heap_def)
  show ?thesis
  proof (cases "i + 1 \<ge> m_max_thread_local_heap_count a")
    case full: True
    then have "r = 0" "a' = a\<lparr>m_allocator_lock := 0\<rparr>"
      using g l0 tls by (simp_all add: get_thread_local_heap_def i_def Let_def)
    then show ?thesis using old True l0 by (simp add: same_register_def)
  next
    case False
    let ?heap = "if i \<ge> m_cached_thread_local_heap_count a then create_local_heap T i (?lock, w)
      else Some (local_heap_address T i ?lock, (?lock, w))"
    obtain b where b: "?heap = Some (r, (b, w'))"
      "a' = b\<lparr>m_active_local_heap_count := m_active_local_heap_count b + 1,
             thread_local_storage := ThreadLocalStorage_set t r (thread_local_storage b), m_allocator_lock := 0\<rparr>"
      using g l0 tls False by (auto simp: get_thread_local_heap_def i_def Let_def split: bind_splits if_splits)
    have addr: "local_heap_address T i ?lock = local_heap_address T i a" by (simp add: local_heap_address_def)
    have sr: "same_register ?lock b" "r = 0 \<or> r = local_heap_address T i a"
      "\<And>x. x \<noteq> local_heap_address T i a \<Longrightarrow> local_heaps b x = local_heaps a x"
      using b(1) create_local_heap_register [of T i ?lock w r b w'] addr by (auto split: if_splits)
    show ?thesis
      by (rule new) (use True False sr b(2) in \<open>auto simp: same_register_def i_def not_le\<close>)
  qed
qed

lemma register_inv_new:
  assumes inv: "register_inv T a" and th: "thread_heap t a = 0"
    and room: "m_active_local_heap_count a + 1 < m_max_thread_local_heap_count a"
    and r: "r = 0 \<or> r = local_heap_address T (m_active_local_heap_count a) a"
    and a': "m_metadata_buffer a' = m_metadata_buffer a" "m_max_thread_local_heap_count a' = m_max_thread_local_heap_count a"
      "m_active_local_heap_count a' = m_active_local_heap_count a + 1" "m_allocator_lock a' = 0"
      "thread_local_storage a' = ThreadLocalStorage_set t r (thread_local_storage a)"
  shows "register_inv T a'"
proof -
  define n where "n = unat (m_active_local_heap_count a)"
  let ?addr = "\<lambda>i. local_heap_address T (of_nat i) a"
  have n: "m_active_local_heap_count a = of_nat n" by (simp add: n_def)
  have lt: "n < unat (m_max_thread_local_heap_count a)" using inv by (simp add: register_inv_def n_def word_less_nat_alt)
  have suc: "unat (m_active_local_heap_count a + 1) = n + 1"
    using lt unat_lt_2_64 [of "m_max_thread_local_heap_count a"] by (simp add: n_def unat_add_nowrap)
  have old: "\<exists>i < n. thread_heap u a = ?addr i" if "thread_heap u a \<noteq> 0" for u
    using inv that by (auto simp: register_inv_def n_def)
  have fresh: "thread_heap u a \<noteq> ?addr n" for u
  proof (cases "thread_heap u a = 0")
    case True
    then show ?thesis using heap_address_nonnull [OF inv lt] by simp
  next
    case False
    then obtain i where i: "i < n" "thread_heap u a = ?addr i" using old by blast
    then show ?thesis using heap_address_inj [OF inv _ lt, of i] lt by simp
  qed
  have th': "thread_heap u a' = (if u = t then r else thread_heap u a)" for u by (simp add: thread_heap_def a'(5))
  have addr: "local_heap_address T i a' = local_heap_address T i a" for i by (simp add: local_heap_address_def a'(1))
  have "\<exists>i < n + 1. thread_heap u a' = ?addr i" if u: "thread_heap u a' \<noteq> 0" for u
  proof (cases "u = t")
    case True
    then show ?thesis using u r n th' by auto
  next
    case False
    then show ?thesis using old [of u] u th' [of u] by (auto intro: less_SucI)
  qed
  moreover have "thread_heap u a' \<noteq> thread_heap v a'" if "u \<noteq> v" "thread_heap u a' \<noteq> 0" for u v
    using that r n fresh [of u] fresh [of v] inv by (auto simp: th' register_inv_def split: if_splits)
  ultimately show ?thesis using inv room suc a'(1-4) unfolding register_inv_def addr by simp
qed

lemma get_thread_local_heap_ok:
  assumes inv: "register_inv T a" and g: "get_thread_local_heap T t (a, w) = Some (r, (a', w'))"
  shows "register_inv T a'" "r \<noteq> 0 \<longrightarrow> thread_heap t a' = r"
    "u \<noteq> t \<Longrightarrow> thread_heap u a \<noteq> 0 \<Longrightarrow> thread_heap u a' = thread_heap u a \<and> local_heaps a' (thread_heap u a) = local_heaps a (thread_heap u a)"
proof -
  from inv g have "register_inv T a' \<and> (r \<noteq> 0 \<longrightarrow> thread_heap t a' = r)
    \<and> (u \<noteq> t \<longrightarrow> thread_heap u a \<noteq> 0 \<longrightarrow> thread_heap u a' = thread_heap u a \<and> local_heaps a' (thread_heap u a) = local_heaps a (thread_heap u a))"
  proof (cases rule: get_thread_local_heap_cases)
    case old
    then show ?thesis using inv by (simp add: register_inv_same thread_heap_same)
  next
    case new
    have i: "register_inv T a'" by (rule register_inv_new [OF inv new(1-8)])
    have lt: "unat (m_active_local_heap_count a) < unat (m_max_thread_local_heap_count a)"
      using inv by (simp add: register_inv_def word_less_nat_alt)
    have "thread_heap u a \<noteq> local_heap_address T (m_active_local_heap_count a) a" if h: "thread_heap u a \<noteq> 0"
    proof -
      obtain i where "i < unat (m_active_local_heap_count a)" "thread_heap u a = local_heap_address T (of_nat i) a"
        using inv h by (auto simp: register_inv_def)
      then show ?thesis using heap_address_inj [OF inv _ lt, of i] lt by simp
    qed
    then show ?thesis using i new(8,9) by (simp add: thread_heap_def)
  qed
  then show "register_inv T a'" "r \<noteq> 0 \<longrightarrow> thread_heap t a' = r"
    "u \<noteq> t \<Longrightarrow> thread_heap u a \<noteq> 0 \<Longrightarrow> thread_heap u a' = thread_heap u a \<and> local_heaps a' (thread_heap u a) = local_heaps a (thread_heap u a)"
    by blast+
qed

text \<open>Both ways of allocating.\<close>

definition allocate_by ::
  "('h, 'p) allocator_policy \<Rightarrow> nat \<Rightarrow> ('h \<times> world \<Rightarrow> (u64 \<times> 'h \<times> world) option) \<Rightarrow> ('h \<times> world \<Rightarrow> (u64 \<times> 'h \<times> world) option)
   \<Rightarrow> ('h, 'p) allocator_state \<Rightarrow> (u64 \<times> ('h, 'p) allocator_state) option" where
  "allocate_by T t f g s = do {
     (local_heap, s) \<leftarrow> get_thread_local_heap T t s;
     (ret, s) \<leftarrow> (if local_heap \<noteq> 0 then on_local_heap local_heap f s else Some (0, s));
     if ret = 0 then on_central_heap g s else Some (ret, s) }"

lemma allocate_by_eqs:
  "ScalableAllocator_allocate T t sz = allocate_by T t (heap_allocate (LocalHeapType T) sz) (heap_allocate (CentralHeapType T) sz)"
  "ScalableAllocator_allocate_aligned T t sz al
     = allocate_by T t (heap_allocate_aligned (LocalHeapType T) sz al) (heap_allocate_aligned (CentralHeapType T) sz al)"
  by (simp_all add: fun_eq_iff ScalableAllocator_allocate_def ScalableAllocator_allocate_aligned_def allocate_by_def)

lemma allocate_by_ok:
  assumes inv: "register_inv T a" and al: "allocate_by T t f g (a, w) = Some (p, (a', w'))"
  shows "register_inv T a'"
    "u \<noteq> t \<Longrightarrow> thread_heap u a \<noteq> 0 \<Longrightarrow> thread_heap u a' = thread_heap u a \<and> local_heaps a' (thread_heap u a) = local_heaps a (thread_heap u a)"
proof -
  obtain h b w1 where h: "get_thread_local_heap T t (a, w) = Some (h, (b, w1))" using al by (auto simp: allocate_by_def split: bind_splits)
  note g = get_thread_local_heap_ok [OF inv h]
  obtain r c w2 where c: "(if h \<noteq> 0 then on_local_heap h f (b, w1) else Some (0, (b, w1))) = Some (r, (c, w2))"
    "(if r = 0 then on_central_heap g (c, w2) else Some (r, (c, w2))) = Some (p, (a', w'))"
    using al h by (auto simp: allocate_by_def split: bind_splits)
  have bc: "same_register b c" "x \<noteq> h \<Longrightarrow> local_heaps c x = local_heaps b x" for x
    using c(1) on_heap_register(1) on_local_heap_frame by (auto split: if_splits)
  have ca: "same_register c a'" "local_heaps a' = local_heaps c"
    using c(2) on_heap_register(2) on_central_heap_frame by (auto split: if_splits)
  have ba: "same_register b a'" by (rule same_register_trans [OF bc(1) ca(1)])
  show "register_inv T a'" using g(1) register_inv_same [OF ba] by simp
  assume u: "u \<noteq> t" "thread_heap u a \<noteq> 0"
  have "thread_heap u b \<noteq> h"
  proof (cases "h = 0")
    case False
    then have "thread_heap t b = h" using g(2) by simp
    moreover have "thread_heap u b \<noteq> thread_heap t b" using register_inv_apart [OF g(1) u(1)] g(3) [OF u] u(2) by simp
    ultimately show ?thesis by simp
  qed (use g(3) [OF u] u in simp)
  then show "thread_heap u a' = thread_heap u a \<and> local_heaps a' (thread_heap u a) = local_heaps a (thread_heap u a)"
    using g(3) [OF u] bc(2) ca(2) thread_heap_same [OF ba] by simp
qed

subsection \<open>Reachable states\<close>

text \<open>What threads do with an allocator: the calls of its interface, the end of a thread, and stores into
  memory (so that the wrappers, which copy and clear memory in between, are sequences of steps).\<close>

inductive allocator_step :: "('h, 'p) allocator_policy \<Rightarrow> ('h, 'p) allocator_state \<Rightarrow> ('h, 'p) allocator_state \<Rightarrow> bool" for T where
  allocate: "ScalableAllocator_allocate T t sz s = Some (p, s') \<Longrightarrow> allocator_step T s s'"
| allocate_aligned: "ScalableAllocator_allocate_aligned T t sz al s = Some (p, s') \<Longrightarrow> allocator_step T s s'"
| deallocate: "ScalableAllocator_deallocate T p s = Some s' \<Longrightarrow> allocator_step T s s'"
| usable_size: "ScalableAllocator_get_usable_size T p s = Some (n, s') \<Longrightarrow> allocator_step T s s'"
| exit: "thread_exit T t s = Some s' \<Longrightarrow> allocator_step T s s'"
| store: "allocator_step T (a, w) (a, w\<lparr>ram := m\<rparr>)"

lemma deallocate_register:
  "ScalableAllocator_deallocate T p (a, w) = Some (a', w') \<Longrightarrow> same_register a a'"
  "ScalableAllocator_get_usable_size T p (a, w) = Some (n, (a', w')) \<Longrightarrow> same_register a a'"
  by (auto simp: ScalableAllocator_deallocate_def ScalableAllocator_get_usable_size_def dest: on_heap_register
      split: if_splits option.splits bind_splits)

lemma destructor_register:
  assumes "thread_specific_destructor T v (a, w) = Some (a', w')"
  shows "same_register a a'"
proof (cases "m_initialised_successfully a = True \<and> m_shutdown_started a = False \<and> v \<noteq> 0")
  case True
  let ?call = "on_central_heap (heap_transfer_logical_pages_from (CentralHeapType T) (local_heaps a v)) (a, w)"
  obtain h b w1 where b: "?call = Some (h, (b, w1))" "a' = b\<lparr>local_heaps := (local_heaps b)(v := h)\<rparr>"
    using assms True that unfolding thread_specific_destructor_def by (cases ?call) (simp_all split: prod.splits)
  have "same_register b a'" using b(2) by (simp add: same_register_def)
  with on_heap_register(2) [OF b(1)] show ?thesis by (rule same_register_trans)
next
  case False
  then show ?thesis using assms by (simp add: thread_specific_destructor_def split: if_splits)
qed

lemma thread_exit_ok:
  assumes inv: "register_inv T a" and e: "thread_exit T t (a, w) = Some (a', w')"
  shows "register_inv T a'"
proof (cases "thread_heap t a = 0")
  case True
  then show ?thesis using inv e by (simp add: thread_exit_def thread_heap_def)
next
  case False
  let ?b = "a\<lparr>thread_local_storage := ThreadLocalStorage_set t 0 (thread_local_storage a)\<rparr>"
  have b: "register_inv T ?b"
    using inv unfolding register_inv_def by (simp add: thread_heap_def local_heap_address_def)
  have "same_register ?b a'"
    by (rule destructor_register [of T "thread_heap t a" ?b w a' w']) (use e False in \<open>simp add: thread_exit_def thread_heap_def\<close>)
  then show ?thesis using b register_inv_same by blast
qed

lemma register_inv_step:
  assumes "allocator_step T s s'" "register_inv T (fst s)"
  shows "register_inv T (fst s')"
  using assms
proof cases
  case (allocate t sz p)
  then show ?thesis using allocate_by_ok(1) assms(2) by (cases s; cases s') (simp add: allocate_by_eqs)
next
  case (allocate_aligned t sz al p)
  then show ?thesis using allocate_by_ok(1) assms(2) by (cases s; cases s') (simp add: allocate_by_eqs)
next
  case (deallocate p)
  then have "same_register (fst s) (fst s')" by (cases s; cases s') (simp add: deallocate_register(1))
  then show ?thesis using register_inv_same assms(2) by blast
next
  case (usable_size p n)
  then have "same_register (fst s) (fst s')" by (cases s; cases s') (simp add: deallocate_register(2))
  then show ?thesis using register_inv_same assms(2) by blast
next
  case (exit t)
  then show ?thesis using thread_exit_ok assms(2) by (cases s; cases s') simp
qed simp

lemma register_inv_run: "(allocator_step T)\<^sup>*\<^sup>* s s' \<Longrightarrow> register_inv T (fst s) \<Longrightarrow> register_inv T (fst s')"
  by (induction rule: rtranclp_induct) (auto intro: register_inv_step)

lemma create_cached_heaps_register:
  "create_cached_heaps T n i (a, w) = Some (ok, (a', w')) \<Longrightarrow> same_register a a'"
proof (induction n arbitrary: i a w)
  case (Suc n)
  obtain h b v where c: "create_local_heap T i (a, w) = Some (h, (b, v))" using Suc.prems by (auto split: bind_splits)
  have "same_register b a'" using Suc c by (auto split: if_splits)
  with create_local_heap_register(1) [OF c] show ?case by (rule same_register_trans)
qed simp

text \<open>Creating an allocator, with any number of cached heaps.\<close>

lemma create_heaps_register:
  assumes "create_heaps T (a, w) = Some (True, (a', w'))"
  shows "\<exists>b. same_register b a' \<and> m_metadata_buffer b = m_metadata_buffer a \<and> m_active_local_heap_count b = m_active_local_heap_count a
    \<and> m_max_thread_local_heap_count b = m_metadata_buffer_size a div heap_sizeof (LocalHeapType T)
    \<and> m_max_thread_local_heap_count b \<noteq> 0
    \<and> thread_local_storage b = thread_local_storage a \<and> m_allocator_lock b = m_allocator_lock a"
proof -
  define b where "b = a\<lparr>m_max_thread_local_heap_count := m_metadata_buffer_size a div heap_sizeof (LocalHeapType T)\<rparr>"
  define c where "c = (if m_max_thread_local_heap_count b < m_cached_thread_local_heap_count b
    then b\<lparr>m_cached_thread_local_heap_count := m_max_thread_local_heap_count b\<rparr> else b)"
  have c: "m_max_thread_local_heap_count b \<noteq> 0"
    "create_cached_heaps T (unat (m_cached_thread_local_heap_count c)) 0 (c, w) = Some (True, (a', w'))"
    using assms unfolding create_heaps_def prod.case Let_def b_def [symmetric] c_def [symmetric] by (auto split: if_splits)
  have "same_register b c" by (simp add: c_def same_register_def)
  with create_cached_heaps_register [OF c(2)] have "same_register b a'" using same_register_trans by blast
  then show ?thesis using c(1) by (intro exI [of _ b]) (simp add: b_def)
qed

lemma on_central_heap_eq:
  assumes "on_central_heap f (a, w) = Some (r, (a', w'))"
  obtains h where "a' = a\<lparr>m_central_heap := h\<rparr>"
  using assms by (auto simp: on_central_heap_def split: bind_splits)

lemma create_parts:
  assumes c: "ScalableAllocator_create T os key pc pl cap alignment metadata_size (a, w) = Some (True, (a', w'))"
  obtains w1 :: world and w2 b w3 d where
    "MetadataAllocator_allocate os metadata_size w1 = (m_metadata_buffer b, w2)" "m_metadata_buffer b \<noteq> 0"
    "m_metadata_buffer_size b = metadata_size" "m_active_local_heap_count b = m_active_local_heap_count a"
    "m_allocator_lock b = m_allocator_lock a" "ThreadLocalStorage_create key (thread_local_storage a) = (True, thread_local_storage b)"
    "create_heaps T (b, w3) = Some (True, (d, w'))" "same_register d a'"
proof -
  obtain ar v where ar: "Arena_create (ArenaType T) os cap alignment (arena w, w) = Some (True, ar, v)"
    using c unfolding ScalableAllocator_create_def prod.case
    by (cases "Arena_create (ArenaType T) os cap alignment (arena w, w)") (simp_all add: Let_def split: if_splits prod.splits)
  let ?v = "v\<lparr>arena := ar\<rparr>"
  obtain buf w2 where m: "MetadataAllocator_allocate os metadata_size ?v = (buf, w2)" by fastforce
  let ?b = "a\<lparr>m_metadata_buffer_size := metadata_size, m_metadata_buffer := buf\<rparr>"
  let ?call = "on_central_heap (heap_create (CentralHeapType T) pc) (?b, w2)"
  obtain e w3 where e: "?call = Some (True, (e, w3))" and buf: "buf \<noteq> 0"
    using c ar m unfolding ScalableAllocator_create_def prod.case
    by (cases ?call) (simp_all add: Let_def split: if_splits prod.splits)
  obtain h where h: "e = ?b\<lparr>m_central_heap := h\<rparr>" by (rule on_central_heap_eq [OF e])
  obtain ok tls where t: "ThreadLocalStorage_create key (thread_local_storage e) = (ok, tls)" by fastforce
  let ?d = "e\<lparr>thread_local_storage := tls, m_local_heap_creation_params := pl\<rparr>"
  obtain d where d: "create_heaps T (?d, w3) = Some (True, (d, w'))" "a' = d\<lparr>m_initialised_successfully := True\<rparr>" "ok"
    using c ar m buf e t unfolding ScalableAllocator_create_def prod.case
    by (cases "create_heaps T (?d, w3)") (simp_all add: Let_def split: if_splits prod.splits)
  show ?thesis
    by (rule that [of ?v ?d w2 w3 d]) (use m buf h t d in \<open>simp_all add: same_register_def\<close>)
qed

lemma create_register_inv:
  assumes os: "os_ok os" and S: "0 < heap_sizeof (LocalHeapType T)"
    and c: "ScalableAllocator_create T os key pc pl cap alignment metadata_size
        (set_thread_local_heap_cache_count n (ScalableAllocator_new T p), w) = Some (True, (a', w'))"
  shows "register_inv T a'" "unat (m_max_thread_local_heap_count a') * unat (heap_sizeof (LocalHeapType T)) \<le> unat metadata_size"
proof -
  obtain w1 :: world and w2 b w3 d where p: "MetadataAllocator_allocate os metadata_size w1 = (m_metadata_buffer b, w2)"
    "m_metadata_buffer b \<noteq> 0" "m_metadata_buffer_size b = metadata_size" "m_active_local_heap_count b = 0"
    "m_allocator_lock b = 0" "ThreadLocalStorage_create key (ThreadLocalStorage_new) = (True, thread_local_storage b)"
    "create_heaps T (b, w3) = Some (True, (d, w'))" "same_register d a'"
    by (rule create_parts [OF c])
      (simp add: set_thread_local_heap_cache_count_def ScalableAllocator_new_def spin_initialise_def)
  obtain e where e: "same_register e d" "m_metadata_buffer e = m_metadata_buffer b" "m_active_local_heap_count e = 0"
    "m_max_thread_local_heap_count e = metadata_size div heap_sizeof (LocalHeapType T)" "m_max_thread_local_heap_count e \<noteq> 0"
    "thread_local_storage e = thread_local_storage b" "m_allocator_lock e = 0"
    using create_heaps_register [OF p(7)] p(3-5) by auto
  have "unat (m_metadata_buffer b) + page_span metadata_size < 2 ^ 64"
    using vm_allocate_fresh [OF os, of False False metadata_size 0 w1] p(1,2) by (auto simp: MetadataAllocator_allocate_def fresh_block_def)
  moreover have sz: "unat (m_max_thread_local_heap_count e) * unat (heap_sizeof (LocalHeapType T)) \<le> unat metadata_size"
    by (simp add: e(4) unat_div)
  ultimately have "unat (m_metadata_buffer b) + unat (m_max_thread_local_heap_count e) * unat (heap_sizeof (LocalHeapType T)) < 2 ^ 64"
    using page_span_ge [of metadata_size] by linarith
  moreover obtain k where k: "key = Some k" using p(6) by (cases key) (auto simp: ThreadLocalStorage_create_def)
  have "thread_heap t e = 0" for t using tls_create_get [OF p(6) [unfolded k]] by (simp add: thread_heap_def e(6))
  ultimately have "register_inv T e"
    using S e p(2) by (simp add: register_inv_def word_less_nat_alt unat_gt_0)
  moreover have ea: "same_register e a'" by (rule same_register_trans [OF e(1) p(8)])
  ultimately show "register_inv T a'" using register_inv_same by blast
  show "unat (m_max_thread_local_heap_count a') * unat (heap_sizeof (LocalHeapType T)) \<le> unat metadata_size"
    using sz ea by (simp add: same_register_def)
qed

subsection \<open>A concrete allocator\<close>

definition example_allocator :: "(MinimalHeap, u64) allocator_policy" where
  "example_allocator = \<lparr>CentralHeapType = minimal_heap_class CENTRAL bump_os 1024, LocalHeapType = minimal_heap_class SINGLE_THREAD bump_os 1024,
     ArenaType = example_policy\<rparr>"

definition example_created :: "(MinimalHeap, u64) allocator_state" where
  "example_created = snd (the (ScalableAllocator_create example_allocator bump_os (Some 1) 65536 65536 1048576 4096 8192
     (set_thread_local_heap_cache_count 0 (ScalableAllocator_new example_allocator 0), blank_world)))"

definition example_used :: "(MinimalHeap, u64) allocator_state" where
  "example_used = snd (the (ScalableAllocator_allocate example_allocator 1 100 example_created))"

definition example_shared :: "(MinimalHeap, u64) allocator_state" where
  "example_shared = snd (the (ScalableAllocator_allocate example_allocator 2 100 example_used))"

lemmas allocator_run [run] = example_allocator_def minimal_heap_class_def ScalableAllocator_create_def
  ScalableAllocator_new_def set_thread_local_heap_cache_count_def on_central_heap_def on_local_heap_def
  MinimalHeap_new_def minimal_policy_def ThreadLocalStorage_new_def ThreadLocalStorage_create_def ThreadLocalStorage_get_def
  ThreadLocalStorage_set_def create_heaps_def create_local_heap_def local_heap_address_def get_thread_local_heap_def
  ScalableAllocator_allocate_def example_created_def example_used_def example_shared_def thread_heap_def

lemma word_le_one [run]: "(x :: u64) \<le> 1 \<longleftrightarrow> x = 0 \<or> x = 1"
  by (auto simp: word_le_nat_alt unat_eq_iff_u64)

lemma example_allocator_runs:
  "fst (the (ScalableAllocator_create example_allocator bump_os (Some 1) 65536 65536 1048576 4096 8192
     (set_thread_local_heap_cache_count 0 (ScalableAllocator_new example_allocator 0), blank_world)))"
  "ScalableAllocator_create example_allocator bump_os (Some 1) 65536 65536 1048576 4096 8192
     (set_thread_local_heap_cache_count 0 (ScalableAllocator_new example_allocator 0), blank_world) \<noteq> None"
  "ScalableAllocator_allocate example_allocator 1 100 example_created \<noteq> None"
  "ScalableAllocator_allocate example_allocator 2 100 example_used \<noteq> None"
  "thread_heap 1 (fst example_used) \<noteq> 0"
  by (simp add: run cong: run_cong)+

lemma example_steps:
  "ScalableAllocator_create example_allocator bump_os (Some 1) 65536 65536 1048576 4096 8192
     (set_thread_local_heap_cache_count 0 (ScalableAllocator_new example_allocator 0), blank_world)
   = Some (True, (fst example_created, snd example_created))"
  "\<exists>p. ScalableAllocator_allocate example_allocator 1 100 example_created = Some (p, (fst example_used, snd example_used))"
  "\<exists>p. ScalableAllocator_allocate example_allocator 2 100 (fst example_used, snd example_used) = Some (p, (fst example_shared, snd example_shared))"
  using example_allocator_runs(1-4) by (auto simp: example_created_def example_used_def example_shared_def)

lemma example_reach:
  "(allocator_step example_allocator)\<^sup>*\<^sup>* (fst example_created, snd example_created) (fst example_used, snd example_used)"
  using example_steps(2) by (auto intro: allocator_step.allocate)

subsection \<open>Threads and their heaps\<close>

text \<open>C10: No two threads share a local heap: in every state that any interleaving of calls and thread ends
  reaches from a new allocator, the heap of a thread is a slot of the metadata buffer, lies inside it, and is
  the heap of no other thread.  The last slot is never used: the index of every heap in use is at least two
  below the number of heaps that fit.\<close>

theorem threads_have_own_heaps:
  assumes "os_ok os" "0 < heap_sizeof (LocalHeapType T)"
    and "ScalableAllocator_create T os key pc pl cap alignment metadata_size
        (set_thread_local_heap_cache_count n (ScalableAllocator_new T p), w) = Some (True, s)"
    and "(allocator_step T)\<^sup>*\<^sup>* s (a, w')" and "thread_heap t a \<noteq> 0"
  shows "(\<forall>u. u \<noteq> t \<longrightarrow> thread_heap u a \<noteq> thread_heap t a)
    \<and> (\<exists>i. i + 1 < unat (m_max_thread_local_heap_count a) \<and> thread_heap t a = local_heap_address T (of_nat i) a
         \<and> unat (thread_heap t a) = unat (m_metadata_buffer a) + i * unat (heap_sizeof (LocalHeapType T)))"
proof -
  obtain a0 w0 where s: "s = (a0, w0)" by (cases s)
  have inv: "register_inv T a"
    using register_inv_run [OF assms(4)] create_register_inv(1) [OF assms(1,2) assms(3) [unfolded s]] by (simp add: s)
  obtain i where i: "i < unat (m_active_local_heap_count a)" "thread_heap t a = local_heap_address T (of_nat i) a"
    using inv assms(5) by (auto simp: register_inv_def)
  moreover have "unat (m_active_local_heap_count a) < unat (m_max_thread_local_heap_count a)"
    using inv by (simp add: register_inv_def word_less_nat_alt)
  ultimately have "i + 1 < unat (m_max_thread_local_heap_count a)"
    "unat (thread_heap t a) = unat (m_metadata_buffer a) + i * unat (heap_sizeof (LocalHeapType T))"
    using unat_heap_address [OF inv, of i] by simp_all
  moreover have "\<forall>u. u \<noteq> t \<longrightarrow> thread_heap u a \<noteq> thread_heap t a" using register_inv_apart [OF inv _ assms(5)] by metis
  ultimately show ?thesis using i(2) by blast
qed

theorem threads_have_own_heaps_witness: "thread_heap 2 (fst example_used) \<noteq> thread_heap 1 (fst example_used)"
  using threads_have_own_heaps [OF bump_os_ok _ example_steps(1) example_reach example_allocator_runs(5)]
  by (simp add: example_allocator_def minimal_heap_class_def)

text \<open>C12: An allocation of one thread leaves the local heaps of the other threads alone, and they stay the
  heaps of those threads; this is why local heaps need no lock for allocations.\<close>

theorem allocation_is_thread_local:
  assumes "os_ok os" "0 < heap_sizeof (LocalHeapType T)"
    and "ScalableAllocator_create T os key pc pl cap alignment metadata_size
        (set_thread_local_heap_cache_count n (ScalableAllocator_new T p), w) = Some (True, s)"
    and "(allocator_step T)\<^sup>*\<^sup>* s (a, w')" and "ScalableAllocator_allocate T t sz (a, w') = Some (q, (a', w''))"
    and "u \<noteq> t" "thread_heap u a \<noteq> 0"
  shows "thread_heap u a' = thread_heap u a \<and> local_heaps a' (thread_heap u a) = local_heaps a (thread_heap u a)"
proof -
  obtain a0 w0 where s: "s = (a0, w0)" by (cases s)
  have inv: "register_inv T a"
    using register_inv_run [OF assms(4)] create_register_inv(1) [OF assms(1,2) assms(3) [unfolded s]] by (simp add: s)
  show ?thesis using allocate_by_ok(2) [OF inv _ assms(6,7)] assms(5) unfolding allocate_by_eqs by blast
qed

theorem allocation_is_thread_local_witness:
  "local_heaps (fst example_shared) (thread_heap 1 (fst example_used)) = local_heaps (fst example_used) (thread_heap 1 (fst example_used))"
proof -
  obtain q where q: "ScalableAllocator_allocate example_allocator 2 100 (fst example_used, snd example_used)
    = Some (q, (fst example_shared, snd example_shared))" using example_steps(3) by blast
  show ?thesis
    using allocation_is_thread_local [OF bump_os_ok _ example_steps(1) example_reach q _ example_allocator_runs(5)]
    by (simp add: example_allocator_def minimal_heap_class_def)
qed

subsection \<open>The wrappers for the C library\<close>

text \<open>The size of a zeroed allocation is computed without a check for overflow: 2^32 objects of 2^32 bytes
  are an allocation of no bytes, which is not refused.\<close>

theorem zeroed_allocation_overflows:
  "allocate_and_zero_memory T t 4294967296 4294967296 s = ScalableAllocator_allocate T t 0 s"
proof -
  have c: "clear_memory p 0 s = s" for p and s :: "('a, 'b) allocator_state"
    by (cases s) (simp add: clear_memory_def memset_def fun_eq_iff)
  have z: "(4294967296 :: u64) * 4294967296 = 0" using word_exp_length_eq_0 [where 'a = 64] by simp
  show ?thesis unfolding allocate_and_zero_memory_def Let_def z
    by (cases "ScalableAllocator_allocate T t 0 s") (auto simp: c)
qed


lemma example_usable:
  "ScalableAllocator_get_usable_size example_allocator 131152 example_used \<noteq> None"
  "50 \<le> fst (the (ScalableAllocator_get_usable_size example_allocator 131152 example_used))"
  by (simp add: run ScalableAllocator_get_usable_size_def find_local_heap.simps HeapBase_owns_pointer_def cong: run_cong)+


end
