(* ===== verification/Allocator_Tenancy.thy ===== *)
theory Allocator_Tenancy
  imports Allocator_Properties
begin

text \<open>
  The scalable allocator of the examples as a family of heaps (Tenancy): the central heap, the local heaps of the threads
  and the cached local heaps that no thread uses yet.  An allocation takes place in the heap of the calling thread and then
  in the central one; a freed pointer finds the heap that handed it out, whichever thread frees it, because the buffer of a
  local heap never changes.  So the allocator is a tenant as well, and all threads together see one allocator that
  keeps the contract of Allocator_Contract.
\<close>

subsection \<open>The heaps of an allocator\<close>

datatype place = Central | Local u64 | Cached u64

definition is_cached :: "place \<Rightarrow> bool" where
  "is_cached i = (case i of Cached _ \<Rightarrow> True | _ \<Rightarrow> False)"

definition place_policy :: "heap_policy \<Rightarrow> heap_policy \<Rightarrow> place \<Rightarrow> heap_policy" where
  "place_policy hc hl i = (case i of Central \<Rightarrow> hc | _ \<Rightarrow> hl)"

definition place_heap :: "('h, 'p) ScalableAllocator \<Rightarrow> place \<Rightarrow> 'h" where
  "place_heap a i = (case i of Central \<Rightarrow> m_central_heap a | Local p \<Rightarrow> local_heaps a p | Cached p \<Rightarrow> local_heaps a p)"

definition place_owned ::
  "os \<Rightarrow> u64 \<Rightarrow> heap_policy \<Rightarrow> heap_policy \<Rightarrow> place \<Rightarrow> heap_state \<Rightarrow> nat set \<Rightarrow> (u64 \<rightharpoonup> nat) \<Rightarrow> bool" where
  "place_owned os S hc hl i s Y L \<longleftrightarrow> heap_owned os S (place_policy hc hl i) s Y L \<and> (is_cached i \<longrightarrow> L = Map.empty)"

definition place_serves :: "os \<Rightarrow> heap_policy \<Rightarrow> heap_policy \<Rightarrow> place \<Rightarrow> u64 \<Rightarrow> heap_state \<Rightarrow> bool" where
  "place_serves os hc hl i sz s \<longleftrightarrow> \<not> is_cached i \<and> heap_serves (place_policy hc hl i) os sz s"

interpretation places: tenants "place_owned os S hc hl" "\<lambda>i. SimpleHeapPow2_allocate (place_policy hc hl i) os"
  "\<lambda>i. SimpleHeapPow2_deallocate (place_policy hc hl i) os" "place_serves os hc hl" S
  for os S hc hl
proof (unfold_locales, goal_cases)
  case (1 i h w Y L w')
  then show ?case using heaps.owns_frame unfolding place_owned_def by blast
next
  case (2 i h w Y L p k)
  then show ?case using heaps.owns_live unfolding place_owned_def by blast
next
  case (3 i h w Y L p k q j)
  then show ?case using heaps.owns_disjoint unfolding place_owned_def by blast
next
  case (4 i h w Y L H sz)
  have s: "heap_owned os S (place_policy hc hl i) (h, w) Y L" "heap_serves (place_policy hc hl i) os sz (h, w)" "\<not> is_cached i"
    using 4(1,5) by (simp_all add: place_owned_def place_serves_def)
  from heaps.owns_alloc [OF s(1) 4(2-4) s(2)] show ?case using s(3) unfolding place_owned_def by simp
next
  case (5 i h w Y L H p k h' w')
  have s: "heap_owned os S (place_policy hc hl i) (h, w) Y L" "\<not> is_cached i" using 5(1,4) by (auto simp: place_owned_def)
  from heaps.owns_dealloc [OF s(1) 5(2-5)] show ?case using s(2) unfolding place_owned_def by simp
next
  case (6 i h w Y L p k x v)
  then show ?case using heaps.owns_poke unfolding place_owned_def by blast
qed

subsection \<open>The buffer of a local heap\<close>

lemma local_heap_range:
  assumes o: "heap_owned os S hp (h, w) Y L" and cp: "heap_concurrency hp = THREAD_LOCAL"
  shows "HeapBase_owns_pointer p h \<Longrightarrow> unat p \<in> Y" "L p = Some k \<Longrightarrow> HeapBase_owns_pointer p h"
proof -
  obtain R Ys Ls where h: "bins.family hp os S R {..8} (heap_segment h) w Ys Ls" "Y = (\<Union>i\<le>8. Ys i)" "joined_over {..8} Ls L"
    "heap_concurrency hp = THREAD_LOCAL \<longrightarrow> (\<Union>i\<le>8. R i) = region (hb_buffer_address h) (unat (hb_buffer_length h))
       \<and> unat (hb_buffer_address h) + unat (hb_buffer_length h) < 2 ^ 64"
    by (rule heap_ownedE [OF o])
  let ?a = "hb_buffer_address h" and ?n = "hb_buffer_length h"
  have r: "(\<Union>i\<le>8. R i) = region ?a (unat ?n)" "unat ?a + unat ?n < 2 ^ 64" using h(4) cp by blast+
  have op: "HeapBase_owns_pointer p h \<longleftrightarrow> unat p \<in> (\<Union>i\<le>8. R i)"
    unfolding r(1) HeapBase_owns_pointer_def region_def using r(2) by (simp add: word_le_nat_alt word_less_nat_alt unat_add_nowrap)
  have seg: "\<exists>K. seg_live (bin_policy hp i) (heap_segment h i, w) (R i) K \<and> R i \<subseteq> Ys i \<and> (\<forall>q k. Ls i q = Some k \<longrightarrow> K q = Some k)" if "i \<le> 8" for i
  proof -
    have "seg_owned (bin_policy hp i) os (R i) (heap_segment h i, w) (Ys i) (Ls i)" using h(1) that by (simp add: bins.family_def bin_owned_def)
    moreover have "concurrency_policy (bin_policy hp i) = THREAD_LOCAL" using cp by simp
    ultimately show ?thesis using seg_owned_range by metis
  qed
  show "unat p \<in> Y" if "HeapBase_owns_pointer p h" using that seg unfolding op h(2) by blast
  show "HeapBase_owns_pointer p h" if p: "L p = Some k"
  proof -
    obtain i where i: "i \<le> 8" "Ls i p = Some k" using p h(3) by (auto simp: joined_over_def)
    obtain K where K: "seg_live (bin_policy hp i) (heap_segment h i, w) (R i) K" "K p = Some k" using seg [OF i(1)] i(2) by blast
    have "unat p \<in> R i" using seg_live_facts(1,3) [OF K] by auto
    then show ?thesis using i(1) unfolding op by blast
  qed
qed

subsection \<open>The search for the heap of a pointer\<close>

lemma find_local_heap_none:
  "(\<And>j. j < n \<Longrightarrow> \<not> heap_owns_pointer (LocalHeapType T) p (local_heaps a (local_heap_address T (i + of_nat j) a)))
    \<Longrightarrow> find_local_heap T p n i a = None"
proof (induction n arbitrary: i)
  case (Suc n)
  have "find_local_heap T p n (i + 1) a = None" by (rule Suc.IH) (use Suc.prems [of "Suc _"] in \<open>simp add: ac_simps\<close>)
  then show ?case using Suc.prems [of 0] by simp
qed simp

lemma find_local_heap_some:
  "j < n \<Longrightarrow> heap_owns_pointer (LocalHeapType T) p (local_heaps a (local_heap_address T (i + of_nat j) a))
    \<Longrightarrow> (\<And>j'. j' < j \<Longrightarrow> \<not> heap_owns_pointer (LocalHeapType T) p (local_heaps a (local_heap_address T (i + of_nat j') a)))
    \<Longrightarrow> find_local_heap T p n i a = Some (local_heap_address T (i + of_nat j) a)"
proof (induction n arbitrary: i j)
  case (Suc n)
  show ?case
  proof (cases j)
    case 0
    then show ?thesis using Suc.prems(2) by simp
  next
    case (Suc k)
    have "find_local_heap T p n (i + 1) a = Some (local_heap_address T (i + 1 + of_nat k) a)"
      by (rule Suc.IH) (use Suc.prems(1,2) Suc.prems(3) [of "Suc _"] Suc in \<open>simp_all add: ac_simps\<close>)
    then show ?thesis using Suc.prems(3) [of 0] Suc by (simp add: ac_simps)
  qed
qed simp

subsection \<open>The invariant\<close>

definition allocator_setup ::
  "(SimpleHeapPow2, HeapCreationParams) allocator_policy \<Rightarrow> os \<Rightarrow> heap_policy \<Rightarrow> heap_policy \<Rightarrow> HeapCreationParams \<Rightarrow> u64 \<Rightarrow> bool" where
  "allocator_setup T os hc hl pl S \<longleftrightarrow> os_ok os
     \<and> (\<exists>z. CentralHeapType T = pow2_heap_class hc os z) \<and> (\<exists>z. LocalHeapType T = pow2_heap_class hl os z)
     \<and> heap_concurrency hc \<noteq> THREAD_LOCAL \<and> heap_concurrency hl = THREAD_LOCAL \<and> supports_any_size (big_page_type hl)
     \<and> heap_params_ok hl pl \<and> keeps_pages hl pl \<and> hp_small_object_logical_page_size pl = S"

definition allocator_places :: "('h, 'p) allocator_policy \<Rightarrow> ('h, 'p) ScalableAllocator \<Rightarrow> place set" where
  "allocator_places T a = insert Central
     ((\<lambda>j. Local (local_heap_address T (of_nat j) a)) ` {..<unat (m_active_local_heap_count a)}
      \<union> (\<lambda>j. Cached (local_heap_address T (of_nat j) a)) ` {unat (m_active_local_heap_count a)..<unat (m_cached_thread_local_heap_count a)})"

definition allocator_owned ::
  "(SimpleHeapPow2, HeapCreationParams) allocator_policy \<Rightarrow> os \<Rightarrow> heap_policy \<Rightarrow> heap_policy \<Rightarrow> HeapCreationParams \<Rightarrow> u64
   \<Rightarrow> (SimpleHeapPow2, HeapCreationParams) allocator_state \<Rightarrow> nat set \<Rightarrow> (u64 \<rightharpoonup> nat) \<Rightarrow> bool" where
  "allocator_owned T os hc hl pl S = (\<lambda>(a, w) Y L. allocator_setup T os hc hl pl S \<and> register_inv T a
     \<and> m_local_heap_creation_params a = pl \<and> unat (m_cached_thread_local_heap_count a) \<le> unat (m_max_thread_local_heap_count a)
     \<and> places.collective os S hc hl (allocator_places T a) (place_heap a) w Y L)"

lemma allocator_ownedD:
  assumes "allocator_owned T os hc hl pl S (a, w) Y L"
  shows "allocator_setup T os hc hl pl S" "register_inv T a" "m_local_heap_creation_params a = pl"
    "unat (m_cached_thread_local_heap_count a) \<le> unat (m_max_thread_local_heap_count a)"
    "places.collective os S hc hl (allocator_places T a) (place_heap a) w Y L"
  using assms unfolding allocator_owned_def prod.case by blast+

text \<open>The register decides the places.\<close>

lemma active_le_max: "register_inv T a \<Longrightarrow> unat (m_active_local_heap_count a) < unat (m_max_thread_local_heap_count a)"
  by (simp add: register_inv_def word_less_nat_alt)

lemma local_not_cached:
  assumes inv: "register_inv T a" and c: "unat (m_cached_thread_local_heap_count a) \<le> unat (m_max_thread_local_heap_count a)"
    and p: "Local p \<in> allocator_places T a"
  shows "Cached p \<notin> allocator_places T a"
proof
  assume "Cached p \<in> allocator_places T a"
  then obtain j i where "i < unat (m_active_local_heap_count a)" "unat (m_active_local_heap_count a) \<le> j" "j < unat (m_cached_thread_local_heap_count a)"
    "local_heap_address T (of_nat i) a = local_heap_address T (of_nat j) a" using p by (auto simp: allocator_places_def)
  then show False using heap_address_inj [OF inv, of i j] active_le_max [OF inv] c by auto
qed

lemma place_heap_local:
  assumes "i \<in> I" "Cached p \<notin> I"
  shows "place_heap (a\<lparr>local_heaps := (local_heaps a)(p := h)\<rparr>) i = ((place_heap a)(Local p := h)) i"
  using assms by (cases i) (auto simp: place_heap_def)

lemma place_heap_central: "place_heap (a\<lparr>m_central_heap := h\<rparr>) i = ((place_heap a)(Central := h)) i"
  by (cases i) (auto simp: place_heap_def)

lemma allocator_places_same:
  "allocator_places T (a\<lparr>local_heaps := f\<rparr>) = allocator_places T a" "allocator_places T (a\<lparr>m_central_heap := h\<rparr>) = allocator_places T a"
  by (simp_all add: allocator_places_def local_heap_address_def)

text \<open>An operation of one of the heaps.\<close>

definition put_place :: "place \<Rightarrow> 'h \<Rightarrow> ('h, 'p) ScalableAllocator \<Rightarrow> ('h, 'p) ScalableAllocator" where
  "put_place i h a = (case i of Central \<Rightarrow> a\<lparr>m_central_heap := h\<rparr> | Local p \<Rightarrow> a\<lparr>local_heaps := (local_heaps a)(p := h)\<rparr> | Cached p \<Rightarrow> a)"

lemma allocator_owned_place:
  assumes o: "allocator_owned T os hc hl pl S (a, w) Y L" and i: "i \<in> allocator_places T a" "\<not> is_cached i"
    and c: "places.collective os S hc hl (allocator_places T a) ((place_heap a)(i := h)) w' Y' L'"
  shows "allocator_owned T os hc hl pl S (put_place i h a, w') Y' L'"
proof -
  note d = allocator_ownedD [OF o]
  define a' where a': "a' = put_place i h a"
  have p: "allocator_places T a' = allocator_places T a" by (cases i) (simp_all add: a' put_place_def allocator_places_same)
  have r: "same_register a a'" "m_local_heap_creation_params a' = m_local_heap_creation_params a"
    "m_cached_thread_local_heap_count a' = m_cached_thread_local_heap_count a"
    "m_max_thread_local_heap_count a' = m_max_thread_local_heap_count a"
    by (cases i; simp add: a' put_place_def same_register_def)+
  have "((place_heap a)(i := h)) j = place_heap a' j" if j: "j \<in> allocator_places T a" for j
  proof (cases i)
    case Central
    then show ?thesis by (simp add: a' put_place_def place_heap_central)
  next
    case (Local q)
    then have "Cached q \<notin> allocator_places T a" using local_not_cached [OF d(2,4)] i(1) by simp
    from place_heap_local [OF j this, of a h] Local show ?thesis by (simp add: a' put_place_def)
  next
    case (Cached q)
    then show ?thesis using i(2) by (simp add: is_cached_def)
  qed
  then have "places.collective os S hc hl (allocator_places T a) (place_heap a') w' Y' L'" using c places.collective_cong by metis
  then show "allocator_owned T os hc hl pl S (put_place i h a, w') Y' L'" unfolding a' [symmetric]
    using d(1-4) r register_inv_same [OF r(1)] unfolding allocator_owned_def prod.case p by simp
qed

subsection \<open>The heap of a thread\<close>

text \<open>The fields that change when a thread gets the next slot.\<close>

definition activated :: "nat \<Rightarrow> u64 \<Rightarrow> ('h, 'p) ScalableAllocator \<Rightarrow> ('h, 'p) ScalableAllocator" where
  "activated t r a = a\<lparr>m_active_local_heap_count := m_active_local_heap_count a + 1,
     thread_local_storage := ThreadLocalStorage_set t r (thread_local_storage a), m_allocator_lock := 0\<rparr>"

lemma get_heap_cases:
  assumes inv: "register_inv T a" and g: "get_thread_local_heap T t (a, w) = Some (r, (a', w'))"
  obtains (same) "a' = a" "w' = w" "r = thread_heap t a"
  | (taken) "m_active_local_heap_count a < m_cached_thread_local_heap_count a" "w' = w"
      "r = local_heap_address T (m_active_local_heap_count a) a" "a' = activated t r a"
  | (created) b where "m_cached_thread_local_heap_count a \<le> m_active_local_heap_count a"
      "create_local_heap T (m_active_local_heap_count a) (a\<lparr>m_allocator_lock := 1\<rparr>, w) = Some (r, (b, w'))" "a' = activated t r b"
proof (cases "thread_heap t a = 0")
  case False
  then have "r = thread_heap t a" "a' = a" "w' = w" using g by (auto simp: get_thread_local_heap_def thread_heap_def Let_def)
  then show ?thesis using same by simp
next
  case True
  have l0: "m_allocator_lock a = 0" using inv by (simp add: register_inv_def)
  have tls: "ThreadLocalStorage_get t (thread_local_storage a) = 0" using True by (simp add: thread_heap_def)
  show ?thesis
  proof (cases "m_active_local_heap_count a + 1 \<ge> m_max_thread_local_heap_count a")
    case full: True
    then have "r = 0" "a' = a\<lparr>m_allocator_lock := 0\<rparr>" "w' = w" using g l0 tls by (simp_all add: get_thread_local_heap_def Let_def)
    moreover have "a\<lparr>m_allocator_lock := 0\<rparr> = a" using l0 by (cases a) simp
    ultimately show ?thesis using same True by simp
  next
    case room: False
    show ?thesis
    proof (cases "m_cached_thread_local_heap_count a \<le> m_active_local_heap_count a")
      case new: True
      obtain b where "create_local_heap T (m_active_local_heap_count a) (a\<lparr>m_allocator_lock := 1\<rparr>, w) = Some (r, (b, w'))" "a' = activated t r b"
        using g l0 tls room new by (auto simp: get_thread_local_heap_def activated_def Let_def split: bind_splits)
      then show ?thesis using created new by blast
    next
      case False
      have "r = local_heap_address T (m_active_local_heap_count a) a" "a' = activated t r a" "w' = w"
        using g l0 tls room False by (auto simp: get_thread_local_heap_def activated_def local_heap_address_def Let_def)
      then show ?thesis using taken False by simp
    qed
  qed
qed

lemma created_local_heap:
  assumes "create_local_heap T i (a, w) = Some (r, (b, w'))" "r \<noteq> 0"
  obtains h where "heap_create (LocalHeapType T) (m_local_heap_creation_params a) (heap_new (LocalHeapType T), w) = Some (True, (h, w'))"
    "b = a\<lparr>local_heaps := (local_heaps a)(local_heap_address T i a := h)\<rparr>" "r = local_heap_address T i a"
proof -
  let ?p = "local_heap_address T i a" and ?c = "heap_create (LocalHeapType T) (m_local_heap_creation_params a) (heap_new (LocalHeapType T), w)"
  obtain ok h v where c: "?c = Some (ok, (h, v))" using assms(1) by (cases ?c) (auto simp: create_local_heap_def on_local_heap_def)
  then have "r = (if ok then ?p else 0)" "b = a\<lparr>local_heaps := (local_heaps a)(?p := h)\<rparr>" "w' = v"
    using assms(1) by (auto simp: create_local_heap_def on_local_heap_def Let_def split: if_splits)
  moreover then have ok using assms(2) by (auto split: if_splits)
  ultimately show ?thesis using that c by simp
qed

text \<open>A local heap that is created successfully.\<close>

lemma new_local_heap:
  assumes st: "allocator_setup T os hc hl pl S" and ar: "arena_inv (arena w, w) H" and al: "arena_aligned S (arena w)"
    and c: "heap_create (LocalHeapType T) pl (heap_new (LocalHeapType T), w) = Some (True, (h, w'))"
  shows "\<exists>Z. moves S H {} Z w w' \<and> heap_owned os S hl (h, w') Z Map.empty"
proof -
  obtain z where s: "os_ok os" "LocalHeapType T = pow2_heap_class hl os z" "heap_concurrency hl = THREAD_LOCAL"
    "heap_params_ok hl pl" "keeps_pages hl pl" "hp_small_object_logical_page_size pl = S" "supports_any_size (big_page_type hl)"
    using st by (auto simp: allocator_setup_def)
  have start: "heap_start hl os pl H w" using s ar al by (simp add: heap_start_def)
  have "SimpleHeapPow2_create hl os pl (SimpleHeapPow2_new, w) = Some (True, (h, w'))" using c unfolding s(2) by (simp add: pow2_heap_class_def)
  from heap_created_owned [OF start this] show ?thesis unfolding s(6) .
qed

lemma places_taken:
  assumes inv: "register_inv T a" and c: "unat (m_cached_thread_local_heap_count a) \<le> unat (m_max_thread_local_heap_count a)"
    and lt: "m_active_local_heap_count a < m_cached_thread_local_heap_count a"
  defines "p \<equiv> local_heap_address T (m_active_local_heap_count a) a"
  shows "Cached p \<in> allocator_places T a" "Local p \<notin> allocator_places T a"
    "allocator_places T (activated t r a) = insert (Local p) (allocator_places T a - {Cached p})"
proof -
  define n m where "n = unat (m_active_local_heap_count a)" and "m = unat (m_cached_thread_local_heap_count a)"
  let ?f = "\<lambda>j. local_heap_address T (of_nat j) a"
  have nm: "n < m" "m \<le> unat (m_max_thread_local_heap_count a)" using lt c by (simp_all add: n_def m_def word_less_nat_alt)
  have inj: "?f i = ?f j \<longleftrightarrow> i = j" if "i < m" "j < m" for i j using heap_address_inj [OF inv] that nm(2) by simp
  have p: "p = ?f n" by (simp add: p_def n_def)
  have P: "allocator_places T a = insert Central ((\<lambda>j. Local (?f j)) ` {..<n} \<union> (\<lambda>j. Cached (?f j)) ` {n..<m})"
    by (simp add: allocator_places_def n_def m_def)
  have "unat (m_active_local_heap_count a + 1) = Suc n"
    using nm unat_lt_2_64 [of "m_cached_thread_local_heap_count a"] unfolding n_def m_def by (subst unat_add_nowrap) simp_all
  then have Q: "allocator_places T (activated t r a) = insert Central ((\<lambda>j. Local (?f j)) ` {..<Suc n} \<union> (\<lambda>j. Cached (?f j)) ` {Suc n..<m})"
    by (simp add: allocator_places_def activated_def local_heap_address_def m_def)
  show "Cached p \<in> allocator_places T a" using nm by (auto simp: P p)
  show "Local p \<notin> allocator_places T a" using nm inj by (auto simp: P p)
  have "(\<lambda>j. Cached (?f j)) ` {n..<m} - {Cached p} = (\<lambda>j. Cached (?f j)) ` {Suc n..<m}"
    using nm inj by (auto simp: p Suc_le_eq image_iff le_less)
  moreover have "(\<lambda>j. Local (?f j)) ` {..<Suc n} = insert (Local p) ((\<lambda>j. Local (?f j)) ` {..<n})" by (auto simp: p lessThan_Suc)
  ultimately show "allocator_places T (activated t r a) = insert (Local p) (allocator_places T a - {Cached p})"
    unfolding P Q by auto
qed

lemma places_created:
  assumes inv: "register_inv T a" and le: "m_cached_thread_local_heap_count a \<le> m_active_local_heap_count a"
  defines "p \<equiv> local_heap_address T (m_active_local_heap_count a) a"
  shows "Local p \<notin> allocator_places T a" "Cached p \<notin> allocator_places T a"
    "allocator_places T (activated t r a) = insert (Local p) (allocator_places T a)"
proof -
  define n where "n = unat (m_active_local_heap_count a)"
  let ?f = "\<lambda>j. local_heap_address T (of_nat j) a"
  have n: "n < unat (m_max_thread_local_heap_count a)" "unat (m_cached_thread_local_heap_count a) \<le> n"
    using active_le_max [OF inv] le by (simp_all add: n_def word_le_nat_alt)
  have inj: "?f i = ?f j \<longleftrightarrow> i = j" if "i \<le> n" "j \<le> n" for i j using heap_address_inj [OF inv] that n(1) by simp
  have p: "p = ?f n" by (simp add: p_def n_def)
  have P: "allocator_places T a = insert Central ((\<lambda>j. Local (?f j)) ` {..<n})" using n(2) by (auto simp: allocator_places_def n_def)
  have "unat (m_active_local_heap_count a + 1) = Suc n"
    using n(1) unat_lt_2_64 [of "m_max_thread_local_heap_count a"] unfolding n_def by (subst unat_add_nowrap) simp_all
  then have Q: "allocator_places T (activated t r a) = insert Central ((\<lambda>j. Local (?f j)) ` {..<Suc n})"
    using n(2) by (simp add: allocator_places_def activated_def local_heap_address_def)
  show "Local p \<notin> allocator_places T a" "Cached p \<notin> allocator_places T a" using inj by (auto simp: P p)
  show "allocator_places T (activated t r a) = insert (Local p) (allocator_places T a)" unfolding P Q p by (auto simp: lessThan_Suc)
qed

text \<open>A thread takes the next cached heap.\<close>

lemma allocator_taken:
  assumes o: "allocator_owned T os hc hl pl S (a, w) Y L" and lt: "m_active_local_heap_count a < m_cached_thread_local_heap_count a"
    and inv: "register_inv T (activated t r a)"
  shows "allocator_owned T os hc hl pl S (activated t r a, w) Y L"
proof -
  note d = allocator_ownedD [OF o]
  let ?p = "local_heap_address T (m_active_local_heap_count a) a" and ?a = "activated t r a"
  note p = places_taken [OF d(2,4) lt]
  have c: "places.collective os S hc hl (allocator_places T ?a) ((place_heap a)(Local ?p := place_heap a (Cached ?p))) w Y L"
    unfolding p(3) by (rule places.collective_rename [OF d(5) p(1,2)]) (simp add: place_owned_def place_policy_def is_cached_def)
  have "(place_heap a)(Local ?p := place_heap a (Cached ?p)) = place_heap ?a"
    by (rule ext) (auto simp: place_heap_def activated_def split: place.splits)
  then show ?thesis using d(1,3,4) inv c unfolding allocator_owned_def prod.case by (simp add: activated_def)
qed

text \<open>A thread creates the next heap; the buffer and the queues of that heap are new memory.\<close>

lemma allocator_extended:
  assumes o: "allocator_owned T os hc hl pl S (a, w) Y L" and ar: "arena_inv (arena w, w) H" and H: "Y \<subseteq> H" and al: "arena_aligned S (arena w)"
    and le: "m_cached_thread_local_heap_count a \<le> m_active_local_heap_count a"
    and c: "create_local_heap T (m_active_local_heap_count a) (a\<lparr>m_allocator_lock := 1\<rparr>, w) = Some (r, (b, w'))" "r \<noteq> 0"
    and inv: "register_inv T (activated t r b)"
  shows "\<exists>Y'. moves S H Y Y' w w' \<and> keeps_live L w w' \<and> allocator_owned T os hc hl pl S (activated t r b, w') Y' L"
proof -
  note d = allocator_ownedD [OF o]
  let ?p = "local_heap_address T (m_active_local_heap_count a) a" and ?l = "a\<lparr>m_allocator_lock := 1\<rparr>"
  obtain h where h: "heap_create (LocalHeapType T) pl (heap_new (LocalHeapType T), w) = Some (True, (h, w'))"
    "b = ?l\<lparr>local_heaps := (local_heaps a)(?p := h)\<rparr>" "r = ?p"
    using created_local_heap [OF c] d(3) by (auto simp: local_heap_address_def)
  obtain Z where Z: "moves S H {} Z w w'" "heap_owned os S hl (h, w') Z Map.empty" using new_local_heap [OF d(1) ar al h(1)] by blast
  then have "place_owned os S hc hl (Local ?p) (h, w') Z Map.empty" by (simp add: place_owned_def place_policy_def is_cached_def)
  note ins = places.collective_insert [OF d(5) H places_created(1) [OF d(2) le] Z(1) this]
  have pl: "allocator_places T (activated t r b) = insert (Local ?p) (allocator_places T a)"
    using places_created(3) [OF d(2) le, of t r] unfolding h(2) by (simp add: allocator_places_def activated_def local_heap_address_def)
  have n: "Cached ?p \<notin> insert (Local ?p) (allocator_places T a)" using places_created(2) [OF d(2) le] by simp
  have "place_heap (activated t r b) i = place_heap (a\<lparr>local_heaps := (local_heaps a)(?p := h)\<rparr>) i" for i
    by (cases i) (auto simp: place_heap_def h(2) activated_def)
  then have "((place_heap a)(Local ?p := h)) i = place_heap (activated t r b) i" if "i \<in> insert (Local ?p) (allocator_places T a)" for i
    using place_heap_local [OF that n, of a h] by simp
  then have "places.collective os S hc hl (insert (Local ?p) (allocator_places T a)) ((place_heap a)(Local ?p := h)) w' (Y \<union> Z) L
    = places.collective os S hc hl (insert (Local ?p) (allocator_places T a)) (place_heap (activated t r b)) w' (Y \<union> Z) L"
    by (rule places.collective_cong)
  then have "places.collective os S hc hl (allocator_places T (activated t r b)) (place_heap (activated t r b)) w' (Y \<union> Z) L"
    using ins(1) unfolding pl by blast
  then have "allocator_owned T os hc hl pl S (activated t r b, w') (Y \<union> Z) L"
    using d(1,3,4) inv unfolding allocator_owned_def prod.case by (simp add: h(2) activated_def)
  moreover have "untouched Y w w'" by (rule untouched_mono [OF _ H]) (use Z(1) in \<open>simp add: moves_def\<close>)
  then have "keeps_live L w w'" by (rule places.collective_untouched [OF d(5)])
  ultimately show ?thesis using ins(2) by blast
qed

text \<open>A thread that has, takes or creates a heap; the creation is assumed to succeed.\<close>

lemma allocator_ready:
  assumes o: "allocator_owned T os hc hl pl S (a, w) Y L" and ar: "arena_inv (arena w, w) H" and H: "Y \<subseteq> H" and al: "arena_aligned S (arena w)"
    and g: "get_thread_local_heap T t (a, w) = Some (r, (a', w'))"
    and ok: "r = 0 \<longrightarrow> m_active_local_heap_count a' = m_active_local_heap_count a"
  shows "\<exists>Y'. moves S H Y Y' w w' \<and> keeps_live L w w' \<and> allocator_owned T os hc hl pl S (a', w') Y' L"
proof -
  have inv: "register_inv T a" "register_inv T a'" using allocator_ownedD(2) [OF o] get_thread_local_heap_ok(1) [OF _ g] by blast+
  from inv(1) g show ?thesis
  proof (cases rule: get_heap_cases)
    case same
    then show ?thesis using o moves_refl [OF ar H] by (auto simp: keeps_live_def)
  next
    case taken
    have "allocator_owned T os hc hl pl S (a', w) Y L" using allocator_taken [OF o taken(1)] inv(2) unfolding taken(4) by blast
    then show ?thesis using moves_refl [OF ar H] taken(2) by (auto simp: keeps_live_def)
  next
    case (created b)
    have "m_active_local_heap_count b = m_active_local_heap_count a"
      using create_local_heap_register(1) [OF created(2)] by (simp add: same_register_def)
    then have "r \<noteq> 0" using ok created(3) by (auto simp: activated_def)
    from allocator_extended [OF o ar H al created(1,2) this] inv(2) show ?thesis unfolding created(3) by blast
  qed
qed

lemma thread_heap_place:
  assumes "register_inv T a" "thread_heap t a \<noteq> 0"
  shows "Local (thread_heap t a) \<in> allocator_places T a"
  using assms by (auto simp: register_inv_def allocator_places_def)

subsection \<open>Allocation\<close>

lemma on_place_eqs:
  "on_central_heap f (a, w) = map_option (\<lambda>(r, h, w'). (r, put_place Central h a, w')) (f (place_heap a Central, w))"
  "on_local_heap p f (a, w) = map_option (\<lambda>(r, h, w'). (r, put_place (Local p) h a, w')) (f (place_heap a (Local p), w))"
  by (auto simp: on_central_heap_def on_local_heap_def place_heap_def put_place_def map_option_case split: option.splits bind_splits)

text \<open>The answer to a request, in the terms of the contract of a tenant.\<close>

definition served ::
  "(SimpleHeapPow2, HeapCreationParams) allocator_policy \<Rightarrow> os \<Rightarrow> heap_policy \<Rightarrow> heap_policy \<Rightarrow> HeapCreationParams \<Rightarrow> u64 \<Rightarrow> nat set \<Rightarrow> nat set
   \<Rightarrow> (u64 \<rightharpoonup> nat) \<Rightarrow> world \<Rightarrow> u64 \<Rightarrow> (u64 \<times> (SimpleHeapPow2, HeapCreationParams) allocator_state) option \<Rightarrow> bool" where
  "served T os hc hl pl S H Y L w sz x \<longleftrightarrow> (\<exists>r a' w' Y'. x = Some (r, a', w') \<and> moves S H Y Y' w w' \<and> keeps_live L w w'
    \<and> (r = 0 \<longrightarrow> allocator_owned T os hc hl pl S (a', w') Y' L)
    \<and> (r \<noteq> 0 \<longrightarrow> L r = None \<and> (\<exists>k \<ge> unat sz. allocator_owned T os hc hl pl S (a', w') Y' (L(r \<mapsto> k)))))"

lemma place_served:
  assumes m: "moves S H Y Y1 w w1" "keeps_live L w w1" and o: "allocator_owned T os hc hl pl S (a1, w1) Y1 L" and al: "arena_aligned S (arena w)"
    and i: "i \<in> allocator_places T a1" and sv: "place_serves os hc hl i sz (place_heap a1 i, w1)"
  shows "served T os hc hl pl S H Y L w sz (map_option (\<lambda>(r, h, w'). (r, put_place i h a1, w'))
    (SimpleHeapPow2_allocate (place_policy hc hl i) os sz (place_heap a1 i, w1)))"
proof -
  let ?H = "H - Y \<union> Y1"
  have q: "arena_inv (arena w1, w1) ?H" "Y1 \<subseteq> ?H" "arena_aligned S (arena w1)" using m(1) al by (auto simp: moves_def)
  have n: "\<not> is_cached i" using sv by (simp add: place_serves_def)
  obtain r h w' Y' where c: "SimpleHeapPow2_allocate (place_policy hc hl i) os sz (place_heap a1 i, w1) = Some (r, h, w')" "moves S ?H Y1 Y' w1 w'"
    "keeps_live L w1 w'" "r = 0 \<longrightarrow> places.collective os S hc hl (allocator_places T a1) ((place_heap a1)(i := h)) w' Y' L"
    "r \<noteq> 0 \<longrightarrow> L r = None \<and> (\<exists>k \<ge> unat sz. places.collective os S hc hl (allocator_places T a1) ((place_heap a1)(i := h)) w' Y' (L(r \<mapsto> k)))"
    using places.collective_alloc [OF allocator_ownedD(5) [OF o] i q sv] by blast
  have "moves S H Y Y' w w'" "keeps_live L w w'" using moves_trans [OF m(1) c(2)] keeps_live_trans [OF m(2) c(3)] .
  moreover have "r = 0 \<longrightarrow> allocator_owned T os hc hl pl S (put_place i h a1, w') Y' L"
    "r \<noteq> 0 \<longrightarrow> L r = None \<and> (\<exists>k \<ge> unat sz. allocator_owned T os hc hl pl S (put_place i h a1, w') Y' (L(r \<mapsto> k)))"
    using c(4,5) allocator_owned_place [OF o i n] by blast+
  ultimately show ?thesis unfolding served_def c(1) option.map prod.case by blast
qed

text \<open>The requests that are served: the memory for the heap of a new thread is there, and for the central heap if the heap
  of the thread has no room.\<close>

definition allocator_serves ::
  "(SimpleHeapPow2, HeapCreationParams) allocator_policy \<Rightarrow> os \<Rightarrow> heap_policy \<Rightarrow> nat \<Rightarrow> u64
   \<Rightarrow> (SimpleHeapPow2, HeapCreationParams) allocator_state \<Rightarrow> bool" where
  "allocator_serves T os hc t sz s \<longleftrightarrow> unat sz + 32 < 2 ^ 64 \<and>
     (case get_thread_local_heap T t s of None \<Rightarrow> False
      | Some (lh, s1) \<Rightarrow> (lh = 0 \<longrightarrow> m_active_local_heap_count (fst s1) = m_active_local_heap_count (fst s)) \<and>
          (case (if lh \<noteq> 0 then on_local_heap lh (heap_allocate (LocalHeapType T) sz) s1 else Some (0, s1)) of None \<Rightarrow> True
           | Some (ret, s2) \<Rightarrow> ret = 0 \<longrightarrow> heap_serves hc os sz (m_central_heap (fst s2), snd s2)))"

lemma allocator_owned_alloc:
  assumes o: "allocator_owned T os hc hl pl S (a, w) Y L" and ar: "arena_inv (arena w, w) H" and H: "Y \<subseteq> H" and al: "arena_aligned S (arena w)"
    and sv: "allocator_serves T os hc t sz (a, w)"
  shows "served T os hc hl pl S H Y L w sz (ScalableAllocator_allocate T t sz (a, w))"
proof -
  have T: "heap_allocate (CentralHeapType T) = SimpleHeapPow2_allocate hc os" "heap_allocate (LocalHeapType T) = SimpleHeapPow2_allocate hl os"
    "heap_concurrency hl = THREAD_LOCAL" using allocator_ownedD(1) [OF o] by (auto simp: allocator_setup_def pow2_heap_class_def)
  obtain lh a1 w1 where g: "get_thread_local_heap T t (a, w) = Some (lh, (a1, w1))"
    using sv by (auto simp: allocator_serves_def split: option.splits)
  have ok: "lh = 0 \<longrightarrow> m_active_local_heap_count a1 = m_active_local_heap_count a" "unat sz + 32 < 2 ^ 64"
    using sv g by (auto simp: allocator_serves_def)
  obtain Y1 where r: "moves S H Y Y1 w w1" "keeps_live L w w1" "allocator_owned T os hc hl pl S (a1, w1) Y1 L"
    using allocator_ready [OF o ar H al g ok(1)] by blast
  have central: "served T os hc hl pl S H Y L w sz (on_central_heap (SimpleHeapPow2_allocate hc os sz) (b, v))"
    if "moves S H Y Z w v" "keeps_live L w v" "allocator_owned T os hc hl pl S (b, v) Z L" "heap_serves hc os sz (m_central_heap b, v)" for b v Z
    using place_served [OF that(1-3) al, of Central sz] that(4)
    by (simp add: allocator_places_def place_serves_def is_cached_def place_policy_def place_heap_def on_place_eqs(1))
  show ?thesis
  proof (cases "lh = 0")
    case True
    then have "ScalableAllocator_allocate T t sz (a, w) = on_central_heap (SimpleHeapPow2_allocate hc os sz) (a1, w1)"
      using g by (simp add: ScalableAllocator_allocate_def T(1))
    moreover have "heap_serves hc os sz (m_central_heap a1, w1)" using sv g True by (simp add: allocator_serves_def)
    ultimately show ?thesis using central [OF r] by simp
  next
    case False
    have p: "Local lh \<in> allocator_places T a1"
      using thread_heap_place [OF allocator_ownedD(2) [OF r(3)], of t] get_thread_local_heap_ok(2) [OF allocator_ownedD(2) [OF o] g] False by simp
    have "place_serves os hc hl (Local lh) sz (place_heap a1 (Local lh), w1)"
      using ok(2) T(3) by (simp add: place_serves_def is_cached_def place_policy_def heap_serves_def)
    from place_served [OF r al p this]
    have loc: "served T os hc hl pl S H Y L w sz (on_local_heap lh (SimpleHeapPow2_allocate hl os sz) (a1, w1))"
      by (simp add: place_policy_def on_place_eqs(2))
    then obtain x b v Z where x: "on_local_heap lh (SimpleHeapPow2_allocate hl os sz) (a1, w1) = Some (x, (b, v))" "moves S H Y Z w v" "keeps_live L w v"
      "x = 0 \<longrightarrow> allocator_owned T os hc hl pl S (b, v) Z L" unfolding served_def by blast
    have eq: "ScalableAllocator_allocate T t sz (a, w) = (if x = 0 then on_central_heap (SimpleHeapPow2_allocate hc os sz) (b, v) else Some (x, (b, v)))"
      using g x(1) False by (simp add: ScalableAllocator_allocate_def T(1,2))
    show ?thesis
    proof (cases "x = 0")
      case True
      have "heap_serves hc os sz (m_central_heap b, v)" using sv g False x(1) True by (simp add: allocator_serves_def T(2))
      then show ?thesis using central [OF x(2,3)] x(4) True unfolding eq by simp
    next
      case nonnull: False
      then show ?thesis using loc x(1) unfolding eq by simp
    qed
  qed
qed

subsection \<open>Deallocation\<close>

text \<open>The search finds the heap that handed the pointer out.\<close>

lemma search_finds_owner:
  assumes st: "allocator_setup T os hc hl pl S" and inv: "register_inv T a"
    and f: "places.family os S hc hl (allocator_places T a) (place_heap a) w Ys Ls" and i: "i \<in> allocator_places T a" "Ls i p = Some k"
  shows "\<not> is_cached i" "find_local_heap T p (unat (m_active_local_heap_count a)) 0 a = (case i of Local q \<Rightarrow> Some q | _ \<Rightarrow> None)"
    "j < unat (m_active_local_heap_count a) \<Longrightarrow> HeapBase_owns_pointer p (local_heaps a (local_heap_address T (of_nat j) a))
       \<longleftrightarrow> i = Local (local_heap_address T (of_nat j) a)"
proof -
  let ?f = "\<lambda>j. local_heap_address T (of_nat j) a" and ?n = "unat (m_active_local_heap_count a)"
  have T: "heap_owns_pointer (LocalHeapType T) = HeapBase_owns_pointer" "heap_concurrency hl = THREAD_LOCAL"
    using st by (auto simp: allocator_setup_def pow2_heap_class_def)
  have own: "place_owned os S hc hl j (place_heap a j, w) (Ys j) (Ls j)" if "j \<in> allocator_places T a" for j
    using f that by (simp add: places.family_def)
  show nc: "\<not> is_cached i" using own [OF i(1)] i(2) by (auto simp: place_owned_def)
  have loc: "Local (?f j) \<in> allocator_places T a" if "j < ?n" for j using that by (auto simp: allocator_places_def)
  have ho: "heap_owned os S hl (local_heaps a (?f j), w) (Ys (Local (?f j))) (Ls (Local (?f j)))" if "j < ?n" for j
    using own [OF loc [OF that]] by (simp add: place_owned_def place_policy_def place_heap_def)
  show iff: "HeapBase_owns_pointer p (local_heaps a (?f j)) \<longleftrightarrow> i = Local (?f j)" if j: "j < ?n" for j
  proof
    assume "HeapBase_owns_pointer p (local_heaps a (?f j))"
    then have "unat p \<in> Ys (Local (?f j))" by (rule local_heap_range(1) [OF ho [OF j] T(2)])
    then show "i = Local (?f j)" using places.family_owner(4) [OF f i, of "Local (?f j)"] loc [OF j] by blast
  next
    assume "i = Local (?f j)"
    then show "HeapBase_owns_pointer p (local_heaps a (?f j))" using local_heap_range(2) [OF ho [OF j] T(2)] i(2) by simp
  qed
  show "find_local_heap T p ?n 0 a = (case i of Local q \<Rightarrow> Some q | _ \<Rightarrow> None)"
  proof (cases i)
    case Central
    then show ?thesis using find_local_heap_none [of ?n T p a 0] iff by (simp add: T(1))
  next
    case (Local q)
    then obtain j where j: "j < ?n" "q = ?f j" using i(1) by (auto simp: allocator_places_def)
    have "\<not> HeapBase_owns_pointer p (local_heaps a (?f j'))" if "j' < j" for j'
      using iff [of j'] that j Local heap_address_inj [OF inv, of j j'] active_le_max [OF inv] by simp
    then show ?thesis using find_local_heap_some [OF j(1), of T p a 0] iff [OF j(1)] Local j(2) by (simp add: T(1))
  next
    case (Cached q)
    then show ?thesis using nc by (simp add: is_cached_def)
  qed
qed

lemma deallocate_in_place:
  assumes o: "allocator_owned T os hc hl pl S (a, w) Y L" and p: "L p = Some k"
  obtains i Ys Ls where "i \<in> allocator_places T a" "\<not> is_cached i" "places.family os S hc hl (allocator_places T a) (place_heap a) w Ys Ls"
    "Y = (\<Union>i\<in>allocator_places T a. Ys i)" "joined_over (allocator_places T a) Ls L" "Ls i p = Some k"
    "ScalableAllocator_deallocate T p (a, w) = map_option (\<lambda>(h, w'). (put_place i h a, w'))
       (SimpleHeapPow2_deallocate (place_policy hc hl i) os p (place_heap a i, w))"
    "find_local_heap T p (unat (m_active_local_heap_count a)) 0 a = (case i of Local q \<Rightarrow> Some q | _ \<Rightarrow> None)"
    "\<forall>j < unat (m_active_local_heap_count a). HeapBase_owns_pointer p (local_heaps a (local_heap_address T (of_nat j) a))
       \<longleftrightarrow> i = Local (local_heap_address T (of_nat j) a)"
proof -
  note d = allocator_ownedD [OF o]
  have T: "heap_deallocate (CentralHeapType T) = SimpleHeapPow2_deallocate hc os" "heap_deallocate (LocalHeapType T) = SimpleHeapPow2_deallocate hl os"
    using d(1) by (auto simp: allocator_setup_def pow2_heap_class_def)
  have p0: "p \<noteq> 0" using places.collective_live [OF d(5) p] by blast
  obtain i Ys Ls where i: "i \<in> allocator_places T a" "places.family os S hc hl (allocator_places T a) (place_heap a) w Ys Ls"
    "Y = (\<Union>i\<in>allocator_places T a. Ys i)" "joined_over (allocator_places T a) Ls L" "Ls i p = Some k"
    by (rule places.collective_owner [OF d(5) p])
  note s = search_finds_owner [OF d(1,2) i(2,1,5)]
  have "ScalableAllocator_deallocate T p (a, w) = map_option (\<lambda>(h, w'). (put_place i h a, w'))
       (SimpleHeapPow2_deallocate (place_policy hc hl i) os p (place_heap a i, w))"
  proof (cases "SimpleHeapPow2_deallocate (place_policy hc hl i) os p (place_heap a i, w)")
    case None
    then show ?thesis using s p0
      by (cases i) (simp_all add: ScalableAllocator_deallocate_def on_place_eqs T place_policy_def returning_unit_def is_cached_def)
  next
    case (Some x)
    then show ?thesis using s p0
      by (cases i; cases x) (simp_all add: ScalableAllocator_deallocate_def on_place_eqs T place_policy_def returning_unit_def is_cached_def)
  qed
  then show ?thesis using that i s by blast
qed

lemma allocator_owned_dealloc:
  assumes o: "allocator_owned T os hc hl pl S (a, w) Y L" and ar: "arena_inv (arena w, w) H" and H: "Y \<subseteq> H" and p: "L p = Some k"
    and d: "ScalableAllocator_deallocate T p (a, w) = Some (a', w')"
  shows "\<exists>Y'. moves S H Y Y' w w' \<and> keeps_live (L(p := None)) w w' \<and> allocator_owned T os hc hl pl S (a', w') Y' (L(p := None))"
proof -
  obtain i Ys Ls where i: "i \<in> allocator_places T a" "\<not> is_cached i" "places.family os S hc hl (allocator_places T a) (place_heap a) w Ys Ls"
    "Y = (\<Union>i\<in>allocator_places T a. Ys i)" "joined_over (allocator_places T a) Ls L" "Ls i p = Some k"
    "ScalableAllocator_deallocate T p (a, w) = map_option (\<lambda>(h, w'). (put_place i h a, w'))
       (SimpleHeapPow2_deallocate (place_policy hc hl i) os p (place_heap a i, w))"
    by (rule deallocate_in_place [OF o p])
  obtain h where h: "SimpleHeapPow2_deallocate (place_policy hc hl i) os p (place_heap a i, w) = Some (h, w')" "a' = put_place i h a"
    using d unfolding i(7) by auto
  obtain Y' where "moves S H Y Y' w w'" "keeps_live (L(p := None)) w w'"
    "places.collective os S hc hl (allocator_places T a) ((place_heap a)(i := h)) w' Y' (L(p := None))"
    using places.family_dealloc [OF i(3,5,1,6) ar H [unfolded i(4)] h(1)] unfolding i(4) by blast
  then show ?thesis using allocator_owned_place [OF o i(1,2)] unfolding h(2) by blast
qed

text \<open>So the allocator is a tenant, for the calls of every thread.\<close>

interpretation allocators: tenants "\<lambda>t :: nat. allocator_owned T os hc hl pl S" "ScalableAllocator_allocate T"
  "\<lambda>t. ScalableAllocator_deallocate T" "allocator_serves T os hc" S
  for T os hc hl pl S
proof (unfold_locales, goal_cases)
  case (1 t a w Y L w')
  have "places.collective os S hc hl (allocator_places T a) (place_heap a) w' Y L"
    by (rule places.collective_frame [OF allocator_ownedD(5) [OF 1(1)] 1(2,3)])
  then show ?case using 1(1) by (simp add: allocator_owned_def)
next
  case (2 t a w Y L p k)
  then show ?case by (rule places.collective_live [OF allocator_ownedD(5)])
next
  case (3 t a w Y L p k q j)
  then show ?case by (rule places.collective_disjoint [OF allocator_ownedD(5)])
next
  case (4 t a w Y L H sz)
  from allocator_owned_alloc [OF 4] show ?case unfolding served_def .
next
  case (5 t a w Y L H p k a' w')
  then show ?case by (rule allocator_owned_dealloc)
next
  case (6 t a w Y L p k x v)
  have "places.collective os S hc hl (allocator_places T a) (place_heap a) (world_poke x v w) Y L"
    by (rule places.collective_poke [OF allocator_ownedD(5) [OF 6(1)] 6(2,3)])
  then show ?case using 6(1) by (simp add: allocator_owned_def)
qed

subsection \<open>The end of a thread\<close>

text \<open>The pages of the heap of a thread that ends move to the central heap, but the heap keeps the buffer by which
  \<open>deallocate\<close> finds it: a pointer on such a page is still freed into the queue of the heap that no thread has.\<close>

lemma transfer_bins_buffer:
  "transfer_bins n i from s = Some (from', s') \<Longrightarrow> hb_buffer_address from' = hb_buffer_address from \<and> hb_buffer_length from' = hb_buffer_length from"
proof (induction n arbitrary: i "from" s)
  case (Suc n)
  then obtain fsg s1 where "transfer_bins n (Suc i) (from\<lparr>sh_bins := (sh_bins from)[i := fsg]\<rparr>) s1 = Some (from', s')"
    by (auto split: bind_splits)
  from Suc.IH [OF this] show ?case by simp
qed simp

lemma transfer_keeps_buffer:
  assumes "SimpleHeapPow2_transfer_logical_pages_from from s = Some (from', s')"
  shows "HeapBase_owns_pointer q from' = HeapBase_owns_pointer q from"
proof -
  obtain fsg s1 where "transfer_bins SMALL_OBJECT_BIN_COUNT 0 (from\<lparr>sh_big_object_bin := fsg\<rparr>) s1 = Some (from', s')"
    using assms by (auto simp: SimpleHeapPow2_transfer_logical_pages_from_def split: bind_splits)
  from transfer_bins_buffer [OF this] show ?thesis by (simp add: HeapBase_owns_pointer_def)
qed

lemma find_local_heap_cong:
  assumes "m_metadata_buffer a' = m_metadata_buffer a"
    and "\<And>x. heap_owns_pointer (LocalHeapType T) q (local_heaps a' x) = heap_owns_pointer (LocalHeapType T) q (local_heaps a x)"
  shows "find_local_heap T q n i a' = find_local_heap T q n i a"
  using assms by (induction n arbitrary: i) (simp_all add: local_heap_address_def Let_def)

theorem ended_thread_keeps_pointers:
  assumes st: "allocator_setup T os hc hl pl S" and e: "thread_exit T t (a, w) = Some (a', w')"
  shows "find_local_heap T q n i a' = find_local_heap T q n i a"
proof -
  let ?v = "thread_heap t a" and ?b = "a\<lparr>thread_local_storage := ThreadLocalStorage_set t 0 (thread_local_storage a)\<rparr>"
  have T: "heap_owns_pointer (LocalHeapType T) = HeapBase_owns_pointer"
    "heap_transfer_logical_pages_from (CentralHeapType T) = SimpleHeapPow2_transfer_logical_pages_from"
    using st by (auto simp: allocator_setup_def pow2_heap_class_def)
  let ?call = "SimpleHeapPow2_transfer_logical_pages_from (local_heaps a ?v) (m_central_heap a, w)"
  consider "m_metadata_buffer a' = m_metadata_buffer a" "local_heaps a' = local_heaps a"
    | h s where "?call = Some (h, s)" "m_metadata_buffer a' = m_metadata_buffer a" "local_heaps a' = (local_heaps a)(?v := h)"
  proof (cases "?v \<noteq> 0 \<and> m_initialised_successfully a = True \<and> m_shutdown_started a = False")
    case True
    then obtain h s where "?call = Some (h, s)"
      using e by (cases ?call) (auto simp: thread_exit_def thread_heap_def thread_specific_destructor_def on_central_heap_def T Let_def)
    moreover then have "m_metadata_buffer a' = m_metadata_buffer a" "local_heaps a' = (local_heaps a)(?v := h)"
      using e True by (cases s; auto simp: thread_exit_def thread_heap_def thread_specific_destructor_def on_central_heap_def T Let_def)+
    ultimately show ?thesis using that(2) by blast
  next
    case False
    then show ?thesis using that(1) e
      by (auto simp: thread_exit_def thread_heap_def thread_specific_destructor_def Let_def split: if_splits)
  qed
  then show ?thesis
  proof cases
    case 1
    then show ?thesis by (intro find_local_heap_cong) simp_all
  next
    case (2 h s)
    then show ?thesis using transfer_keeps_buffer [OF 2(1)] by (intro find_local_heap_cong) (simp_all add: T)
  qed
qed

end
