(* ===== verification/Allocator_Creation.thy ===== *)
theory Allocator_Creation
  imports Allocator_Tenancy
begin

text \<open>
  \<open>ScalableAllocator::create\<close> establishes the invariant of Allocator_Tenancy: the arena, the metadata buffer, the central
  heap and the cached local heaps.
\<close>

subsection \<open>The arena\<close>

lemma arena_create_ok:
  assumes os: "os_ok os" and g: "arena_geometry (arena w)" and S: "0 < unat S" "4096 dvd unat S"
    and n: "4096 dvd unat cap" "unat cap + unat S < 2 ^ 64" and c: "Arena_create P os cap S (arena w, w) = Some (True, ar, v)"
  shows "arena_inv (ar, v) {}" "arena_aligned S ar"
proof -
  let ?l = "if lock_policy P = NO_LOCK then 0 else 1 :: u32"
  let ?a = "(arena w)\<lparr>m_arena_lock := ?l, m_page_alignment := S\<rparr>"
  have l: "m_arena_lock (arena w) = 0" using g by (simp add: arena_geometry_def)
  let ?b = "\<lambda>p. (arena w)\<lparr>m_page_alignment := S, m_cache_buffer := p, m_cache_used_size := 0, m_cache_size := cap, m_arena_lock := 0\<rparr>"
  from os S n have "\<exists>p. ar = ?b p
    \<and> unat S dvd unat p \<and> fresh_block w v p (unat cap)"
  proof (cases rule: allocate_aligned_ok [where P = P and w = w])
    case (fail w')
    then show ?thesis using c l by (auto simp: Arena_create_def build_cache_def split: if_splits)
  next
    case (ok p w')
    then have "p \<noteq> 0" by (simp add: fresh_block_def)
    then have "ar = ?b p" "v = w'" using c l ok by (auto simp: Arena_create_def build_cache_def split: if_splits)
    then show ?thesis using ok(2,3) by blast
  qed
  then obtain p where p: "ar = ?b p" "unat S dvd unat p" "p \<noteq> 0" "unat p + unat cap < 2 ^ 64" "\<forall>x\<in>region p (unat cap). is_mapped (vm v) x"
    unfolding fresh_block_def by blast
  then show "arena_aligned S ar" by (simp add: arena_aligned_def)
  show "arena_inv (ar, v) {}" using p g S n(1) by (simp add: arena_inv_def arena_geometry_def spare_def region_def)
qed

text \<open>The metadata buffer is new memory of the system and leaves the arena alone.\<close>

lemma metadata_keeps_arena:
  assumes os: "os_ok os" and ar: "arena_inv (arena w, w) H" and m: "MetadataAllocator_allocate os n w = (b, w')"
  shows "arena_inv (arena w', w') H" "arena w' = arena w"
proof -
  have k: "keeps {} w w'" using vm_allocate_fresh [OF os m [unfolded MetadataAllocator_allocate_def]] by (auto simp: fresh_block_def)
  then show e: "arena w' = arena w" by (auto simp: keeps_def)
  show "arena_inv (arena w', w') H" using ar k unfolding arena_inv_def prod.case e by (auto simp: keeps_def)
qed

subsection \<open>The cached heaps\<close>

definition cached_places :: "('h, 'p) allocator_policy \<Rightarrow> ('h, 'p) ScalableAllocator \<Rightarrow> nat \<Rightarrow> place set" where
  "cached_places T a n = insert Central ((\<lambda>j. Cached (local_heap_address T (of_nat j) a)) ` {..<n})"

lemma cached_places_all:
  "m_active_local_heap_count a = 0 \<Longrightarrow> cached_places T a (unat (m_cached_thread_local_heap_count a)) = allocator_places T a"
  by (simp add: cached_places_def allocator_places_def atLeast0LessThan)

lemma cached_places_same: "m_metadata_buffer b = m_metadata_buffer a \<Longrightarrow> cached_places T b n = cached_places T a n"
  by (simp add: cached_places_def local_heap_address_def)

lemma cached_places_Suc: "cached_places T a (Suc n) = insert (Cached (local_heap_address T (of_nat n) a)) (cached_places T a n)"
  by (auto simp: cached_places_def lessThan_Suc)

lemma place_heap_cached:
  assumes "i \<in> cached_places T b n"
  shows "((place_heap a)(Cached p := h)) i = place_heap (a\<lparr>local_heaps := (local_heaps a)(p := h)\<rparr>) i"
  using assms by (cases i) (auto simp: cached_places_def place_heap_def split: if_splits)

text \<open>The state while the heaps below \<open>i\<close> have been created.\<close>

definition caching ::
  "(SimpleHeapPow2, HeapCreationParams) allocator_policy \<Rightarrow> os \<Rightarrow> heap_policy \<Rightarrow> heap_policy \<Rightarrow> HeapCreationParams \<Rightarrow> u64 \<Rightarrow> nat set \<Rightarrow> world
   \<Rightarrow> nat \<Rightarrow> (SimpleHeapPow2, HeapCreationParams) allocator_state \<Rightarrow> bool" where
  "caching T os hc hl pl S H w0 i = (\<lambda>(a, w). register_inv T a \<and> m_local_heap_creation_params a = pl
     \<and> (\<exists>U. moves S H {} U w0 w \<and> places.collective os S hc hl (cached_places T a i) (place_heap a) w U Map.empty))"

lemma caching_step:
  assumes st: "allocator_setup T os hc hl pl S" and al: "arena_aligned S (arena w0)" and c: "caching T os hc hl pl S H w0 i (a, w)"
    and i: "i < unat (m_max_thread_local_heap_count a)" and l: "create_local_heap T (of_nat i) (a, w) = Some (r, (b, w'))" "r \<noteq> 0"
  shows "caching T os hc hl pl S H w0 (Suc i) (b, w')"
proof -
  let ?p = "local_heap_address T (of_nat i) a"
  obtain U where d: "register_inv T a" "m_local_heap_creation_params a = pl" "moves S H {} U w0 w"
    "places.collective os S hc hl (cached_places T a i) (place_heap a) w U Map.empty" using c by (auto simp: caching_def)
  obtain h where h: "heap_create (LocalHeapType T) pl (heap_new (LocalHeapType T), w) = Some (True, (h, w'))"
    "b = a\<lparr>local_heaps := (local_heaps a)(?p := h)\<rparr>" using created_local_heap [OF l] d(2) by metis
  have m: "arena_inv (arena w, w) (H \<union> U)" "arena_aligned S (arena w)" using d(3) al by (auto simp: moves_def)
  obtain Z where Z: "moves S (H \<union> U) {} Z w w'" "heap_owned os S hl (h, w') Z Map.empty" using new_local_heap [OF st m h(1)] by blast
  then have o: "place_owned os S hc hl (Cached ?p) (h, w') Z Map.empty" by (simp add: place_owned_def place_policy_def)
  have new: "Cached ?p \<notin> cached_places T a i" 
  proof
    assume "Cached ?p \<in> cached_places T a i"
    then obtain j where "j < i" "?p = local_heap_address T (of_nat j) a" by (auto simp: cached_places_def)
    then show False using heap_address_inj [OF d(1) i, of j] i by simp
  qed
  note ins = places.collective_insert [OF d(4) _ new Z(1) o]
  have "((place_heap a)(Cached ?p := h)) j = place_heap b j" if "j \<in> cached_places T a (Suc i)" for j
    using place_heap_cached [OF that, of a ?p h] by (simp only: h(2))
  then have "places.collective os S hc hl (cached_places T a (Suc i)) ((place_heap a)(Cached ?p := h)) w' (U \<union> Z) Map.empty
    = places.collective os S hc hl (cached_places T a (Suc i)) (place_heap b) w' (U \<union> Z) Map.empty" by (rule places.collective_cong)
  then have co: "places.collective os S hc hl (cached_places T b (Suc i)) (place_heap b) w' (U \<union> Z) Map.empty"
    using ins(1) cached_places_same [of b a T "Suc i"] h(2) by (simp add: cached_places_Suc)
  have "moves S (H - {} \<union> U) U (U \<union> Z) w w'" using ins(2) by simp
  then have mv: "moves S H {} (U \<union> Z) w0 w'" by (rule moves_trans [OF d(3)])
  have r: "register_inv T b" using create_local_heap_register(1) [OF l(1)] register_inv_same d(1) by blast
  have "m_local_heap_creation_params b = pl" using d(2) by (simp add: h(2))
  then show ?thesis using co mv r unfolding caching_def prod.case by blast
qed

lemma caching_loop:
  assumes st: "allocator_setup T os hc hl pl S" and al: "arena_aligned S (arena w0)"
  shows "create_cached_heaps T n (of_nat i) (a, w) = Some (True, (b, w')) \<Longrightarrow> caching T os hc hl pl S H w0 i (a, w)
    \<Longrightarrow> i + n \<le> unat (m_max_thread_local_heap_count a)
    \<Longrightarrow> caching T os hc hl pl S H w0 (i + n) (b, w') \<and> m_cached_thread_local_heap_count b = m_cached_thread_local_heap_count a"
proof (induction n arbitrary: i a w)
  case (Suc n)
  obtain r a1 w1 where l: "create_local_heap T (of_nat i) (a, w) = Some (r, (a1, w1))" "r \<noteq> 0"
    "create_cached_heaps T n (of_nat i + 1) (a1, w1) = Some (True, (b, w'))"
    using Suc.prems(1) by (auto split: bind_splits if_splits)
  have c: "caching T os hc hl pl S H w0 (Suc i) (a1, w1)" by (rule caching_step [OF st al Suc.prems(2) _ l(1,2)]) (use Suc.prems(3) in simp)
  have "m_max_thread_local_heap_count a1 = m_max_thread_local_heap_count a" using create_local_heap_register(1) [OF l(1)] by (simp add: same_register_def)
  moreover obtain h where "a1 = a\<lparr>local_heaps := (local_heaps a)(local_heap_address T (of_nat i) a := h)\<rparr>"
    using created_local_heap [OF l(1,2)] by metis
  ultimately show ?case using Suc.IH [of "Suc i" a1 w1] c l(3) Suc.prems(3) by (simp add: ac_simps)
qed simp

subsection \<open>The whole allocator\<close>

definition allocator_start ::
  "(SimpleHeapPow2, HeapCreationParams) allocator_policy \<Rightarrow> os \<Rightarrow> heap_policy \<Rightarrow> heap_policy \<Rightarrow> HeapCreationParams \<Rightarrow> HeapCreationParams
   \<Rightarrow> u64 \<Rightarrow> u64 \<Rightarrow> world \<Rightarrow> bool" where
  "allocator_start T os hc hl pc pl cap S w \<longleftrightarrow> allocator_setup T os hc hl pl S \<and> 0 < heap_sizeof (LocalHeapType T)
     \<and> supports_any_size (big_page_type hc) \<and> heap_params_ok hc pc \<and> hp_small_object_logical_page_size pc = S
     \<and> arena_geometry (arena w) \<and> 4096 dvd unat cap \<and> unat cap + unat S < 2 ^ 64"

lemma create_steps:
  assumes c: "ScalableAllocator_create T os key pc pl cap alignment metadata_size (a, w) = Some (True, (a', w'))"
  obtains ar v buf w2 h w3 tls d where
    "Arena_create (ArenaType T) os cap alignment (arena w, w) = Some (True, ar, v)"
    "MetadataAllocator_allocate os metadata_size (v\<lparr>arena := ar\<rparr>) = (buf, w2)"
    "heap_create (CentralHeapType T) pc (m_central_heap a, w2) = Some (True, (h, w3))"
    "create_heaps T (a\<lparr>m_metadata_buffer_size := metadata_size, m_metadata_buffer := buf, m_central_heap := h, thread_local_storage := tls,
       m_local_heap_creation_params := pl\<rparr>, w3) = Some (True, (d, w'))"
    "a' = d\<lparr>m_initialised_successfully := True\<rparr>"
proof -
  obtain ar v where ar: "Arena_create (ArenaType T) os cap alignment (arena w, w) = Some (True, ar, v)"
    using c unfolding ScalableAllocator_create_def prod.case
    by (cases "Arena_create (ArenaType T) os cap alignment (arena w, w)") (simp_all add: Let_def split: if_splits prod.splits)
  obtain buf w2 where m: "MetadataAllocator_allocate os metadata_size (v\<lparr>arena := ar\<rparr>) = (buf, w2)" by fastforce
  let ?b = "a\<lparr>m_metadata_buffer_size := metadata_size, m_metadata_buffer := buf\<rparr>"
  let ?call = "heap_create (CentralHeapType T) pc (m_central_heap a, w2)"
  obtain h w3 where e: "?call = Some (True, (h, w3))" and buf: "buf \<noteq> 0"
    using c ar m unfolding ScalableAllocator_create_def on_central_heap_def prod.case
    by (cases ?call) (simp_all add: Let_def split: if_splits prod.splits)
  obtain ok tls where t: "ThreadLocalStorage_create key (thread_local_storage a) = (ok, tls)" by fastforce
  let ?d = "?b\<lparr>m_central_heap := h, thread_local_storage := tls, m_local_heap_creation_params := pl\<rparr>"
  obtain d where d: "create_heaps T (?d, w3) = Some (True, (d, w'))" "a' = d\<lparr>m_initialised_successfully := True\<rparr>"
    using c ar m buf e t unfolding ScalableAllocator_create_def on_central_heap_def prod.case
    by (cases "create_heaps T (?d, w3)") (simp_all add: Let_def split: if_splits prod.splits)
  show ?thesis by (rule that [OF ar m e]) (use d in simp_all)
qed

text \<open>\<open>create_heaps\<close> bounds the number of the cached heaps and creates them.\<close>

lemma create_heaps_cached:
  assumes "create_heaps T (a, w) = Some (True, (d, w'))"
  obtains b where "create_cached_heaps T (unat (m_cached_thread_local_heap_count b)) 0 (b, w) = Some (True, (d, w'))"
    "m_cached_thread_local_heap_count b \<le> m_max_thread_local_heap_count b" "m_local_heap_creation_params b = m_local_heap_creation_params a"
    "place_heap b = place_heap a" "m_active_local_heap_count b = m_active_local_heap_count a"
proof -
  define e where "e = a\<lparr>m_max_thread_local_heap_count := m_metadata_buffer_size a div heap_sizeof (LocalHeapType T)\<rparr>"
  define b where "b = (if m_max_thread_local_heap_count e < m_cached_thread_local_heap_count e
    then e\<lparr>m_cached_thread_local_heap_count := m_max_thread_local_heap_count e\<rparr> else e)"
  have c: "create_cached_heaps T (unat (m_cached_thread_local_heap_count b)) 0 (b, w) = Some (True, (d, w'))"
    using assms unfolding create_heaps_def prod.case Let_def e_def [symmetric] b_def [symmetric] by (auto split: if_splits)
  have p: "place_heap b = place_heap a" by (auto simp: b_def e_def place_heap_def fun_eq_iff split: place.splits)
  show ?thesis by (rule that [OF c _ _ p]) (auto simp: b_def e_def)
qed

text \<open>The arena, the metadata buffer and the central heap.\<close>

lemma central_created:
  assumes st: "allocator_start T os hc hl pc pl cap S w" and a: "Arena_create (ArenaType T) os cap S (arena w, w) = Some (True, ar, v)"
    and m: "MetadataAllocator_allocate os metadata_size (v\<lparr>arena := ar\<rparr>) = (buf, w2)"
    and c: "heap_create (CentralHeapType T) pc (SimpleHeapPow2_new, w2) = Some (True, (h, w3))"
  shows "arena_aligned S (arena w2)" "\<exists>Y. moves S {} {} Y w2 w3 \<and> heap_owned os S hc (h, w3) Y Map.empty"
proof -
  have s: "supports_any_size (big_page_type hc)" "heap_params_ok hc pc" "hp_small_object_logical_page_size pc = S"
    "arena_geometry (arena w)" "4096 dvd unat cap" "unat cap + unat S < 2 ^ 64" using st by (auto simp: allocator_start_def)
  obtain z where hc: "os_ok os" "CentralHeapType T = pow2_heap_class hc os z" "heap_concurrency hc \<noteq> THREAD_LOCAL"
    using st by (auto simp: allocator_start_def allocator_setup_def)
  have S: "0 < unat S" "4096 dvd unat S" using s(2,3) by (auto simp: heap_params_ok_def Let_def is_power_of_two_def unat_gt_0)
  note ar = arena_create_ok [OF hc(1) s(4) S s(5,6) a]
  have "arena_inv (arena (v\<lparr>arena := ar\<rparr>), v\<lparr>arena := ar\<rparr>) {}" using ar(1) by (simp add: arena_inv_def)
  note mk = metadata_keeps_arena [OF hc(1) this m]
  show al: "arena_aligned S (arena w2)" using ar(2) mk(2) by simp
  have start: "heap_start hc os pc {} w2" using hc s(1-3) mk(1) al by (simp add: heap_start_def)
  have "SimpleHeapPow2_create hc os pc (SimpleHeapPow2_new, w2) = Some (True, (h, w3))" using c unfolding hc(2) by (simp add: pow2_heap_class_def)
  from heap_created_owned [OF start this] show "\<exists>Y. moves S {} {} Y w2 w3 \<and> heap_owned os S hc (h, w3) Y Map.empty" unfolding s(3) .
qed

lemma caching_start:
  assumes "register_inv T b" "m_local_heap_creation_params b = pl" "moves S H {} Y w0 w" "heap_owned os S hc (place_heap b Central, w) Y Map.empty"
  shows "caching T os hc hl pl S H w0 0 (b, w)"
proof -
  have "place_owned os S hc hl Central (place_heap b Central, w) Y Map.empty" using assms(4) by (simp add: place_owned_def place_policy_def)
  then have "places.family os S hc hl (cached_places T b 0) (place_heap b) w (\<lambda>_. Y) (\<lambda>_. Map.empty)"
    by (simp add: places.family_def cached_places_def)
  then have "places.collective os S hc hl (cached_places T b 0) (place_heap b) w Y Map.empty"
    unfolding places.collective_def by (intro exI [of _ "\<lambda>_. Y"] exI [of _ "\<lambda>_. Map.empty"]) (simp add: cached_places_def joined_over_def)
  then show ?thesis using assms(1-3) unfolding caching_def prod.case by blast
qed

lemma allocator_created:
  assumes st: "allocator_start T os hc hl pc pl cap S w"
    and c: "ScalableAllocator_create T os key pc pl cap S metadata_size
        (set_thread_local_heap_cache_count n (ScalableAllocator_new T p), w) = Some (True, (a', w'))"
  shows "\<exists>w0 Y. arena_aligned S (arena w0) \<and> moves S {} {} Y w0 w' \<and> allocator_owned T os hc hl pl S (a', w') Y Map.empty"
proof -
  let ?a = "set_thread_local_heap_cache_count n (ScalableAllocator_new T p)"
  have s: "allocator_setup T os hc hl pl S" "0 < heap_sizeof (LocalHeapType T)" using st by (auto simp: allocator_start_def)
  obtain ar v buf w2 h w3 tls d where k: "Arena_create (ArenaType T) os cap S (arena w, w) = Some (True, ar, v)"
    "MetadataAllocator_allocate os metadata_size (v\<lparr>arena := ar\<rparr>) = (buf, w2)"
    "heap_create (CentralHeapType T) pc (m_central_heap ?a, w2) = Some (True, (h, w3))"
    "create_heaps T (?a\<lparr>m_metadata_buffer_size := metadata_size, m_metadata_buffer := buf, m_central_heap := h, thread_local_storage := tls,
       m_local_heap_creation_params := pl\<rparr>, w3) = Some (True, (d, w'))" "a' = d\<lparr>m_initialised_successfully := True\<rparr>"
    by (rule create_steps [OF c])
  let ?e = "?a\<lparr>m_metadata_buffer_size := metadata_size, m_metadata_buffer := buf, m_central_heap := h, thread_local_storage := tls,
       m_local_heap_creation_params := pl\<rparr>"
  have new: "m_central_heap ?a = SimpleHeapPow2_new" "m_active_local_heap_count ?a = 0"
    using s(1) by (auto simp: set_thread_local_heap_cache_count_def ScalableAllocator_new_def allocator_setup_def pow2_heap_class_def)
  note ce = central_created [OF st k(1,2) k(3) [unfolded new(1)]]
  obtain Y where Y: "moves S {} {} Y w2 w3" "heap_owned os S hc (h, w3) Y Map.empty" using ce(2) by blast
  obtain b where b: "create_cached_heaps T (unat (m_cached_thread_local_heap_count b)) 0 (b, w3) = Some (True, (d, w'))"
    "m_cached_thread_local_heap_count b \<le> m_max_thread_local_heap_count b" "m_local_heap_creation_params b = m_local_heap_creation_params ?e"
    "place_heap b = place_heap ?e" "m_active_local_heap_count b = m_active_local_heap_count ?e"
    by (rule create_heaps_cached [OF k(4)])
  have os: "os_ok os" using s(1) by (simp add: allocator_setup_def)
  have r: "register_inv T a'" by (rule create_register_inv(1) [OF os s(2) c])
  have sr: "same_register b d" "same_register d a'" using create_cached_heaps_register [OF b(1)] by (simp_all add: k(5) same_register_def)
  have rb: "register_inv T b" using r register_inv_same [OF same_register_trans [OF sr]] by simp
  have "place_heap b Central = h" by (simp add: b(4) place_heap_def)
  then have c0: "caching T os hc hl pl S {} w2 0 (b, w3)" using caching_start [OF rb _ Y(1)] Y(2) b(3) by simp
  have b1: "create_cached_heaps T (unat (m_cached_thread_local_heap_count b)) (of_nat 0) (b, w3) = Some (True, (d, w'))" using b(1) by simp
  have le: "0 + unat (m_cached_thread_local_heap_count b) \<le> unat (m_max_thread_local_heap_count b)" using b(2) by (simp add: word_le_nat_alt)
  note loop = caching_loop [OF s(1) ce(1) b1 c0 le]
  have n: "m_cached_thread_local_heap_count d = m_cached_thread_local_heap_count b" "m_max_thread_local_heap_count d = m_max_thread_local_heap_count b"
    "m_active_local_heap_count d = 0" using loop sr(1) b(5) new(2) by (simp_all add: same_register_def)
  obtain U where U: "m_local_heap_creation_params d = pl" "moves S {} {} U w2 w'"
    "places.collective os S hc hl (cached_places T d (unat (m_cached_thread_local_heap_count d))) (place_heap d) w' U Map.empty"
    using loop n(1) by (auto simp: caching_def)
  have "place_heap a' = place_heap d" by (auto simp: k(5) place_heap_def fun_eq_iff split: place.splits)
  moreover have "allocator_places T a' = allocator_places T d" by (simp add: k(5) allocator_places_def local_heap_address_def)
  ultimately have "allocator_owned T os hc hl pl S (a', w') U Map.empty"
    using s(1) r U(1,3) n le cached_places_all [OF n(3)] unfolding allocator_owned_def prod.case by (simp add: k(5))
  then show ?thesis using ce(1) U(2) by blast
qed

end
