(* ===== verification/Shared_Allocator.thy ===== *)
theory Shared_Allocator
  imports Allocator_Creation
begin

text \<open>
  An allocator that several threads use, as a locale over the contract of Allocator_Contract, and the properties of the
  scalable allocator of the examples: whatever the threads do, in whatever order, they see one abstract allocator.
\<close>

subsection \<open>Threads that share an allocator\<close>

definition any_thread ::
  "('t \<Rightarrow> u64 \<Rightarrow> 's \<Rightarrow> (u64 \<times> 's) option) \<Rightarrow> (u64 \<Rightarrow> 's \<Rightarrow> 's option) \<Rightarrow> ('t \<Rightarrow> u64 \<Rightarrow> 's \<Rightarrow> bool) \<Rightarrow> (u64 \<Rightarrow> u8 \<Rightarrow> 's \<Rightarrow> 's)
   \<Rightarrow> 's user_state \<Rightarrow> 's user_state \<Rightarrow> bool" where
  "any_thread alloc dealloc fit poke c c' \<longleftrightarrow> (\<exists>t. user_step (alloc t) dealloc (fit t) poke c c')"

lemma any_threadI: "user_step (alloc t) dealloc (fit t) poke c c' \<Longrightarrow> any_thread alloc dealloc fit poke c c'"
  by (auto simp: any_thread_def)

locale shared_allocator =
  fixes inv :: "'s \<Rightarrow> (u64 \<rightharpoonup> nat) \<Rightarrow> bool"
    and alloc :: "'t \<Rightarrow> u64 \<Rightarrow> 's \<Rightarrow> (u64 \<times> 's) option"
    and dealloc :: "u64 \<Rightarrow> 's \<Rightarrow> 's option"
    and fit :: "'t \<Rightarrow> u64 \<Rightarrow> 's \<Rightarrow> bool"
    and poke :: "u64 \<Rightarrow> u8 \<Rightarrow> 's \<Rightarrow> 's"
    and mem_of :: "'s \<Rightarrow> mem"
    and space :: "'s \<Rightarrow> nat set"
  assumes each_thread: "partial_allocator inv (alloc t) dealloc (fit t) poke mem_of space"

sublocale shared_allocator \<subseteq> thread: partial_allocator inv "alloc t" dealloc "fit t" poke mem_of space for t
  by (rule each_thread)

context shared_allocator
begin

lemma threads_run:
  assumes "(any_thread alloc dealloc fit poke)\<^sup>*\<^sup>* c c'" "thread.honours c"
  shows "thread.honours c' \<and> spec_step\<^sup>*\<^sup>* (snd c) (snd c')"
  using assms
proof (induction rule: rtranclp_induct)
  case (step c' c'')
  obtain t where t: "user_step (alloc t) dealloc (fit t) poke c' c''" using step(2) by (auto simp: any_thread_def)
  have h: "thread.honours c'" "spec_step\<^sup>*\<^sup>* (snd c) (snd c')" using step(3) [OF step(4)] by blast+
  have "thread.honours c''" by (rule thread.honours_step [OF t h(1)])
  moreover have "spec_step (snd c') (snd c'')" by (rule thread.user_step_refines [OF t h(1)])
  ultimately show ?case using h(2) by (meson rtranclp.rtrancl_into_rtrancl)
qed simp

end

subsection \<open>The scalable allocator\<close>

definition allocator_ok ::
  "(SimpleHeapPow2, HeapCreationParams) allocator_policy \<Rightarrow> os \<Rightarrow> heap_policy \<Rightarrow> heap_policy \<Rightarrow> HeapCreationParams \<Rightarrow> u64
   \<Rightarrow> (SimpleHeapPow2, HeapCreationParams) allocator_state \<Rightarrow> (u64 \<rightharpoonup> nat) \<Rightarrow> bool" where
  "allocator_ok T os hc hl pl S = allocators.rented T os hc hl pl S 0"

definition allocator_poke ::
  "u64 \<Rightarrow> u8 \<Rightarrow> (SimpleHeapPow2, HeapCreationParams) allocator_state \<Rightarrow> (SimpleHeapPow2, HeapCreationParams) allocator_state" where
  "allocator_poke x v = (\<lambda>(a, w). (a, world_poke x v w))"

lemma allocator_rented: "allocators.rented T os hc hl pl S t = allocator_ok T os hc hl pl S"
  by (simp add: allocator_ok_def allocators.rented_def fun_eq_iff)

lemma allocator_poke_tenant: "allocator_poke = allocators.tenant_poke"
  by (simp add: allocator_poke_def allocators.tenant_poke_def fun_eq_iff)

interpretation shared: shared_allocator "allocator_ok T os hc hl pl S" "ScalableAllocator_allocate T" "ScalableAllocator_deallocate T"
  "allocator_serves T os hc" allocator_poke "\<lambda>s. ram (snd s)" "\<lambda>s. {x. is_mapped (vm (snd s)) x}"
  for T os hc hl pl S
proof (rule shared_allocator.intro)
  fix t
  show "partial_allocator (allocator_ok T os hc hl pl S) (ScalableAllocator_allocate T t) (ScalableAllocator_deallocate T)
    (allocator_serves T os hc t) allocator_poke (\<lambda>s. ram (snd s)) (\<lambda>s. {x. is_mapped (vm (snd s)) x})"
    using allocators.tenant.partial_allocator_axioms [of T os hc hl pl S t] unfolding allocator_rented allocator_poke_tenant .
qed

abbreviation allocator_users ::
  "(SimpleHeapPow2, HeapCreationParams) allocator_policy \<Rightarrow> os \<Rightarrow> heap_policy
   \<Rightarrow> (SimpleHeapPow2, HeapCreationParams) allocator_state user_state \<Rightarrow> (SimpleHeapPow2, HeapCreationParams) allocator_state user_state \<Rightarrow> bool" where
  "allocator_users T os hc \<equiv> any_thread (ScalableAllocator_allocate T) (ScalableAllocator_deallocate T) (allocator_serves T os hc) allocator_poke"

lemma allocator_created_ok:
  assumes "allocator_start T os hc hl pc pl cap S w"
    and "ScalableAllocator_create T os key pc pl cap S metadata_size
        (set_thread_local_heap_cache_count n (ScalableAllocator_new T p), w) = Some (True, s)"
  shows "allocator_ok T os hc hl pl S s Map.empty"
proof -
  obtain a' w' where s: "s = (a', w')" by (cases s)
  obtain w0 Y where "arena_aligned S (arena w0)" "moves S {} {} Y w0 w'" "allocator_owned T os hc hl pl S (a', w') Y Map.empty"
    using allocator_created [OF assms(1) assms(2) [unfolded s]] by blast
  then show ?thesis unfolding s allocator_ok_def by (intro allocators.moved_in [of S "{}" "{}" Y w0 w'])
qed

lemma allocator_run_honoured:
  assumes "allocator_start T os hc hl pc pl cap S w"
    and "ScalableAllocator_create T os key pc pl cap S metadata_size
        (set_thread_local_heap_cache_count n (ScalableAllocator_new T p), w) = Some (True, s)"
    and "(allocator_users T os hc)\<^sup>*\<^sup>* (s, Map.empty, Map.empty) c"
  shows "shared.thread.honours T os hc hl pl S c" "spec_step\<^sup>*\<^sup>* (Map.empty, Map.empty) (snd c)"
  using shared.threads_run [OF assms(3) shared.thread.honours_start [OF allocator_created_ok [OF assms(1,2)]]] by simp_all

subsection \<open>A concrete allocator\<close>

definition shared_policy :: "ConcurrencyPolicy \<Rightarrow> heap_policy" where
  "shared_policy cp = example_heap_policy\<lparr>heap_concurrency := cp\<rparr>"

definition shared_types :: "(SimpleHeapPow2, HeapCreationParams) allocator_policy" where
  "shared_types = \<lparr>CentralHeapType = pow2_heap_class (shared_policy CENTRAL) bump_os 1024,
     LocalHeapType = pow2_heap_class (shared_policy THREAD_LOCAL) bump_os 1024, ArenaType = example_policy\<rparr>"

definition shared_0 :: "(SimpleHeapPow2, HeapCreationParams) allocator_state" where
  "shared_0 = snd (the (ScalableAllocator_create shared_types bump_os (Some 1) example_heap_params example_heap_params 1048576 4096 8192
     (set_thread_local_heap_cache_count 0 (ScalableAllocator_new shared_types example_heap_params), blank_world)))"

definition shared_1 :: "(SimpleHeapPow2, HeapCreationParams) allocator_state" where
  "shared_1 = snd (the (ScalableAllocator_allocate shared_types 1 100 shared_0))"

lemmas shared_run [run] = shared_policy_def shared_types_def pow2_heap_class_def shared_0_def shared_1_def allocator_poke_def

lemma shared_start: "allocator_start shared_types bump_os (shared_policy CENTRAL) (shared_policy THREAD_LOCAL) example_heap_params example_heap_params
  1048576 4096 blank_world"
proof -
  have "heap_params_ok (shared_policy cp) example_heap_params" for cp
    by (simp add: heap_params_ok_def shared_policy_def example_heap_params_def example_heap_policy_def is_power_of_two_def total_size_def MAX_BLOCK_SIZE_def)
  moreover have "keeps_pages (shared_policy THREAD_LOCAL) example_heap_params"
    by (simp add: keeps_pages_def shared_policy_def example_heap_params_def example_heap_policy_def)
  moreover have "arena_geometry (arena blank_world)"
    using arena_new_inv [OF bump_os_ok, of blank_world] by (simp add: blank_world_def arena_inv_def)
  ultimately show ?thesis using bump_os_ok
    by (auto simp: allocator_start_def allocator_setup_def shared_types_def shared_policy_def example_heap_policy_def example_heap_params_def
        pow2_heap_class_def)
qed

lemma shared_created:
  "ScalableAllocator_create shared_types bump_os (Some 1) example_heap_params example_heap_params 1048576 4096 8192
     (set_thread_local_heap_cache_count 0 (ScalableAllocator_new shared_types example_heap_params), blank_world) = Some (True, shared_0)"
proof -
  let ?x = "ScalableAllocator_create shared_types bump_os (Some 1) example_heap_params example_heap_params 1048576 4096 8192
     (set_thread_local_heap_cache_count 0 (ScalableAllocator_new shared_types example_heap_params), blank_world)"
  have "?x \<noteq> None" by (simp add: run cong: run_cong)
  moreover have "fst (the ?x)" by (simp add: run cong: run_cong)
  ultimately show ?thesis by (auto simp: shared_0_def)
qed

lemma shared_results:
  "fst (the (ScalableAllocator_allocate shared_types 1 100 shared_0)) = 118864"
  by (simp add: run cong: run_cong)

lemma shared_serves:
  "allocator_serves shared_types bump_os (shared_policy CENTRAL) 1 100 shared_0"
  by (simp add: run allocator_serves_def cong: run_cong)

lemma shared_alloc: "ScalableAllocator_allocate shared_types 1 100 shared_0 = Some (118864, shared_1)"
  using shared.thread.alloc_total [OF allocator_created_ok [OF shared_start shared_created] shared_serves] shared_results by (auto simp: shared_1_def)

lemma shared_example_run:
  "(allocator_users shared_types bump_os (shared_policy CENTRAL))\<^sup>*\<^sup>* (shared_0, Map.empty, Map.empty)
     (allocator_poke 118870 7 shared_1, [118864 \<mapsto> 100], (forget (region 118864 100) Map.empty)(118870 \<mapsto> 7))"
proof -
  let ?step = "\<lambda>t. user_step (ScalableAllocator_allocate shared_types t) (ScalableAllocator_deallocate shared_types)
    (allocator_serves shared_types bump_os (shared_policy CENTRAL) t) allocator_poke"
  have "?step 1 (shared_0, Map.empty, Map.empty) (shared_1, [118864 \<mapsto> 100], forget (region 118864 100) Map.empty)"
    using user_step.grant [of "allocator_serves shared_types bump_os (shared_policy CENTRAL) 1" 100 shared_0
        "ScalableAllocator_allocate shared_types 1", OF shared_serves shared_alloc] by simp
  moreover have "?step 2 (shared_1, [118864 \<mapsto> 100], forget (region 118864 100) Map.empty)
    (allocator_poke 118870 7 shared_1, [118864 \<mapsto> 100], (forget (region 118864 100) Map.empty)(118870 \<mapsto> 7))"
    by (rule user_step.store [of _ 118864 100]) simp_all
  ultimately show ?thesis by (meson any_threadI converse_rtranclp_into_rtranclp rtranclp.rtrancl_refl)
qed

subsection \<open>Properties\<close>

text \<open>C1: The scalable allocator refines the abstract one for all threads together: every interleaving of requests of any
  threads, frees by any threads (whichever thread made the request) and stores, on a new allocator with a central heap,
  local heaps and any number of cached ones, is a run of the specification, and the memory of the machine holds at every
  address what the specification says was stored there last.  No thread ends in these runs, the memory for the heap of
  a new thread is there, and the local heaps keep their pages, as they do with the parameters of the integrations.\<close>

theorem allocator_refines_specification:
  assumes "allocator_start T os hc hl pc pl cap S w"
    and "ScalableAllocator_create T os key pc pl cap S metadata_size
        (set_thread_local_heap_cache_count n (ScalableAllocator_new T p), w) = Some (True, s)"
    and "(allocator_users T os hc)\<^sup>*\<^sup>* (s, Map.empty, Map.empty) ((a', w'), held, M)"
  shows "spec_step\<^sup>*\<^sup>* (Map.empty, Map.empty) (held, M) \<and> (\<forall>x v. M x = Some v \<longrightarrow> ram w' x = v)"
  using allocator_run_honoured [OF assms] shared.thread.user_contents by fastforce

theorem allocator_refines_specification_witness: "ram (snd (allocator_poke 118870 7 shared_1)) 118870 = 7"
proof -
  obtain a w where e: "allocator_poke 118870 7 shared_1 = (a, w)" by (cases "allocator_poke 118870 7 shared_1")
  show ?thesis using allocator_refines_specification [OF shared_start shared_created shared_example_run [unfolded e]] unfolding e snd_conv by auto
qed

text \<open>C4: The payloads that the threads hold are non-null, mapped and pairwise disjoint, whichever thread requested them and
  whichever heap they come from.\<close>

theorem allocator_payloads_safe:
  assumes "allocator_start T os hc hl pc pl cap S w"
    and "ScalableAllocator_create T os key pc pl cap S metadata_size
        (set_thread_local_heap_cache_count n (ScalableAllocator_new T p), w) = Some (True, s)"
    and "(allocator_users T os hc)\<^sup>*\<^sup>* (s, Map.empty, Map.empty) ((a', w'), held, M)" and "held q = Some j"
  shows "q \<noteq> 0 \<and> (\<forall>x\<in>region q j. is_mapped (vm w') x) \<and> (\<forall>r i. held r = Some i \<longrightarrow> q \<noteq> r \<longrightarrow> region q j \<inter> region r i = {})"
  using shared.thread.user_payloads [OF allocator_run_honoured(1) [OF assms(1-3)] assms(4)] by (auto simp del: in_region_iff)

theorem allocator_payloads_safe_witness: "is_mapped (vm (snd (allocator_poke 118870 7 shared_1))) 118870"
proof -
  obtain a w where e: "allocator_poke 118870 7 shared_1 = (a, w)" by (cases "allocator_poke 118870 7 shared_1")
  show ?thesis using allocator_payloads_safe [OF shared_start shared_created shared_example_run [unfolded e], of 118864 100]
    unfolding e snd_conv by simp
qed

text \<open>What is known in every state of such a run.\<close>

lemma allocator_run_owner:
  assumes "allocator_start T os hc hl pc pl cap S w"
    and "ScalableAllocator_create T os key pc pl cap S metadata_size
        (set_thread_local_heap_cache_count n (ScalableAllocator_new T p), w) = Some (True, s)"
    and "(allocator_users T os hc)\<^sup>*\<^sup>* (s, Map.empty, Map.empty) ((a, w'), held, M)" and "held q = Some m"
  obtains H Y L k where "arena_inv (arena w', w') H" "Y \<subseteq> H" "allocator_owned T os hc hl pl S (a, w') Y L" "L q = Some k" "m \<le> k"
proof -
  obtain L k where L: "allocator_ok T os hc hl pl S (a, w') L" "L q = Some k" "m \<le> k"
    using allocator_run_honoured(1) [OF assms(1-3)] assms(4) unfolding shared.thread.honours_def by blast
  obtain H Y where "arena_inv (arena w', w') H" "Y \<subseteq> H" "allocator_owned T os hc hl pl S (a, w') Y L"
    using allocators.rentedE [OF L(1) [unfolded allocator_ok_def]] by metis
  then show ?thesis using that L(2,3) by blast
qed

text \<open>C5: A freed pointer finds the heap that handed it out, whichever thread frees it: \<open>ScalableAllocator::deallocate\<close> of a
  held pointer is \<open>SimpleHeapPow2::deallocate\<close> of the one heap that has it among its live payloads; a local heap says that it
  owns the pointer exactly when it is that heap.\<close>

theorem allocator_free_finds_heap:
  assumes "allocator_start T os hc hl pc pl cap S w"
    and "ScalableAllocator_create T os key pc pl cap S metadata_size
        (set_thread_local_heap_cache_count n (ScalableAllocator_new T p), w) = Some (True, s)"
    and "(allocator_users T os hc)\<^sup>*\<^sup>* (s, Map.empty, Map.empty) ((a, w'), held, M)" and "held q = Some m"
  shows "\<exists>i Y L k. place_owned os S hc hl i (place_heap a i, w') Y L \<and> L q = Some k \<and> m \<le> k
    \<and> ScalableAllocator_deallocate T q (a, w') = map_option (\<lambda>(h, v). (put_place i h a, v))
        (SimpleHeapPow2_deallocate (place_policy hc hl i) os q (place_heap a i, w'))
    \<and> (\<forall>j < unat (m_active_local_heap_count a). HeapBase_owns_pointer q (local_heaps a (local_heap_address T (of_nat j) a))
         \<longleftrightarrow> i = Local (local_heap_address T (of_nat j) a))"
proof -
  obtain H Y L k where o: "allocator_owned T os hc hl pl S (a, w') Y L" "L q = Some k" "m \<le> k" by (rule allocator_run_owner [OF assms])
  obtain i Ys Ls where i: "i \<in> allocator_places T a" "places.family os S hc hl (allocator_places T a) (place_heap a) w' Ys Ls" "Ls i q = Some k"
    "ScalableAllocator_deallocate T q (a, w') = map_option (\<lambda>(h, v). (put_place i h a, v))
        (SimpleHeapPow2_deallocate (place_policy hc hl i) os q (place_heap a i, w'))"
    "\<forall>j < unat (m_active_local_heap_count a). HeapBase_owns_pointer q (local_heaps a (local_heap_address T (of_nat j) a))
       \<longleftrightarrow> i = Local (local_heap_address T (of_nat j) a)"
    by (rule deallocate_in_place [OF o(1,2)])
  have "place_owned os S hc hl i (place_heap a i, w') (Ys i) (Ls i)" using i(1,2) by (simp add: places.family_def)
  then show ?thesis using i(3-5) o(3) by blast
qed

theorem allocator_free_finds_heap_witness:
  "\<exists>i. ScalableAllocator_deallocate shared_types 118864 (allocator_poke 118870 7 shared_1)
     = map_option (\<lambda>(h, v). (put_place i h (fst (allocator_poke 118870 7 shared_1)), v))
        (SimpleHeapPow2_deallocate (place_policy (shared_policy CENTRAL) (shared_policy THREAD_LOCAL) i) bump_os 118864
          (place_heap (fst (allocator_poke 118870 7 shared_1)) i, snd (allocator_poke 118870 7 shared_1)))"
proof -
  obtain a w where e: "allocator_poke 118870 7 shared_1 = (a, w)" by (cases "allocator_poke 118870 7 shared_1")
  show ?thesis using allocator_free_finds_heap [OF shared_start shared_created shared_example_run [unfolded e], of 118864 100]
    unfolding e fst_conv snd_conv by auto
qed



end
