(* ===== verification/Integration.thy ===== *)
theory Integration
  imports Scalable_Allocator Environment_Variable
begin

text \<open>
  The malloc replacements \<open>examples/integration-linux_so_ld_preload\<close> (a shared object that is preloaded) and
  \<open>examples/integration-as_a_library\<close> (a header), on the allocator of power-of-two heaps.

  Both read their parameters from the environment, create the allocator once, and send the functions of
  the C library and the operators of C++ to it.  Tracing has no effect on the state.  \<open>std::terminate\<close> is a
  call that does not return.  The record \<open>platform\<close> collects what the build and the system provide: the
  operating system, the key that \<open>pthread_key_create\<close> answers, \<open>sizeof\<close> of a local heap, \<open>strtold\<close>, the
  environment and the handler that \<open>std::get_new_handler\<close> answers.  The operators whose names differ only in
  how C++ selects them have the names of the preloaded object's symbols, without the leading underscore.
\<close>

type_synonym pow2_state = "(SimpleHeapPow2, HeapCreationParams) allocator_state"

record platform =
  pf_os :: os
  pf_key :: "u32 option"
  pf_heap_size :: u64
  pf_strtold :: strtold
  pf_environment :: environment
  pf_new_handler :: "pow2_state new_handler"

abbreviation pow2_type :: "platform \<Rightarrow> (SimpleHeapPow2, HeapCreationParams) allocator_policy" where
  "pow2_type pf \<equiv> pow2_allocator (pf_os pf) (pf_heap_size pf)"

definition integer_variable :: "platform \<Rightarrow> string \<Rightarrow> u64 \<Rightarrow> u64" where
  "integer_variable pf = get_variable (pf_strtold pf) to_size_t (pf_environment pf)"

record integration_params =
  ARENA_CAPACITY :: u64
  thread_local_heap_cache_count :: u64
  params_central :: HeapCreationParams
  params_local :: HeapCreationParams

text \<open>The parameters, given the default page counts of the two heaps; \<open>None\<close> where a list of page counts does
  not fit its array.\<close>

definition read_params :: "platform \<Rightarrow> string \<Rightarrow> string \<Rightarrow> integration_params option" where
  "read_params pf default_central_page_counts default_local_page_counts = do {
     let arena_capacity = integer_variable pf ''metamalloc_simple_heappow2_arena_capacity'' 149946368;
     let cache_count = integer_variable pf ''metamalloc_thread_local_heap_cache_count'' 4;
     let central = default_params\<lparr>
       hp_small_object_logical_page_size := integer_variable pf ''metamalloc_simple_heappow2_small_object_logical_page_size'' 65536,
       hp_big_object_logical_page_size := integer_variable pf ''metamalloc_simple_heappow2_big_object_logical_page_size'' 655360,
       hp_segment_grow_coefficient :=
         get_variable (pf_strtold pf) id (pf_environment pf) ''metamalloc_simple_heappow2_grow_coefficient'' 0,
       hp_small_object_page_recycling_threshold :=
         integer_variable pf ''metamalloc_simple_heappow2_small_object_page_recycling_threshold'' 1000,
       hp_big_object_page_recycling_threshold :=
         integer_variable pf ''metamalloc_simple_heappow2_big_object_page_recycling_threshold'' 1000\<rparr>;
     let local = default_params\<lparr>
       hp_small_object_logical_page_size := hp_small_object_logical_page_size central,
       hp_big_object_logical_page_size := hp_big_object_logical_page_size central,
       hp_small_object_page_recycling_threshold := hp_small_object_page_recycling_threshold central,
       hp_segment_deallocation_queue_initial_capacity :=
         integer_variable pf ''metamalloc_simple_heappow2_deallocation_queue_initial_capacity'' 3276800,
       hp_big_object_page_recycling_threshold := hp_big_object_page_recycling_threshold central\<rparr>;
     central_counts \<leftarrow> set_numeric_array_from_comma_separated_value_string (hp_small_object_bin_page_counts central)
       (get_string_variable (pf_environment pf) ''metamalloc_simple_heappow2_central_page_counts'' default_central_page_counts);
     local_counts \<leftarrow> set_numeric_array_from_comma_separated_value_string (hp_small_object_bin_page_counts local)
       (get_string_variable (pf_environment pf) ''metamalloc_simple_heappow2_local_page_counts'' default_local_page_counts);
     Some \<lparr>ARENA_CAPACITY = arena_capacity, thread_local_heap_cache_count = cache_count,
       params_central = central\<lparr>hp_small_object_bin_page_counts := central_counts\<rparr>,
       params_local = local\<lparr>hp_small_object_bin_page_counts := local_counts\<rparr>\<rparr> }"

text \<open>The two calls that set up the allocator, with the default alignment and metadata size of \<open>create\<close>.\<close>

definition create_allocator :: "platform \<Rightarrow> integration_params \<Rightarrow> pow2_state \<Rightarrow> (bool \<times> pow2_state) option" where
  "create_allocator pf ps = (\<lambda>(a, w).
     ScalableAllocator_create (pow2_type pf) (pf_os pf) (pf_key pf) (params_central ps) (params_local ps) (ARENA_CAPACITY ps)
       65536 131072 (set_thread_local_heap_cache_count (thread_local_heap_cache_count ps) a, w))"

subsection \<open>The preloaded shared object\<close>

record preload =
  shared_object_loaded :: bool
  initialisatin_lock :: u32

type_synonym preload_state = "preload \<times> pow2_state"

definition initialise_shared_object :: "platform \<Rightarrow> preload_state \<Rightarrow> preload_state option" where
  "initialise_shared_object pf = (\<lambda>(p, s).
     if shared_object_loaded p = True then Some (p, s)
     else do {
       l \<leftarrow> spin_lock (initialisatin_lock p);
       let p = p\<lparr>initialisatin_lock := l\<rparr>;
       if shared_object_loaded p = True then Some (p\<lparr>initialisatin_lock := spin_unlock (initialisatin_lock p)\<rparr>, s)
       else do {
         ps \<leftarrow> read_params pf ''1,1,1,1,1,1,1,1,'' ''50,50,50,50,50,50,50,50'';
         (success, s) \<leftarrow> create_allocator pf ps s;
         if success
         then let p = p\<lparr>shared_object_loaded := True\<rparr>
              in Some (p\<lparr>initialisatin_lock := spin_unlock (initialisatin_lock p)\<rparr>, s)
         else None } })"

text \<open>A call of the allocator from the shared object.\<close>

definition in_allocator :: "(pow2_state \<Rightarrow> ('a \<times> pow2_state) option) \<Rightarrow> preload_state \<Rightarrow> ('a \<times> preload_state) option" where
  "in_allocator f = (\<lambda>(p, s). do { (r, s) \<leftarrow> f s; Some (r, (p, s)) })"

definition malloc :: "platform \<Rightarrow> nat \<Rightarrow> u64 \<Rightarrow> preload_state \<Rightarrow> (u64 \<times> preload_state) option" where
  "malloc pf t sz s = do {
     s \<leftarrow> (if shared_object_loaded (fst s) = False then initialise_shared_object pf s else Some s);
     in_allocator (ScalableAllocator_allocate (pow2_type pf) t sz) s }"

definition free :: "platform \<Rightarrow> u64 \<Rightarrow> preload_state \<Rightarrow> (unit \<times> preload_state) option" where
  "free pf ptr = in_allocator (returning_unit (ScalableAllocator_deallocate (pow2_type pf) ptr))"

definition calloc :: "platform \<Rightarrow> nat \<Rightarrow> u64 \<Rightarrow> u64 \<Rightarrow> preload_state \<Rightarrow> (u64 \<times> preload_state) option" where
  "calloc pf t num sz = in_allocator (allocate_and_zero_memory (pow2_type pf) t num sz)"

definition realloc :: "platform \<Rightarrow> nat \<Rightarrow> u64 \<Rightarrow> u64 \<Rightarrow> preload_state \<Rightarrow> (u64 \<times> preload_state) option" where
  "realloc pf t ptr sz = in_allocator (reallocate (pow2_type pf) t ptr sz)"

definition aligned_alloc :: "platform \<Rightarrow> nat \<Rightarrow> u64 \<Rightarrow> u64 \<Rightarrow> preload_state \<Rightarrow> (u64 \<times> preload_state) option" where
  "aligned_alloc pf t alignment sz = in_allocator (ScalableAllocator_allocate_aligned (pow2_type pf) t sz alignment)"

definition malloc_usable_size :: "platform \<Rightarrow> u64 \<Rightarrow> preload_state \<Rightarrow> (u64 \<times> preload_state) option" where
  "malloc_usable_size pf ptr = in_allocator (ScalableAllocator_get_usable_size (pow2_type pf) ptr)"

text \<open>Operator new: \<open>nw\<close> for objects, \<open>na\<close> for arrays, \<open>m\<close> a size; with an alignment; without exceptions.\<close>

definition Znwm :: "platform \<Rightarrow> nat \<Rightarrow> u64 \<Rightarrow> preload_state \<Rightarrow> ((exn + u64) \<times> preload_state) option" where
  "Znwm pf t sz = in_allocator (operator_new (pow2_type pf) (pf_new_handler pf) t sz)"

definition Znam :: "platform \<Rightarrow> nat \<Rightarrow> u64 \<Rightarrow> preload_state \<Rightarrow> ((exn + u64) \<times> preload_state) option" where
  "Znam pf t sz = in_allocator (operator_new (pow2_type pf) (pf_new_handler pf) t sz)"

definition Znwmm :: "platform \<Rightarrow> nat \<Rightarrow> u64 \<Rightarrow> u64 \<Rightarrow> preload_state \<Rightarrow> ((exn + u64) \<times> preload_state) option" where
  "Znwmm pf t sz alignment = in_allocator (operator_new_aligned (pow2_type pf) (pf_new_handler pf) t sz alignment)"

definition Znamm :: "platform \<Rightarrow> nat \<Rightarrow> u64 \<Rightarrow> u64 \<Rightarrow> preload_state \<Rightarrow> ((exn + u64) \<times> preload_state) option" where
  "Znamm pf t sz alignment = in_allocator (operator_new_aligned (pow2_type pf) (pf_new_handler pf) t sz alignment)"

definition ZnwmSt11align_val_t :: "platform \<Rightarrow> nat \<Rightarrow> u64 \<Rightarrow> u64 \<Rightarrow> preload_state \<Rightarrow> ((exn + u64) \<times> preload_state) option" where
  "ZnwmSt11align_val_t pf t sz alignment = in_allocator (operator_new_aligned (pow2_type pf) (pf_new_handler pf) t sz alignment)"

definition ZnamSt11align_val_t :: "platform \<Rightarrow> nat \<Rightarrow> u64 \<Rightarrow> u64 \<Rightarrow> preload_state \<Rightarrow> ((exn + u64) \<times> preload_state) option" where
  "ZnamSt11align_val_t pf t sz alignment = in_allocator (operator_new_aligned (pow2_type pf) (pf_new_handler pf) t sz alignment)"

definition ZnwmRKSt9nothrow_t :: "platform \<Rightarrow> nat \<Rightarrow> u64 \<Rightarrow> preload_state \<Rightarrow> (u64 \<times> preload_state) option" where
  "ZnwmRKSt9nothrow_t pf t sz = in_allocator (ScalableAllocator_allocate (pow2_type pf) t sz)"

definition ZnamRKSt9nothrow_t :: "platform \<Rightarrow> nat \<Rightarrow> u64 \<Rightarrow> preload_state \<Rightarrow> (u64 \<times> preload_state) option" where
  "ZnamRKSt9nothrow_t pf t sz = in_allocator (ScalableAllocator_allocate (pow2_type pf) t sz)"

definition ZnwmSt11align_val_tRKSt9nothrow_t :: "platform \<Rightarrow> nat \<Rightarrow> u64 \<Rightarrow> u64 \<Rightarrow> preload_state \<Rightarrow> (u64 \<times> preload_state) option" where
  "ZnwmSt11align_val_tRKSt9nothrow_t pf t sz alignment = in_allocator (ScalableAllocator_allocate_aligned (pow2_type pf) t sz alignment)"

definition ZnamSt11align_val_tRKSt9nothrow_t :: "platform \<Rightarrow> nat \<Rightarrow> u64 \<Rightarrow> u64 \<Rightarrow> preload_state \<Rightarrow> (u64 \<times> preload_state) option" where
  "ZnamSt11align_val_tRKSt9nothrow_t pf t sz alignment = in_allocator (ScalableAllocator_allocate_aligned (pow2_type pf) t sz alignment)"

text \<open>Operator delete: the ten variants ignore the size and the tag that they are given.\<close>

definition ZdlPv :: "platform \<Rightarrow> u64 \<Rightarrow> preload_state \<Rightarrow> (unit \<times> preload_state) option" where
  "ZdlPv pf ptr = in_allocator (returning_unit (ScalableAllocator_deallocate (pow2_type pf) ptr))"

definition ZdaPv :: "platform \<Rightarrow> u64 \<Rightarrow> preload_state \<Rightarrow> (unit \<times> preload_state) option" where
  "ZdaPv pf ptr = in_allocator (returning_unit (ScalableAllocator_deallocate (pow2_type pf) ptr))"

definition ZdlPvm :: "platform \<Rightarrow> u64 \<Rightarrow> u64 \<Rightarrow> preload_state \<Rightarrow> (unit \<times> preload_state) option" where
  "ZdlPvm pf ptr sz = in_allocator (returning_unit (ScalableAllocator_deallocate (pow2_type pf) ptr))"

definition ZdaPvm :: "platform \<Rightarrow> u64 \<Rightarrow> u64 \<Rightarrow> preload_state \<Rightarrow> (unit \<times> preload_state) option" where
  "ZdaPvm pf ptr sz = in_allocator (returning_unit (ScalableAllocator_deallocate (pow2_type pf) ptr))"

definition ZdlPvSt11nothrow_t :: "platform \<Rightarrow> u64 \<Rightarrow> preload_state \<Rightarrow> (unit \<times> preload_state) option" where
  "ZdlPvSt11nothrow_t pf ptr = in_allocator (returning_unit (ScalableAllocator_deallocate (pow2_type pf) ptr))"

definition ZdlPvmSt11nothrow_t :: "platform \<Rightarrow> u64 \<Rightarrow> u64 \<Rightarrow> preload_state \<Rightarrow> (unit \<times> preload_state) option" where
  "ZdlPvmSt11nothrow_t pf ptr sz = in_allocator (returning_unit (ScalableAllocator_deallocate (pow2_type pf) ptr))"

definition ZdaPvSt11nothrow_t :: "platform \<Rightarrow> u64 \<Rightarrow> preload_state \<Rightarrow> (unit \<times> preload_state) option" where
  "ZdaPvSt11nothrow_t pf ptr = in_allocator (returning_unit (ScalableAllocator_deallocate (pow2_type pf) ptr))"

definition ZdaPvmSt11nothrow_t :: "platform \<Rightarrow> u64 \<Rightarrow> u64 \<Rightarrow> preload_state \<Rightarrow> (unit \<times> preload_state) option" where
  "ZdaPvmSt11nothrow_t pf ptr sz = in_allocator (returning_unit (ScalableAllocator_deallocate (pow2_type pf) ptr))"

definition ZdlPvRKSt9nothrow_t :: "platform \<Rightarrow> u64 \<Rightarrow> preload_state \<Rightarrow> (unit \<times> preload_state) option" where
  "ZdlPvRKSt9nothrow_t pf ptr = in_allocator (returning_unit (ScalableAllocator_deallocate (pow2_type pf) ptr))"

definition ZdaPvRKSt9nothrow_t :: "platform \<Rightarrow> u64 \<Rightarrow> preload_state \<Rightarrow> (unit \<times> preload_state) option" where
  "ZdaPvRKSt9nothrow_t pf ptr = in_allocator (returning_unit (ScalableAllocator_deallocate (pow2_type pf) ptr))"

subsection \<open>The header\<close>

type_synonym library_state = "bool \<times> pow2_state"

text \<open>The flag is \<open>g_metamalloc_initialise_called\<close>.\<close>

definition metamalloc_initialise :: "platform \<Rightarrow> library_state \<Rightarrow> ((exn + unit) \<times> library_state) option" where
  "metamalloc_initialise pf = (\<lambda>(called, s).
     if called then Some (Inr (), (called, s))
     else do {
       ps \<leftarrow> read_params pf ''1,1,1,1,1,1,1,1'' ''100,100,100,100,100,100,100,100'';
       (success, s) \<leftarrow> create_allocator pf ps s;
       if \<not> success then Some (Inl runtime_error, (called, s)) else Some (Inr (), (True, s)) })"

definition library_call ::
  "(pow2_state \<Rightarrow> ('a \<times> pow2_state) option) \<Rightarrow> library_state \<Rightarrow> ('a \<times> library_state) option" where
  "library_call f = (\<lambda>(called, s). do { (r, s) \<leftarrow> f s; Some (r, (called, s)) })"

text \<open>The functions that initialise the allocator at their first call.\<close>

definition initialised_call ::
  "platform \<Rightarrow> (pow2_state \<Rightarrow> ((exn + 'a) \<times> pow2_state) option) \<Rightarrow> library_state \<Rightarrow> ((exn + 'a) \<times> library_state) option" where
  "initialised_call pf f s = do {
     (r, s) \<leftarrow> (if fst s = False then metamalloc_initialise pf s else Some (Inr (), s));
     case r of Inl e \<Rightarrow> Some (Inl e, s) | Inr _ \<Rightarrow> library_call f s }"

definition metamalloc_malloc :: "platform \<Rightarrow> nat \<Rightarrow> u64 \<Rightarrow> library_state \<Rightarrow> ((exn + u64) \<times> library_state) option" where
  "metamalloc_malloc pf t sz = initialised_call pf (\<lambda>s. do {
     (p, s) \<leftarrow> ScalableAllocator_allocate (pow2_type pf) t sz s; Some (Inr p, s) })"

definition metamalloc_aligned_malloc :: "platform \<Rightarrow> nat \<Rightarrow> u64 \<Rightarrow> u64 \<Rightarrow> library_state \<Rightarrow> (u64 \<times> library_state) option" where
  "metamalloc_aligned_malloc pf t sz alignment = library_call (ScalableAllocator_allocate_aligned (pow2_type pf) t sz alignment)"

definition metamalloc_operator_new :: "platform \<Rightarrow> nat \<Rightarrow> u64 \<Rightarrow> library_state \<Rightarrow> ((exn + u64) \<times> library_state) option" where
  "metamalloc_operator_new pf t sz = initialised_call pf (operator_new (pow2_type pf) (pf_new_handler pf) t sz)"

definition metamalloc_operator_new_aligned ::
  "platform \<Rightarrow> nat \<Rightarrow> u64 \<Rightarrow> u64 \<Rightarrow> library_state \<Rightarrow> ((exn + u64) \<times> library_state) option" where
  "metamalloc_operator_new_aligned pf t sz alignment =
     initialised_call pf (operator_new_aligned (pow2_type pf) (pf_new_handler pf) t sz alignment)"

definition metamalloc_free :: "platform \<Rightarrow> u64 \<Rightarrow> library_state \<Rightarrow> (unit \<times> library_state) option" where
  "metamalloc_free pf ptr = library_call (returning_unit (ScalableAllocator_deallocate (pow2_type pf) ptr))"

definition metamalloc_calloc :: "platform \<Rightarrow> nat \<Rightarrow> u64 \<Rightarrow> u64 \<Rightarrow> library_state \<Rightarrow> (u64 \<times> library_state) option" where
  "metamalloc_calloc pf t num sz = library_call (allocate_and_zero_memory (pow2_type pf) t num sz)"

definition metamalloc_realloc :: "platform \<Rightarrow> nat \<Rightarrow> u64 \<Rightarrow> u64 \<Rightarrow> library_state \<Rightarrow> (u64 \<times> library_state) option" where
  "metamalloc_realloc pf t ptr sz = library_call (reallocate (pow2_type pf) t ptr sz)"

definition metamalloc_usable_size :: "platform \<Rightarrow> u64 \<Rightarrow> library_state \<Rightarrow> (u64 \<times> library_state) option" where
  "metamalloc_usable_size pf ptr = library_call (ScalableAllocator_get_usable_size (pow2_type pf) ptr)"

text \<open>\<open>operator new\<close> without exceptions: an exception of the initialisation terminates the program.\<close>

definition operator_new_nothrow :: "platform \<Rightarrow> nat \<Rightarrow> u64 \<Rightarrow> library_state \<Rightarrow> (u64 \<times> library_state) option" where
  "operator_new_nothrow pf t sz s = do {
     (r, s) \<leftarrow> metamalloc_malloc pf t sz s;
     case r of Inl e \<Rightarrow> None | Inr p \<Rightarrow> Some (p, s) }"

subsection \<open>Initialisation\<close>

lemma initialise_loaded: "shared_object_loaded p \<Longrightarrow> initialise_shared_object pf (p, s) = Some (p, s)"
  by (simp add: initialise_shared_object_def)

lemma initialise_sets_loaded:
  "initialise_shared_object pf (p, s) = Some (p', s') \<Longrightarrow> shared_object_loaded p'"
  by (auto simp: initialise_shared_object_def Let_def split: if_splits bind_splits)

end
