(* ===== verification/Preload.thy ===== *)
theory Preload
  imports Shared_Allocator Integration
begin

text \<open>
  The preloaded shared object: the parameters that it has by default satisfy what the scalable allocator needs, so
  the threads of a program that is started with it see the abstract allocator through \<open>malloc\<close> and \<open>free\<close>.
\<close>

subsection \<open>The default parameters\<close>

text \<open>The variables that decide the shape of the heaps; the number of the cached heaps, the growth and the capacity of the
  queues may be anything.\<close>

definition default_shape :: "environment \<Rightarrow> bool" where
  "default_shape env \<longleftrightarrow> (\<forall>x\<in>set [''metamalloc_simple_heappow2_arena_capacity'', ''metamalloc_simple_heappow2_small_object_logical_page_size'',
     ''metamalloc_simple_heappow2_big_object_logical_page_size'', ''metamalloc_simple_heappow2_small_object_page_recycling_threshold'',
     ''metamalloc_simple_heappow2_big_object_page_recycling_threshold'', ''metamalloc_simple_heappow2_central_page_counts'',
     ''metamalloc_simple_heappow2_local_page_counts'']. env x = None)"

lemma default_counts:
  "set_numeric_array_from_comma_separated_value_string (replicate 8 1) ''1,1,1,1,1,1,1,1,'' = Some (replicate 8 1)"
  "set_numeric_array_from_comma_separated_value_string (replicate 8 1) ''50,50,50,50,50,50,50,50'' = Some (replicate 8 50)"
  by code_simp+

definition shaped :: "u64 \<Rightarrow> HeapCreationParams \<Rightarrow> bool" where
  "shaped n params \<longleftrightarrow> hp_small_object_logical_page_size params = 65536 \<and> hp_big_object_logical_page_size params = 655360
     \<and> hp_small_object_bin_page_counts params = replicate 8 n \<and> hp_small_object_page_recycling_threshold params = 1000
     \<and> hp_big_object_page_recycling_threshold params = 1000"

lemma read_default_params:
  assumes "default_shape (pf_environment pf)"
  obtains ps where "read_params pf ''1,1,1,1,1,1,1,1,'' ''50,50,50,50,50,50,50,50'' = Some ps" "ARENA_CAPACITY ps = 149946368"
    "shaped 1 (params_central ps)" "shaped 50 (params_local ps)"
proof -
  have d: "hp_small_object_bin_page_counts default_params = replicate 8 1" by (simp add: default_params_def SMALL_OBJECT_BIN_COUNT_def)
  show ?thesis using assms that default_counts
    by (simp add: default_shape_def read_params_def integer_variable_def get_variable_def get_string_variable_def Let_def d shaped_def)
qed

lemma shaped_params:
  assumes "shaped n params" "0 < n" "n \<le> 50"
  shows "heap_params_ok (default_heap_policy cp) params" "keeps_pages (default_heap_policy cp) params"
proof -
  have p: "hp_small_object_logical_page_size params = 65536" "hp_big_object_logical_page_size params = 655360"
    "hp_small_object_bin_page_counts params = replicate 8 n" "hp_small_object_page_recycling_threshold params = 1000"
    "hp_big_object_page_recycling_threshold params = 1000" using assms(1) by (auto simp: shaped_def)
  have n: "unat n \<le> 50" using assms(3) by (simp add: word_le_nat_alt)
  show "heap_params_ok (default_heap_policy cp) params"
    using n assms(2) by (simp add: heap_params_ok_def p Let_def default_heap_policy_def is_power_of_two_def total_size_def sum_list_replicate MAX_BLOCK_SIZE_def)
  show "keeps_pages (default_heap_policy cp) params"
    using n by (simp add: keeps_pages_def p word_le_nat_alt)
qed

lemma preload_start:
  assumes "os_ok (pf_os pf)" "0 < pf_heap_size pf" "arena_geometry (arena w)" "shaped 1 (params_central ps)" "shaped 50 (params_local ps)"
    "ARENA_CAPACITY ps = 149946368"
  shows "allocator_start (pow2_type pf) (pf_os pf) (default_heap_policy CENTRAL) (default_heap_policy THREAD_LOCAL) (params_central ps) (params_local ps)
    (ARENA_CAPACITY ps) 65536 w"
proof -
  have "hp_small_object_logical_page_size (params_central ps) = 65536" "hp_small_object_logical_page_size (params_local ps) = 65536"
    using assms(4,5) by (simp_all add: shaped_def)
  then show ?thesis using assms(1-3,6) shaped_params [OF assms(4)] shaped_params [OF assms(5)]
    by (auto simp: allocator_start_def allocator_setup_def pow2_allocator_def pow2_heap_class_def default_heap_policy_def)
qed

subsection \<open>\<open>malloc\<close> and \<open>free\<close>\<close>

definition preload_ok :: "platform \<Rightarrow> HeapCreationParams \<Rightarrow> preload_state \<Rightarrow> (u64 \<rightharpoonup> nat) \<Rightarrow> bool" where
  "preload_ok pf pl = (\<lambda>(p, s) L. shared_object_loaded p
     \<and> allocator_ok (pow2_type pf) (pf_os pf) (default_heap_policy CENTRAL) (default_heap_policy THREAD_LOCAL) pl 65536 s L)"

definition preload_free :: "platform \<Rightarrow> u64 \<Rightarrow> preload_state \<Rightarrow> preload_state option" where
  "preload_free pf q s = map_option snd (free pf q s)"

definition preload_serves :: "platform \<Rightarrow> nat \<Rightarrow> u64 \<Rightarrow> preload_state \<Rightarrow> bool" where
  "preload_serves pf t sz s = allocator_serves (pow2_type pf) (pf_os pf) (default_heap_policy CENTRAL) t sz (snd s)"

definition preload_poke :: "u64 \<Rightarrow> u8 \<Rightarrow> preload_state \<Rightarrow> preload_state" where
  "preload_poke x v = (\<lambda>(p, s). (p, allocator_poke x v s))"

lemma malloc_loaded:
  "shared_object_loaded p \<Longrightarrow> malloc pf t sz (p, s) = Some (r, s') \<longleftrightarrow> fst s' = p \<and> ScalableAllocator_allocate (pow2_type pf) t sz s = Some (r, snd s')"
  by (cases s') (auto simp: malloc_def in_allocator_def split: bind_splits)

lemma preload_free_eq:
  "preload_free pf q (p, s) = Some s' \<longleftrightarrow> fst s' = p \<and> ScalableAllocator_deallocate (pow2_type pf) q s = Some (snd s')"
  by (cases s') (auto simp: preload_free_def free_def in_allocator_def returning_unit_def split: bind_splits)

interpretation preload: shared_allocator "preload_ok pf pl" "malloc pf" "preload_free pf" "preload_serves pf" preload_poke
  "\<lambda>s. ram (snd (snd s))" "\<lambda>s. {x. is_mapped (vm (snd (snd s))) x}"
  for pf pl
proof (unfold_locales, goal_cases)
  case (1 t s A)
  then show ?case using shared.thread.live_nonnull by (cases s) (auto simp: preload_ok_def)
next
  case (2 t s A p k)
  then show ?case using shared.thread.live_inside by (cases s) (fastforce simp: preload_ok_def)
next
  case (3 t s A p k q j)
  then show ?case using shared.thread.live_disjoint by (cases s) (simp add: preload_ok_def, blast)
next
  case (4 t s A sz)
  obtain p s1 where s: "s = (p, s1)" by (cases s)
  obtain r s2 where "ScalableAllocator_allocate (pow2_type pf) t sz s1 = Some (r, s2)"
    using shared.thread.alloc_total 4 unfolding s preload_ok_def preload_serves_def prod.case snd_conv by blast
  then have "malloc pf t sz s = Some (r, (p, s2))" using 4(1) by (simp add: s preload_ok_def malloc_loaded)
  then show ?case by blast
next
  case (5 t s A sz s')
  then show ?case using shared.thread.alloc_null by (cases s; cases s') (auto simp: preload_ok_def preload_serves_def malloc_loaded)
next
  case (6 t s A sz p s')
  then show ?case using shared.thread.alloc_new by (cases s; cases s') (fastforce simp: preload_ok_def preload_serves_def malloc_loaded)
next
  case (7 t s A sz p s' q k x)
  obtain l s1 l' s2 where s: "s = (l, s1)" "s' = (l', s2)" by (cases s; cases s')
  have "ScalableAllocator_allocate (pow2_type pf) t sz s1 = Some (p, s2)" using 7(1,3) by (simp add: s preload_ok_def malloc_loaded)
  then show ?case using shared.thread.alloc_keeps 7(1,2,4,5) unfolding s preload_ok_def preload_serves_def prod.case snd_conv by blast
next
  case (8 t s A p k s')
  then show ?case using shared.thread.dealloc_inv by (cases s; cases s') (auto simp: preload_ok_def preload_free_eq)
next
  case (9 t s A p j s' q k x)
  obtain l s1 l' s2 where s: "s = (l, s1)" "s' = (l', s2)" by (cases s; cases s')
  have "ScalableAllocator_deallocate (pow2_type pf) p s1 = Some s2" using 9(3) by (simp add: s preload_free_eq)
  then show ?case using shared.thread.dealloc_keeps 9(1,2,4-6) unfolding s preload_ok_def prod.case snd_conv by blast
next
  case (10 t s A p k x v)
  then show ?case using shared.thread.poke_live by (cases s) (auto simp: preload_ok_def preload_poke_def simp del: in_region_iff)
next
  case (11 t x v s)
  then show ?case using shared.thread.poke_mem by (cases s) (simp add: preload_poke_def)
qed

subsection \<open>A concrete platform\<close>

definition demo_platform :: platform where
  "demo_platform = \<lparr>pf_os = bump_os, pf_key = Some 1, pf_heap_size = 1024, pf_strtold = \<lambda>_. (0, ''''),
     pf_environment = [''metamalloc_thread_local_heap_cache_count'' \<mapsto> ''0''], pf_new_handler = None\<rparr>"

definition demo_arena :: "bool \<times> Arena \<times> world" where
  "demo_arena = the (Arena_create (ArenaType (pow2_type demo_platform)) bump_os 149946368 65536 (arena blank_world, blank_world))"

definition demo_metadata :: "u64 \<times> world" where
  "demo_metadata = MetadataAllocator_allocate bump_os 131072 (snd (snd demo_arena)\<lparr>arena := fst (snd demo_arena)\<rparr>)"

definition demo_buffer :: "u64 \<times> world" where
  "demo_buffer = the (arena_allocate (SegmentSmallObject (default_heap_policy CENTRAL)) bump_os 1179648 (snd demo_metadata))"

lemmas demo_run = demo_platform_def demo_arena_def demo_metadata_def demo_buffer_def pow2_allocator_def default_heap_policy_def
  MetadataAllocator_allocate_def

lemma demo_arena_created:
  "Arena_create (ArenaType (pow2_type demo_platform)) bump_os 149946368 65536 (arena blank_world, blank_world) = Some (True, snd demo_arena)"
  by (simp add: run demo_run cong: run_cong)

lemma demo_metadata_allocated: "fst demo_metadata \<noteq> 0"
  by (simp add: run demo_run cong: run_cong)

lemma demo_buffer_allocated:
  "arena_allocate (SegmentSmallObject (default_heap_policy CENTRAL)) bump_os 1179648 (snd demo_metadata) = Some demo_buffer" "fst demo_buffer \<noteq> 0"
  by (simp_all add: run demo_run cong: run_cong)

lemma demo_central_created:
  assumes "shaped 1 pc"
  shows "\<exists>h w. SimpleHeapPow2_create (default_heap_policy CENTRAL) bump_os pc (SimpleHeapPow2_new, snd demo_metadata) = Some (True, (h, w))"
proof -
  let ?v = "snd (snd demo_arena)\<lparr>arena := fst (snd demo_arena)\<rparr>"
  have g: "arena_geometry (arena blank_world)" using arena_new_inv [OF bump_os_ok, of blank_world] by (simp add: blank_world_def arena_inv_def)
  have "Arena_create (ArenaType (pow2_type demo_platform)) bump_os 149946368 65536 (arena blank_world, blank_world)
    = Some (True, fst (snd demo_arena), snd (snd demo_arena))" using demo_arena_created by simp
  note ar = arena_create_ok [OF bump_os_ok g _ _ _ _ this]
  have i: "arena_inv (arena ?v, ?v) {}" "arena_aligned 65536 (arena ?v)" using ar by (simp_all add: arena_inv_def split_beta)
  have m: "MetadataAllocator_allocate bump_os 131072 ?v = (fst demo_metadata, snd demo_metadata)" by (simp add: demo_metadata_def)
  note mk = metadata_keeps_arena [OF bump_os_ok i(1) m]
  have sh: "hp_small_object_logical_page_size pc = 65536" using assms by (simp add: shaped_def)
  have st: "heap_start (default_heap_policy CENTRAL) bump_os pc {} (snd demo_metadata)"
    using mk i(2) bump_os_ok shaped_params(1) [OF assms, of CENTRAL] by (simp add: heap_start_def sh default_heap_policy_def)
  have "calculate_required_buffer_size pc 65536 = 1179648"
    using assms by (simp add: calculate_required_buffer_size_def shaped_def replicate_8 SMALL_OBJECT_BIN_COUNT_def)
  then have "arena_allocate (SegmentSmallObject (default_heap_policy CENTRAL)) bump_os
      (calculate_required_buffer_size pc (hp_small_object_logical_page_size pc)) (snd demo_metadata) = Some (fst demo_buffer, snd demo_buffer)"
    using demo_buffer_allocated(1) by (simp add: sh)
  moreover have "heap_concurrency (default_heap_policy CENTRAL) \<noteq> THREAD_LOCAL" by (simp add: default_heap_policy_def)
  ultimately show ?thesis using heap_create_owned [OF st] demo_buffer_allocated(2) by metis
qed

lemma demo_initialised:
  "\<exists>s. initialise_shared_object demo_platform (\<lparr>shared_object_loaded = False, initialisatin_lock = 0\<rparr>,
     (ScalableAllocator_new (pow2_type demo_platform) default_params, blank_world)) = Some s"
proof -
  let ?T = "pow2_type demo_platform"
  have env: "default_shape (pf_environment demo_platform)" by (simp add: default_shape_def demo_platform_def)
  obtain ps where ps: "read_params demo_platform ''1,1,1,1,1,1,1,1,'' ''50,50,50,50,50,50,50,50'' = Some ps" "ARENA_CAPACITY ps = 149946368"
    "shaped 1 (params_central ps)" "shaped 50 (params_local ps)" by (rule read_default_params [OF env])
  have n: "thread_local_heap_cache_count ps = 0"
    using ps(1) by (auto simp: read_params_def Let_def integer_variable_def get_variable_def demo_platform_def to_size_t_def Environment_Variable.truncate_def split: bind_splits)
  let ?a = "set_thread_local_heap_cache_count 0 (ScalableAllocator_new ?T default_params)"
  obtain h w where h: "SimpleHeapPow2_create (default_heap_policy CENTRAL) bump_os (params_central ps) (SimpleHeapPow2_new, snd demo_metadata) = Some (True, (h, w))"
    using demo_central_created [OF ps(3)] by blast
  have c: "heap_create (CentralHeapType ?T) (params_central ps) (m_central_heap ?a, snd demo_metadata) = Some (True, (h, w))"
    using h by (simp add: pow2_allocator_def pow2_heap_class_def set_thread_local_heap_cache_count_def ScalableAllocator_new_def demo_platform_def)
  have m: "MetadataAllocator_allocate bump_os 131072 (snd (snd demo_arena)\<lparr>arena := fst (snd demo_arena)\<rparr>) = (fst demo_metadata, snd demo_metadata)"
    by (simp add: demo_metadata_def)
  have ar: "Arena_create (ArenaType ?T) bump_os 149946368 65536 (arena blank_world, blank_world) = Some (True, fst (snd demo_arena), snd (snd demo_arena))"
    using demo_arena_created by simp
  have pf: "pf_os demo_platform = bump_os" "pf_key demo_platform = Some 1" "pf_heap_size demo_platform = 1024" by (simp_all add: demo_platform_def)
  have sz: "heap_sizeof (LocalHeapType ?T) = 1024" by (simp add: pow2_allocator_def pow2_heap_class_def demo_platform_def)
  have a: "m_cached_thread_local_heap_count ?a = 0" by (simp add: set_thread_local_heap_cache_count_def)
  obtain av v where av: "snd demo_arena = (av, v)" by (cases "snd demo_arena")
  obtain mb mw where mb: "demo_metadata = (mb, mw)" by (cases demo_metadata)
  have "\<exists>s. ScalableAllocator_create ?T bump_os (Some 1) (params_central ps) (params_local ps) 149946368 65536 131072 (?a, blank_world) = Some (True, s)"
    using ar m c demo_metadata_allocated a unfolding av mb fst_conv snd_conv ScalableAllocator_create_def on_central_heap_def create_heaps_def
      ThreadLocalStorage_create_def by (simp add: granularity_multiple_iff Let_def sz)
  then obtain s where "create_allocator demo_platform ps (ScalableAllocator_new ?T default_params, blank_world) = Some (True, s)"
    using n ps(2) by (auto simp: create_allocator_def pf)
  then show ?thesis using ps(1) by (simp add: initialise_shared_object_def)
qed

subsection \<open>Property\<close>

lemma initialised_ok:
  assumes os: "os_ok (pf_os pf)" "0 < pf_heap_size pf" "default_shape (pf_environment pf)" "arena_geometry (arena w)" "\<not> shared_object_loaded p"
    and i: "initialise_shared_object pf (p, (ScalableAllocator_new (pow2_type pf) q, w)) = Some s"
  obtains pl where "preload_ok pf pl s Map.empty"
proof -
  obtain ps where ps: "read_params pf ''1,1,1,1,1,1,1,1,'' ''50,50,50,50,50,50,50,50'' = Some ps" "ARENA_CAPACITY ps = 149946368"
    "shaped 1 (params_central ps)" "shaped 50 (params_local ps)" by (rule read_default_params [OF os(3)])
  obtain l where l: "spin_lock (initialisatin_lock p) = Some l" using i os(5) by (auto simp: initialise_shared_object_def split: bind_splits)
  obtain s1 where c: "create_allocator pf ps (ScalableAllocator_new (pow2_type pf) q, w) = Some (True, s1)"
    "snd s = s1" "shared_object_loaded (fst s)"
    using i os(5) ps(1) l by (auto simp: initialise_shared_object_def split: bind_splits if_splits)
  note st = preload_start [OF os(1,2,4) ps(3,4,2)]
  have "allocator_ok (pow2_type pf) (pf_os pf) (default_heap_policy CENTRAL) (default_heap_policy THREAD_LOCAL) (params_local ps) 65536 s1 Map.empty"
    by (rule allocator_created_ok [OF st]) (use c(1) in \<open>simp add: create_allocator_def\<close>)
  then show ?thesis using that [of "params_local ps"] c(2,3) by (simp add: preload_ok_def split_beta)
qed



end
